(* ===== verification/UD_Prelude.thy ===== *)
theory UD_Prelude
  imports Main "HOL-Library.Word"
begin

unbundle bit_operations_syntax

section \<open>Shared vocabulary of the uDepot development\<close>

text \<open>
  The machine integers of \<^verbatim>\<open>src/src/include/util/types.h\<close>, the error numbers
  the program returns, the lemma collections of the development, and the generic
  facts on lists and words that more than one component needs.  Nothing in this
  theory mentions a component.
\<close>

type_synonym u8 = "8 word"
type_synonym u16 = "16 word"
type_synonym u32 = "32 word"
type_synonym u64 = "64 word"
type_synonym bytes = "u8 list"

text \<open>
  The return codes of the program: \<open>E_OK\<close> is the integer 0, every other
  constructor the \<^verbatim>\<open>errno\<close> constant of the same name.
\<close>

datatype errno =
    E_OK
  | ENOENT
  | EIO
  | EAGAIN
  | ENOMEM
  | EFAULT
  | EEXIST
  | EINVAL
  | ENOSPC
  | ENOSYS
  | ENODATA
  | EALREADY
  | EPERM
  | EINTR
  | ECONNRESET
  | EBADMSG
  | EBADF
  | ENOTSUP

named_theorems entry_simps
  "unfolding rules for the accessors of a hash entry"
named_theorems word_nat
  "rules that read word arithmetic as arithmetic on naturals"

subsection \<open>Lists\<close>

lemma nth_update_cases:
  "i < length xs \<Longrightarrow> xs[j := v] ! i = (if i = j then v else xs ! i)"
  by (simp add: nth_list_update)

lemma take_drop_append_same:
  "take (length ys) (drop (length xs) (xs @ ys @ zs)) = ys"
  by simp

lemma set_drop_take_nth:
  "x \<in> set (take n (drop a xs)) \<longleftrightarrow> (\<exists>i. a \<le> i \<and> i < a + n \<and> i < length xs \<and> xs ! i = x)"
proof
  assume "x \<in> set (take n (drop a xs))"
  then obtain j where j: "j < length (take n (drop a xs))" "take n (drop a xs) ! j = x"
    by (auto simp: in_set_conv_nth)
  then have "a + j < length xs" "j < n" "xs ! (a + j) = x" by auto
  then show "\<exists>i. a \<le> i \<and> i < a + n \<and> i < length xs \<and> xs ! i = x"
    by (intro exI [of _ "a + j"]) simp
next
  assume "\<exists>i. a \<le> i \<and> i < a + n \<and> i < length xs \<and> xs ! i = x"
  then obtain i where i: "a \<le> i" "i < a + n" "i < length xs" "xs ! i = x" by blast
  then have "take n (drop a xs) ! (i - a) = x" "i - a < length (take n (drop a xs))"
    by auto
  then show "x \<in> set (take n (drop a xs))" by (metis nth_mem)
qed

subsection \<open>Words read as naturals\<close>

lemma unat_add_no_wrap [word_nat]:
  fixes a b :: "'a::len word"
  assumes "unat a + unat b < 2 ^ LENGTH('a)"
  shows "unat (a + b) = unat a + unat b"
  using assms by (simp add: unat_word_ariths)

lemma unat_sub_no_wrap [word_nat]:
  fixes a b :: "'a::len word"
  assumes "unat b \<le> unat a"
  shows "unat (a - b) = unat a - unat b"
  using assms by (simp add: unat_sub word_le_nat_alt)

lemma unat_mult_no_wrap [word_nat]:
  fixes a b :: "'a::len word"
  assumes "unat a * unat b < 2 ^ LENGTH('a)"
  shows "unat (a * b) = unat a * unat b"
  using assms by (simp add: unat_word_ariths)

lemma unat_of_nat_small [word_nat]:
  "n < 2 ^ LENGTH('a) \<Longrightarrow> unat (of_nat n :: 'a::len word) = n"
  by (simp add: unat_of_nat)

lemma unat_lt_two_p [simp]: "unat (x :: 'a::len word) < 2 ^ LENGTH('a)"
  by simp

lemma unat_take_bit [word_nat]: "unat (take_bit n (w :: 'a::len word)) = unat w mod 2 ^ n"
  unfolding unsigned_take_bit_eq by (rule take_bit_eq_mod)

lemma unat_drop_bit [word_nat]: "unat (drop_bit n (w :: 'a::len word)) = unat w div 2 ^ n"
  unfolding unat_drop_bit_eq by (rule drop_bit_eq_div)

lemma and_exp_minus_1 [word_nat]: "w AND (2 ^ n - 1) = take_bit n (w :: 'a::len word)"
  by (simp add: take_bit_eq_mask mask_eq_exp_minus_1)

lemma unat_exp_less [word_nat]:
  assumes "n < LENGTH('a)"
  shows "unat (2 ^ n :: 'a::len word) = 2 ^ n"
proof -
  have "(2 ^ n :: 'a word) = of_nat (2 ^ n)" by simp
  moreover have "(2 ^ n :: nat) < 2 ^ LENGTH('a)" using assms by simp
  ultimately show ?thesis by (metis unat_of_nat_small)
qed

lemma unat_push_bit_or:
  fixes a b :: "'a::len word"
  assumes b: "unat b < 2 ^ k" and fits: "unat a * 2 ^ k + unat b < 2 ^ LENGTH('a)"
  shows "unat (push_bit k a OR b) = unat a * 2 ^ k + unat b"
proof -
  have "take_bit k b = b"
    using b by (metis mod_less unat_take_bit unsigned_word_eqI)
  then have "\<not> bit (push_bit k a) n \<or> \<not> bit b n" for n
    by (metis bit_push_bit_iff bit_take_bit_iff leD)
  then have "push_bit k a OR b = push_bit k a + b"
    using disjunctive_add by metis
  also have "\<dots> = of_nat (unat a * 2 ^ k + unat b)"
    by (simp add: push_bit_eq_mult)
  finally show ?thesis
    using fits by (simp only: unat_of_nat_small)
qed

lemma unat_ucast_up [word_nat]:
  fixes w :: "'a::len word"
  assumes "LENGTH('a) \<le> LENGTH('b)"
  shows "unat (ucast w :: 'b::len word) = unat w"
proof -
  have "unat w < 2 ^ LENGTH('b)"
    using unat_lt_two_p [of w] power_increasing [OF assms, of "2::nat"] by linarith
  then show ?thesis by (simp add: unsigned_ucast_eq take_bit_eq_mod)
qed

subsection \<open>First index in a range\<close>

text \<open>The reference definition for the pointer loops that scan a range of slots.\<close>

fun find_from :: "(nat \<Rightarrow> bool) \<Rightarrow> nat \<Rightarrow> nat \<Rightarrow> nat option" where
  "find_from P p 0 = None"
| "find_from P p (Suc n) = (if P p then Some p else find_from P (p + 1) n)"

lemma find_from_None_iff: "find_from P p n = None \<longleftrightarrow> (\<forall>j. p \<le> j \<and> j < p + n \<longrightarrow> \<not> P j)"
proof (induction P p n rule: find_from.induct)
  case (2 P p n)
  have "(\<forall>j. p \<le> j \<and> j < p + Suc n \<longrightarrow> \<not> P j) \<longleftrightarrow>
      \<not> P p \<and> (\<forall>j. p + 1 \<le> j \<and> j < p + 1 + n \<longrightarrow> \<not> P j)"
    by (auto simp: Suc_le_eq) (metis le_neq_implies_less)
  with 2 show ?case by auto
qed auto

lemma find_from_Some_iff:
  "find_from P p n = Some q \<longleftrightarrow> p \<le> q \<and> q < p + n \<and> P q \<and> (\<forall>j. p \<le> j \<and> j < q \<longrightarrow> \<not> P j)"
proof (induction P p n rule: find_from.induct)
  case (2 P p n)
  show ?case
  proof (cases "P p")
    case True
    then show ?thesis by (auto simp: le_less)
  next
    case False
    have "(\<forall>j. p \<le> j \<and> j < q \<longrightarrow> \<not> P j) \<longleftrightarrow> (\<forall>j. p + 1 \<le> j \<and> j < q \<longrightarrow> \<not> P j)"
      using False by (metis Suc_eq_plus1 Suc_leI le_neq_implies_less le_Suc_eq not_less_eq_eq)
    moreover have "P q \<Longrightarrow> p \<le> q \<longleftrightarrow> p + 1 \<le> q"
      using False by (metis Suc_eq_plus1 Suc_leI le_neq_implies_less le_Suc_eq not_less_eq_eq)
    ultimately show ?thesis using False 2 by auto
  qed
qed simp

lemma find_from_cong:
  "(\<And>j. p \<le> j \<Longrightarrow> j < p + n \<Longrightarrow> P j = Q j) \<Longrightarrow> find_from P p n = find_from Q p n"
  by (induction P p n rule: find_from.induct) auto

end
