(* ===== verification/UD_Util.thy ===== *)
theory UD_Util
  imports UD_Prelude
begin

section \<open>Arithmetic helpers of \<^verbatim>\<open>util/debug.h\<close>\<close>

text \<open>
  The rounding, alignment and bit-counting helpers that every other component
  calls.  They are modelled on 64-bit words, so that the wrap-around of
  \<open>dividend + divisor - 1\<close> is part of the model; the lemmas say when it does
  not happen and what the functions compute then.
\<close>

definition udiv_round_up :: "u64 \<Rightarrow> u64 \<Rightarrow> u64" where
  "udiv_round_up dividend divisor =
     (if divisor \<noteq> 0 then (dividend + divisor - 1) div divisor else 1)"

definition uceil_up :: "u64 \<Rightarrow> u64 \<Rightarrow> u64" where
  "uceil_up val divisor = divisor * udiv_round_up val divisor"

definition align_up :: "u64 \<Rightarrow> u64 \<Rightarrow> u64" where
  "align_up val alignment = uceil_up val alignment"

definition align_down :: "u64 \<Rightarrow> u64 \<Rightarrow> u64" where
  "align_down val alignment = (if alignment \<noteq> 0 then val div alignment * alignment else 0)"

definition is_power_of_two :: "u64 \<Rightarrow> bool" where
  "is_power_of_two x \<longleftrightarrow> 0 < x \<and> x AND (x - 1) = 0"

text \<open>The loop of \<open>round_down_pow2\<close>: \<open>val\<close> is shifted right until it is zero.\<close>

function round_down_pow2_loop :: "u64 \<Rightarrow> nat \<Rightarrow> nat" where
  "round_down_pow2_loop val bit_nr =
     (if val \<noteq> 0 then round_down_pow2_loop (drop_bit 1 val) (Suc bit_nr) else bit_nr)"
  by pat_completeness auto
termination
proof (relation "measure (\<lambda>(val, bit_nr). unat val)")
  fix val :: u64 and bit_nr :: nat
  assume "val \<noteq> 0"
  then have "0 < unat val" by (simp add: unat_gt_0)
  then show "((drop_bit 1 val, Suc bit_nr), val, bit_nr) \<in> measure (\<lambda>(val, bit_nr). unat val)"
    by (simp add: unat_drop_bit)
qed simp

declare round_down_pow2_loop.simps [simp del]

definition round_down_pow2 :: "u64 \<Rightarrow> u64" where
  "round_down_pow2 val =
     (let bit_nr = round_down_pow2_loop val 0
      in if 0 < bit_nr then push_bit (bit_nr - 1) 1 else 0)"

text \<open>The \<open>NUM_BITS\<close> family of macros, one definition per macro.\<close>

definition NUM_BITS2 :: "u64 \<Rightarrow> nat" where
  "NUM_BITS2 x = (if x AND 2 \<noteq> 0 then 1 else 0)"

definition NUM_BITS4 :: "u64 \<Rightarrow> nat" where
  "NUM_BITS4 x = (if x AND 0xC \<noteq> 0 then 2 + NUM_BITS2 (drop_bit 2 x) else NUM_BITS2 x)"

definition NUM_BITS8 :: "u64 \<Rightarrow> nat" where
  "NUM_BITS8 x = (if x AND 0xF0 \<noteq> 0 then 4 + NUM_BITS4 (drop_bit 4 x) else NUM_BITS4 x)"

definition NUM_BITS16 :: "u64 \<Rightarrow> nat" where
  "NUM_BITS16 x = (if x AND 0xFF00 \<noteq> 0 then 8 + NUM_BITS8 (drop_bit 8 x) else NUM_BITS8 x)"

definition NUM_BITS32 :: "u64 \<Rightarrow> nat" where
  "NUM_BITS32 x =
     (if x AND 0xFFFF0000 \<noteq> 0 then 16 + NUM_BITS16 (drop_bit 16 x) else NUM_BITS16 x)"

definition NUM_BITS64 :: "u64 \<Rightarrow> nat" where
  "NUM_BITS64 x =
     (if x AND 0xFFFFFFFF00000000 \<noteq> 0 then 32 + NUM_BITS32 (drop_bit 32 x) else NUM_BITS32 x)"

definition NUM_BITS :: "u64 \<Rightarrow> nat" where
  "NUM_BITS x = (if x = 0 then 0 else NUM_BITS64 x + 1)"

subsection \<open>Rounding and alignment\<close>

lemma unat_udiv_round_up:
  assumes "d \<noteq> 0" and "unat v + unat d \<le> 2 ^ 64"
  shows "unat (udiv_round_up v d) = (unat v + unat d - 1) div unat d"
proof -
  have pos: "0 < unat d" using assms(1) by (simp add: unat_gt_0)
  have "unat (v + d - 1) = unat v + unat d - 1"
  proof -
    have eq: "v + d - 1 = v + (d - 1)" by simp
    have sub: "unat (d - 1) = unat d - 1"
      using pos by (subst unat_sub_no_wrap) auto
    have "unat (v + (d - 1)) = unat v + unat (d - 1)"
      by (rule unat_add_no_wrap) (use assms(2) pos in \<open>simp add: sub\<close>)
    then show ?thesis using pos unfolding eq sub by simp
  qed
  then show ?thesis using assms(1) by (simp add: udiv_round_up_def unat_div)
qed

lemma unat_align_down:
  "d \<noteq> 0 \<Longrightarrow> unat (align_down v d) = unat v div unat d * unat d"
proof -
  assume "d \<noteq> 0"
  have le: "unat v div unat d * unat d \<le> unat v" by simp
  have "unat (v div d) * unat d < 2 ^ 64"
    unfolding unat_div by (rule le_less_trans [OF le]) (use unat_lt_two_p [of v] in simp)
  then show ?thesis using \<open>d \<noteq> 0\<close>
    by (simp add: align_down_def unat_mult_no_wrap unat_div)
qed

lemma unat_align_up:
  assumes "d \<noteq> 0" and "unat v + unat d \<le> 2 ^ 64"
  shows "unat (align_up v d) = unat d * ((unat v + unat d - 1) div unat d)"
proof -
  have pos: "0 < unat d" using assms(1) by (simp add: unat_gt_0)
  have "unat d * ((unat v + unat d - 1) div unat d) \<le> unat v + unat d - 1" by simp
  also have "\<dots> < 2 ^ 64" using assms(2) pos by simp
  finally have "unat d * unat (udiv_round_up v d) < 2 ^ LENGTH(64)"
    using assms by (simp add: unat_udiv_round_up)
  then show ?thesis
    using assms by (simp add: align_up_def uceil_up_def unat_mult_no_wrap unat_udiv_round_up)
qed

lemma ceil_div_bounds:
  fixes v d :: nat
  assumes "0 < d"
  shows "v \<le> d * ((v + d - 1) div d)" and "d * ((v + d - 1) div d) < v + d"
proof -
  have "d * ((v + d - 1) div d) + (v + d - 1) mod d = v + d - 1" by simp
  moreover have "(v + d - 1) mod d < d" using assms by simp
  ultimately show "v \<le> d * ((v + d - 1) div d)" "d * ((v + d - 1) div d) < v + d"
    using assms by linarith+
qed

lemma align_up_bounds:
  assumes "d \<noteq> 0" and "unat v + unat d \<le> 2 ^ 64"
  shows "unat v \<le> unat (align_up v d)" and "unat (align_up v d) < unat v + unat d"
    and "unat d dvd unat (align_up v d)"
  using ceil_div_bounds [of "unat d" "unat v"] assms
  by (simp_all add: unat_align_up unat_gt_0)

lemma align_down_bounds:
  assumes "d \<noteq> 0"
  shows "unat (align_down v d) \<le> unat v" and "unat v < unat (align_down v d) + unat d"
    and "unat d dvd unat (align_down v d)"
proof -
  have pos: "0 < unat d" using assms by (simp add: unat_gt_0)
  show "unat (align_down v d) \<le> unat v" using assms by (simp add: unat_align_down)
  show "unat v < unat (align_down v d) + unat d"
    using dividend_less_div_times [OF pos, of "unat v"] assms
    by (simp add: unat_align_down add.commute)
  show "unat d dvd unat (align_down v d)" using assms by (simp add: unat_align_down)
qed

subsection \<open>Powers of two\<close>

lemma round_down_pow2_loop_spec:
  assumes "val \<noteq> 0"
  shows "\<exists>n. round_down_pow2_loop val b = b + Suc n \<and> 2 ^ n \<le> unat val \<and> unat val < 2 ^ Suc n"
  using assms
proof (induction val b rule: round_down_pow2_loop.induct)
  case (1 val b)
  show ?case
  proof (cases "drop_bit 1 val = 0")
    case True
    have "unat (drop_bit 1 val) = 0" using True by simp
    then have "unat val div 2 = 0" unfolding unat_drop_bit by simp
    moreover have "0 < unat val" using "1.prems" by (simp add: unat_gt_0)
    ultimately have "unat val = 1" by linarith
    moreover have "round_down_pow2_loop val b = Suc b"
      using "1.prems" True
      by (simp add: round_down_pow2_loop.simps [of val] round_down_pow2_loop.simps [of 0])
    ultimately show ?thesis by (intro exI [of _ 0]) simp
  next
    case False
    from "1.IH" [OF "1.prems" False] obtain n where
      n: "round_down_pow2_loop (drop_bit 1 val) (Suc b) = Suc b + Suc n"
         "2 ^ n \<le> unat (drop_bit 1 val)" "unat (drop_bit 1 val) < 2 ^ Suc n"
      by blast
    from n(2,3) have "2 ^ n \<le> unat val div 2" "unat val div 2 < 2 ^ Suc n"
      unfolding unat_drop_bit by simp_all
    then have "2 ^ Suc n \<le> unat val" "unat val < 2 ^ Suc (Suc n)" by simp_all
    moreover have "round_down_pow2_loop val b = b + Suc (Suc n)"
      using "1.prems" n(1) by (simp add: round_down_pow2_loop.simps [of val])
    ultimately show ?thesis by blast
  qed
qed

lemma round_down_pow2_spec:
  assumes "val \<noteq> 0"
  obtains n where "round_down_pow2 val = 2 ^ n" "n < 64" "2 ^ n \<le> unat val" "unat val < 2 ^ Suc n"
proof -
  from round_down_pow2_loop_spec [OF assms, of 0] obtain n where
    n: "round_down_pow2_loop val 0 = Suc n" "2 ^ n \<le> unat val" "unat val < 2 ^ Suc n" by auto
  have "(2::nat) ^ n < 2 ^ 64"
    by (rule le_less_trans [OF n(2)]) (use unat_lt_two_p [of val] in simp)
  then have "n < 64" by (rule power_less_imp_less_exp [rotated]) simp
  moreover have "round_down_pow2 val = 2 ^ n"
    using n(1) by (simp add: round_down_pow2_def push_bit_eq_mult)
  ultimately show ?thesis using n(2,3) that by blast
qed

lemma round_down_pow2_zero: "round_down_pow2 0 = 0"
  by (simp add: round_down_pow2_def round_down_pow2_loop.simps [of 0])

subsection \<open>Bit counting\<close>

text \<open>\<open>log_of x n\<close>: the most significant set bit of \<open>x\<close> is bit \<open>n\<close>.\<close>

definition log_of :: "u64 \<Rightarrow> nat \<Rightarrow> bool" where
  "log_of x n \<longleftrightarrow> 2 ^ n \<le> unat x \<and> unat x < 2 ^ Suc n"

lemma and_upper_half_eq_0:
  assumes "unat (x :: u64) < 2 ^ (w + w)" and "w + w \<le> 64"
  shows "x AND push_bit w (mask w) = 0 \<longleftrightarrow> unat x < 2 ^ w"
proof -
  have eq: "x AND push_bit w (mask w) = push_bit w (take_bit w (drop_bit w x))"
    by (rule bit_word_eqI) (auto simp: bit_simps)
  have lt: "unat x div 2 ^ w < 2 ^ w"
    using assms(1) by (simp add: less_mult_imp_div_less power_add)
  have val: "unat (take_bit w (drop_bit w x)) = unat x div 2 ^ w"
    using lt by (simp add: unat_take_bit unat_drop_bit)
  have "push_bit w (take_bit w (drop_bit w x)) = 0 \<longleftrightarrow> take_bit w (drop_bit w x) = 0"
  proof
    assume z: "push_bit w (take_bit w (drop_bit w x)) = 0"
    show "take_bit w (drop_bit w x) = 0"
    proof (rule bit_word_eqI)
      fix n assume "n < LENGTH(64)"
      have "\<not> bit (push_bit w (take_bit w (drop_bit w x))) (w + n)" using z by simp
      then show "bit (take_bit w (drop_bit w x)) n = bit (0 :: u64) n"
        using assms(2) by (auto simp: bit_simps)
    qed
  qed simp
  also have "\<dots> \<longleftrightarrow> unat (take_bit w (drop_bit w x)) = 0"
    by (rule unat_eq_zero [symmetric])
  also have "\<dots> \<longleftrightarrow> unat x < 2 ^ w" unfolding val by (simp add: div_eq_0_iff)
  finally show ?thesis unfolding eq .
qed

lemma log_of_step:
  assumes half: "\<And>y. 0 < unat y \<Longrightarrow> unat y < 2 ^ w \<Longrightarrow> log_of y (f y)"
    and "w + w \<le> 64" and "m = push_bit w (mask w)"
    and "0 < unat x" and "unat x < 2 ^ (w + w)"
  shows "log_of x (if x AND m \<noteq> 0 then w + f (drop_bit w x) else f x)"
proof (cases "unat x < 2 ^ w")
  case True
  then show ?thesis
    using assms and_upper_half_eq_0 [of x w] by simp
next
  case False
  let ?y = "drop_bit w x"
  have y: "unat ?y = unat x div 2 ^ w" by (rule unat_drop_bit)
  have "0 < unat ?y" "unat ?y < 2 ^ w"
    using False assms(5) unfolding y
    by (simp_all add: div_greater_zero_iff less_mult_imp_div_less power_add)
  then have l: "2 ^ f ?y \<le> unat ?y" "unat ?y < 2 ^ Suc (f ?y)"
    using half [of ?y] unfolding log_of_def by simp_all
  have "2 ^ f ?y * 2 ^ w \<le> unat x"
    using l(1) unfolding y by (simp add: less_eq_div_iff_mult_less_eq)
  moreover have "unat x < 2 ^ Suc (f ?y) * 2 ^ w"
    using l(2) unfolding y by (simp add: div_less_iff_less_mult)
  ultimately have "log_of x (w + f ?y)"
    unfolding log_of_def by (simp add: power_add mult.commute mult.left_commute)
  then show ?thesis
    using False assms(2,3,5) and_upper_half_eq_0 [of x w] by simp
qed

lemma log_of_NUM_BITS2: "0 < unat x \<Longrightarrow> unat x < 2 ^ 2 \<Longrightarrow> log_of x (NUM_BITS2 x)"
proof -
  assume a: "0 < unat x" "unat x < 2 ^ 2"
  have "unat x = unat (1 :: u64) \<or> unat x = unat (2 :: u64) \<or> unat x = unat (3 :: u64)"
    using a by auto
  then have "x = 1 \<or> x = 2 \<or> x = 3" by (simp only: word_unat_eq_iff)
  then show ?thesis by (auto simp: NUM_BITS2_def log_of_def)
qed

lemma log_of_NUM_BITS4: "0 < unat x \<Longrightarrow> unat x < 2 ^ 4 \<Longrightarrow> log_of x (NUM_BITS4 x)"
  unfolding NUM_BITS4_def
  by (rule log_of_step [where w = 2 and f = NUM_BITS2]) (simp_all add: log_of_NUM_BITS2 mask_eq_exp_minus_1)

lemma log_of_NUM_BITS8: "0 < unat x \<Longrightarrow> unat x < 2 ^ 8 \<Longrightarrow> log_of x (NUM_BITS8 x)"
  unfolding NUM_BITS8_def
  by (rule log_of_step [where w = 4 and f = NUM_BITS4]) (simp_all add: log_of_NUM_BITS4 mask_eq_exp_minus_1)

lemma log_of_NUM_BITS16: "0 < unat x \<Longrightarrow> unat x < 2 ^ 16 \<Longrightarrow> log_of x (NUM_BITS16 x)"
  unfolding NUM_BITS16_def
  by (rule log_of_step [where w = 8 and f = NUM_BITS8]) (simp_all add: log_of_NUM_BITS8 mask_eq_exp_minus_1)

lemma log_of_NUM_BITS32: "0 < unat x \<Longrightarrow> unat x < 2 ^ 32 \<Longrightarrow> log_of x (NUM_BITS32 x)"
  unfolding NUM_BITS32_def
  by (rule log_of_step [where w = 16 and f = NUM_BITS16]) (simp_all add: log_of_NUM_BITS16 mask_eq_exp_minus_1)

lemma log_of_NUM_BITS64: "0 < unat x \<Longrightarrow> log_of x (NUM_BITS64 x)"
  unfolding NUM_BITS64_def
  by (rule log_of_step [where w = 32 and f = NUM_BITS32])
    (use unat_lt_two_p [of x] in \<open>simp_all add: log_of_NUM_BITS32 mask_eq_exp_minus_1\<close>)

lemma NUM_BITS_iff: "NUM_BITS x \<le> n \<longleftrightarrow> unat x < 2 ^ n"
proof (cases "x = 0")
  case True
  then show ?thesis by (simp add: NUM_BITS_def)
next
  case False
  then have l: "2 ^ NUM_BITS64 x \<le> unat x" "unat x < 2 ^ Suc (NUM_BITS64 x)"
    using log_of_NUM_BITS64 [of x] by (simp_all add: log_of_def unat_gt_0)
  have "unat x < 2 ^ n \<longleftrightarrow> NUM_BITS64 x < n"
  proof
    assume "unat x < 2 ^ n"
    then have "(2::nat) ^ NUM_BITS64 x < 2 ^ n" using l(1) by (rule le_less_trans [rotated])
    then show "NUM_BITS64 x < n" by simp
  next
    assume "NUM_BITS64 x < n"
    then have "(2::nat) ^ Suc (NUM_BITS64 x) \<le> 2 ^ n"
      by (intro power_increasing) auto
    with l(2) show "unat x < 2 ^ n" by (rule less_le_trans)
  qed
  then show ?thesis using False by (simp add: NUM_BITS_def Suc_le_eq)
qed

lemma NUM_BITS_mask: "n \<le> 64 \<Longrightarrow> NUM_BITS (2 ^ n - 1) = n"
proof -
  assume n: "n \<le> 64"
  have u: "unat (2 ^ n - 1 :: u64) = 2 ^ n - 1"
  proof (cases "n = 64")
    case False
    with n have "unat (2 ^ n :: u64) = 2 ^ n" by (simp add: unat_exp_less)
    then show ?thesis by (simp add: unat_sub_no_wrap)
  qed simp
  have "NUM_BITS (2 ^ n - 1) \<le> m \<longleftrightarrow> n \<le> m" for m
    unfolding NUM_BITS_iff u
    by (metis Suc_diff_1 Suc_le_eq one_less_numeral_iff power_increasing_iff
        semiring_norm(76) zero_less_numeral zero_less_power)
  then show ?thesis by (metis order_antisym order_refl)
qed

end
