(* ===== verification/Hash_Entry.thy ===== *)
theory Hash_Entry
  imports UD_Util
begin

section \<open>Hash table entries (\<^verbatim>\<open>lsa/hash-entry.hh\<close>)\<close>

text \<open>
  An entry is one 64-bit word cut into four bit-fields.  Each field has the width
  the source gives it, so an assignment to a field is \<open>ucast\<close>, which drops the
  bits that do not fit.  \<open>pack\<close> and \<open>unpack\<close> are the in-memory layout (bit-fields
  allocated from the least significant bit), which matters because the table is
  initialised with \<open>memset(ht, -1, size)\<close>.
\<close>

definition BUCKET_SIZE :: nat where
  "BUCKET_SIZE = 32"

definition KEYTAG_BITS :: nat where
  "KEYTAG_BITS = 8"

definition KV_SIZE_BITS :: nat where
  "KV_SIZE_BITS = 11"

definition HOP_OFF_BITS :: nat where
  "HOP_OFF_BITS = NUM_BITS 32"

definition PBA_BITS :: nat where
  "PBA_BITS = 64 - KEYTAG_BITS - KV_SIZE_BITS - HOP_OFF_BITS"

definition UNUSED_PBA_ENTRY :: u64 where
  "UNUSED_PBA_ENTRY = push_bit PBA_BITS 1 - 1"

definition DELETED_KV_SIZE_ENTRY :: u64 where
  "DELETED_KV_SIZE_ENTRY = 0"

definition MAX_KV_SIZE :: u64 where
  "MAX_KV_SIZE = push_bit KV_SIZE_BITS 1 - 1"

record hash_entry =
  bucket_offset :: "6 word"
  key_tag :: "8 word"
  kv_size :: "11 word"
  pba :: "39 word"

definition HashEntry_init :: "u32 \<Rightarrow> u64 \<Rightarrow> hash_entry" where
  "HashEntry_init off tag =
     \<lparr>bucket_offset = ucast off, key_tag = ucast tag, kv_size = 1, pba = ucast UNUSED_PBA_ENTRY\<rparr>"

definition deleted :: "hash_entry \<Rightarrow> bool" where
  "deleted e \<longleftrightarrow> ucast (kv_size e) = DELETED_KV_SIZE_ENTRY"

definition set_deleted :: "hash_entry \<Rightarrow> hash_entry" where
  "set_deleted e = e\<lparr>kv_size := ucast DELETED_KV_SIZE_ENTRY\<rparr>"

definition reset_deleted :: "hash_entry \<Rightarrow> hash_entry" where
  "reset_deleted e = e\<lparr>kv_size := ucast MAX_KV_SIZE\<rparr>"

definition used :: "hash_entry \<Rightarrow> bool" where
  "used e \<longleftrightarrow> ucast (pba e) \<noteq> UNUSED_PBA_ENTRY"

definition reset_used :: "hash_entry \<Rightarrow> hash_entry" where
  "reset_used e = e\<lparr>pba := ucast UNUSED_PBA_ENTRY\<rparr>"

definition purge_entry :: "hash_entry \<Rightarrow> hash_entry" where
  "purge_entry e = reset_used (reset_deleted (e\<lparr>bucket_offset := 0, key_tag := 0\<rparr>))"

definition pack :: "hash_entry \<Rightarrow> u64" where
  "pack e = ucast (bucket_offset e) OR push_bit 6 (ucast (key_tag e))
     OR push_bit 14 (ucast (kv_size e)) OR push_bit 25 (ucast (pba e))"

definition unpack :: "u64 \<Rightarrow> hash_entry" where
  "unpack w = \<lparr>bucket_offset = ucast w, key_tag = ucast (drop_bit 6 w),
     kv_size = ucast (drop_bit 14 w), pba = ucast (drop_bit 25 w)\<rparr>"

text \<open>The entry that eight \<open>0xFF\<close> bytes encode.\<close>

definition erased_entry :: hash_entry where
  "erased_entry = unpack (- 1)"

subsection \<open>Widths and flags\<close>

lemma HOP_OFF_BITS_eq [code]: "HOP_OFF_BITS = 6"
proof -
  have "NUM_BITS 32 \<le> 6" "\<not> NUM_BITS 32 \<le> 5" by (simp_all add: NUM_BITS_iff)
  then show ?thesis by (simp add: HOP_OFF_BITS_def)
qed

lemma PBA_BITS_eq [code]: "PBA_BITS = 39"
  by (simp add: PBA_BITS_def KEYTAG_BITS_def KV_SIZE_BITS_def HOP_OFF_BITS_eq)

lemma UNUSED_PBA_ENTRY_eq: "UNUSED_PBA_ENTRY = 2 ^ 39 - 1"
  by (simp add: UNUSED_PBA_ENTRY_def PBA_BITS_eq)

lemma UNUSED_PBA_ENTRY_num [code]: "UNUSED_PBA_ENTRY = 549755813887"
  by (simp add: UNUSED_PBA_ENTRY_eq)

lemma MAX_KV_SIZE_eq [code]: "MAX_KV_SIZE = 2047"
  by (simp add: MAX_KV_SIZE_def KV_SIZE_BITS_def)

lemma field_widths: "HOP_OFF_BITS + KEYTAG_BITS + KV_SIZE_BITS + PBA_BITS = 64"
  by (simp add: HOP_OFF_BITS_eq PBA_BITS_eq KEYTAG_BITS_def KV_SIZE_BITS_def)

lemma ucast_eq_iff_small:
  fixes a b :: "'a::len word"
  assumes "LENGTH('a) \<le> LENGTH('b)"
  shows "(ucast a :: 'b::len word) = ucast b \<longleftrightarrow> a = b"
  using assms by (metis ucast_up_ucast_id is_up.rep_eq target_size.rep_eq source_size.rep_eq)

lemma deleted_iff [entry_simps]: "deleted e \<longleftrightarrow> kv_size e = 0"
  using ucast_eq_iff_small [of "kv_size e" 0, where 'b = 64]
  by (simp add: deleted_def DELETED_KV_SIZE_ENTRY_def)

lemma used_iff [entry_simps]: "used e \<longleftrightarrow> pba e \<noteq> - 1"
proof -
  have "UNUSED_PBA_ENTRY = ucast (- 1 :: 39 word)"
    unfolding UNUSED_PBA_ENTRY_eq mask_eq_exp_minus_1 [symmetric]
    by (rule bit_word_eqI) (auto simp: bit_simps)
  then show ?thesis
    using ucast_eq_iff_small [of "pba e" "- 1", where 'b = 64] by (simp add: used_def)
qed

lemma set_deleted_simps [entry_simps]:
  "bucket_offset (set_deleted e) = bucket_offset e" "key_tag (set_deleted e) = key_tag e"
  "kv_size (set_deleted e) = 0" "pba (set_deleted e) = pba e"
  by (simp_all add: set_deleted_def DELETED_KV_SIZE_ENTRY_def)

lemma purge_entry_simps [entry_simps]:
  "bucket_offset (purge_entry e) = 0" "key_tag (purge_entry e) = 0"
  "kv_size (purge_entry e) = - 1" "pba (purge_entry e) = - 1"
  by (simp_all add: purge_entry_def reset_used_def reset_deleted_def UNUSED_PBA_ENTRY_eq MAX_KV_SIZE_eq)

lemma erased_entry_simps [entry_simps]:
  "bucket_offset erased_entry = - 1" "key_tag erased_entry = - 1"
  "kv_size erased_entry = - 1" "pba erased_entry = - 1"
  unfolding erased_entry_def unpack_def hash_entry.select_convs
  by (rule bit_word_eqI, simp add: bit_simps)+

lemma erased_entry_code [code]:
  "erased_entry = \<lparr>bucket_offset = 63, key_tag = 255, kv_size = 2047, pba = 549755813887\<rparr>"
  using erased_entry_simps by (simp add: hash_entry.equality)

lemma erased_entry_free: "\<not> used erased_entry" "\<not> deleted erased_entry"
  by (simp_all add: entry_simps)

lemma purge_entry_free: "\<not> used (purge_entry e)" "\<not> deleted (purge_entry e)"
  by (simp_all add: entry_simps)

subsection \<open>Memory layout\<close>

lemma unpack_pack: "unpack (pack e) = e"
proof -
  have "ucast (pack e) = bucket_offset e" "ucast (drop_bit 6 (pack e)) = key_tag e"
    "ucast (drop_bit 14 (pack e)) = kv_size e" "ucast (drop_bit 25 (pack e)) = pba e"
    unfolding pack_def
    by (rule bit_word_eqI, auto simp: bit_simps dest: bit_imp_le_length)+
  then show ?thesis by (simp add: unpack_def)
qed

lemma pack_unpack: "pack (unpack w) = w"
proof (rule bit_word_eqI)
  fix n :: nat
  assume "n < LENGTH(64)"
  then consider "n < 6" | "6 \<le> n" "n < 14" | "14 \<le> n" "n < 25" | "25 \<le> n" "n < 64"
    by fastforce
  then show "bit (pack (unpack w)) n \<longleftrightarrow> bit w n"
    by cases (auto simp: pack_def unpack_def bit_simps)
qed

end
