(* ===== verification/Hop_Map.thy ===== *)
theory Hop_Map
  imports Hash_Entry
begin

section \<open>The hopscotch table (\<^verbatim>\<open>lsa/udepot-map.hh\<close>, \<^verbatim>\<open>lsa/udepot-map.cc\<close>)\<close>

text \<open>
  \<open>umap\<close> is the state of \<open>uDepotMap\<close>.  The table \<open>ht_m\<close> is a list, a
  \<open>HashEntry *\<close> into it is an index, and a pointer loop over a bucket is a
  recursion on the number of slots left.  The counters \<open>used_entry_nr_m\<close> are an
  array of \<open>HOP_LOCK_NR\<close> 64-bit words.  Assertions of the source are not part of
  the model: the lemmas show them from the invariant where they hold.
\<close>

definition HOP_LOCK_NR :: nat where
  "HOP_LOCK_NR = 8192"

definition HOP_MAX_BUCKET_DISPLACE :: nat where
  "HOP_MAX_BUCKET_DISPLACE = 64"

record umap =
  entry_nr_m :: u64
  ht_m :: "hash_entry list"
  size_m :: u64
  entry_per_lock_nr_m :: u64
  lock_nr_m :: u32
  entry_nr_bits_m :: nat
  used_entry_nr_m :: "nat \<Rightarrow> u64"

definition um_new :: umap where
  "um_new = \<lparr>entry_nr_m = 0, ht_m = [], size_m = 0, entry_per_lock_nr_m = 0,
     lock_nr_m = of_nat HOP_LOCK_NR, entry_nr_bits_m = 0, used_entry_nr_m = (\<lambda>_. 0)\<rparr>"

subsection \<open>Hash slicing and fingerprints\<close>

definition hash_to_keytag :: "umap \<Rightarrow> u64 \<Rightarrow> u64" where
  "hash_to_keytag m h = drop_bit (entry_nr_bits_m m) h AND (push_bit KEYTAG_BITS 1 - 1)"

definition hash_to_keyfp :: "umap \<Rightarrow> u64 \<Rightarrow> u64" where
  "hash_to_keyfp m h = h AND (push_bit (KEYTAG_BITS + entry_nr_bits_m m) 1 - 1)"

definition hash_to_hb :: "umap \<Rightarrow> u64 \<Rightarrow> u64" where
  "hash_to_hb m h = h AND (entry_nr_m m - of_nat BUCKET_SIZE - 1)"

definition entry_keyfp :: "umap \<Rightarrow> nat \<Rightarrow> u64" where
  "entry_keyfp m p =
     (let e = ht_m m ! p; offset = of_nat p - ucast (bucket_offset e)
      in push_bit (entry_nr_bits_m m) (ucast (key_tag e)) OR offset)"

subsection \<open>Lookups\<close>

fun lookup_match :: "umap \<Rightarrow> u64 \<Rightarrow> nat \<Rightarrow> nat \<Rightarrow> nat option" where
  "lookup_match m to_match p 0 = None"
| "lookup_match m to_match p (Suc n) =
     (let e = ht_m m ! p in
      if \<not> used e then None
      else if used e \<and> \<not> deleted e \<and> to_match = entry_keyfp m p then Some p
      else lookup_match m to_match (p + 1) n)"

fun lookup_candidate :: "umap \<Rightarrow> nat option \<Rightarrow> nat \<Rightarrow> nat \<Rightarrow> nat option" where
  "lookup_candidate m candidate p 0 = candidate"
| "lookup_candidate m candidate p (Suc n) =
     (let e = ht_m m ! p in
      if \<not> used e then Some p
      else if deleted e then lookup_candidate m (Some p) (p + 1) n
      else lookup_candidate m candidate (p + 1) n)"

definition um_lookup :: "umap \<Rightarrow> u64 \<Rightarrow> errno \<times> nat option" where
  "um_lookup m h =
     (let first = unat (hash_to_hb m h); to_match = hash_to_keyfp m h in
      case lookup_match m to_match first BUCKET_SIZE of
        Some p \<Rightarrow> (E_OK, Some p)
      | None \<Rightarrow>
          (case lookup_candidate m None first BUCKET_SIZE of
             None \<Rightarrow> (ENOSPC, None)
           | Some c \<Rightarrow> (ENODATA, Some c)))"

fun next_free_loop :: "umap \<Rightarrow> nat \<Rightarrow> nat \<Rightarrow> nat option" where
  "next_free_loop m p 0 = None"
| "next_free_loop m p (Suc n) =
     (let e = ht_m m ! p in
      if \<not> used e \<or> deleted e then Some p else next_free_loop m (p + 1) n)"

text \<open>\<open>next_free\<close> and \<open>try_shift\<close> keep the bucket in a \<open>u32\<close>.\<close>

definition um_next_free :: "umap \<Rightarrow> u64 \<Rightarrow> errno \<times> nat option" where
  "um_next_free m h =
     (let hb = (ucast (hash_to_hb m h) :: u32) in
      case next_free_loop m (unat hb) BUCKET_SIZE of
        Some p \<Rightarrow> (E_OK, Some p)
      | None \<Rightarrow> (ENOSPC, None))"

fun next_loop :: "umap \<Rightarrow> u64 \<Rightarrow> nat \<Rightarrow> nat \<Rightarrow> nat option" where
  "next_loop m to_match p 0 = None"
| "next_loop m to_match p (Suc n) =
     (let e = ht_m m ! p in
      if \<not> used e \<or> deleted e then next_loop m to_match (p + 1) n
      else if \<not> deleted e \<and> to_match = entry_keyfp m p then Some p
      else next_loop m to_match (p + 1) n)"

definition um_next :: "umap \<Rightarrow> nat option \<Rightarrow> u64 \<Rightarrow> nat option" where
  "um_next m he h =
     (case he of
        None \<Rightarrow> None
      | Some i \<Rightarrow>
          (let last = unat (hash_to_hb m h) + BUCKET_SIZE
           in next_loop m (hash_to_keyfp m h) (i + 1) (last - (i + 1))))"

fun lookup_pba_loop :: "umap \<Rightarrow> u64 \<Rightarrow> nat \<Rightarrow> nat \<Rightarrow> nat option" where
  "lookup_pba_loop m a p 0 = None"
| "lookup_pba_loop m a p (Suc n) =
     (let e = ht_m m ! p in
      if \<not> used e then lookup_pba_loop m a (p + 1) n
      else if a = ucast (pba e) then Some p
      else lookup_pba_loop m a (p + 1) n)"

definition um_lookup_pba :: "umap \<Rightarrow> u64 \<Rightarrow> u64 \<Rightarrow> nat option" where
  "um_lookup_pba m h a = lookup_pba_loop m a (unat (hash_to_hb m h)) BUCKET_SIZE"

subsection \<open>Displacement\<close>

definition try_shift_one :: "umap \<Rightarrow> nat \<Rightarrow> umap \<times> errno" where
  "try_shift_one m candidate =
     (case um_next_free m (entry_keyfp m candidate) of
        (rc, None) \<Rightarrow> (m, rc)
      | (rc, Some victim) \<Rightarrow>
          (let hb = hash_to_hb m (entry_keyfp m candidate);
               tmp = ht_m m ! candidate;
               ht1 = (ht_m m)[candidate := ht_m m ! victim, victim := tmp];
               ht2 = ht1[victim := (ht1 ! victim)\<lparr>bucket_offset := ucast (of_nat victim - hb)\<rparr>];
               m2 = m\<lparr>ht_m := ht2\<rparr>
           in if used (ht2 ! candidate)
              then let hb' = hash_to_hb m2 (entry_keyfp m2 candidate)
                   in (m2\<lparr>ht_m := ht2[candidate :=
                         (ht2 ! candidate)\<lparr>bucket_offset := ucast (of_nat candidate - hb')\<rparr>]\<rparr>, E_OK)
              else (m2, E_OK)))"

fun first_empty_loop :: "umap \<Rightarrow> nat \<Rightarrow> nat \<Rightarrow> nat option" where
  "first_empty_loop m p 0 = None"
| "first_empty_loop m p (Suc n) =
     (let e = ht_m m ! p in
      if (\<not> used e) \<noteq> deleted e then Some p else first_empty_loop m (p + 1) n)"

function try_shift_loop :: "umap \<Rightarrow> nat \<Rightarrow> nat \<Rightarrow> nat \<Rightarrow> umap \<times> errno \<times> nat option" where
  "try_shift_loop m first p_free p =
     (if first \<le> p \<and> p < p_free
      then let (m', rc) = try_shift_one m p in
           if rc = E_OK
           then if p - first < BUCKET_SIZE then (m', E_OK, Some p)
                else try_shift_loop m' first p (max first (p + 1 - BUCKET_SIZE))
           else try_shift_loop m' first p_free (p + 1)
      else (m, ENOSPC, None))"
  by pat_completeness auto
termination
  by (relation "measures [\<lambda>(m, first, p_free, p). p_free, \<lambda>(m, first, p_free, p). p_free - p]")
    auto

definition try_shift :: "umap \<Rightarrow> u64 \<Rightarrow> umap \<times> errno \<times> nat option" where
  "try_shift m h =
     (let first = unat (ucast (hash_to_hb m h) :: u32);
          last = min (first + BUCKET_SIZE * HOP_MAX_BUCKET_DISPLACE)
                     (unat (entry_nr_m m - of_nat BUCKET_SIZE - 1))
      in case first_empty_loop m (first + BUCKET_SIZE) (last - (first + BUCKET_SIZE)) of
           None \<Rightarrow> (m, ENOSPC, None)
         | Some p_free \<Rightarrow> try_shift_loop m first p_free (p_free + 1 - BUCKET_SIZE))"

subsection \<open>Updates\<close>

definition um_update :: "umap \<Rightarrow> nat \<Rightarrow> u64 \<Rightarrow> u64 \<Rightarrow> u64 \<Rightarrow> umap" where
  "um_update m he h kvs a =
     (let keytag = hash_to_keytag m h;
          off = of_nat he - hash_to_hb m h
      in m\<lparr>ht_m := (ht_m m)[he := (ht_m m ! he)
            \<lparr>bucket_offset := ucast off, key_tag := ucast keytag,
             kv_size := ucast (min kvs MAX_KV_SIZE), pba := ucast a\<rparr>]\<rparr>)"

definition counter_idx :: "umap \<Rightarrow> u64 \<Rightarrow> nat" where
  "counter_idx m h = unat (hash_to_hb m h) mod HOP_LOCK_NR"

definition um_insert :: "umap \<Rightarrow> nat \<Rightarrow> u64 \<Rightarrow> u64 \<Rightarrow> u64 \<Rightarrow> umap" where
  "um_insert m he h kvs a =
     (let m' = um_update m he h kvs a; i = counter_idx m' h
      in m'\<lparr>used_entry_nr_m := (used_entry_nr_m m')(i := used_entry_nr_m m' i + 1)\<rparr>)"

definition um_update_inplace :: "umap \<Rightarrow> nat \<Rightarrow> u64 \<Rightarrow> u64 \<Rightarrow> u64 \<Rightarrow> umap" where
  "um_update_inplace m he h kvs a =
     m\<lparr>ht_m := (ht_m m)[he := (ht_m m ! he)
        \<lparr>key_tag := ucast (hash_to_keytag m h),
         kv_size := ucast (min kvs MAX_KV_SIZE), pba := ucast a\<rparr>]\<rparr>"

definition um_remove :: "umap \<Rightarrow> nat \<Rightarrow> u64 \<Rightarrow> umap" where
  "um_remove m he a =
     (let m' = m\<lparr>ht_m := (ht_m m)[he := set_deleted ((ht_m m ! he)\<lparr>pba := ucast a\<rparr>)]\<rparr>;
          i = counter_idx m' (entry_keyfp m' he)
      in m'\<lparr>used_entry_nr_m := (used_entry_nr_m m')(i := used_entry_nr_m m' i - 1)\<rparr>)"

definition um_purge :: "umap \<Rightarrow> nat \<Rightarrow> umap" where
  "um_purge m he = m\<lparr>ht_m := (ht_m m)[he := purge_entry (ht_m m ! he)]\<rparr>"

definition entry_restored :: "umap \<Rightarrow> u64 \<Rightarrow> umap" where
  "entry_restored m h =
     (let i = counter_idx m h
      in m\<lparr>used_entry_nr_m := (used_entry_nr_m m)(i := used_entry_nr_m m i + 1)\<rparr>)"

text \<open>
  \<open>copy_for_grow\<close> runs on the target table but gets a pointer \<open>src\<close> into another
  one; \<open>entry_keyfp(src)\<close> subtracts the base of the target table, so the difference
  \<open>src - trgt_base\<close> is a parameter.  It only selects a statistics counter.
\<close>

definition copy_for_grow :: "umap \<Rightarrow> hash_entry \<Rightarrow> u64 \<Rightarrow> nat \<Rightarrow> umap" where
  "copy_for_grow m src src_diff trgt =
     (let m' = m\<lparr>ht_m := (ht_m m)[trgt := src]\<rparr>;
          fp = push_bit (entry_nr_bits_m m) (ucast (key_tag src))
                 OR (src_diff - ucast (bucket_offset src));
          i = counter_idx m' fp
      in m'\<lparr>used_entry_nr_m := (used_entry_nr_m m')(i := used_entry_nr_m m' i + 1)\<rparr>)"

subsection \<open>Set-up\<close>

text \<open>The loop that picks the lock granularity; not leaving it is \<open>None\<close>.\<close>

partial_function (option) restore_locks :: "u64 \<Rightarrow> u32 \<Rightarrow> (u32 \<times> u64) option" where
  [code]: "restore_locks nr lock_nr =
     (if lock_nr = 1 then Some (lock_nr, nr)
      else let epl = udiv_round_up nr (ucast lock_nr) in
           if of_nat (BUCKET_SIZE * (1 + HOP_MAX_BUCKET_DISPLACE)) \<le> epl then Some (lock_nr, epl)
           else restore_locks nr (lock_nr div 2))"

definition um_restore :: "umap \<Rightarrow> u32 \<Rightarrow> u64 \<Rightarrow> hash_entry list option \<Rightarrow> (umap \<times> errno) option" where
  "um_restore m lock_nr sz ht =
     (let size_aligned = align_down sz 8;
          nr0 = size_aligned div 8
      in if size_aligned = 0 \<or> ht = None \<or> nr0 < of_nat BUCKET_SIZE then Some (m, EINVAL)
         else
           let nr = round_down_pow2 (nr0 - of_nat BUCKET_SIZE) + of_nat BUCKET_SIZE
           in case restore_locks nr lock_nr of
                None \<Rightarrow> None
              | Some (lock_nr', epl) \<Rightarrow>
                  Some (m\<lparr>size_m := nr * 8,
                          entry_nr_bits_m := NUM_BITS (nr - of_nat BUCKET_SIZE - 1),
                          entry_nr_m := nr, ht_m := the ht,
                          lock_nr_m := lock_nr', entry_per_lock_nr_m := epl\<rparr>, E_OK))"

definition um_init :: "umap \<Rightarrow> u32 \<Rightarrow> u64 \<Rightarrow> hash_entry list option \<Rightarrow> (umap \<times> errno) option" where
  "um_init m lock_nr sz ht =
     (case um_restore m lock_nr sz ht of
        None \<Rightarrow> None
      | Some (m', rc) \<Rightarrow>
          if rc \<noteq> E_OK then Some (m', rc)
          else Some (m'\<lparr>ht_m := replicate (unat sz div 8) erased_entry
                         @ drop (unat sz div 8) (ht_m m')\<rparr>, E_OK))"

subsection \<open>Lock ranges\<close>

definition lock_slb :: "umap \<Rightarrow> u64 \<Rightarrow> u64" where
  "lock_slb m first =
     (if of_nat BUCKET_SIZE \<le> first then (first - of_nat BUCKET_SIZE) div entry_per_lock_nr_m m
      else first div entry_per_lock_nr_m m)"

definition lock_common :: "umap \<Rightarrow> u64 \<Rightarrow> u64 \<times> u64 option" where
  "lock_common m h =
     (let first = hash_to_hb m h;
          last = min (first + of_nat (BUCKET_SIZE * (HOP_MAX_BUCKET_DISPLACE + 1)))
                     (entry_nr_m m - of_nat BUCKET_SIZE - 1);
          slb = lock_slb m first;
          last_slb = (slb + 1) * entry_per_lock_nr_m m
      in (slb, if last_slb \<le> last then Some (slb + 1) else None))"

definition hash_to_lock_range :: "umap \<Rightarrow> u64 \<Rightarrow> u64 \<times> u64" where
  "hash_to_lock_range m h =
     (let first = hash_to_hb m h;
          last = min (first + of_nat (BUCKET_SIZE * (HOP_MAX_BUCKET_DISPLACE + 1))) (entry_nr_m m);
          slb = lock_slb m first;
          first_slb = slb * entry_per_lock_nr_m m;
          last_slb = (slb + 1) * entry_per_lock_nr_m m;
          last_slb' = (if last_slb \<le> last then (slb + 2) * entry_per_lock_nr_m m else last_slb)
      in (first_slb, min last_slb' (entry_nr_m m)))"

text \<open>The two locks by index and reference count.\<close>

definition locks_to_grow_range :: "umap \<Rightarrow> u64 \<Rightarrow> nat \<Rightarrow> nat option \<Rightarrow> u64 \<times> u64" where
  "locks_to_grow_range m slb ref1 ref2 =
     (let epl = entry_per_lock_nr_m m;
          last1 = min ((slb + 1) * epl) (entry_nr_m m);
          first1 = (if ref1 = 0 then last1 else slb * epl);
          last2 = (case ref2 of
                     None \<Rightarrow> last1
                   | Some r \<Rightarrow> if r = 0 then (slb + 1) * epl
                               else min ((slb + 2) * epl) (entry_nr_m m))
      in (first1, last2))"

end
