(* ===== verification/Hop_Map_Inv.thy ===== *)
theory Hop_Map_Inv
  imports Hop_Map
begin

section \<open>Invariant and behaviour of the hopscotch table\<close>

text \<open>
  A slot is live when it holds a key that has not been deleted.  An entry's home is
  the bucket it was hashed to.  The table invariant says that each used slot lies
  within the bucket of its home and that the slots from a live entry's home up to
  the entry are all used, which is what makes stopping at the first unused slot
  correct in \<open>lookup\<close>.
\<close>

definition live :: "umap \<Rightarrow> nat \<Rightarrow> bool" where
  "live m i \<longleftrightarrow> i < unat (entry_nr_m m) \<and> used (ht_m m ! i) \<and> \<not> deleted (ht_m m ! i)"

definition home :: "umap \<Rightarrow> nat \<Rightarrow> nat" where
  "home m i = i - unat (bucket_offset (ht_m m ! i))"

definition um_wf :: "umap \<Rightarrow> bool" where
  "um_wf m \<longleftrightarrow> KEYTAG_BITS + entry_nr_bits_m m < 64
     \<and> unat (entry_nr_m m) = 2 ^ entry_nr_bits_m m + BUCKET_SIZE
     \<and> unat (entry_nr_m m) \<le> length (ht_m m)"

definition slot_ok :: "umap \<Rightarrow> nat \<Rightarrow> bool" where
  "slot_ok m i \<longleftrightarrow> unat (bucket_offset (ht_m m ! i)) < BUCKET_SIZE
     \<and> unat (bucket_offset (ht_m m ! i)) \<le> i \<and> home m i < 2 ^ entry_nr_bits_m m"

definition um_inv :: "umap \<Rightarrow> bool" where
  "um_inv m \<longleftrightarrow> um_wf m
     \<and> (\<forall>i < unat (entry_nr_m m). used (ht_m m ! i) \<longrightarrow> slot_ok m i)
     \<and> (\<forall>i < unat (entry_nr_m m). live m i \<longrightarrow> (\<forall>j < i. home m i \<le> j \<longrightarrow> used (ht_m m ! j)))"

text \<open>What a hash value selects: home bucket and tag.\<close>

definition bucket_of :: "umap \<Rightarrow> u64 \<Rightarrow> nat" where
  "bucket_of m h = unat h mod 2 ^ entry_nr_bits_m m"

definition matches :: "umap \<Rightarrow> u64 \<Rightarrow> nat \<Rightarrow> bool" where
  "matches m h i \<longleftrightarrow> live m i \<and> home m i = bucket_of m h \<and>
     key_tag (ht_m m ! i) = ucast (drop_bit (entry_nr_bits_m m) h)"

subsection \<open>Hash slicing\<close>

lemma BUCKET_SIZE_simp [simp]: "BUCKET_SIZE = 32" by (simp add: BUCKET_SIZE_def)
lemma KEYTAG_BITS_simp [simp]: "KEYTAG_BITS = 8" by (simp add: KEYTAG_BITS_def)
lemma HOP_MAX_simp [simp]: "HOP_MAX_BUCKET_DISPLACE = 64" by (simp add: HOP_MAX_BUCKET_DISPLACE_def)
lemma HOP_LOCK_NR_simp [simp]: "HOP_LOCK_NR = 8192" by (simp add: HOP_LOCK_NR_def)

lemma um_wf_bits: "um_wf m \<Longrightarrow> entry_nr_bits_m m < 56"
  by (simp add: um_wf_def)

lemma um_wf_nr: "um_wf m \<Longrightarrow> unat (entry_nr_m m) = 2 ^ entry_nr_bits_m m + 32"
  by (simp add: um_wf_def)

lemma um_wf_length: "um_wf m \<Longrightarrow> 2 ^ entry_nr_bits_m m + 32 \<le> length (ht_m m)"
  by (simp add: um_wf_def)

lemma entry_nr_word:
  assumes "um_wf m"
  shows "entry_nr_m m - 32 = 2 ^ entry_nr_bits_m m"
proof -
  have "entry_nr_m m = of_nat (unat (entry_nr_m m))" by simp
  also have "\<dots> = 2 ^ entry_nr_bits_m m + 32"
    unfolding um_wf_nr [OF assms] by simp
  finally show ?thesis by simp
qed

lemma hash_to_hb_take_bit:
  assumes "um_wf m"
  shows "hash_to_hb m h = take_bit (entry_nr_bits_m m) h"
  using entry_nr_word [OF assms] and_exp_minus_1 by (simp add: hash_to_hb_def)

lemma unat_hash_to_hb:
  "um_wf m \<Longrightarrow> unat (hash_to_hb m h) = bucket_of m h"
  by (simp add: hash_to_hb_take_bit bucket_of_def unat_take_bit)

lemma bucket_of_less: "bucket_of m h < 2 ^ entry_nr_bits_m m"
  by (simp add: bucket_of_def)

lemma unat_hash_to_keytag: "unat (hash_to_keytag m h) = unat h div 2 ^ entry_nr_bits_m m mod 256"
proof -
  have "hash_to_keytag m h = take_bit 8 (drop_bit (entry_nr_bits_m m) h)"
    using and_exp_minus_1 [of "drop_bit (entry_nr_bits_m m) h" 8] by (simp add: hash_to_keytag_def)
  then show ?thesis by (simp add: unat_take_bit unat_drop_bit)
qed

lemma unat_hash_to_keyfp:
  "unat (hash_to_keyfp m h) = unat h mod 2 ^ (8 + entry_nr_bits_m m)"
  unfolding hash_to_keyfp_def push_bit_of_1 and_exp_minus_1 unat_take_bit KEYTAG_BITS_simp ..

lemma keyfp_split:
  "unat (hash_to_keyfp m h) = unat (hash_to_keytag m h) * 2 ^ entry_nr_bits_m m + bucket_of m h"
proof -
  have "2 ^ (8 + entry_nr_bits_m m) = 2 ^ entry_nr_bits_m m * (256 :: nat)"
    by (simp add: power_add)
  then show ?thesis
    by (simp add: unat_hash_to_keyfp unat_hash_to_keytag bucket_of_def mod_mult2_eq)
qed

lemma unat_entry_keyfp:
  assumes wf: "um_wf m" and ok: "slot_ok m i" and i: "i < unat (entry_nr_m m)"
  shows "unat (entry_keyfp m i) = unat (key_tag (ht_m m ! i)) * 2 ^ entry_nr_bits_m m + home m i"
proof -
  let ?e = "ht_m m ! i" and ?k = "entry_nr_bits_m m"
  have k: "?k < 56" using wf by (rule um_wf_bits)
  then have pow: "(2::nat) ^ ?k \<le> 2 ^ 55" by (intro power_increasing) auto
  have "(of_nat i - ucast (bucket_offset ?e) :: u64) = of_nat i - of_nat (unat (bucket_offset ?e))"
    by simp
  also have "\<dots> = of_nat (home m i)"
    using ok by (simp add: home_def slot_ok_def of_nat_diff del: of_nat_unat)
  finally have off: "(of_nat i - ucast (bucket_offset ?e) :: u64) = of_nat (home m i)" .
  have h: "home m i < 2 ^ ?k" using ok by (simp add: slot_ok_def)
  have uh: "unat (of_nat (home m i) :: u64) = home m i"
    using h pow by (intro unat_of_nat_small) simp
  have t: "unat (ucast (key_tag ?e) :: u64) = unat (key_tag ?e)"
    by (simp add: unat_ucast_up)
  have "unat (key_tag ?e) \<le> 255"
    using unat_lt_two_p [of "key_tag ?e"] by simp
  then have "unat (key_tag ?e) * 2 ^ ?k \<le> 255 * 2 ^ ?k" by simp
  then have "unat (key_tag ?e) * 2 ^ ?k + home m i < 256 * 2 ^ ?k" using h by linarith
  also have "\<dots> \<le> 2 ^ 63" using pow by simp
  finally have "unat (key_tag ?e) * 2 ^ ?k + home m i < 2 ^ LENGTH(64)" by simp
  then show ?thesis
    using unat_push_bit_or [of "of_nat (home m i)" ?k "ucast (key_tag ?e) :: u64"] h
    by (simp add: entry_keyfp_def Let_def off uh t)
qed

lemma div_mod_unique:
  fixes a b c d q :: nat
  assumes "b < q" "d < q"
  shows "a * q + b = c * q + d \<longleftrightarrow> a = c \<and> b = d"
  using assms by (metis add.commute div_mult_self1 div_less mod_less mod_mult_self1
      add_cancel_right_left less_nat_zero_code)

text \<open>The fingerprint comparison of the source is exactly "same home bucket, same tag".\<close>

lemma keyfp_eq_iff:
  assumes "um_wf m" "slot_ok m i" "i < unat (entry_nr_m m)"
  shows "hash_to_keyfp m h = entry_keyfp m i \<longleftrightarrow>
    home m i = bucket_of m h \<and> key_tag (ht_m m ! i) = ucast (drop_bit (entry_nr_bits_m m) h)"
proof -
  let ?e = "ht_m m ! i" and ?k = "entry_nr_bits_m m"
  have tag: "unat (hash_to_keytag m h) = unat (ucast (drop_bit ?k h) :: 8 word)"
    by (simp add: unat_hash_to_keytag unsigned_ucast_eq take_bit_eq_mod unat_drop_bit)
  have "hash_to_keyfp m h = entry_keyfp m i \<longleftrightarrow> unat (hash_to_keyfp m h) = unat (entry_keyfp m i)"
    by (rule word_unat_eq_iff)
  also have "\<dots> \<longleftrightarrow> unat (hash_to_keytag m h) = unat (key_tag ?e) \<and> bucket_of m h = home m i"
    unfolding keyfp_split unat_entry_keyfp [OF assms]
    using assms by (intro div_mod_unique) (simp_all add: slot_ok_def bucket_of_less)
  also have "\<dots> \<longleftrightarrow> ucast (drop_bit ?k h) = key_tag ?e \<and> bucket_of m h = home m i"
    unfolding tag word_unat_eq_iff ..
  finally show ?thesis by metis
qed

subsection \<open>The scan loops\<close>

definition free_slot :: "umap \<Rightarrow> nat \<Rightarrow> bool" where
  "free_slot m i \<longleftrightarrow> \<not> used (ht_m m ! i) \<or> deleted (ht_m m ! i)"

lemma lookup_match_find:
  "lookup_match m fp p n =
     (case find_from (\<lambda>i. \<not> used (ht_m m ! i) \<or> (\<not> deleted (ht_m m ! i) \<and> fp = entry_keyfp m i)) p n of
        Some q \<Rightarrow> if used (ht_m m ! q) then Some q else None
      | None \<Rightarrow> None)"
  by (induction m fp p n rule: lookup_match.induct) (auto simp: Let_def)

lemma next_free_loop_find: "next_free_loop m p n = find_from (free_slot m) p n"
  by (induction m p n rule: next_free_loop.induct) (auto simp: Let_def free_slot_def)

lemma next_loop_find:
  "next_loop m fp p n =
     find_from (\<lambda>i. used (ht_m m ! i) \<and> \<not> deleted (ht_m m ! i) \<and> fp = entry_keyfp m i) p n"
  by (induction m fp p n rule: next_loop.induct) (auto simp: Let_def)

lemma lookup_pba_loop_find:
  "lookup_pba_loop m a p n = find_from (\<lambda>i. used (ht_m m ! i) \<and> a = ucast (pba (ht_m m ! i))) p n"
  by (induction m a p n rule: lookup_pba_loop.induct) (auto simp: Let_def)

lemma first_empty_loop_find:
  "first_empty_loop m p n = find_from (\<lambda>i. (\<not> used (ht_m m ! i)) \<noteq> deleted (ht_m m ! i)) p n"
  by (induction m p n rule: first_empty_loop.induct) (auto simp: Let_def)

lemma lookup_candidate_None:
  "lookup_candidate m cand p n = None \<longleftrightarrow> cand = None \<and> (\<forall>j. p \<le> j \<and> j < p + n \<longrightarrow> \<not> free_slot m j)"
proof (induction m cand p n rule: lookup_candidate.induct)
  case (2 m cand p n)
  have "(\<forall>j. p \<le> j \<and> j < p + Suc n \<longrightarrow> \<not> free_slot m j) \<longleftrightarrow>
      \<not> free_slot m p \<and> (\<forall>j. p + 1 \<le> j \<and> j < p + 1 + n \<longrightarrow> \<not> free_slot m j)"
    by (auto simp: Suc_le_eq) (metis le_neq_implies_less)
  with 2 show ?case by (auto simp: Let_def free_slot_def)
qed auto

lemma lookup_candidate_Some:
  assumes "lookup_candidate m cand p n = Some c" "\<And>c'. cand = Some c' \<Longrightarrow> c' < p \<and> deleted (ht_m m ! c')"
  shows "c < p + n \<and> free_slot m c \<and> (p \<le> c \<or> cand = Some c)
    \<and> (\<forall>j. p \<le> j \<and> j < c \<longrightarrow> used (ht_m m ! j))"
  using assms
proof (induction m cand p n rule: lookup_candidate.induct)
  case (1 m candidate p)
  then show ?case by (auto simp: free_slot_def)
next
  case (2 m cand p n)
  let ?e = "ht_m m ! p"
  show ?case
  proof (cases "used ?e")
    case False
    then show ?thesis using "2.prems" by (auto simp: Let_def free_slot_def)
  next
    case True
    then have rec: "lookup_candidate m (if deleted ?e then Some p else cand) (p + 1) n = Some c"
      using "2.prems" by (simp add: Let_def split: if_splits)
    have "c < p + 1 + n \<and> free_slot m c \<and> (p + 1 \<le> c \<or> (if deleted ?e then Some p else cand) = Some c)
        \<and> (\<forall>j. p + 1 \<le> j \<and> j < c \<longrightarrow> used (ht_m m ! j))"
      using "2.IH" [OF refl] True rec "2.prems"(2)
      by (cases "deleted ?e") (fastforce simp: less_SucI)+
    moreover have "used (ht_m m ! j)" if "p \<le> j" "j < c" "\<forall>j. p + 1 \<le> j \<and> j < c \<longrightarrow> used (ht_m m ! j)" for j
      using that True by (cases "j = p") auto
    ultimately show ?thesis by (auto split: if_splits)
  qed
qed

subsection \<open>Lookup\<close>

lemma um_invD:
  assumes "um_inv m"
  shows "um_wf m" "i < unat (entry_nr_m m) \<Longrightarrow> used (ht_m m ! i) \<Longrightarrow> slot_ok m i"
    "live m i \<Longrightarrow> home m i \<le> j \<Longrightarrow> j < i \<Longrightarrow> used (ht_m m ! j)"
  using assms by (auto simp: um_inv_def live_def)

lemma bucket_in_table:
  assumes "um_wf m" "j < bucket_of m h + 32"
  shows "j < unat (entry_nr_m m)" "j < length (ht_m m)"
  using assms bucket_of_less [of m h] by (auto simp: um_wf_def)

lemma matches_bucket:
  assumes "um_inv m" "matches m h i"
  shows "bucket_of m h \<le> i" "i < bucket_of m h + 32"
proof -
  have "slot_ok m i" using assms um_invD(2) by (simp add: matches_def live_def)
  then show "bucket_of m h \<le> i" "i < bucket_of m h + 32"
    using assms(2) by (auto simp: matches_def slot_ok_def home_def)
qed

lemma matches_iff_keyfp:
  assumes inv: "um_inv m" and j: "j < bucket_of m h + 32"
  shows "matches m h j \<longleftrightarrow> used (ht_m m ! j) \<and> \<not> deleted (ht_m m ! j) \<and> hash_to_keyfp m h = entry_keyfp m j"
  using keyfp_eq_iff [OF um_invD(1) [OF inv] um_invD(2) [OF inv]] bucket_in_table(1) [OF um_invD(1) [OF inv] j]
  by (auto simp: matches_def live_def)

lemma lookup_match_eq:
  assumes inv: "um_inv m"
  shows "lookup_match m (hash_to_keyfp m h) (bucket_of m h) 32 = find_from (matches m h) (bucket_of m h) 32"
proof -
  let ?b = "bucket_of m h"
  let ?P = "\<lambda>i. \<not> used (ht_m m ! i) \<or> (\<not> deleted (ht_m m ! i) \<and> hash_to_keyfp m h = entry_keyfp m i)"
  have P: "?P i \<longleftrightarrow> \<not> used (ht_m m ! i) \<or> matches m h i" if "i < ?b + 32" for i
    using matches_iff_keyfp [OF inv that] by auto
  show ?thesis
  proof (cases "find_from ?P ?b 32")
    case None
    then have "find_from (matches m h) ?b 32 = None"
      using P by (simp add: find_from_None_iff) blast
    with None show ?thesis by (simp add: lookup_match_find)
  next
    case (Some q)
    then have q: "?b \<le> q" "q < ?b + 32" "?P q" "\<And>j. ?b \<le> j \<Longrightarrow> j < q \<Longrightarrow> \<not> ?P j"
      by (simp_all add: find_from_Some_iff)
    show ?thesis
    proof (cases "used (ht_m m ! q)")
      case True
      then have "find_from (matches m h) ?b 32 = Some q"
        using q P [of q] by (auto simp: find_from_Some_iff) (metis P less_trans)
      with Some True show ?thesis by (simp add: lookup_match_find)
    next
      case False
      have "\<not> matches m h j" if "?b \<le> j" "j < ?b + 32" for j
      proof
        assume mj: "matches m h j"
        then have lj: "live m j" "home m j = ?b" by (auto simp: matches_def)
        have "\<not> j < q" using q(4) that P [of j] mj by blast
        moreover have "j \<noteq> q" using False lj by (auto simp: live_def)
        ultimately have "q < j" by simp
        then show False using um_invD(3) [OF inv lj(1), of q] lj(2) q(1) False by simp
      qed
      then have "find_from (matches m h) ?b 32 = None" by (simp add: find_from_None_iff)
      with Some False show ?thesis by (simp add: lookup_match_find)
    qed
  qed
qed

lemma um_lookup_cases:
  "um_lookup m h = (rc, he) \<Longrightarrow>
    rc = E_OK \<and> he \<noteq> None \<or> rc = ENODATA \<and> he \<noteq> None \<or> rc = ENOSPC"
  by (auto simp: um_lookup_def Let_def split: option.split_asm) metis+

text \<open>The three outcomes of \<open>lookup\<close>, for a table that satisfies the invariant.\<close>

lemma um_lookup_unfold:
  assumes "um_inv m"
  shows "um_lookup m h =
    (case find_from (matches m h) (bucket_of m h) 32 of
       Some p \<Rightarrow> (E_OK, Some p)
     | None \<Rightarrow> (case lookup_candidate m None (bucket_of m h) 32 of
                  None \<Rightarrow> (ENOSPC, None) | Some c \<Rightarrow> (ENODATA, Some c)))"
  unfolding um_lookup_def Let_def unat_hash_to_hb [OF um_invD(1) [OF assms]] BUCKET_SIZE_simp
    lookup_match_eq [OF assms] ..

lemma find_matches_Some:
  assumes "um_inv m"
  shows "find_from (matches m h) (bucket_of m h) 32 = Some p \<longleftrightarrow> matches m h p \<and> (\<forall>j<p. \<not> matches m h j)"
  unfolding find_from_Some_iff using matches_bucket [OF assms, of h] by blast

lemma find_matches_None:
  assumes "um_inv m"
  shows "find_from (matches m h) (bucket_of m h) 32 = None \<longleftrightarrow> (\<forall>p. \<not> matches m h p)"
  unfolding find_from_None_iff using matches_bucket [OF assms, of h] by blast

lemma um_lookup_found_iff:
  assumes "um_inv m"
  shows "um_lookup m h = (E_OK, Some p) \<longleftrightarrow> matches m h p \<and> (\<forall>j<p. \<not> matches m h j)"
  unfolding find_matches_Some [OF assms, symmetric]
  by (simp add: um_lookup_unfold [OF assms] split: option.splits)

lemma um_lookup_rc:
  assumes "um_inv m"
  shows "fst (um_lookup m h) =
    (if \<exists>p. matches m h p then E_OK
     else if \<exists>p. bucket_of m h \<le> p \<and> p < bucket_of m h + 32 \<and> free_slot m p then ENODATA else ENOSPC)"
proof (cases "find_from (matches m h) (bucket_of m h) 32")
  case (Some p)
  then have "matches m h p" by (simp add: find_matches_Some [OF assms])
  with Some show ?thesis by (auto simp: um_lookup_unfold [OF assms])
next
  case None
  then have no: "\<not> (\<exists>p. matches m h p)" by (simp add: find_matches_None [OF assms])
  show ?thesis
  proof (cases "lookup_candidate m None (bucket_of m h) 32")
    case c: None
    then have "\<not> (\<exists>p. bucket_of m h \<le> p \<and> p < bucket_of m h + 32 \<and> free_slot m p)"
      by (auto simp: lookup_candidate_None)
    with c None no show ?thesis by (simp add: um_lookup_unfold [OF assms])
  next
    case c: (Some c)
    then have "\<exists>p. bucket_of m h \<le> p \<and> p < bucket_of m h + 32 \<and> free_slot m p"
      using lookup_candidate_None [of m None "bucket_of m h" 32] by auto
    with c None no show ?thesis by (simp add: um_lookup_unfold [OF assms])
  qed
qed

lemma um_lookup_candidate:
  assumes inv: "um_inv m" and l: "um_lookup m h = (ENODATA, Some c)"
  shows "bucket_of m h \<le> c" "c < bucket_of m h + 32" "free_slot m c"
    "bucket_of m h \<le> j \<Longrightarrow> j < c \<Longrightarrow> used (ht_m m ! j)"
proof -
  have c: "lookup_candidate m None (bucket_of m h) 32 = Some c"
    using l um_lookup_unfold [OF inv, of h] by (auto split: option.splits)
  then show "bucket_of m h \<le> c" "c < bucket_of m h + 32" "free_slot m c"
      "bucket_of m h \<le> j \<Longrightarrow> j < c \<Longrightarrow> used (ht_m m ! j)"
    using lookup_candidate_Some [OF c] by auto
qed

lemma um_next_bounds:
  assumes "um_next m (Some i) h = Some j"
  shows "i < j" "j < unat (hash_to_hb m h) + 32"
  using assms by (auto simp: um_next_def next_loop_find find_from_Some_iff)

lemma um_next_eq:
  assumes inv: "um_inv m" and i: "bucket_of m h \<le> i"
  shows "um_next m (Some i) h = find_from (matches m h) (i + 1) (bucket_of m h + 32 - (i + 1))"
  unfolding um_next_def
  using um_invD(1) [OF inv] matches_iff_keyfp [OF inv]
  by (auto simp: next_loop_find unat_hash_to_hb intro!: find_from_cong)

lemma um_next_Some:
  assumes "um_inv m" "bucket_of m h \<le> i"
  shows "um_next m (Some i) h = Some q \<longleftrightarrow> i < q \<and> matches m h q \<and> (\<forall>j. i < j \<and> j < q \<longrightarrow> \<not> matches m h j)"
  using um_next_eq [OF assms] matches_bucket [OF assms(1), of h q]
  by (auto simp: find_from_Some_iff Suc_le_eq)

lemma um_next_None:
  assumes "um_inv m" "bucket_of m h \<le> i"
  shows "um_next m (Some i) h = None \<longleftrightarrow> (\<forall>j>i. \<not> matches m h j)"
proof -
  have "j < i + 1 + (bucket_of m h + 32 - (i + 1))" if "matches m h j" "i < j" for j
    using matches_bucket(2) [OF assms(1) that(1)] that(2) by simp
  then show ?thesis
    unfolding um_next_eq [OF assms] find_from_None_iff by (auto simp: Suc_le_eq)
qed

subsection \<open>Updates\<close>

lemma bucket_of_ht_update [simp]:
  "bucket_of (m\<lparr>ht_m := t\<rparr>) h = bucket_of m h" "bucket_of (m\<lparr>used_entry_nr_m := u\<rparr>) h = bucket_of m h"
  by (simp_all add: bucket_of_def)

text \<open>Counters do not matter for the table's contents.\<close>

lemma counter_irrelevant [simp]:
  "live (m\<lparr>used_entry_nr_m := u\<rparr>) i = live m i" "home (m\<lparr>used_entry_nr_m := u\<rparr>) i = home m i"
  "matches (m\<lparr>used_entry_nr_m := u\<rparr>) h i = matches m h i"
  "um_wf (m\<lparr>used_entry_nr_m := u\<rparr>) = um_wf m" "slot_ok (m\<lparr>used_entry_nr_m := u\<rparr>) i = slot_ok m i"
  "um_inv (m\<lparr>used_entry_nr_m := u\<rparr>) = um_inv m"
  by (simp_all add: live_def home_def matches_def bucket_of_def um_wf_def slot_ok_def um_inv_def)

text \<open>Writing one slot: what has to hold for the invariant to survive.\<close>

lemma um_wf_write [simp]: "um_wf (m\<lparr>ht_m := (ht_m m)[c := e]\<rparr>) = um_wf m"
  by (simp add: um_wf_def)

lemma write_other [simp]:
  assumes "i \<noteq> c"
  shows "live (m\<lparr>ht_m := (ht_m m)[c := e]\<rparr>) i = live m i" "home (m\<lparr>ht_m := (ht_m m)[c := e]\<rparr>) i = home m i"
    "matches (m\<lparr>ht_m := (ht_m m)[c := e]\<rparr>) h i = matches m h i"
    "slot_ok (m\<lparr>ht_m := (ht_m m)[c := e]\<rparr>) i = slot_ok m i"
  using assms by (simp_all add: live_def home_def matches_def slot_ok_def)

text \<open>
  The invariant with one slot exempt from the path condition: the state between a
  displacement and the insertion that fills the slot it freed.
\<close>

definition um_hole :: "umap \<Rightarrow> nat \<Rightarrow> bool" where
  "um_hole m x \<longleftrightarrow> um_wf m
     \<and> (\<forall>i < unat (entry_nr_m m). used (ht_m m ! i) \<longrightarrow> slot_ok m i)
     \<and> (\<forall>i < unat (entry_nr_m m). live m i \<longrightarrow>
          (\<forall>j < i. home m i \<le> j \<longrightarrow> j \<noteq> x \<longrightarrow> used (ht_m m ! j)))"

lemma um_holeD:
  assumes "um_hole m x"
  shows "um_wf m" "i < unat (entry_nr_m m) \<Longrightarrow> used (ht_m m ! i) \<Longrightarrow> slot_ok m i"
    "live m i \<Longrightarrow> home m i \<le> j \<Longrightarrow> j < i \<Longrightarrow> j \<noteq> x \<Longrightarrow> used (ht_m m ! j)"
  using assms by (auto simp: um_hole_def live_def)

lemma um_inv_hole: "um_inv m \<Longrightarrow> um_hole m x"
  by (simp add: um_inv_def um_hole_def)

lemma um_hole_inv: "um_hole m x \<Longrightarrow> used (ht_m m ! x) \<Longrightarrow> um_inv m"
  unfolding um_inv_def um_hole_def by metis

lemma um_hole_write:
  assumes inv: "um_hole m x" and c: "c < length (ht_m m)"
    and ok: "used e \<Longrightarrow> slot_ok (m\<lparr>ht_m := (ht_m m)[c := e]\<rparr>) c"
    and path: "\<And>j. used e \<Longrightarrow> \<not> deleted e \<Longrightarrow> home (m\<lparr>ht_m := (ht_m m)[c := e]\<rparr>) c \<le> j \<Longrightarrow> j < c
      \<Longrightarrow> j \<noteq> y \<Longrightarrow> used (ht_m m ! j)"
    and hole: "x = y \<or> x = c \<and> used e" "\<not> used e \<Longrightarrow> c = y"
  shows "um_hole (m\<lparr>ht_m := (ht_m m)[c := e]\<rparr>) y"
proof -
  let ?m' = "m\<lparr>ht_m := (ht_m m)[c := e]\<rparr>"
  have "slot_ok ?m' i" if "i < unat (entry_nr_m m)" "used (ht_m ?m' ! i)" for i
    using that um_holeD(2) [OF inv, of i] ok c by (cases "i = c") auto
  moreover have "used (ht_m ?m' ! j)" if "live ?m' i" "home ?m' i \<le> j" "j < i" "j \<noteq> y" for i j
  proof (cases "j = c")
    case True
    then show ?thesis using hole(2) that(4) c by auto
  next
    case False
    have "used (ht_m m ! j)"
    proof (cases "i = c")
      case True
      then have "\<not> deleted e" "used e" using that(1) c by (simp_all add: live_def)
      then show ?thesis using path that True by simp
    next
      case False
      then show ?thesis using that um_holeD(3) [OF inv, of i j] hole(1) \<open>j \<noteq> c\<close> by auto
    qed
    then show ?thesis using False by simp
  qed
  ultimately show ?thesis using um_holeD(1) [OF inv] by (simp add: um_hole_def live_def)
qed

lemma um_inv_write:
  assumes inv: "um_hole m c" and c: "c < length (ht_m m)"
    and usd: "used e"
    and ok: "slot_ok (m\<lparr>ht_m := (ht_m m)[c := e]\<rparr>) c"
    and path: "\<And>j. \<not> deleted e \<Longrightarrow> home (m\<lparr>ht_m := (ht_m m)[c := e]\<rparr>) c \<le> j \<Longrightarrow> j < c \<Longrightarrow> used (ht_m m ! j)"
  shows "um_inv (m\<lparr>ht_m := (ht_m m)[c := e]\<rparr>)"
  using um_hole_write [OF inv c, of e c] ok path usd c by (intro um_hole_inv [of _ c]) auto

lemma unat_bucket_offset:
  assumes "um_wf m" "bucket_of m h \<le> c" "c < bucket_of m h + 32"
  shows "unat (ucast (of_nat c - hash_to_hb m h) :: 6 word) = c - bucket_of m h"
proof -
  have "hash_to_hb m h = of_nat (bucket_of m h)"
    by (simp flip: unat_hash_to_hb [OF assms(1), of h])
  then have "of_nat c - hash_to_hb m h = (of_nat (c - bucket_of m h) :: u64)"
    using assms(2) by (simp add: of_nat_diff)
  moreover have "unat (of_nat (c - bucket_of m h) :: u64) = c - bucket_of m h"
    using assms(3) by (intro unat_of_nat_small) simp
  ultimately show ?thesis
    using assms(2,3) by (simp add: unsigned_ucast_eq take_bit_eq_mod)
qed

definition new_entry :: "umap \<Rightarrow> nat \<Rightarrow> u64 \<Rightarrow> u64 \<Rightarrow> u64 \<Rightarrow> hash_entry" where
  "new_entry m c h kvs a = (ht_m m ! c)
     \<lparr>bucket_offset := ucast (of_nat c - hash_to_hb m h), key_tag := ucast (hash_to_keytag m h),
      kv_size := ucast (min kvs MAX_KV_SIZE), pba := ucast a\<rparr>"

lemma um_update_write: "um_update m c h kvs a = m\<lparr>ht_m := (ht_m m)[c := new_entry m c h kvs a]\<rparr>"
  by (simp add: um_update_def new_entry_def Let_def)

lemma min_MAX_KV_SIZE_0: "(ucast (min kvs MAX_KV_SIZE) :: 11 word) = 0 \<longleftrightarrow> kvs = 0"
proof -
  have "min kvs MAX_KV_SIZE \<le> 2047" by (simp add: MAX_KV_SIZE_eq)
  then have "unat (min kvs MAX_KV_SIZE) < 2 ^ 11" by (simp add: word_le_nat_alt)
  then have "unat (ucast (min kvs MAX_KV_SIZE) :: 11 word) = unat (min kvs MAX_KV_SIZE)"
    by (simp add: unsigned_ucast_eq take_bit_eq_mod)
  then have "(ucast (min kvs MAX_KV_SIZE) :: 11 word) = 0 \<longleftrightarrow> min kvs MAX_KV_SIZE = 0"
    by (metis unat_eq_zero)
  then show ?thesis by (auto simp: MAX_KV_SIZE_eq min_def)
qed

lemma ucast_keytag: "(ucast (hash_to_keytag m h) :: 8 word) = ucast (drop_bit (entry_nr_bits_m m) h)"
  unfolding word_unat_eq_iff
  by (simp add: unsigned_ucast_eq take_bit_eq_mod unat_hash_to_keytag unat_drop_bit)

definition valid_pba :: "u64 \<Rightarrow> bool" where
  "valid_pba a \<longleftrightarrow> (ucast a :: 39 word) \<noteq> - 1"

lemma new_entry_flags:
  "used (new_entry m c h kvs a) \<longleftrightarrow> valid_pba a" "deleted (new_entry m c h kvs a) \<longleftrightarrow> kvs = 0"
  by (simp_all add: new_entry_def entry_simps valid_pba_def min_MAX_KV_SIZE_0)

lemma um_update_home:
  assumes "um_wf m" "bucket_of m h \<le> c" "c < bucket_of m h + 32"
  shows "home (um_update m c h kvs a) c = bucket_of m h" "slot_ok (um_update m c h kvs a) c"
  using assms unat_bucket_offset [OF assms] bucket_in_table(2) [OF assms(1,3)] bucket_of_less [of m h]
  by (simp_all add: um_update_write home_def slot_ok_def new_entry_def)

text \<open>
  A slot that may receive a new entry for hash \<open>h\<close>: in the bucket, free, and with no
  unused slot before it in the bucket.
\<close>

definition insertable :: "umap \<Rightarrow> u64 \<Rightarrow> nat \<Rightarrow> bool" where
  "insertable m h c \<longleftrightarrow> bucket_of m h \<le> c \<and> c < bucket_of m h + 32 \<and> free_slot m c
     \<and> (\<forall>j < c. bucket_of m h \<le> j \<longrightarrow> used (ht_m m ! j))"

lemma um_update_hole_inv:
  assumes inv: "um_hole m c" and c: "insertable m h c" and a: "valid_pba a"
  shows "um_inv (um_update m c h kvs a)"
proof -
  note wf = um_holeD(1) [OF inv]
  have c': "bucket_of m h \<le> c" "c < bucket_of m h + 32" using c by (auto simp: insertable_def)
  show ?thesis
    unfolding um_update_write
    using um_update_home [OF wf c', of kvs a] c bucket_in_table(2) [OF wf c'(2)] a
    by (intro um_inv_write [OF inv]) (auto simp: um_update_write insertable_def new_entry_flags)
qed

lemmas um_update_inv = um_update_hole_inv [OF um_inv_hole]

lemma um_update_matches:
  assumes wf: "um_wf m" and c: "insertable m h c" and a: "valid_pba a" and k: "kvs \<noteq> 0"
  shows "matches (um_update m c h kvs a) h' i \<longleftrightarrow>
    (if i = c then hash_to_keyfp m h' = hash_to_keyfp m h else matches m h' i)"
proof (cases "i = c")
  case True
  let ?m' = "um_update m c h kvs a"
  have c': "bucket_of m h \<le> c" "c < bucket_of m h + 32" using c by (auto simp: insertable_def)
  have live: "live ?m' c"
    using bucket_in_table [OF wf c'(2)] a k by (simp add: live_def um_update_write new_entry_flags)
  have tag: "key_tag (ht_m ?m' ! c) = ucast (drop_bit (entry_nr_bits_m m) h)"
    using bucket_in_table(2) [OF wf c'(2)] by (simp add: um_update_write new_entry_def ucast_keytag)
  have same: "entry_nr_bits_m ?m' = entry_nr_bits_m m" "bucket_of ?m' h' = bucket_of m h'"
    by (simp_all add: um_update_write)
  have "hash_to_keyfp m h' = hash_to_keyfp m h \<longleftrightarrow>
      unat (hash_to_keytag m h') = unat (hash_to_keytag m h) \<and> bucket_of m h' = bucket_of m h"
    unfolding word_unat_eq_iff keyfp_split by (intro div_mod_unique) (simp_all add: bucket_of_less)
  also have "unat (hash_to_keytag m h') = unat (hash_to_keytag m h) \<longleftrightarrow>
      (ucast (hash_to_keytag m h') :: 8 word) = ucast (hash_to_keytag m h)"
    unfolding word_unat_eq_iff by (simp add: unsigned_ucast_eq take_bit_eq_mod unat_hash_to_keytag)
  finally show ?thesis
    using True live um_update_home(1) [OF wf c', of kvs a]
    unfolding matches_def ucast_keytag by (auto simp: tag same)
next
  case False
  then show ?thesis by (simp add: um_update_write)
qed

lemma um_insert_inv:
  assumes "um_hole m c" "insertable m h c" "valid_pba a"
  shows "um_inv (um_insert m c h kvs a)"
  using um_update_hole_inv [OF assms] by (simp add: um_insert_def Let_def)

lemma um_insert_matches:
  assumes "um_wf m" "insertable m h c" "valid_pba a" "kvs \<noteq> 0"
  shows "matches (um_insert m c h kvs a) h' i \<longleftrightarrow>
    (if i = c then hash_to_keyfp m h' = hash_to_keyfp m h else matches m h' i)"
  using um_update_matches [OF assms] by (simp add: um_insert_def Let_def)

lemma insertable_candidate:
  assumes "um_inv m" "um_lookup m h = (ENODATA, Some c)"
  shows "insertable m h c"
  using um_lookup_candidate [OF assms] by (simp add: insertable_def)

lemma insertable_next_free:
  assumes inv: "um_inv m" and small: "entry_nr_bits_m m \<le> 32"
    and nf: "um_next_free m h = (rc, Some c)"
  shows "insertable m h c" "rc = E_OK"
proof -
  have "bucket_of m h < 2 ^ 32"
    using bucket_of_less [of m h] power_increasing [OF small, of "2::nat"] by linarith
  then have "unat (ucast (hash_to_hb m h) :: u32) = bucket_of m h"
    by (simp add: unsigned_ucast_eq take_bit_eq_mod unat_hash_to_hb [OF um_invD(1) [OF inv]])
  then have ff: "find_from (free_slot m) (bucket_of m h) 32 = Some c"
    using nf by (auto simp: um_next_free_def Let_def next_free_loop_find split: option.splits)
  then show "insertable m h c"
    by (auto simp: insertable_def find_from_Some_iff free_slot_def)
  show "rc = E_OK" using nf by (auto simp: um_next_free_def Let_def split: option.splits)
qed

text \<open>\<open>remove\<close> turns the entry into a tombstone in place.\<close>

lemma um_remove_write:
  obtains u where "um_remove m i a =
    (m\<lparr>ht_m := (ht_m m)[i := set_deleted ((ht_m m ! i)\<lparr>pba := ucast a\<rparr>)]\<rparr>)\<lparr>used_entry_nr_m := u\<rparr>"
  by (rule that) (simp add: um_remove_def Let_def)

lemma tombstone_flags:
  "used (set_deleted (e\<lparr>pba := ucast a\<rparr>)) \<longleftrightarrow> valid_pba a" "deleted (set_deleted e)"
  by (simp_all add: entry_simps valid_pba_def)

lemma um_remove_inv:
  assumes inv: "um_inv m" and i: "live m i" and a: "valid_pba a"
  shows "um_inv (um_remove m i a)"
proof -
  have len: "i < length (ht_m m)" using i um_invD(1) [OF inv] by (simp add: live_def um_wf_def)
  have "slot_ok m i" using i um_invD(2) [OF inv] by (simp add: live_def)
  then have "um_inv (m\<lparr>ht_m := (ht_m m)[i := set_deleted ((ht_m m ! i)\<lparr>pba := ucast a\<rparr>)]\<rparr>)"
    using len a
    by (intro um_inv_write [OF um_inv_hole [OF inv]]) (auto simp: slot_ok_def home_def entry_simps valid_pba_def)
  then show ?thesis using um_remove_write [of m i a] by (metis counter_irrelevant(6))
qed

lemma um_remove_matches:
  assumes inv: "um_inv m" and i: "live m i"
  shows "matches (um_remove m i a) h j \<longleftrightarrow> j \<noteq> i \<and> matches m h j"
proof -
  have len: "i < length (ht_m m)" using i um_invD(1) [OF inv] by (simp add: live_def um_wf_def)
  have "\<not> matches (m\<lparr>ht_m := (ht_m m)[i := set_deleted ((ht_m m ! i)\<lparr>pba := ucast a\<rparr>)]\<rparr>) h i"
    using len by (simp add: matches_def live_def tombstone_flags)
  then show ?thesis
    using um_remove_write [of m i a] by (metis counter_irrelevant(3) write_other(3))
qed

text \<open>An in-place update keeps the slot and the fingerprint.\<close>

lemma um_update_inplace_eq_update:
  assumes inv: "um_inv m" and i: "matches m h i"
  shows "um_update_inplace m i h kvs a = um_update m i h kvs a"
proof -
  note wf = um_invD(1) [OF inv]
  have len: "i < length (ht_m m)" using i wf by (simp add: matches_def live_def um_wf_def)
  have "slot_ok m i" using i um_invD(2) [OF inv] by (simp add: matches_def live_def)
  then have "unat (bucket_offset (ht_m m ! i)) = i - bucket_of m h"
    using i by (auto simp: matches_def home_def slot_ok_def)
  then have "bucket_offset (ht_m m ! i) = ucast (of_nat i - hash_to_hb m h)"
    unfolding word_unat_eq_iff using unat_bucket_offset [OF wf matches_bucket [OF inv i]] by simp
  then have "(ht_m m ! i)\<lparr>bucket_offset := ucast (of_nat i - hash_to_hb m h)\<rparr> = ht_m m ! i"
    by (metis hash_entry.surjective hash_entry.update_convs(1))
  then show ?thesis unfolding um_update_inplace_def um_update_def Let_def by metis
qed

text \<open>\<open>purge\<close> leaves everything but the path condition.\<close>

lemma um_purge_other:
  "i \<noteq> p \<Longrightarrow> ht_m (um_purge m p) ! i = ht_m m ! i"
  "p < length (ht_m m) \<Longrightarrow> \<not> used (ht_m (um_purge m p) ! p)"
  by (simp_all add: um_purge_def purge_entry_free)

lemma um_purge_inv:
  assumes inv: "um_inv m" and p: "p < unat (entry_nr_m m)"
    and last: "\<And>i. live m i \<Longrightarrow> home m i \<le> p \<Longrightarrow> i \<le> p"
  shows "um_inv (um_purge m p)"
proof -
  have wf: "um_wf (um_purge m p)" using um_invD(1) [OF inv] by (simp add: um_purge_def)
  have len: "p < length (ht_m m)" using p um_invD(1) [OF inv] by (simp add: um_wf_def)
  have "slot_ok (um_purge m p) i" if "i < unat (entry_nr_m m)" "used (ht_m (um_purge m p) ! i)" for i
    using that um_invD(2) [OF inv] len by (cases "i = p") (auto simp: um_purge_def purge_entry_free)
  moreover have "used (ht_m (um_purge m p) ! j)"
    if l: "live (um_purge m p) i" "home (um_purge m p) i \<le> j" "j < i" for i j
  proof -
    have "i \<noteq> p" using l len by (auto simp: live_def um_purge_other)
    then have m: "live m i" "home m i \<le> j" using l by (simp_all add: um_purge_def)
    then have "j \<noteq> p" using last [of i] l(3) by auto
    then show ?thesis using um_invD(3) [OF inv m l(3)] by (simp add: um_purge_other)
  qed
  ultimately show ?thesis using wf by (simp add: um_inv_def live_def um_purge_def)
qed

text \<open>
  A purge inside the path of a live entry cuts it off: \<open>lookup\<close> stops at the hole.
\<close>

lemma um_lookup_stops_at_hole:
  assumes inv: "um_inv m" and p: "bucket_of m h \<le> p" "p < bucket_of m h + 32"
    and none: "\<And>j. j \<le> p \<Longrightarrow> \<not> matches m h j"
    and usd: "\<And>j. bucket_of m h \<le> j \<Longrightarrow> j < p \<Longrightarrow> used (ht_m m ! j)"
  shows "um_lookup (um_purge m p) h = (ENODATA, Some p)"
proof -
  note wf = um_invD(1) [OF inv]
  let ?m' = "um_purge m p" and ?b = "bucket_of m h"
  have wf': "um_wf ?m'" using wf by (simp add: um_purge_def)
  have b': "bucket_of ?m' h = ?b" and fp: "hash_to_keyfp ?m' h = hash_to_keyfp m h"
    by (simp_all add: um_purge_def hash_to_keyfp_def)
  have len: "p < length (ht_m m)" using bucket_in_table(2) [OF wf p(2)] .
  have keyfp: "entry_keyfp ?m' j = entry_keyfp m j" if "j \<noteq> p" for j
    using that by (simp add: entry_keyfp_def um_purge_def Let_def)
  have stop: "find_from (\<lambda>i. \<not> used (ht_m ?m' ! i) \<or>
      (\<not> deleted (ht_m ?m' ! i) \<and> hash_to_keyfp m h = entry_keyfp ?m' i)) ?b 32 = Some p"
    unfolding find_from_Some_iff
  proof (intro conjI allI impI)
    fix j
    assume j: "?b \<le> j \<and> j < p"
    then have jb: "j < ?b + 32" using p by simp
    have "\<not> matches m h j" using none j by simp
    then show "\<not> (\<not> used (ht_m ?m' ! j) \<or> \<not> deleted (ht_m ?m' ! j) \<and> hash_to_keyfp m h = entry_keyfp ?m' j)"
      using usd j matches_iff_keyfp [OF inv jb] keyfp [of j] by (auto simp: um_purge_other)
  qed (use p len in \<open>auto simp: um_purge_other\<close>)
  have "lookup_match ?m' (hash_to_keyfp m h) ?b 32 = None"
    unfolding lookup_match_find stop using len by (simp add: um_purge_other)
  moreover have "lookup_candidate ?m' None ?b 32 = Some p"
  proof -
    have cand: "lookup_candidate ?m' c q n = Some p" if "q \<le> p" "p < q + n" "?b \<le> q" for c q n
      using that
    proof (induction n arbitrary: q c)
      case (Suc n)
      show ?case
      proof (cases "q = p")
        case True
        then show ?thesis using len by (simp add: um_purge_other)
      next
        case False
        then have "used (ht_m ?m' ! q)" using usd Suc.prems by (simp add: um_purge_other)
        then show ?thesis using Suc.IH [of "q + 1"] Suc.prems False by (simp add: Let_def)
      qed
    qed simp
    show ?thesis by (rule cand) (use p in auto)
  qed
  ultimately show ?thesis
    by (simp add: um_lookup_def Let_def unat_hash_to_hb [OF wf'] b' fp)
qed

subsection \<open>Set-up\<close>

lemma restore_locks_Some:
  assumes "lock_nr \<noteq> 0"
  shows "\<exists>l e. restore_locks nr lock_nr = Some (l, e) \<and> l \<noteq> 0 \<and> l \<le> lock_nr
    \<and> (l = 1 \<and> e = nr \<or> 2080 \<le> e \<and> e = udiv_round_up nr (ucast l))"
  using assms
proof (induction "unat lock_nr" arbitrary: lock_nr rule: less_induct)
  case less
  show ?case
  proof (cases "lock_nr = 1 \<or> 2080 \<le> udiv_round_up nr (ucast lock_nr)")
    case True
    then show ?thesis using less.prems by (subst restore_locks.simps) (auto simp: Let_def)
  next
    case False
    have n0: "unat lock_nr \<noteq> 0" using less.prems by (metis unat_eq_zero)
    have n1: "unat lock_nr \<noteq> 1" using False by (metis unat_1 word_unat_eq_iff)
    have half: "unat (lock_nr div 2) = unat lock_nr div 2" by (simp add: unat_div)
    then have "unat (lock_nr div 2) < unat lock_nr" "unat (lock_nr div 2) \<noteq> 0" using n0 n1 by auto
    then have "lock_nr div 2 \<noteq> 0" by (metis unat_0)
    from less.hyps [OF \<open>unat (lock_nr div 2) < unat lock_nr\<close> this] obtain l e where
      "restore_locks nr (lock_nr div 2) = Some (l, e)" "l \<noteq> 0" "l \<le> lock_nr div 2"
      "l = 1 \<and> e = nr \<or> 2080 \<le> e \<and> e = udiv_round_up nr (ucast l)" by blast
    moreover have "lock_nr div 2 \<le> lock_nr" by (simp add: word_le_nat_alt half)
    ultimately show ?thesis using False by (subst restore_locks.simps) (auto simp: Let_def)
  qed
qed

text \<open>With zero locks requested the loop has no exit.\<close>

lemma restore_locks_zero: "restore_locks nr 0 = None"
proof (rule ccontr)
  assume "restore_locks nr 0 \<noteq> None"
  then obtain r where "restore_locks nr 0 = Some r" by blast
  moreover have "lock_nr \<noteq> 0" if "restore_locks nr' lock_nr = Some r" for nr' lock_nr r
    by (rule restore_locks.raw_induct [OF _ that, of "\<lambda>_ lock_nr _. lock_nr \<noteq> 0"])
      (auto simp: udiv_round_up_def Let_def word_le_nat_alt split: if_splits, blast)
  ultimately show False by blast
qed

lemma restore_entry_nr:
  assumes "264 \<le> unat sz" "unat sz < 2 ^ 58"
  obtains k where "round_down_pow2 (align_down sz 8 div 8 - 32) = 2 ^ k" "k < 55"
    "2 ^ k + 32 \<le> unat sz div 8" "unat sz div 8 < 2 ^ Suc k + 32"
    "unat (align_down sz 8 div 8) = unat sz div 8"
proof -
  have nr: "unat (align_down sz 8 div 8) = unat sz div 8"
    by (simp add: unat_div unat_align_down)
  have le: "32 \<le> unat (align_down sz 8 div 8)" using nr assms by simp
  have sub: "unat (align_down sz 8 div 8 - 32) = unat sz div 8 - 32"
    using le nr unat_sub_no_wrap [of 32 "align_down sz 8 div 8"] by (simp add: word_le_nat_alt)
  then have "unat (align_down sz 8 div 8 - 32) \<noteq> 0" using assms by simp
  then have "align_down sz 8 div 8 - 32 \<noteq> 0" by (metis unat_0)
  then obtain k where k: "round_down_pow2 (align_down sz 8 div 8 - 32) = 2 ^ k"
    "2 ^ k \<le> unat sz div 8 - 32" "unat sz div 8 - 32 < 2 ^ Suc k"
    using round_down_pow2_spec unfolding sub [symmetric] by metis
  have "unat sz div 8 - 32 < 2 ^ 55" using assms(2) by simp
  then have "(2::nat) ^ k < 2 ^ 55" using k(2) by linarith
  then have "k < 55" by (rule power_less_imp_less_exp [rotated]) simp
  then show ?thesis using that k nr assms by auto
qed

lemma um_restore_wf:
  assumes sz: "264 \<le> unat sz" "unat sz < 2 ^ 58" and lk: "lock_nr \<noteq> 0" and len: "length ht = unat sz div 8"
  obtains m' where "um_restore m lock_nr sz (Some ht) = Some (m', E_OK)" "um_wf m'" "ht_m m' = ht"
    "unat sz div 8 < 2 * (unat (entry_nr_m m') - 32) + 32"
    "lock_nr_m m' \<noteq> 0" "lock_nr_m m' \<le> lock_nr"
    "lock_nr_m m' = 1 \<and> entry_per_lock_nr_m m' = entry_nr_m m' \<or>
     2080 \<le> entry_per_lock_nr_m m' \<and>
       entry_per_lock_nr_m m' = udiv_round_up (entry_nr_m m') (ucast (lock_nr_m m'))"
    "used_entry_nr_m m' = used_entry_nr_m m"
proof -
  obtain k where k: "round_down_pow2 (align_down sz 8 div 8 - 32) = 2 ^ k" "k < 55"
    "2 ^ k + 32 \<le> unat sz div 8" "unat sz div 8 < 2 ^ Suc k + 32"
    "unat (align_down sz 8 div 8) = unat sz div 8"
    using restore_entry_nr [OF sz] by metis
  let ?nr = "2 ^ k + 32 :: u64"
  have unr: "unat ?nr = 2 ^ k + 32"
  proof -
    have "(2::nat) ^ k < 2 ^ 55" using k(2) by (rule power_strict_increasing) simp
    then have "unat (of_nat (2 ^ k + 32) :: u64) = 2 ^ k + 32" by (intro unat_of_nat_small) simp
    then show ?thesis by simp
  qed
  obtain l e where l: "restore_locks ?nr lock_nr = Some (l, e)" "l \<noteq> 0" "l \<le> lock_nr"
    "l = 1 \<and> e = ?nr \<or> 2080 \<le> e \<and> e = udiv_round_up ?nr (ucast l)"
    using restore_locks_Some [OF lk, of ?nr] by blast
  have guard: "\<not> (align_down sz 8 = 0 \<or> Some ht = None \<or> align_down sz 8 div 8 < 32)"
    using k(3,5) by (auto simp: word_less_nat_alt)
  have bits: "NUM_BITS (?nr - 32 - 1) = k" using NUM_BITS_mask [of k] k(2) by simp
  let ?m' = "m\<lparr>size_m := ?nr * 8, entry_nr_bits_m := k, entry_nr_m := ?nr, ht_m := ht,
    lock_nr_m := l, entry_per_lock_nr_m := e\<rparr>"
  have "um_restore m lock_nr sz (Some ht) = Some (?m', E_OK)"
    unfolding um_restore_def Let_def BUCKET_SIZE_simp of_nat_numeral k(1) bits
    using guard l(1) by auto
  moreover have "um_wf ?m'" using k(2,3) unr len by (simp add: um_wf_def)
  ultimately show ?thesis using l k(4) unr by (intro that [of ?m']) simp_all
qed

lemma um_init_inv:
  assumes sz: "264 \<le> unat sz" "unat sz < 2 ^ 58" and lk: "lock_nr \<noteq> 0" and len: "length ht = unat sz div 8"
  obtains m' where "um_init m lock_nr sz (Some ht) = Some (m', E_OK)" "um_inv m'"
    "ht_m m' = replicate (unat sz div 8) erased_entry"
    "unat sz div 8 < 2 * (unat (entry_nr_m m') - 32) + 32"
proof -
  obtain r where r: "um_restore m lock_nr sz (Some ht) = Some (r, E_OK)" "um_wf r" "ht_m r = ht"
    "unat sz div 8 < 2 * (unat (entry_nr_m r) - 32) + 32"
    using um_restore_wf [OF assms] by metis
  let ?m' = "r\<lparr>ht_m := replicate (unat sz div 8) erased_entry\<rparr>"
  have "um_init m lock_nr sz (Some ht) = Some (?m', E_OK)"
    using r len by (simp add: um_init_def)
  moreover have "\<not> used (ht_m ?m' ! i)" if "i < unat (entry_nr_m ?m')" for i
    using that r len by (simp add: um_wf_def erased_entry_free)
  moreover have "um_wf ?m'" using r len by (simp add: um_wf_def)
  ultimately show ?thesis using r(4) by (intro that [of ?m']) (auto simp: um_inv_def live_def)
qed

lemma um_restore_einval:
  assumes "unat sz < 256 \<or> ht = None"
  shows "um_restore m lock_nr sz ht = Some (m, EINVAL)"
proof -
  have "unat (align_down sz 8 div 8) = unat sz div 8"
    by (simp add: unat_div unat_align_down)
  then have "ht \<noteq> None \<Longrightarrow> align_down sz 8 div 8 < 32" using assms by (auto simp: word_less_nat_alt)
  then show ?thesis by (auto simp: um_restore_def Let_def)
qed

text \<open>
  A table of exactly 32 entries passes the size check although no home bucket is left:
  the bucket mask becomes all ones.
\<close>

lemma um_restore_32:
  assumes "256 \<le> unat sz" "unat sz < 264" "lock_nr \<noteq> 0"
  obtains m' where "um_restore m lock_nr sz (Some ht) = Some (m', E_OK)" "entry_nr_m m' = 32"
    "\<And>h. hash_to_hb m' h = h"
proof -
  have "unat (align_down sz 8 div 8) = unat sz div 8"
    by (simp add: unat_div unat_align_down)
  also have "\<dots> = unat (32 :: u64)" using assms by simp
  finally have nr: "align_down sz 8 div 8 = 32" by (metis word_unat_eq_iff)
  then have g: "align_down sz 8 \<noteq> 0" by auto
  obtain l e where l: "restore_locks 32 lock_nr = Some (l, e)"
    using restore_locks_Some [OF assms(3), of 32] by blast
  show ?thesis
    by (rule that [of "m\<lparr>size_m := 32 * 8, entry_nr_bits_m := NUM_BITS (32 - 32 - 1), entry_nr_m := 32,
          ht_m := ht, lock_nr_m := l, entry_per_lock_nr_m := e\<rparr>"])
      (use g l in \<open>simp_all add: um_restore_def Let_def nr round_down_pow2_zero hash_to_hb_def\<close>)
qed

end
