(* ===== verification/Hop_Shift.thy ===== *)
theory Hop_Shift
  imports Hop_Map_Inv "HOL-Library.Multiset"
begin

section \<open>Table contents and displacement\<close>

declare try_shift_loop.simps [simp del]

text \<open>
  The contents of a table are the multiset of its live entries, without their
  positions.  Displacement (\<open>try_shift\<close>) moves entries around; the lemmas show that
  it keeps the contents and that the slot it frees can be filled without losing
  the invariant.
\<close>

definition slot_info :: "umap \<Rightarrow> nat \<Rightarrow> nat \<times> 8 word \<times> 11 word \<times> 39 word" where
  "slot_info m i = (home m i, key_tag (ht_m m ! i), kv_size (ht_m m ! i), pba (ht_m m ! i))"

definition live_slots :: "umap \<Rightarrow> nat list" where
  "live_slots m = filter (live m) [0..<unat (entry_nr_m m)]"

definition content :: "umap \<Rightarrow> (nat \<times> 8 word \<times> 11 word \<times> 39 word) multiset" where
  "content m = mset (map (slot_info m) (live_slots m))"

lemma content_alt: "content m = image_mset (slot_info m) (mset_set {i. live m i})"
proof -
  have "mset (live_slots m) = mset_set (set (live_slots m))"
    by (rule mset_set_set [symmetric]) (simp add: live_slots_def)
  also have "set (live_slots m) = {i. live m i}" by (auto simp: live_slots_def live_def)
  finally show ?thesis by (simp add: content_def)
qed

lemma finite_live [simp]: "finite {i. live m i}"
  by (rule finite_subset [of _ "{..<unat (entry_nr_m m)}"]) (auto simp: live_def)

lemma slot_info_other: "i \<noteq> c \<Longrightarrow> slot_info (m\<lparr>ht_m := (ht_m m)[c := e]\<rparr>) i = slot_info m i"
  by (simp add: slot_info_def)

lemma content_add:
  assumes "\<not> live m c" "live (m\<lparr>ht_m := (ht_m m)[c := e]\<rparr>) c"
  shows "content (m\<lparr>ht_m := (ht_m m)[c := e]\<rparr>) = add_mset (slot_info (m\<lparr>ht_m := (ht_m m)[c := e]\<rparr>) c) (content m)"
proof -
  let ?m' = "m\<lparr>ht_m := (ht_m m)[c := e]\<rparr>"
  have "live ?m' i \<longleftrightarrow> i = c \<or> live m i" for i using assms by (cases "i = c") auto
  then have set: "{i. live ?m' i} = insert c {i. live m i}" by auto
  have "image_mset (slot_info ?m') (mset_set {i. live m i}) = image_mset (slot_info m) (mset_set {i. live m i})"
    using assms by (intro image_mset_cong slot_info_other) auto
  then show ?thesis using assms by (simp add: content_alt set)
qed

lemma content_drop:
  assumes "live m c" "\<not> live (m\<lparr>ht_m := (ht_m m)[c := e]\<rparr>) c"
  shows "content m = add_mset (slot_info m c) (content (m\<lparr>ht_m := (ht_m m)[c := e]\<rparr>))"
proof -
  let ?m' = "m\<lparr>ht_m := (ht_m m)[c := e]\<rparr>"
  have restored: "?m'\<lparr>ht_m := (ht_m ?m')[c := ht_m m ! c]\<rparr> = m"
    by (cases "c < length (ht_m m)") auto
  from content_add [of ?m' c "ht_m m ! c"] show ?thesis
    unfolding restored using assms by simp
qed

lemma content_same:
  assumes "\<not> live m c" "\<not> live (m\<lparr>ht_m := (ht_m m)[c := e]\<rparr>) c"
  shows "content (m\<lparr>ht_m := (ht_m m)[c := e]\<rparr>) = content m"
proof -
  let ?m' = "m\<lparr>ht_m := (ht_m m)[c := e]\<rparr>"
  have "live ?m' i \<longleftrightarrow> live m i" for i using assms by (cases "i = c") auto
  then have set: "{i. live ?m' i} = {i. live m i}" by auto
  show ?thesis unfolding content_alt set
    using assms by (intro image_mset_cong slot_info_other) auto
qed

lemma content_counter [simp]: "content (m\<lparr>used_entry_nr_m := u\<rparr>) = content m"
proof -
  have "slot_info (m\<lparr>used_entry_nr_m := u\<rparr>) = slot_info m" by (rule ext) (simp add: slot_info_def)
  then show ?thesis by (simp add: content_alt)
qed

text \<open>Contents after each update.\<close>

lemma content_insert:
  assumes wf: "um_wf m" and c: "insertable m h c" and a: "valid_pba a" and k: "kvs \<noteq> 0"
  shows "content (um_insert m c h kvs a) =
    add_mset (bucket_of m h, ucast (hash_to_keytag m h), ucast (min kvs MAX_KV_SIZE), ucast a) (content m)"
proof -
  have c': "bucket_of m h \<le> c" "c < bucket_of m h + 32" using c by (auto simp: insertable_def)
  note len = bucket_in_table [OF wf c'(2)]
  have dead: "\<not> live m c" using c by (auto simp: insertable_def free_slot_def live_def)
  have alive: "live (um_update m c h kvs a) c"
    using len a k by (simp add: live_def um_update_write new_entry_flags)
  have info: "slot_info (um_update m c h kvs a) c =
      (bucket_of m h, ucast (hash_to_keytag m h), ucast (min kvs MAX_KV_SIZE), ucast a)"
    using um_update_home(1) [OF wf c', of kvs a] len by (simp add: slot_info_def um_update_write new_entry_def)
  show ?thesis
    using content_add [OF dead alive [unfolded um_update_write]] info
    by (simp add: um_insert_def Let_def um_update_write)
qed

lemma content_remove:
  assumes "um_wf m" "live m i"
  shows "content m = add_mset (slot_info m i) (content (um_remove m i a))"
proof -
  obtain u where u: "um_remove m i a =
    (m\<lparr>ht_m := (ht_m m)[i := set_deleted ((ht_m m ! i)\<lparr>pba := ucast a\<rparr>)]\<rparr>)\<lparr>used_entry_nr_m := u\<rparr>"
    by (rule um_remove_write)
  have "i < length (ht_m m)" using assms by (simp add: live_def um_wf_def)
  then show ?thesis
    using content_drop [OF assms(2)] by (simp add: u live_def tombstone_flags)
qed

lemma content_replace:
  assumes "c < length (ht_m m)" "live m c" "live (m\<lparr>ht_m := (ht_m m)[c := e]\<rparr>) c"
  shows "add_mset (slot_info m c) (content (m\<lparr>ht_m := (ht_m m)[c := e]\<rparr>)) =
    add_mset (slot_info (m\<lparr>ht_m := (ht_m m)[c := e]\<rparr>) c) (content m)"
proof -
  let ?m' = "m\<lparr>ht_m := (ht_m m)[c := e]\<rparr>" and ?m0 = "m\<lparr>ht_m := (ht_m m)[c := erased_entry]\<rparr>"
  have "\<not> live ?m0 c" using assms(1) by (simp add: live_def erased_entry_free)
  moreover have "?m0\<lparr>ht_m := (ht_m ?m0)[c := e]\<rparr> = ?m'" by simp
  ultimately show ?thesis
    using content_drop [of m c erased_entry] content_add [of ?m0 c e] assms
    by simp
qed

lemma content_update_inplace:
  assumes inv: "um_inv m" and i: "matches m h i" and a: "valid_pba a" and k: "kvs \<noteq> 0"
  shows "um_inv (um_update_inplace m i h kvs a)"
    "add_mset (slot_info m i) (content (um_update_inplace m i h kvs a)) =
     add_mset (home m i, key_tag (ht_m m ! i), ucast (min kvs MAX_KV_SIZE), ucast a) (content m)"
proof -
  note wf = um_invD(1) [OF inv]
  have l: "live m i" using i by (simp add: matches_def)
  have b: "bucket_of m h \<le> i" "i < bucket_of m h + 32" using matches_bucket [OF inv i] by auto
  note len = bucket_in_table [OF wf b(2)]
  have eq: "um_update_inplace m i h kvs a = m\<lparr>ht_m := (ht_m m)[i := new_entry m i h kvs a]\<rparr>"
    using um_update_inplace_eq_update [OF inv i] by (simp add: um_update_write)
  note hm = um_update_home [OF wf b, of kvs a, unfolded um_update_write]
  have "used (ht_m m ! j)" if "bucket_of m h \<le> j" "j < i" for j
    using um_invD(3) [OF inv l, of j] i that by (simp add: matches_def)
  then show "um_inv (um_update_inplace m i h kvs a)"
    unfolding eq using hm a len
    by (intro um_inv_write [OF um_inv_hole [OF inv]]) (auto simp: new_entry_flags)
  have l': "live (m\<lparr>ht_m := (ht_m m)[i := new_entry m i h kvs a]\<rparr>) i"
    using len a k by (simp add: live_def new_entry_flags)
  have "slot_info (m\<lparr>ht_m := (ht_m m)[i := new_entry m i h kvs a]\<rparr>) i =
      (home m i, key_tag (ht_m m ! i), ucast (min kvs MAX_KV_SIZE), ucast a)"
    using hm(1) len i by (simp add: slot_info_def new_entry_def matches_def ucast_keytag)
  then show "add_mset (slot_info m i) (content (um_update_inplace m i h kvs a)) =
      add_mset (home m i, key_tag (ht_m m ! i), ucast (min kvs MAX_KV_SIZE), ucast a) (content m)"
    using content_replace [OF len(2) l l'] by (simp add: eq)
qed

lemma content_purge:
  assumes "um_wf m" "deleted (ht_m m ! p)" "p < unat (entry_nr_m m)"
  shows "content (um_purge m p) = content m"
  unfolding um_purge_def using assms
  by (intro content_same) (auto simp: live_def um_wf_def purge_entry_free)

subsection \<open>One displacement\<close>

text \<open>
  The state of \<open>try_shift\<close>'s loop: \<open>f\<close> is the free slot, everything from \<open>first\<close> up
  to it is occupied, and there is no tombstone near.
\<close>

definition shift_inv :: "umap \<Rightarrow> nat \<Rightarrow> nat \<Rightarrow> nat \<Rightarrow> bool" where
  "shift_inv m first lst f \<longleftrightarrow> um_hole m f \<and> entry_nr_bits_m m \<le> 32
     \<and> first \<le> f \<and> f < lst \<and> lst \<le> unat (entry_nr_m m) - 33
     \<and> \<not> used (ht_m m ! f)
     \<and> (\<forall>i. first \<le> i \<and> i < f \<longrightarrow> used (ht_m m ! i))
     \<and> (\<forall>i. first \<le> i + 31 \<and> i < lst \<longrightarrow> \<not> deleted (ht_m m ! i))"

lemma bucket_of_entry_keyfp:
  assumes "um_wf m" "slot_ok m i" "i < unat (entry_nr_m m)"
  shows "bucket_of m (entry_keyfp m i) = home m i"
  using assms by (simp add: bucket_of_def unat_entry_keyfp slot_ok_def)

lemma next_free_displaced:
  assumes s: "shift_inv m first lst f" and p: "first \<le> p" "p < f"
  shows "um_next_free m (entry_keyfp m p) = (if f < home m p + 32 then (E_OK, Some f) else (ENOSPC, None))"
proof -
  have hole: "um_hole m f" and small: "entry_nr_bits_m m \<le> 32" using s by (auto simp: shift_inv_def)
  note wf = um_holeD(1) [OF hole]
  have pn: "p < unat (entry_nr_m m)" using s p by (auto simp: shift_inv_def)
  have pu: "used (ht_m m ! p)" and pl: "live m p"
    using s p pn by (auto simp: shift_inv_def live_def)
  have ok: "slot_ok m p" using um_holeD(2) [OF hole pn pu] .
  have b: "unat (hash_to_hb m (entry_keyfp m p)) = home m p"
    using unat_hash_to_hb [OF wf] bucket_of_entry_keyfp [OF wf ok pn] by simp
  have "home m p < 2 ^ 32"
    using ok power_increasing [OF small, of "2::nat"] unfolding slot_ok_def by linarith
  then have b32: "unat (ucast (hash_to_hb m (entry_keyfp m p)) :: u32) = home m p"
    by (simp add: unsigned_ucast_eq take_bit_eq_mod b)
  have hp: "home m p \<le> p" "p \<le> home m p + 31" using ok by (auto simp: slot_ok_def home_def)
  have notfree: "\<not> free_slot m j" if "home m p \<le> j" "j < f" for j
  proof -
    have "used (ht_m m ! j)"
    proof (cases "j < p")
      case True
      then show ?thesis using um_holeD(3) [OF hole pl that(1)] p by simp
    next
      case False
      then show ?thesis using s p that by (auto simp: shift_inv_def)
    qed
    moreover have "\<not> deleted (ht_m m ! j)" using s p hp that by (auto simp: shift_inv_def)
    ultimately show ?thesis by (simp add: free_slot_def)
  qed
  have "free_slot m f" using s by (simp add: shift_inv_def free_slot_def)
  then have "find_from (free_slot m) (home m p) 32 = (if f < home m p + 32 then Some f else None)"
    using notfree hp p by (auto simp: find_from_Some_iff find_from_None_iff)
  then show ?thesis by (simp add: um_next_free_def Let_def b32 next_free_loop_find)
qed

text \<open>The map after the entry of slot \<open>p\<close> has moved to the free slot \<open>f\<close>.\<close>

definition moved_entry :: "umap \<Rightarrow> nat \<Rightarrow> nat \<Rightarrow> hash_entry" where
  "moved_entry m p f =
     (ht_m m ! p)\<lparr>bucket_offset := ucast (of_nat f - hash_to_hb m (entry_keyfp m p))\<rparr>"

definition moved :: "umap \<Rightarrow> nat \<Rightarrow> nat \<Rightarrow> umap" where
  "moved m p f = (let m1 = m\<lparr>ht_m := (ht_m m)[f := moved_entry m p f]\<rparr>
     in m1\<lparr>ht_m := (ht_m m1)[p := ht_m m ! f]\<rparr>)"

lemma try_shift_one_eq:
  assumes s: "shift_inv m first lst f" and p: "first \<le> p" "p < f"
  shows "try_shift_one m p = (if f < home m p + 32 then (moved m p f, E_OK) else (m, ENOSPC))"
proof -
  have len: "f < length (ht_m m)"
    using s by (auto simp: shift_inv_def um_hole_def um_wf_def)
  have unused: "\<not> used (ht_m m ! f)" using s by (simp add: shift_inv_def)
  have "(ht_m m)[p := ht_m m ! f, f := ht_m m ! p, f := moved_entry m p f]
      = (ht_m m)[f := moved_entry m p f, p := ht_m m ! f]"
    using p by (simp add: list_update_swap)
  then show ?thesis
    using len p unused
    by (simp add: try_shift_one_def next_free_displaced [OF s p] Let_def moved_def moved_entry_def)
qed

lemma moved_hole:
  assumes s: "shift_inv m first lst f" and p: "first \<le> p" "p < f" and near: "f < home m p + 32"
  shows "shift_inv (moved m p f) first lst p" "content (moved m p f) = content m"
proof -
  let ?e = "moved_entry m p f"
  let ?m1 = "m\<lparr>ht_m := (ht_m m)[f := ?e]\<rparr>"
  have hole: "um_hole m f" using s by (simp add: shift_inv_def)
  note wf = um_holeD(1) [OF hole]
  have fn: "f < unat (entry_nr_m m)" "p < unat (entry_nr_m m)" using s p by (auto simp: shift_inv_def)
  have len: "f < length (ht_m m)" "p < length (ht_m m)" using fn wf by (auto simp: um_wf_def)
  have pu: "used (ht_m m ! p)" "\<not> deleted (ht_m m ! p)" and pl: "live m p"
    using s p fn by (auto simp: shift_inv_def live_def)
  have ok: "slot_ok m p" using um_holeD(2) [OF hole fn(2) pu(1)] .
  have b: "bucket_of m (entry_keyfp m p) = home m p" using bucket_of_entry_keyfp [OF wf ok fn(2)] .
  have hp: "home m p \<le> p" "home m p < 2 ^ entry_nr_bits_m m" using ok by (auto simp: slot_ok_def home_def)
  have off: "unat (bucket_offset ?e) = f - home m p"
    using unat_bucket_offset [OF wf, of "entry_keyfp m p" f] b near hp p by (simp add: moved_entry_def)
  have flags: "used ?e" "\<not> deleted ?e" using pu by (simp_all add: moved_entry_def entry_simps)
  have home1: "home ?m1 f = home m p" using len off hp p by (simp add: home_def)
  have ok1: "slot_ok ?m1 f" using home1 off near hp p len by (auto simp: slot_ok_def)
  have inv1: "um_inv ?m1"
  proof (rule um_inv_write [OF hole len(1) flags(1) ok1])
    fix j
    assume j: "home ?m1 f \<le> j" "j < f"
    show "used (ht_m m ! j)"
    proof (cases "j < p")
      case True
      then show ?thesis using um_holeD(3) [OF hole pl] home1 j p by simp
    next
      case False
      then show ?thesis using s p j by (auto simp: shift_inv_def)
    qed
  qed
  have un: "\<not> used (ht_m m ! f)" "\<not> deleted (ht_m m ! f)" using s by (auto simp: shift_inv_def)
  have hole2: "um_hole (moved m p f) p"
    unfolding moved_def Let_def
    by (rule um_hole_write [OF um_inv_hole [OF inv1]]) (use un len in auto)
  have nth: "ht_m (moved m p f) ! i = (if i = p then ht_m m ! f else if i = f then ?e else ht_m m ! i)" for i
    using len p by (simp add: moved_def nth_list_update)
  show "shift_inv (moved m p f) first lst p"
    using s p hole2 flags un by (auto simp: shift_inv_def nth) (simp_all add: moved_def)
  have live1: "live ?m1 f" "live ?m1 p" "\<not> live m f" "slot_info ?m1 p = slot_info m p"
    using fn len flags pl un p by (auto simp: live_def slot_info_other)
  have info: "slot_info ?m1 f = slot_info m p"
    using home1 len by (simp add: slot_info_def moved_entry_def)
  have dead: "\<not> live (?m1\<lparr>ht_m := (ht_m ?m1)[p := ht_m m ! f]\<rparr>) p" using un len by (simp add: live_def)
  have "add_mset (slot_info m p) (content (moved m p f)) = content ?m1"
    using content_drop [OF live1(2) dead] live1(4) by (simp add: moved_def)
  also have "\<dots> = add_mset (slot_info m p) (content m)"
    using content_add [OF live1(3,1)] info by simp
  finally show "content (moved m p f) = content m" by simp
qed

lemma moved_geometry [simp]:
  "entry_nr_bits_m (moved m p f) = entry_nr_bits_m m" "entry_nr_m (moved m p f) = entry_nr_m m"
  by (simp_all add: moved_def)

text \<open>A table without tombstones.\<close>

definition clean :: "umap \<Rightarrow> bool" where
  "clean m \<longleftrightarrow> (\<forall>e \<in> set (ht_m m). \<not> deleted e)"

lemma moved_clean:
  assumes s: "shift_inv m first lst f" and p: "first \<le> p" "p < f" and "clean m"
  shows "clean (moved m p f)"
proof -
  have "f < length (ht_m m)" "p < length (ht_m m)"
    using s p by (auto simp: shift_inv_def um_hole_def um_wf_def)
  then have mem: "ht_m m ! f \<in> set (ht_m m)" "ht_m m ! p \<in> set (ht_m m)" by simp_all
  moreover have "deleted (moved_entry m p f) = deleted (ht_m m ! p)"
    by (simp add: moved_entry_def entry_simps)
  ultimately show ?thesis
    using assms(4) by (auto simp: clean_def moved_def dest!: set_update_subset_insert [THEN subsetD])
qed

subsection \<open>The displacement loop\<close>

lemma try_shift_loop_inv:
  assumes "shift_inv m first lst f" "try_shift_loop m first f p = (m', rc, he)"
  shows "content m' = content m \<and> entry_nr_bits_m m' = entry_nr_bits_m m \<and> (clean m \<longrightarrow> clean m') \<and> (\<exists>f'. shift_inv m' first lst f' \<and>
    (rc = E_OK \<and> he = Some f' \<and> f' < first + 32 \<or> rc = ENOSPC \<and> he = None))"
  using assms
proof (induction m first f p rule: try_shift_loop.induct)
  case (1 m first f p)
  note s = "1.prems"(1)
  show ?case
  proof (cases "first \<le> p \<and> p < f")
    case False
    then show ?thesis using "1.prems" by (auto simp: try_shift_loop.simps [of m first f p])
  next
    case True
    then have p: "first \<le> p" "p < f" by auto
    show ?thesis
    proof (cases "f < home m p + 32")
      case near: True
      have one: "try_shift_one m p = (moved m p f, E_OK)"
        using try_shift_one_eq [OF s p] near by simp
      note mv = moved_hole [OF s p near] moved_clean [OF s p]
      show ?thesis
      proof (cases "p - first < 32")
        case True
        then have "m' = moved m p f" "rc = E_OK" "he = Some p"
          using "1.prems"(2) one p by (simp_all add: try_shift_loop.simps [of m first f p])
        moreover have "p < first + 32" using True p by simp
        ultimately show ?thesis using mv by auto
      next
        case False
        then have "try_shift_loop (moved m p f) first p (max first (p + 1 - 32)) = (m', rc, he)"
          using "1.prems"(2) one p by (simp add: try_shift_loop.simps [of m first f p])
        then show ?thesis
          using "1.IH"(1) [OF \<open>first \<le> p \<and> p < f\<close> one [symmetric] refl] False mv by simp
      qed
    next
      case far: False
      then have one: "try_shift_one m p = (m, ENOSPC)" using try_shift_one_eq [OF s p] by simp
      then have "try_shift_loop m first f (p + 1) = (m', rc, he)"
        using "1.prems"(2) p by (simp add: try_shift_loop.simps [of m first f p])
      then show ?thesis using "1.IH"(2) [OF True one [symmetric]] s by simp
    qed
  qed
qed

text \<open>
  No tombstone where displacement looks: from one bucket below the home bucket to the
  end of the displacement window.
\<close>

definition shift_last :: "umap \<Rightarrow> u64 \<Rightarrow> nat" where
  "shift_last m h = min (bucket_of m h + 2048) (2 ^ entry_nr_bits_m m - 1)"

definition no_tombstones :: "umap \<Rightarrow> u64 \<Rightarrow> bool" where
  "no_tombstones m h \<longleftrightarrow>
     (\<forall>i < shift_last m h. bucket_of m h \<le> i + 31 \<longrightarrow> \<not> deleted (ht_m m ! i))"

lemma clean_no_tombstones:
  assumes "um_wf m" "clean m"
  shows "no_tombstones m h"
proof -
  have "shift_last m h \<le> length (ht_m m)"
    using um_wf_length [OF assms(1)] by (simp add: shift_last_def)
  then show ?thesis using assms(2) by (auto simp: no_tombstones_def clean_def)
qed

lemma try_shift_unfold:
  assumes wf: "um_wf m" and small: "entry_nr_bits_m m \<le> 32"
  shows "try_shift m h =
    (case first_empty_loop m (bucket_of m h + 32) (shift_last m h - (bucket_of m h + 32)) of
       None \<Rightarrow> (m, ENOSPC, None)
     | Some f \<Rightarrow> try_shift_loop m (bucket_of m h) f (f + 1 - 32))"
proof -
  have "bucket_of m h < 2 ^ 32"
    using bucket_of_less [of m h] power_increasing [OF small, of "2::nat"] by linarith
  then have b: "unat (ucast (hash_to_hb m h) :: u32) = bucket_of m h"
    by (simp add: unsigned_ucast_eq take_bit_eq_mod unat_hash_to_hb [OF wf])
  have "unat (entry_nr_m m - 32 - 1) = 2 ^ entry_nr_bits_m m - 1"
  proof -
    have "(1::u64) \<le> 2 ^ entry_nr_bits_m m"
      using um_wf_bits [OF wf] by (simp add: word_le_nat_alt unat_exp_less)
    then show ?thesis
      using um_wf_bits [OF wf] by (simp add: entry_nr_word [OF wf] unat_sub_no_wrap unat_exp_less)
  qed
  then show ?thesis
    unfolding try_shift_def Let_def BUCKET_SIZE_simp HOP_MAX_simp b shift_last_def of_nat_numeral by simp
qed

definition bucket_full :: "umap \<Rightarrow> u64 \<Rightarrow> bool" where
  "bucket_full m h \<longleftrightarrow> (\<forall>i < bucket_of m h + 32. bucket_of m h \<le> i \<longrightarrow> \<not> free_slot m i)"

lemma bucket_full_lookup:
  assumes "um_inv m" "fst (um_lookup m h) = ENOSPC"
  shows "bucket_full m h"
  using assms(2) um_lookup_rc [OF assms(1), of h] by (auto simp: bucket_full_def split: if_splits)

lemma bucket_full_next_free:
  assumes inv: "um_inv m" and small: "entry_nr_bits_m m \<le> 32" and nf: "um_next_free m h = (rc, None)"
  shows "bucket_full m h"
proof -
  have "bucket_of m h < 2 ^ 32"
    using bucket_of_less [of m h] power_increasing [OF small, of "2::nat"] by linarith
  then have "unat (ucast (hash_to_hb m h) :: u32) = bucket_of m h"
    by (simp add: unsigned_ucast_eq take_bit_eq_mod unat_hash_to_hb [OF um_invD(1) [OF inv]])
  then have "find_from (free_slot m) (bucket_of m h) 32 = None"
    using nf by (auto simp: um_next_free_def Let_def next_free_loop_find split: option.splits)
  then show ?thesis by (simp add: bucket_full_def find_from_None_iff)
qed

lemma try_shift_inv:
  assumes inv: "um_inv m" and small: "entry_nr_bits_m m \<le> 32" and full: "bucket_full m h"
    and nt: "no_tombstones m h" and r: "try_shift m h = (m', rc, he)"
  shows "content m' = content m \<and> entry_nr_bits_m m' = entry_nr_bits_m m \<and> (clean m \<longrightarrow> clean m')"
    "rc = E_OK \<Longrightarrow> \<exists>c. he = Some c \<and> um_hole m' c \<and> insertable m' h c"
    "rc \<noteq> E_OK \<Longrightarrow> rc = ENOSPC \<and> he = None"
proof -
  note wf = um_invD(1) [OF inv]
  let ?b = "bucket_of m h" and ?l = "shift_last m h"
  have bucket: "\<not> free_slot m i" if "?b \<le> i" "i < ?b + 32" for i
    using full that by (simp add: bucket_full_def)
  show "content m' = content m \<and> entry_nr_bits_m m' = entry_nr_bits_m m \<and> (clean m \<longrightarrow> clean m')"
    and "rc = E_OK \<Longrightarrow> \<exists>c. he = Some c \<and> um_hole m' c \<and> insertable m' h c"
    and "rc \<noteq> E_OK \<Longrightarrow> rc = ENOSPC \<and> he = None"
  proof (atomize (full), cases "first_empty_loop m (?b + 32) (?l - (?b + 32))")
    case None
    then show "(content m' = content m \<and> entry_nr_bits_m m' = entry_nr_bits_m m \<and> (clean m \<longrightarrow> clean m')) \<and>
      (rc = E_OK \<longrightarrow> (\<exists>c. he = Some c \<and> um_hole m' c \<and> insertable m' h c)) \<and>
      (rc \<noteq> E_OK \<longrightarrow> rc = ENOSPC \<and> he = None)"
      using r try_shift_unfold [OF wf small, of h] by auto
  next
    case (Some f)
    then have f: "?b + 32 \<le> f" "f < ?l" "(\<not> used (ht_m m ! f)) \<noteq> deleted (ht_m m ! f)"
      "\<And>j. ?b + 32 \<le> j \<Longrightarrow> j < f \<Longrightarrow> (\<not> used (ht_m m ! j)) = deleted (ht_m m ! j)"
      by (auto simp: first_empty_loop_find find_from_Some_iff)
    have del: "\<not> deleted (ht_m m ! i)" if "?b \<le> i + 31" "i < ?l" for i
      using nt that by (simp add: no_tombstones_def)
    have usd: "used (ht_m m ! i)" if "?b \<le> i" "i < f" for i
      using bucket [of i] f(4) [of i] del [of i] that f(2)
      by (cases "i < ?b + 32") (auto simp: free_slot_def)
    have "?l \<le> unat (entry_nr_m m) - 33" by (simp add: shift_last_def um_wf_nr [OF wf])
    moreover have "\<not> used (ht_m m ! f)" using f del [of f] by simp
    ultimately have s: "shift_inv m ?b ?l f"
      using um_inv_hole [OF inv] small f(1,2) usd del by (simp add: shift_inv_def)
    have loop: "try_shift_loop m ?b f (f + 1 - 32) = (m', rc, he)"
      using r try_shift_unfold [OF wf small, of h] Some by simp
    from try_shift_loop_inv [OF s loop] obtain c where
      c: "content m' = content m" "entry_nr_bits_m m' = entry_nr_bits_m m" "shift_inv m' ?b ?l c" "clean m \<longrightarrow> clean m'"
        "rc = E_OK \<and> he = Some c \<and> c < ?b + 32 \<or> rc = ENOSPC \<and> he = None" by blast
    have "bucket_of m' h = ?b" using c(2) by (simp add: bucket_of_def)
    then have "c < ?b + 32 \<Longrightarrow> insertable m' h c"
      using c(3) by (auto simp: insertable_def shift_inv_def free_slot_def)
    then show "(content m' = content m \<and> entry_nr_bits_m m' = entry_nr_bits_m m \<and> (clean m \<longrightarrow> clean m')) \<and>
      (rc = E_OK \<longrightarrow> (\<exists>c. he = Some c \<and> um_hole m' c \<and> insertable m' h c)) \<and>
      (rc \<noteq> E_OK \<longrightarrow> rc = ENOSPC \<and> he = None)"
      using c by (auto simp: shift_inv_def)
  qed
qed

end
