(* ===== verification/Hop_Locks.thy ===== *)
theory Hop_Locks
  imports Hop_Map_Inv
begin

section \<open>Lock ranges of the hopscotch table\<close>

text \<open>
  An operation on hash \<open>h\<close> holds the one or two lock stripes that \<open>lock_common\<close>
  selects.  The slots it may read or write are the home bucket and, through
  \<open>try_shift\<close>, the displacement window and the buckets of the entries in it.  The
  lemmas show that two operations whose slots may overlap share a lock stripe, for
  every lock layout that \<open>restore\<close> sets up from a power-of-two number of locks.
\<close>

definition locks_of :: "umap \<Rightarrow> u64 \<Rightarrow> nat list" where
  "locks_of m h = (case lock_common m h of (l1, l2) \<Rightarrow> unat l1 # (case l2 of None \<Rightarrow> [] | Some l \<Rightarrow> [unat l]))"

definition touched :: "umap \<Rightarrow> u64 \<Rightarrow> nat \<Rightarrow> bool" where
  "touched m h i \<longleftrightarrow> bucket_of m h \<le> i + 31 \<and>
     (i < bucket_of m h + 32 \<or> i < min (bucket_of m h + 2048) (2 ^ entry_nr_bits_m m - 1) + 31)"

definition locks_wf :: "umap \<Rightarrow> bool" where
  "locks_wf m \<longleftrightarrow> um_wf m \<and> unat (entry_per_lock_nr_m m) \<le> unat (entry_nr_m m)
     \<and> (entry_per_lock_nr_m m = entry_nr_m m \<or> 2112 \<le> unat (entry_per_lock_nr_m m))"

lemma locks_of_nat:
  fixes m :: umap and h :: u64
  assumes "locks_wf m"
  defines "epl \<equiv> unat (entry_per_lock_nr_m m)" and "b \<equiv> bucket_of m h"
  shows "locks_of m h = (b - 32) div epl #
    (if ((b - 32) div epl + 1) * epl \<le> min (b + 2080) (2 ^ entry_nr_bits_m m - 1)
     then [(b - 32) div epl + 1] else [])"
proof -
  let ?k = "entry_nr_bits_m m" and ?first = "hash_to_hb m h" and ?e = "entry_per_lock_nr_m m"
  have wf: "um_wf m" using assms by (simp add: locks_wf_def)
  have k: "?k < 56" using um_wf_bits [OF wf] .
  have pow: "(2::nat) ^ ?k \<le> 2 ^ 55" using k by (intro power_increasing) auto
  have ep: "32 < epl" "epl \<le> 2 ^ ?k + 32"
    using assms(1) um_wf_nr [OF wf] by (auto simp: locks_wf_def epl_def)
  have bl: "b < 2 ^ ?k" by (simp add: b_def bucket_of_less)
  have first: "unat ?first = b" by (simp add: b_def unat_hash_to_hb [OF wf])
  have slb: "unat (lock_slb m ?first) = (b - 32) div epl"
  proof (cases "32 \<le> b")
    case True
    then have "unat (?first - 32) = b - 32"
      using unat_sub_no_wrap [of 32 ?first] first by (simp add: word_le_nat_alt)
    then show ?thesis using True first by (simp add: lock_slb_def word_le_nat_alt unat_div epl_def)
  next
    case False
    then show ?thesis using first ep by (simp add: lock_slb_def word_le_nat_alt unat_div epl_def)
  qed
  have small: "(b - 32) div epl * epl \<le> b" by (metis div_times_less_eq_dividend diff_le_self le_trans)
  have slb_le: "(b - 32) div epl \<le> b" by (metis div_le_dividend diff_le_self le_trans)
  have s1: "unat (lock_slb m ?first + 1) = (b - 32) div epl + 1"
    using slb slb_le bl pow unat_add_no_wrap [of "lock_slb m ?first" 1] by simp
  have mult: "((b - 32) div epl + 1) * epl < 2 ^ 64" using small bl ep pow by simp
  have l1: "unat ((lock_slb m ?first + 1) * ?e) = ((b - 32) div epl + 1) * epl"
    using unat_mult_no_wrap [of "lock_slb m ?first + 1" ?e] mult unfolding s1 epl_def by simp
  have l2: "unat (min (?first + 2080) (entry_nr_m m - 32 - 1)) = min (b + 2080) (2 ^ ?k - 1)"
  proof -
    have a: "unat (?first + 2080) = b + 2080"
      using first bl pow unat_add_no_wrap [of ?first 2080] by simp
    have "(1::u64) \<le> 2 ^ ?k" using k by (simp add: word_le_nat_alt unat_exp_less)
    then have c: "unat (entry_nr_m m - 32 - 1) = 2 ^ ?k - 1"
      using k by (simp add: entry_nr_word [OF wf] unat_sub_no_wrap unat_exp_less)
    show ?thesis by (simp only: min_def word_le_nat_alt a c if_distrib [of unat])
  qed
  have "(lock_slb m ?first + 1) * ?e \<le> min (?first + 2080) (entry_nr_m m - 32 - 1) \<longleftrightarrow>
      ((b - 32) div epl + 1) * epl \<le> min (b + 2080) (2 ^ ?k - 1)"
    unfolding word_le_nat_alt l1 l2 ..
  then show ?thesis by (simp add: locks_of_def lock_common_def Let_def slb s1)
qed

lemma locks_overlap_ordered:
  assumes wf: "locks_wf m" and o: "touched m h1 i" "touched m h2 i" and le: "bucket_of m h1 \<le> bucket_of m h2"
  shows "set (locks_of m h1) \<inter> set (locks_of m h2) \<noteq> {}"
proof -
  define e where "e = unat (entry_per_lock_nr_m m)"
  define x1 where "x1 = bucket_of m h1 - 32"
  define x2 where "x2 = bucket_of m h2 - 32"
  have b2: "bucket_of m h2 < 2 ^ entry_nr_bits_m m" by (rule bucket_of_less)
  have e: "e = 2 ^ entry_nr_bits_m m + 32 \<or> 2112 \<le> e"
    using wf by (auto simp: locks_wf_def e_def dest: um_wf_nr)
  have e0: "0 < e" using e by auto
  have x: "x1 \<le> x2" "x2 \<le> bucket_of m h1 + 2077" using o le by (auto simp: touched_def x1_def x2_def)
  note l1 = locks_of_nat [OF wf, of h1, folded e_def x1_def]
    and l2 = locks_of_nat [OF wf, of h2, folded e_def x2_def]
  have d: "x1 div e \<le> x2 div e" using x by (simp add: div_le_mono)
  show ?thesis
  proof (cases "x2 < (x1 div e + 1) * e")
    case True
    then have "x2 div e < x1 div e + 1" by (rule less_mult_imp_div_less)
    then show ?thesis using d l1 l2 by simp
  next
    case False
    then have ge: "(x1 div e + 1) * e \<le> x2" by simp
    have "x1 < (x1 div e + 1) * e" using e0 by (simp add: dividend_less_div_times)
    have "e \<noteq> 2 ^ entry_nr_bits_m m + 32"
    proof
      assume "e = 2 ^ entry_nr_bits_m m + 32"
      then have "x2 < e" using b2 by (simp add: x2_def)
      then show False using ge by simp
    qed
    then have e2: "2112 \<le> e" using e by blast
    have "x2 < (x1 div e + 2) * e"
      using x(2) \<open>x1 < (x1 div e + 1) * e\<close> e2 by (simp add: x1_def add_mult_distrib)
    then have "x2 div e < x1 div e + 2" by (rule less_mult_imp_div_less)
    moreover have "x1 div e + 1 \<le> x2 div e" using ge e0 by (simp add: less_eq_div_iff_mult_less_eq)
    ultimately have "x2 div e = x1 div e + 1" by simp
    moreover have "(x1 div e + 1) * e \<le> min (bucket_of m h1 + 2080) (2 ^ entry_nr_bits_m m - 1)"
      using ge x b2 by (simp add: x2_def)
    ultimately show ?thesis using l1 l2 by simp
  qed
qed

lemma locks_overlap:
  assumes "locks_wf m" "touched m h1 i" "touched m h2 i"
  shows "set (locks_of m h1) \<inter> set (locks_of m h2) \<noteq> {}"
  using locks_overlap_ordered [OF assms] locks_overlap_ordered [OF assms(1,3,2)]
  by (metis Int_commute nat_le_linear)

text \<open>The layouts that \<open>restore\<close> chooses.\<close>

lemma restore_locks_pow2:
  assumes "restore_locks nr (2 ^ j) = Some (l, e)" "j < 32"
  shows "\<exists>i \<le> j. l = 2 ^ i"
  using assms
proof (induction j)
  case 0
  then show ?case by (simp add: restore_locks.simps)
next
  case (Suc j)
  have one: "(2 ^ Suc j :: u32) \<noteq> 1"
  proof
    assume "(2 ^ Suc j :: u32) = 1"
    then have "unat (2 ^ Suc j :: u32) = 1" by simp
    then show False using Suc.prems(2) by (simp add: unat_exp_less del: power_Suc)
  qed
  have half: "(2 ^ Suc j :: u32) div 2 = 2 ^ j"
    unfolding word_unat_eq_iff unat_div using Suc.prems(2) by (simp add: unat_exp_less del: power_Suc) simp
  show ?case
    using Suc.prems Suc.IH one half
    by (subst (asm) restore_locks.simps) (auto simp: Let_def simp del: power_Suc split: if_splits intro: le_SucI)
qed

lemma ceil_div_pow2_gap:
  assumes "2080 \<le> ((2::nat) ^ k + 32 + 2 ^ i - 1) div 2 ^ i" "0 < i"
  shows "2112 \<le> ((2::nat) ^ k + 32 + 2 ^ i - 1) div 2 ^ i"
proof -
  let ?q = "((2::nat) ^ k + 32 + 2 ^ i - 1) div 2 ^ i"
  have up: "2 ^ i * ?q < 2 ^ k + 32 + 2 ^ i" using ceil_div_bounds(2) [of "2 ^ i" "2 ^ k + 32"] by simp
  have "2 ^ i * 2080 \<le> 2 ^ i * ?q" using assms(1) by simp
  then have "2 ^ i * 2079 < (2::nat) ^ k + 32" using up by linarith
  moreover have "(2::nat) \<le> 2 ^ i" using assms(2) self_le_power [of 2 i] by simp
  ultimately have gt: "2 ^ i * 2048 < (2::nat) ^ k" by linarith
  then have "(2::nat) ^ (i + 11) < 2 ^ k" by (simp add: power_add)
  then have "i + 11 < k" by (rule power_less_imp_less_exp [rotated]) simp
  then have "(2::nat) ^ (i + 12) \<le> 2 ^ k" by (intro power_increasing) auto
  then have "4096 * 2 ^ i \<le> (2::nat) ^ k + 32 + 2 ^ i - 1" by (simp add: power_add)
  then have "4096 \<le> ?q" by (simp add: less_eq_div_iff_mult_less_eq)
  then show ?thesis by simp
qed

lemma um_restore_locks:
  "um_restore m l sz ht = Some (m', E_OK) \<Longrightarrow>
    restore_locks (entry_nr_m m') l = Some (lock_nr_m m', entry_per_lock_nr_m m')"
  by (auto simp: um_restore_def Let_def split: option.splits if_splits)

lemma um_restore_locks_wf:
  assumes sz: "264 \<le> unat sz" "unat sz < 2 ^ 58" and j: "j < 32" and len: "length ht = unat sz div 8"
    and r: "um_restore m (2 ^ j) sz (Some ht) = Some (m', rc)"
  shows "rc = E_OK" "locks_wf m'"
proof -
  have "unat (2 ^ j :: u32) \<noteq> 0" using j by (simp add: unat_exp_less)
  then have nz: "(2 ^ j :: u32) \<noteq> 0" by (metis unat_0)
  obtain m'' where m'': "um_restore m (2 ^ j) sz (Some ht) = Some (m'', E_OK)" "um_wf m''"
    "lock_nr_m m'' = 1 \<and> entry_per_lock_nr_m m'' = entry_nr_m m'' \<or>
     2080 \<le> entry_per_lock_nr_m m'' \<and>
       entry_per_lock_nr_m m'' = udiv_round_up (entry_nr_m m'') (ucast (lock_nr_m m''))"
    using um_restore_wf [OF sz nz len, of m] by metis
  then have same: "m' = m''" "rc = E_OK" using r by auto
  then show "rc = E_OK" by simp
  note wf = m''(2) [folded same(1)] and alt = m''(3) [folded same(1)]
  obtain i where i: "i \<le> j" "lock_nr_m m' = 2 ^ i"
    using restore_locks_pow2 [OF um_restore_locks j] m''(1) same by metis
  show "locks_wf m'"
  proof (cases "lock_nr_m m' = 1 \<and> entry_per_lock_nr_m m' = entry_nr_m m'")
    case True
    then show ?thesis using wf by (simp add: locks_wf_def)
  next
    case False
    let ?k = "entry_nr_bits_m m'"
    have e: "2080 \<le> entry_per_lock_nr_m m'" "entry_per_lock_nr_m m' = udiv_round_up (entry_nr_m m') (ucast (2 ^ i :: u32))"
      using alt False i by auto
    have ui: "unat (ucast (2 ^ i :: u32) :: u64) = 2 ^ i" using i j by (simp add: unat_ucast_up unat_exp_less)
    have pi: "(2::nat) ^ i \<le> 2 ^ 31" using i j by (intro power_increasing) auto
    have pk: "(2::nat) ^ ?k \<le> 2 ^ 55" using um_wf_bits [OF wf] by (intro power_increasing) auto
    have "unat (ucast (2 ^ i :: u32) :: u64) \<noteq> 0" using ui by simp
    then have d: "(ucast (2 ^ i :: u32) :: u64) \<noteq> 0" by (metis unat_0)
    have ue: "unat (entry_per_lock_nr_m m') = (2 ^ ?k + 32 + 2 ^ i - 1) div 2 ^ i"
      unfolding e(2)
      using unat_udiv_round_up [OF d, of "entry_nr_m m'"] ui um_wf_nr [OF wf] pi pk by simp
    show ?thesis
    proof (cases "i = 0")
      case True
      then have "unat (entry_per_lock_nr_m m') = unat (entry_nr_m m')" using ue um_wf_nr [OF wf] by simp
      then have "entry_per_lock_nr_m m' = entry_nr_m m'" by (metis word_unat_eq_iff)
      then show ?thesis using wf by (simp add: locks_wf_def)
    next
      case False
      have "2080 \<le> unat (entry_per_lock_nr_m m')" using e(1) by (simp add: word_le_nat_alt)
      then have "2112 \<le> unat (entry_per_lock_nr_m m')" using ceil_div_pow2_gap False unfolding ue by simp
      moreover have "(2 ^ ?k + 32 + 2 ^ i - 1) div 2 ^ i \<le> (2::nat) ^ ?k + 32"
      proof -
        have "1 * ((2::nat) ^ ?k + 32) \<le> 2 ^ i * (2 ^ ?k + 32)" by (intro mult_le_mono1) simp
        then have "(2::nat) ^ ?k + 32 + 2 ^ i - 1 < (2 ^ ?k + 33) * 2 ^ i"
          by (simp add: algebra_simps)
        then have "((2::nat) ^ ?k + 32 + 2 ^ i - 1) div 2 ^ i < 2 ^ ?k + 33" by (rule less_mult_imp_div_less)
        then show ?thesis by simp
      qed
      ultimately show ?thesis using wf um_wf_nr [OF wf] by (simp add: locks_wf_def ue)
    qed
  qed
qed

end
