(* ===== verification/Hop_Walk.thy ===== *)
theory Hop_Walk
  imports Hop_Map_Inv
begin

section \<open>Walking the entries that match a hash\<close>


text \<open>The loop around \<open>lookup\<close> and \<open>next\<close> in the callers, from the entry found first.\<close>

function um_walk :: "umap \<Rightarrow> nat option \<Rightarrow> u64 \<Rightarrow> nat list" where
  "um_walk m he h = (case he of None \<Rightarrow> [] | Some i \<Rightarrow> i # um_walk m (um_next m (Some i) h) h)"
  by pat_completeness auto
termination
proof (relation "measure (\<lambda>(m, he, h). case he of None \<Rightarrow> 0
    | Some i \<Rightarrow> Suc (unat (hash_to_hb m h) + 32 - i))", simp)
  show "((m, um_next m (Some i) h, h), m, he, h) \<in> measure (\<lambda>(m, he, h). case he of None \<Rightarrow> 0
    | Some i \<Rightarrow> Suc (unat (hash_to_hb m h) + 32 - i))" if "he = Some i" for m he h i
    using that um_next_bounds [of m i h] by (cases "um_next m (Some i) h") fastforce+
qed

declare um_walk.simps [simp del]

definition um_find_all :: "umap \<Rightarrow> u64 \<Rightarrow> nat list" where
  "um_find_all m h = (case um_lookup m h of (rc, he) \<Rightarrow> if rc = E_OK then um_walk m he h else [])"

lemma filter_upt_next:
  assumes "i < q" "P q" "\<forall>j. i < j \<and> j < q \<longrightarrow> \<not> P j" "q < n"
  shows "filter P [Suc i..<n] = q # filter P [Suc q..<n]"
proof -
  have "[Suc i..<n] = [Suc i..<q] @ q # [Suc q..<n]"
    using assms upt_add_eq_append [of "Suc i" q "n - q"] by (simp add: upt_conv_Cons)
  then show ?thesis using assms by (auto simp: filter_empty_conv)
qed

lemma um_walk_filter:
  assumes inv: "um_inv m" and i: "bucket_of m h \<le> i" "matches m h i"
  shows "um_walk m (Some i) h = i # filter (matches m h) [Suc i..<unat (entry_nr_m m)]"
  using i
proof (induction "bucket_of m h + 32 - i" arbitrary: i rule: less_induct)
  case less
  let ?n = "unat (entry_nr_m m)"
  show ?case
  proof (cases "um_next m (Some i) h")
    case None
    then have "\<forall>j>i. \<not> matches m h j" by (simp add: um_next_None [OF inv less.prems(1)])
    then have "filter (matches m h) [Suc i..<?n] = []" by (auto simp: filter_empty_conv)
    then show ?thesis using None by (simp add: um_walk.simps [of m "Some i"] um_walk.simps [of m None])
  next
    case (Some q)
    then have q: "i < q" "matches m h q" "\<forall>j. i < j \<and> j < q \<longrightarrow> \<not> matches m h j"
      by (simp_all add: um_next_Some [OF inv less.prems(1)])
    have qn: "q < ?n" using q(2) by (simp add: matches_def live_def)
    have "bucket_of m h + 32 - q < bucket_of m h + 32 - i"
      using q(1) matches_bucket(2) [OF inv q(2)] by simp
    then have "um_walk m (Some q) h = q # filter (matches m h) [Suc q..<?n]"
      using less.hyps less.prems(1) q by simp
    then show ?thesis
      using Some filter_upt_next [OF q qn] by (simp add: um_walk.simps [of m "Some i"])
  qed
qed

lemma um_find_all_filter:
  assumes inv: "um_inv m"
  shows "um_find_all m h = filter (matches m h) [0..<unat (entry_nr_m m)]"
proof (cases "\<exists>p. matches m h p")
  case True
  define p where "p = (LEAST p. matches m h p)"
  have p: "matches m h p" "\<forall>j<p. \<not> matches m h j"
    using True by (auto simp: p_def intro: LeastI dest: not_less_Least)
  then have l: "um_lookup m h = (E_OK, Some p)" by (simp add: um_lookup_found_iff [OF inv])
  have "p < unat (entry_nr_m m)" using p(1) by (simp add: matches_def live_def)
  then have "[0..<unat (entry_nr_m m)] = [0..<p] @ p # [Suc p..<unat (entry_nr_m m)]"
    using upt_add_eq_append [of 0 p "unat (entry_nr_m m) - p"] by (simp add: upt_conv_Cons)
  moreover have "filter (matches m h) [0..<p] = []" using p(2) by (auto simp: filter_empty_conv)
  ultimately show ?thesis
    using um_walk_filter [OF inv matches_bucket(1) [OF inv p(1)] p(1)] p(1)
    by (simp add: um_find_all_def l)
next
  case False
  then have "fst (um_lookup m h) \<noteq> E_OK" by (simp add: um_lookup_rc [OF inv])
  then show ?thesis using False by (auto simp: um_find_all_def filter_empty_conv split: prod.splits)
qed

end
