(* ===== verification/Hop_Props.thy ===== *)
theory Hop_Props
  imports Hop_Shift Hop_Locks Hop_Walk
begin

section \<open>Properties of the hopscotch table\<close>

text \<open>
  The correctness statements of the table, each with a concrete table on which it is
  applied: \<open>ex_empty\<close> is a small empty table, \<open>ex_one\<close> holds one entry and \<open>ex_full\<close>
  has a full first bucket.
\<close>

subsection \<open>Example tables\<close>

lemma um_inv_flat:
  assumes "um_wf m"
    "\<forall>i < unat (entry_nr_m m). used (ht_m m ! i) \<longrightarrow> bucket_offset (ht_m m ! i) = 0 \<and> i < 2 ^ entry_nr_bits_m m"
  shows "um_inv m"
  using assms by (auto simp: um_inv_def slot_ok_def home_def live_def)

definition ex_empty :: umap where
  "ex_empty = um_new\<lparr>entry_nr_m := 34, ht_m := replicate 34 erased_entry, size_m := 272,
     entry_per_lock_nr_m := 34, lock_nr_m := 1, entry_nr_bits_m := 1\<rparr>"

definition ex_one :: umap where
  "ex_one = um_insert ex_empty 1 5 3 77"

definition ex_entry :: "nat \<Rightarrow> hash_entry" where
  "ex_entry i = \<lparr>bucket_offset = 0, key_tag = 1, kv_size = 1, pba = of_nat i\<rparr>"

definition ex_full :: umap where
  "ex_full = um_new\<lparr>entry_nr_m := 96, ht_m := map ex_entry [0..<32] @ replicate 64 erased_entry,
     size_m := 768, entry_per_lock_nr_m := 96, lock_nr_m := 1, entry_nr_bits_m := 6\<rparr>"

text \<open>A tombstone in slot 0 and a live entry of the same bucket in slot 1.\<close>

definition ex_pair :: umap where
  "ex_pair = um_new\<lparr>entry_nr_m := 33, ht_m := [\<lparr>bucket_offset = 0, key_tag = 1, kv_size = 0, pba = 7\<rparr>,
       \<lparr>bucket_offset = 1, key_tag = 2, kv_size = 1, pba = 9\<rparr>] @ replicate 31 erased_entry,
     size_m := 264, entry_per_lock_nr_m := 33, lock_nr_m := 1, entry_nr_bits_m := 0\<rparr>"

lemma ex_empty_inv: "um_inv ex_empty"
  by (rule um_inv_flat) (simp_all add: ex_empty_def um_new_def um_wf_def erased_entry_free)

lemma ex_empty_insertable: "insertable ex_empty 5 1"
  by (simp add: insertable_def bucket_of_def ex_empty_def um_new_def free_slot_def erased_entry_free)

lemma valid_pba_77: "valid_pba 77" by (simp add: valid_pba_def)

lemma ex_one_inv: "um_inv ex_one"
  unfolding ex_one_def by (rule um_insert_inv [OF um_inv_hole [OF ex_empty_inv] ex_empty_insertable valid_pba_77])

lemma ex_one_matches: "matches ex_one h i \<longleftrightarrow> i = 1 \<and> hash_to_keyfp ex_empty h = hash_to_keyfp ex_empty 5"
proof -
  have "\<not> matches ex_empty h j" for j
    by (auto simp: matches_def live_def ex_empty_def um_new_def erased_entry_free)
  then show ?thesis
    using um_insert_matches [OF um_invD(1) [OF ex_empty_inv] ex_empty_insertable valid_pba_77, of 3 h i]
    by (simp add: ex_one_def)
qed

lemma ex_full_nth: "i < 96 \<Longrightarrow> ht_m ex_full ! i = (if i < 32 then ex_entry i else erased_entry)"
  by (simp add: ex_full_def um_new_def nth_append)

lemma ex_entry_flags: "i < 32 \<Longrightarrow> used (ex_entry i)" "\<not> deleted (ex_entry i)"
proof -
  assume "i < 32"
  then have "unat (of_nat i :: 39 word) = i" by (intro unat_of_nat_small) simp
  moreover have "unat (- 1 :: 39 word) = 549755813887"
    by (simp add: unsigned_minus_1_eq_mask mask_eq_exp_minus_1)
  ultimately have "unat (of_nat i :: 39 word) \<noteq> unat (- 1 :: 39 word)" using \<open>i < 32\<close> by simp
  then show "used (ex_entry i)" by (auto simp: used_iff ex_entry_def)
qed (simp add: deleted_iff ex_entry_def)

lemma ex_full_geometry: "entry_nr_m ex_full = 96" "entry_nr_bits_m ex_full = 6" "length (ht_m ex_full) = 96"
  by (simp_all add: ex_full_def um_new_def)

lemma ex_full_inv: "um_inv ex_full"
  by (rule um_inv_flat)
    (auto simp: um_wf_def ex_full_geometry ex_full_nth ex_entry_def erased_entry_free)

lemma ex_full_clean: "clean ex_full"
  by (auto simp: clean_def ex_full_def um_new_def ex_entry_flags erased_entry_free)

lemma ex_full_lookup: "fst (um_lookup ex_full 0) = ENOSPC"
proof -
  have "\<not> matches ex_full 0 i" for i
    by (cases "i < 32")
      (auto simp: matches_def live_def ex_full_geometry ex_full_nth ex_entry_def erased_entry_free)
  moreover have "\<not> free_slot ex_full i" if "i < 32" for i
    using that by (simp add: free_slot_def ex_full_nth ex_entry_flags)
  moreover have "bucket_of ex_full 0 = 0" by (simp add: bucket_of_def)
  ultimately show ?thesis by (simp add: um_lookup_rc [OF ex_full_inv])
qed

lemma ex_pair_nth:
  "i < 33 \<Longrightarrow> ht_m ex_pair ! i = (if i = 0 then \<lparr>bucket_offset = 0, key_tag = 1, kv_size = 0, pba = 7\<rparr>
     else if i = 1 then \<lparr>bucket_offset = 1, key_tag = 2, kv_size = 1, pba = 9\<rparr> else erased_entry)"
  by (auto simp: ex_pair_def um_new_def nth_Cons split: nat.splits)

lemma ex_pair_geometry: "entry_nr_m ex_pair = 33" "entry_nr_bits_m ex_pair = 0" "length (ht_m ex_pair) = 33"
  by (simp_all add: ex_pair_def um_new_def)

lemma ex_pair_inv: "um_inv ex_pair"
  unfolding um_inv_def um_wf_def slot_ok_def home_def live_def
  by (auto simp: ex_pair_geometry ex_pair_nth used_iff deleted_iff erased_entry_simps)

lemma ex_pair_matches: "matches ex_pair 2 i \<longleftrightarrow> i = 1"
  by (cases "i < 33")
    (auto simp: matches_def live_def home_def bucket_of_def ex_pair_geometry ex_pair_nth used_iff deleted_iff erased_entry_simps)

subsection \<open>The properties\<close>

text \<open>
  C28: \<open>lookup\<close> on a table that satisfies the invariant returns 0 and the first slot that
  holds a live entry of the hash's bucket and tag exactly when there is one; otherwise it
  returns ENODATA with a slot that may take the new entry, or ENOSPC when every slot of
  the bucket is live.
\<close>

theorem lookup_outcomes:
  assumes "um_inv m"
  shows "case um_lookup m h of (rc, he) \<Rightarrow>
    (rc = E_OK \<and> (\<exists>p. he = Some p \<and> matches m h p \<and> (\<forall>j<p. \<not> matches m h j)))
    \<or> (rc = ENODATA \<and> (\<forall>j. \<not> matches m h j) \<and> (\<exists>c. he = Some c \<and> insertable m h c))
    \<or> (rc = ENOSPC \<and> (\<forall>j. \<not> matches m h j) \<and>
        (\<forall>j. bucket_of m h \<le> j \<and> j < bucket_of m h + 32 \<longrightarrow> live m j))"
proof -
  obtain rc he where l: "um_lookup m h = (rc, he)" by force
  note rc = um_lookup_rc [OF assms, of h]
  consider (hit) p where "rc = E_OK" "he = Some p" | (free) c where "rc = ENODATA" "he = Some c"
    | (full) "rc = ENOSPC" using um_lookup_cases [OF l] by auto
  then show ?thesis
  proof cases
    case hit
    then show ?thesis using l um_lookup_found_iff [OF assms, of h p] by simp
  next
    case free
    then have "\<forall>j. \<not> matches m h j" using l rc by (auto split: if_splits)
    then show ?thesis using l free insertable_candidate [OF assms, of h c] by simp
  next
    case full
    then have no: "\<forall>j. \<not> matches m h j"
      and fs: "\<forall>j. bucket_of m h \<le> j \<and> j < bucket_of m h + 32 \<longrightarrow> \<not> free_slot m j"
      using l rc by (auto split: if_splits)
    have "live m j" if "bucket_of m h \<le> j" "j < bucket_of m h + 32" for j
      using fs that bucket_in_table(1) [OF um_invD(1) [OF assms] that(2)] by (simp add: free_slot_def live_def)
    then show ?thesis using l full no by simp
  qed
qed

theorem lookup_outcomes_witness:
  "um_inv ex_one \<and> um_lookup ex_one 5 = (E_OK, Some 1) \<and> matches ex_one 5 1"
  using lookup_outcomes [OF ex_one_inv, of 5] ex_one_inv by (auto simp: ex_one_matches split: prod.splits)

text \<open>
  Walking the table with \<open>lookup\<close> and then \<open>next\<close> visits every live entry with the
  hash's bucket and tag, in slot order, each once.
\<close>

lemma walk_visits_all:
  assumes "um_inv m"
  shows "um_find_all m h = filter (matches m h) [0..<unat (entry_nr_m m)]"
  by (rule um_find_all_filter [OF assms])

lemma walk_visits_all_witness: "um_inv ex_one \<and> um_find_all ex_one 5 = [1]"
proof -
  have "unat (entry_nr_m ex_one) = 34"
    by (simp add: ex_one_def um_insert_def um_update_def Let_def ex_empty_def um_new_def)
  moreover have "filter (matches ex_one 5) [0..<34] = [1]"
    by (simp add: ex_one_matches upt_conv_Cons)
  ultimately show ?thesis using walk_visits_all [OF ex_one_inv, of 5] ex_one_inv by simp
qed

text \<open>
  C29: inserting at the slot that a failed \<open>lookup\<close> returned keeps the table invariant and
  adds exactly one entry, with the hash's bucket and tag, to the table's contents.
\<close>

theorem insert_after_lookup:
  assumes "um_inv m" "um_lookup m h = (ENODATA, Some c)" "valid_pba a" "kvs \<noteq> 0"
  shows "um_inv (um_insert m c h kvs a) \<and>
    content (um_insert m c h kvs a) =
      add_mset (bucket_of m h, ucast (hash_to_keytag m h), ucast (min kvs MAX_KV_SIZE), ucast a) (content m)"
  using um_insert_inv [OF um_inv_hole [OF assms(1)] insertable_candidate [OF assms(1,2)] assms(3)]
    content_insert [OF um_invD(1) [OF assms(1)] insertable_candidate [OF assms(1,2)] assms(3,4)]
  by simp

theorem insert_after_lookup_witness:
  "um_inv ex_empty \<and> um_lookup ex_empty 5 = (ENODATA, Some 1) \<and> content ex_empty = {#} \<and> um_inv ex_one
   \<and> content ex_one = {#(1, 2, 3, 77)#}"
proof -
  have l: "um_lookup ex_empty 5 = (ENODATA, Some 1)" by code_simp
  have "live_slots ex_empty = []"
    by (auto simp: live_slots_def filter_empty_conv live_def ex_empty_def um_new_def erased_entry_free)
  then have e: "content ex_empty = {#}" by (simp add: content_def)
  have b: "bucket_of ex_empty 5 = 1" "hash_to_keytag ex_empty 5 = 2"
    by (simp_all add: bucket_of_def hash_to_keytag_def ex_empty_def um_new_def)
  show ?thesis
    using insert_after_lookup [OF ex_empty_inv l valid_pba_77, of 3] l e b ex_empty_inv
    by (simp add: ex_one_def MAX_KV_SIZE_eq min_def)
qed

text \<open>
  Removing a live entry keeps the invariant and takes exactly that entry out of the
  contents; the slot stays in use as a tombstone, so no other entry is cut off.
\<close>

lemma remove_live_entry:
  assumes "um_inv m" "live m i" "valid_pba a"
  shows "um_inv (um_remove m i a) \<and> content m = add_mset (slot_info m i) (content (um_remove m i a))
    \<and> (\<forall>h j. matches (um_remove m i a) h j \<longleftrightarrow> j \<noteq> i \<and> matches m h j)"
  using um_remove_inv [OF assms] content_remove [OF um_invD(1) [OF assms(1)] assms(2)]
    um_remove_matches [OF assms(1,2)] by simp

lemma remove_live_entry_witness:
  "um_inv ex_one \<and> live ex_one 1 \<and> um_inv (um_remove ex_one 1 78) \<and> \<not> matches (um_remove ex_one 1 78) 5 1"
proof -
  have "live ex_one 1" using ex_one_matches [of 5 1] by (simp add: matches_def)
  moreover have "valid_pba 78" by (simp add: valid_pba_def)
  ultimately show ?thesis using remove_live_entry [OF ex_one_inv, of 1 78] ex_one_inv by simp
qed

text \<open>
  C30: garbage collection's \<open>purge\<close> of a tombstone that lies on the path to a live entry
  makes that entry unreachable: when the tombstone is at slot \<open>p\<close> of the bucket, the slots
  before it are used and do not match, and the first match is after it, \<open>lookup\<close> answers
  ENODATA although the entry is still in the table.
\<close>

theorem purge_hides_live_entry:
  assumes "um_inv m" "bucket_of m h \<le> p" "p < i" "matches m h i" "\<forall>j \<le> p. \<not> matches m h j"
    "deleted (ht_m m ! p)"
  shows "um_lookup (um_purge m p) h = (ENODATA, Some p) \<and> matches (um_purge m p) h i"
proof -
  have lt: "p < bucket_of m h + 32" using assms(3) matches_bucket(2) [OF assms(1,4)] by simp
  have path: "used (ht_m m ! j)" if "bucket_of m h \<le> j" "j < p" for j
    using um_invD(3) [OF assms(1), of i j] assms(3,4) that by (auto simp: matches_def)
  have "um_lookup (um_purge m p) h = (ENODATA, Some p)"
    using assms(2,5) lt path by (intro um_lookup_stops_at_hole [OF assms(1)]) auto
  then show ?thesis using assms(3,4) by (simp add: um_purge_def)
qed

theorem purge_hides_live_entry_witness:
  "um_lookup ex_pair 2 = (E_OK, Some 1) \<and> um_lookup (um_purge ex_pair 0) 2 = (ENODATA, Some 0)
   \<and> matches (um_purge ex_pair 0) 2 1"
proof -
  have l: "um_lookup ex_pair 2 = (E_OK, Some 1)"
    by (simp add: um_lookup_found_iff [OF ex_pair_inv] ex_pair_matches)
  have b: "bucket_of ex_pair 2 \<le> 0" by (simp add: bucket_of_def ex_pair_geometry)
  have d: "deleted (ht_m ex_pair ! 0)" by (simp add: ex_pair_nth deleted_iff)
  show ?thesis
    using purge_hides_live_entry [OF ex_pair_inv b _ _ _ d, of 1] l by (simp add: ex_pair_matches)
qed

text \<open>
  C31: displacement.  When \<open>lookup\<close> found the bucket full and there is no tombstone in the
  displacement window, \<open>try_shift\<close> keeps the contents of the table whatever it returns, and
  when it returns 0 the slot it freed takes the new entry: after the insertion the
  invariant holds again and exactly the new entry has been added.
\<close>

theorem try_shift_then_insert:
  assumes "um_inv m" "entry_nr_bits_m m \<le> 32" "fst (um_lookup m h) = ENOSPC" "no_tombstones m h"
    "valid_pba a" "kvs \<noteq> 0"
  shows "case try_shift m h of (m', rc, he) \<Rightarrow>
    content m' = content m \<and>
    (if rc = E_OK
     then \<exists>c. he = Some c \<and> um_inv (um_insert m' c h kvs a) \<and>
       content (um_insert m' c h kvs a) =
         add_mset (bucket_of m h, ucast (hash_to_keytag m h), ucast (min kvs MAX_KV_SIZE), ucast a) (content m)
     else rc = ENOSPC \<and> he = None)"
proof -
  obtain m' rc he where s: "try_shift m h = (m', rc, he)" by (metis prod.collapse)
  note t = try_shift_inv [OF assms(1,2) bucket_full_lookup [OF assms(1,3)] assms(4) s]
  have same: "bucket_of m' h = bucket_of m h" "hash_to_keytag m' h = hash_to_keytag m h"
    using t(1) by (simp_all add: bucket_of_def hash_to_keytag_def)
  show ?thesis
  proof (cases "rc = E_OK")
    case True
    then obtain c where c: "he = Some c" "um_hole m' c" "insertable m' h c" using t(2) by auto
    then show ?thesis
      using um_insert_inv [OF c(2,3) assms(5)] content_insert [OF um_holeD(1) [OF c(2)] c(3) assms(5,6)]
        t(1) same True s by simp
  next
    case False
    then show ?thesis using t s by simp
  qed
qed

theorem try_shift_then_insert_witness:
  "fst (um_lookup ex_full 0) = ENOSPC \<and> fst (snd (try_shift ex_full 0)) = E_OK \<and>
   (\<exists>c. snd (snd (try_shift ex_full 0)) = Some c \<and> um_inv (um_insert (fst (try_shift ex_full 0)) c 0 1 77))"
proof -
  have small: "entry_nr_bits_m ex_full \<le> 32" by (simp add: ex_full_geometry)
  note wf = um_invD(1) [OF ex_full_inv]
  have nt: "no_tombstones ex_full 0" by (rule clean_no_tombstones [OF wf ex_full_clean])
  have b: "bucket_of ex_full 0 = 0" by (simp add: bucket_of_def)
  have e: "first_empty_loop ex_full 32 31 = Some 32"
    by (auto simp: first_empty_loop_find find_from_Some_iff ex_full_nth erased_entry_free)
  have s: "shift_inv ex_full 0 63 32"
    using um_inv_hole [OF ex_full_inv]
    by (auto simp: shift_inv_def ex_full_geometry ex_full_nth ex_entry_flags erased_entry_free)
  have "home ex_full 1 = 1" by (simp add: home_def ex_full_nth ex_entry_def)
  then have "try_shift_loop ex_full 0 32 1 = (moved ex_full 1 32, E_OK, Some 1)"
    using try_shift_one_eq [OF s, of 1] by (simp add: try_shift_loop.simps [of ex_full 0 32 1])
  then have "try_shift ex_full 0 = (moved ex_full 1 32, E_OK, Some 1)"
    using e by (simp add: try_shift_unfold [OF wf small] b shift_last_def ex_full_geometry)
  then show ?thesis
    using try_shift_then_insert [OF ex_full_inv small ex_full_lookup nt valid_pba_77, of 1] ex_full_lookup
    by simp
qed

text \<open>
  C32: mutual exclusion.  On a table set up by \<open>restore\<close> with a power-of-two number of
  locks, two operations whose slots can overlap hold a common lock stripe.
\<close>

theorem overlapping_operations_share_lock:
  assumes "264 \<le> unat sz" "unat sz < 2 ^ 58" "j < 32" "length ht = unat sz div 8"
    "um_restore m (2 ^ j) sz (Some ht) = Some (m', rc)" "touched m' h1 i" "touched m' h2 i"
  shows "set (locks_of m' h1) \<inter> set (locks_of m' h2) \<noteq> {}"
  by (rule locks_overlap [OF um_restore_locks_wf(2) [OF assms(1-5)] assms(6,7)])

theorem overlapping_operations_share_lock_witness:
  "touched ex_empty 0 3 \<and> touched ex_empty 1 3 \<and>
   set (locks_of ex_empty 0) \<inter> set (locks_of ex_empty 1) \<noteq> {}"
proof -
  let ?ht = "replicate 34 erased_entry"
  have nr: "round_down_pow2 2 = 2" by code_simp
  have bits: "NUM_BITS 1 = 1" by code_simp
  have r: "um_restore um_new (2 ^ 0) 272 (Some ?ht) = Some (ex_empty, E_OK)"
    by (simp add: um_restore_def Let_def align_down_def nr bits restore_locks.simps ex_empty_def um_new_def)
  have t: "touched ex_empty 0 3" "touched ex_empty 1 3"
    by (simp_all add: touched_def bucket_of_def ex_empty_def um_new_def)
  show ?thesis
    using overlapping_operations_share_lock [OF _ _ _ _ r t] t by simp
qed

text \<open>
  The function \<open>init\<close> on a region of at least 33 entries returns 0 with a table that satisfies the
  invariant and is empty; it uses more than half of the entries beyond the last bucket.
\<close>

theorem init_establishes_invariant:
  assumes "264 \<le> unat sz" "unat sz < 2 ^ 58" "lock_nr \<noteq> 0" "length ht = unat sz div 8"
  shows "\<exists>m'. um_init m lock_nr sz (Some ht) = Some (m', E_OK) \<and> um_inv m' \<and> content m' = {#}
    \<and> unat sz div 8 < 2 * (unat (entry_nr_m m') - 32) + 32"
proof -
  obtain m' where m': "um_init m lock_nr sz (Some ht) = Some (m', E_OK)" "um_inv m'"
    "ht_m m' = replicate (unat sz div 8) erased_entry"
    "unat sz div 8 < 2 * (unat (entry_nr_m m') - 32) + 32"
    using um_init_inv [OF assms] by metis
  have "live_slots m' = []"
    using m'(3) um_invD(1) [OF m'(2)]
    by (auto simp: live_slots_def filter_empty_conv live_def um_wf_def erased_entry_free)
  then show ?thesis using m' by (auto simp: content_def)
qed

theorem init_establishes_invariant_witness:
  "\<exists>m'. um_init um_new 1 272 (Some (replicate 34 erased_entry)) = Some (m', E_OK) \<and> um_inv m' \<and> content m' = {#}"
proof -
  have "264 \<le> unat (272 :: u64)" "unat (272 :: u64) < 2 ^ 58" "(1 :: u32) \<noteq> 0"
    "length (replicate 34 erased_entry) = unat (272 :: u64) div 8" by simp_all
  from init_establishes_invariant [OF this, of um_new] show ?thesis by blast
qed

text \<open>
  \<open>restore\<close> and \<open>init\<close> accept a region of exactly 32 entries, although the table then
  has no home bucket: the bucket mask is all ones and \<open>lookup\<close> addresses slot \<open>h\<close> itself.
\<close>

lemma restore_accepts_32_entries:
  assumes "256 \<le> unat sz" "unat sz < 264" "lock_nr \<noteq> 0"
  shows "\<exists>m'. um_restore m lock_nr sz (Some ht) = Some (m', E_OK) \<and> entry_nr_m m' = 32
    \<and> (\<forall>h. hash_to_hb m' h = h)"
  using um_restore_32 [OF assms] by metis

lemma restore_accepts_32_entries_witness:
  "\<exists>m'. um_restore um_new 1 256 (Some (replicate 32 erased_entry)) = Some (m', E_OK) \<and> hash_to_hb m' 1000 = 1000"
proof -
  have "256 \<le> unat (256 :: u64)" "unat (256 :: u64) < 264" "(1 :: u32) \<noteq> 0" by simp_all
  from restore_accepts_32_entries [OF this, of um_new] show ?thesis by metis
qed

text \<open>
  The fingerprint that \<open>entry_keyfp\<close> rebuilds from a slot equals the fingerprint of a
  hash exactly when the slot's home bucket and its tag are those of the hash, so comparing
  fingerprints compares all the hash bits the table keeps.
\<close>

theorem fingerprint_faithful:
  assumes "um_inv m" "i < unat (entry_nr_m m)" "used (ht_m m ! i)"
  shows "hash_to_keyfp m h = entry_keyfp m i \<longleftrightarrow>
    home m i = bucket_of m h \<and> key_tag (ht_m m ! i) = ucast (drop_bit (entry_nr_bits_m m) h)"
  using keyfp_eq_iff [OF um_invD(1) [OF assms(1)] um_invD(2) [OF assms] assms(2)] .

theorem fingerprint_faithful_witness:
  "hash_to_keyfp ex_pair 2 = entry_keyfp ex_pair 1 \<and> hash_to_keyfp ex_pair 3 \<noteq> entry_keyfp ex_pair 1"
proof -
  have u: "1 < unat (entry_nr_m ex_pair)" "used (ht_m ex_pair ! 1)"
    by (simp_all add: ex_pair_geometry ex_pair_nth used_iff)
  show ?thesis
    using fingerprint_faithful [OF ex_pair_inv u, of 2] fingerprint_faithful [OF ex_pair_inv u, of 3]
    by (simp add: home_def bucket_of_def ex_pair_geometry ex_pair_nth)
qed

end
