(* ===== verification/Byte_Enc.thy ===== *)
theory Byte_Enc
  imports UD_Prelude
begin

section \<open>Little-endian images of integers\<close>

text \<open>
  The source reads and writes packed structs in place, so their fields are the
  little-endian bytes of the integers.  \<open>le_bytes n w\<close> are the \<open>n\<close> low bytes of \<open>w\<close>,
  \<open>of_le\<close> reads them back.
\<close>

definition le_bytes :: "nat \<Rightarrow> 'a::len word \<Rightarrow> bytes" where
  "le_bytes n w = map (\<lambda>i. ucast (drop_bit (8 * i) w)) [0..<n]"

fun of_le :: "bytes \<Rightarrow> 'a::len word" where
  "of_le [] = 0"
| "of_le (b # bs) = ucast b OR push_bit 8 (of_le bs)"

definition le16 :: "u16 \<Rightarrow> bytes" where "le16 = le_bytes 2"
definition le32 :: "u32 \<Rightarrow> bytes" where "le32 = le_bytes 4"
definition le64 :: "u64 \<Rightarrow> bytes" where "le64 = le_bytes 8"

lemma length_le_bytes [simp]: "length (le_bytes n w) = n"
  by (simp add: le_bytes_def)

lemma length_le [simp]: "length (le16 a) = 2" "length (le32 b) = 4" "length (le64 c) = 8"
  by (simp_all add: le16_def le32_def le64_def)

lemma le_bytes_Suc: "le_bytes (Suc n) w = ucast w # le_bytes n (drop_bit 8 w)"
proof -
  have "[0..<Suc n] = 0 # map Suc [0..<n]" by (simp add: map_Suc_upt upt_conv_Cons)
  then show ?thesis by (simp add: le_bytes_def drop_bit_drop_bit add.commute)
qed

lemma of_le_le_bytes:
  fixes w :: "'a::len word"
  shows "of_le (le_bytes n w) = take_bit (8 * n) w"
proof (induction n arbitrary: w)
  case 0
  then show ?case by (simp add: le_bytes_def)
next
  case (Suc n)
  show ?case
    by (rule bit_word_eqI) (auto simp: le_bytes_Suc Suc.IH bit_simps)
qed

lemma of_le_le [simp]: "of_le (le16 a) = a" "of_le (le32 b) = b" "of_le (le64 c) = c"
  by (simp_all add: le16_def le32_def le64_def of_le_le_bytes take_bit_word_eq_self)

lemma bit_of_le: "bit (of_le bs :: 'a::len word) k \<Longrightarrow> k < 8 * length bs"
proof (induction bs arbitrary: k)
  case (Cons b bs)
  show ?case
  proof (cases "k < 8")
    case False
    then have "\<not> bit b k" by (auto dest: bit_imp_le_length)
    then have "k - 8 < 8 * length bs" using Cons False by (auto simp: bit_simps)
    then show ?thesis by simp
  qed simp
qed simp

lemma le_bytes_of_le:
  "8 * length bs \<le> LENGTH('a::len) \<Longrightarrow> le_bytes (length bs) (of_le bs :: 'a word) = bs"
proof (induction bs)
  case (Cons b bs)
  have "(ucast (of_le (b # bs) :: 'a word) :: u8) = b"
    using Cons.prems by (intro bit_word_eqI) (auto simp: bit_simps)
  moreover have "drop_bit 8 (of_le (b # bs) :: 'a word) = of_le bs"
  proof (rule bit_word_eqI)
    fix n assume "n < LENGTH('a)"
    have "\<not> bit b (8 + n)" by (auto dest: bit_imp_le_length)
    then show "bit (drop_bit 8 (of_le (b # bs) :: 'a word)) n = bit (of_le bs :: 'a word) n"
      using bit_of_le [of bs n, where 'a = 'a] Cons.prems by (auto simp: bit_simps)
  qed
  ultimately show ?case using Cons by (simp add: le_bytes_Suc del: of_le.simps)
qed (simp add: le_bytes_def)

end
