(* ===== verification/Dir_Map.thy ===== *)
theory Dir_Map
  imports Hop_Shift Byte_Enc
begin

section \<open>The directory of tables (\<^verbatim>\<open>lsa/udepot-directory-map.hh\<close>, \<^verbatim>\<open>.cc\<close>)\<close>

text \<open>
  The directory is a list of hopscotch tables whose length doubles on every grow; the
  top bits of a key's fingerprint select the table.  \<open>dmap\<close> is the state of
  \<open>uDepotDirectoryMap\<close>.  The outcomes of the calls that leave the program while
  growing (segment allocation, \<open>mmap\<close>, \<open>mprotect\<close>, \<open>munmap\<close>, the clock and the
  checksum function) are the fields of \<open>grow_env\<close>, so that every early exit of
  \<open>grow\<close> is a branch of the model.
\<close>

record dirmap_hdr =
  hdr_dir_size :: u16
  hdr_idx :: u16
  hdr_csum :: u32
  hdr_ts :: u64

record dirmap_ftr =
  ftr_dir_size :: u16
  ftr_idx :: u16
  ftr_csum :: u32
  ftr_ts :: u64
  ftr_used_bytes_kv :: u64
  ftr_tot_bytes_kv :: u64

record dme =
  dme_map :: umap
  grain_offset :: u64
  size_b :: u64
  huge :: bool
  dme_hdr :: dirmap_hdr
  dme_ftr :: dirmap_ftr

record dmap =
  directory :: "dme list"
  grow_nr_m :: u32
  map_entry_nr_bits_m :: nat

record geometry =
  g_seg_size :: u64
  g_seg_md_size :: u64
  g_grain_size :: u64

definition DIRMAP_MD_OVRH :: u64 where
  "DIRMAP_MD_OVRH = 512 + 512"

definition zero_hdr :: dirmap_hdr where
  "zero_hdr = \<lparr>hdr_dir_size = 0, hdr_idx = 0, hdr_csum = 0, hdr_ts = 0\<rparr>"

definition zero_ftr :: dirmap_ftr where
  "zero_ftr = \<lparr>ftr_dir_size = 0, ftr_idx = 0, ftr_csum = 0, ftr_ts = 0,
     ftr_used_bytes_kv = 0, ftr_tot_bytes_kv = 0\<rparr>"

definition dm_new :: dmap where
  "dm_new = \<lparr>directory = [], grow_nr_m = 0, map_entry_nr_bits_m = 0\<rparr>"

subsection \<open>Selecting a table\<close>

text \<open>\<open>__builtin_clzl\<close>: the number of leading zero bits.\<close>

definition clzl :: "u64 \<Rightarrow> nat" where
  "clzl w = length (takeWhile (\<lambda>i. \<not> bit w (63 - i)) [0..<64])"

definition hash_to_dir_idx :: "nat \<Rightarrow> u64 \<Rightarrow> nat \<Rightarrow> u64" where
  "hash_to_dir_idx map_bits h dir_idx_bits =
     (let hh = h AND (push_bit (KEYTAG_BITS + map_bits) 1 - 1)
      in drop_bit (KEYTAG_BITS + map_bits - dir_idx_bits) hh)"

definition dir_idx_bits :: "'a list \<Rightarrow> nat" where
  "dir_idx_bits dir = 63 - clzl (of_nat (length dir))"

definition hash_to_map :: "dmap \<Rightarrow> u64 \<Rightarrow> nat" where
  "hash_to_map d h =
     unat (hash_to_dir_idx (map_entry_nr_bits_m d) h (dir_idx_bits (directory d)))"

definition table_of :: "dmap \<Rightarrow> u64 \<Rightarrow> umap" where
  "table_of d h = dme_map (directory d ! hash_to_map d h)"

definition set_table :: "dmap \<Rightarrow> u64 \<Rightarrow> umap \<Rightarrow> dmap" where
  "set_table d h m = d\<lparr>directory := (directory d)[hash_to_map d h :=
     (directory d ! hash_to_map d h)\<lparr>dme_map := m\<rparr>]\<rparr>"

subsection \<open>Delegated operations\<close>

definition dm_lookup :: "dmap \<Rightarrow> u64 \<Rightarrow> errno \<times> nat option" where
  "dm_lookup d h = um_lookup (table_of d h) h"

definition dm_next_free :: "dmap \<Rightarrow> u64 \<Rightarrow> errno \<times> nat option" where
  "dm_next_free d h = um_next_free (table_of d h) h"

definition dm_next :: "dmap \<Rightarrow> nat option \<Rightarrow> u64 \<Rightarrow> nat option" where
  "dm_next d he h = um_next (table_of d h) he h"

definition dm_lookup_pba :: "dmap \<Rightarrow> u64 \<Rightarrow> u64 \<Rightarrow> nat option" where
  "dm_lookup_pba d h a = um_lookup_pba (table_of d h) h a"

definition dm_insert :: "dmap \<Rightarrow> u64 \<Rightarrow> nat \<Rightarrow> u64 \<Rightarrow> u64 \<Rightarrow> dmap" where
  "dm_insert d h he kvs a = set_table d h (um_insert (table_of d h) he h kvs a)"

definition dm_update :: "dmap \<Rightarrow> u64 \<Rightarrow> nat \<Rightarrow> u64 \<Rightarrow> u64 \<Rightarrow> dmap" where
  "dm_update d h he kvs a = set_table d h (um_update (table_of d h) he h kvs a)"

definition dm_update_inplace :: "dmap \<Rightarrow> u64 \<Rightarrow> nat \<Rightarrow> u64 \<Rightarrow> u64 \<Rightarrow> dmap" where
  "dm_update_inplace d h he kvs a = set_table d h (um_update_inplace (table_of d h) he h kvs a)"

definition dm_try_shift :: "dmap \<Rightarrow> u64 \<Rightarrow> dmap \<times> errno \<times> nat option" where
  "dm_try_shift d h = (case try_shift (table_of d h) h of (m, rc, he) \<Rightarrow> (set_table d h m, rc, he))"

definition dm_remove :: "dmap \<Rightarrow> u64 \<Rightarrow> nat \<Rightarrow> u64 \<Rightarrow> dmap" where
  "dm_remove d h he a = set_table d h (um_remove (table_of d h) he a)"

definition dm_purge :: "dmap \<Rightarrow> u64 \<Rightarrow> nat \<Rightarrow> dmap" where
  "dm_purge d h he = set_table d h (um_purge (table_of d h) he)"

subsection \<open>Growing\<close>

record grow_env =
  ge_raced :: bool
  ge_alloc :: "nat \<Rightarrow> errno \<times> u64"
  ge_mmap_huge :: "nat \<Rightarrow> bool"
  ge_mmap :: "nat \<Rightarrow> bool"
  ge_region :: "nat \<Rightarrow> hash_entry list"
  ge_protect_ro :: errno
  ge_protect_none :: errno
  ge_munmap :: "nat \<Rightarrow> errno"
  ge_ts :: "nat \<Rightarrow> u64"
  ge_csum32 :: "u64 \<Rightarrow> bytes \<Rightarrow> u32"

definition net_size_b :: "geometry \<Rightarrow> u64" where
  "net_size_b g = (g_seg_size g - g_seg_md_size g) * g_grain_size g"

definition full_seg_b :: "geometry \<Rightarrow> u64" where
  "full_seg_b g = g_seg_size g * g_grain_size g"

text \<open>Step 1: a segment and a mapping per new table, from index \<open>i\<close> on.\<close>

fun grow_alloc :: "geometry \<Rightarrow> grow_env \<Rightarrow> nat \<Rightarrow> nat \<Rightarrow> dme list \<Rightarrow> errno \<times> dme list" where
  "grow_alloc g env i 0 acc = (E_OK, acc)"
| "grow_alloc g env i (Suc n) acc =
     (case ge_alloc env i of (rc, grain) \<Rightarrow>
        if rc \<noteq> E_OK then (rc, acc)
        else
          let hg = (full_seg_b g AND (push_bit 21 1 - 1) = 0 \<and> ge_mmap_huge env i) in
          if \<not> hg \<and> \<not> ge_mmap env i then (ENOMEM, acc)
          else grow_alloc g env (i + 1) n
                 (acc @ [\<lparr>dme_map = um_new\<lparr>ht_m := ge_region env i\<rparr>, grain_offset = grain,
                          size_b = net_size_b g, huge = hg, dme_hdr = zero_hdr, dme_ftr = zero_ftr\<rparr>]))"

text \<open>Step 2: initialise each table; \<open>None\<close> is the endless loop of \<open>restore\<close>.\<close>

fun grow_init :: "u32 \<Rightarrow> dme list \<Rightarrow> (errno \<times> dme list) option" where
  "grow_init lock_nr [] = Some (E_OK, [])"
| "grow_init lock_nr (e # es) =
     (case um_init (dme_map e) lock_nr (size_b e - DIRMAP_MD_OVRH) (Some (ht_m (dme_map e))) of
        None \<Rightarrow> None
      | Some (m, rc) \<Rightarrow>
          if rc \<noteq> E_OK then Some (rc, e # es)
          else (case grow_init lock_nr es of
                  None \<Rightarrow> None
                | Some (rc', es') \<Rightarrow> Some (rc', e\<lparr>dme_map := m\<rparr> # es')))"

text \<open>
  Step 3: copy one used entry into its new table.  A bucket in the target that already
  holds the same fingerprint takes the entry in its next free slot; when there is none,
  \<open>trgt\<close> still points to the entry that \<open>lookup\<close> found.
\<close>

definition copy_entry :: "nat \<Rightarrow> nat \<Rightarrow> umap list \<Rightarrow> umap \<Rightarrow> nat \<Rightarrow> umap list option" where
  "copy_entry map_bits idx_bits trgts src p =
     (let e = ht_m src ! p in
      if \<not> used e then Some trgts
      else
        let h = entry_keyfp src p;
            idx = unat (ucast (hash_to_dir_idx map_bits h idx_bits) :: u32);
            t = trgts ! idx;
            ins = (\<lambda>t c. trgts[idx := um_insert t c h (ucast (kv_size e)) (ucast (pba e))])
        in case um_lookup t h of
             (ENOSPC, _) \<Rightarrow>
               (case try_shift t h of
                  (t', E_OK, Some c) \<Rightarrow> Some (ins t' c)
                | _ \<Rightarrow> None)
           | (ENODATA, Some c) \<Rightarrow> Some (ins t c)
           | (E_OK, Some c) \<Rightarrow>
               (case um_next_free t h of
                  (_, Some f) \<Rightarrow> Some (ins t f)
                | (_, None) \<Rightarrow> Some (ins t c))
           | _ \<Rightarrow> None)"

fun copy_slots :: "nat \<Rightarrow> nat \<Rightarrow> umap list \<Rightarrow> umap \<Rightarrow> nat list \<Rightarrow> umap list option" where
  "copy_slots mb ib trgts src [] = Some trgts"
| "copy_slots mb ib trgts src (p # ps) =
     (case copy_entry mb ib trgts src p of
        None \<Rightarrow> None
      | Some trgts' \<Rightarrow> copy_slots mb ib trgts' src ps)"

fun copy_tables :: "nat \<Rightarrow> nat \<Rightarrow> umap list \<Rightarrow> umap list \<Rightarrow> umap list option" where
  "copy_tables mb ib trgts [] = Some trgts"
| "copy_tables mb ib trgts (src # srcs) =
     (case copy_slots mb ib trgts src [0..<unat (entry_nr_m src)] of
        None \<Rightarrow> None
      | Some trgts' \<Rightarrow> copy_tables mb ib trgts' srcs)"

text \<open>The header written to each new table.\<close>

definition make_hdr :: "grow_env \<Rightarrow> nat \<Rightarrow> nat \<Rightarrow> dirmap_hdr" where
  "make_hdr env n i =
     (let sz = of_nat n; ix = of_nat i in
      \<lparr>hdr_dir_size = sz, hdr_idx = ix,
       hdr_csum = ge_csum32 env (ge_ts env i) (le16 sz @ le16 ix), hdr_ts = ge_ts env i\<rparr>)"

definition write_hdrs :: "grow_env \<Rightarrow> dme list \<Rightarrow> dme list" where
  "write_hdrs env dir =
     map (\<lambda>i. (dir ! i)\<lparr>dme_hdr := make_hdr env (length dir) i\<rparr>) [0..<length dir]"

definition grains_of :: "geometry \<Rightarrow> dme list \<Rightarrow> (u64 \<times> u64) list" where
  "grains_of g dir = map (\<lambda>e. (grain_offset e, size_b e div g_grain_size g)) dir"

text \<open>Unmapping the old tables, and the grain ranges invalidated on the way.\<close>

fun grow_munmap :: "geometry \<Rightarrow> grow_env \<Rightarrow> nat \<Rightarrow> dme list \<Rightarrow> errno \<times> (u64 \<times> u64) list" where
  "grow_munmap g env i [] = (E_OK, [])"
| "grow_munmap g env i (e # es) =
     (if ge_munmap env i \<noteq> E_OK then (ge_munmap env i, [])
      else case grow_munmap g env (i + 1) es of
             (rc, ivs) \<Rightarrow> (rc, (grain_offset e, size_b e div g_grain_size g) # ivs))"

text \<open>
  \<open>grow\<close> returns the new state, the return code and the grain ranges it invalidated.
  The copy loop declares its own \<open>rc\<close>, so the error it sets is not the value returned.
\<close>

definition grow_fail :: "geometry \<Rightarrow> dmap \<Rightarrow> dme list \<Rightarrow> errno \<Rightarrow> dmap \<times> errno \<times> (u64 \<times> u64) list" where
  "grow_fail g d new_dir rc = (d, rc, grains_of g new_dir)"

definition grow :: "geometry \<Rightarrow> grow_env \<Rightarrow> dmap \<Rightarrow> (dmap \<times> errno \<times> (u64 \<times> u64) list) option" where
  "grow g env d =
     (let old_dir = directory d;
          new_size = max 1 (2 * length old_dir);
          lock_nr = of_nat (max 1 (HOP_LOCK_NR div new_size))
      in if ge_raced env then Some (d, EAGAIN, [])
         else case grow_alloc g env 0 new_size [] of (rc, new_dir) \<Rightarrow>
           if rc \<noteq> E_OK then Some (grow_fail g d new_dir rc)
           else case grow_init lock_nr new_dir of
             None \<Rightarrow> None
           | Some (rc, new_dir) \<Rightarrow>
             if rc \<noteq> E_OK then Some (grow_fail g d new_dir rc)
             else if old_dir \<noteq> [] \<and> ge_protect_ro env \<noteq> E_OK
             then Some (grow_fail g d new_dir (ge_protect_ro env))
             else case copy_tables (map_entry_nr_bits_m d) (dir_idx_bits new_dir)
                         (map dme_map new_dir) (map dme_map old_dir) of
               None \<Rightarrow> Some (grow_fail g d new_dir rc)
             | Some maps \<Rightarrow>
                 if old_dir \<noteq> [] \<and> ge_protect_none env \<noteq> E_OK
                 then Some (grow_fail g d new_dir (ge_protect_none env))
                 else case grow_munmap g env 0 old_dir of (rc, ivs) \<Rightarrow>
                   if rc \<noteq> E_OK then Some (d, rc, ivs @ grains_of g new_dir)
                   else
                     let new_dir' = map2 (\<lambda>e m. e\<lparr>dme_map := m\<rparr>) new_dir maps
                     in Some (d\<lparr>directory := write_hdrs env new_dir', grow_nr_m := grow_nr_m d + 1\<rparr>,
                              E_OK, ivs))"

text \<open>Starting from scratch: one grow, then the index width is taken from table 0.\<close>

definition dm_init_fresh :: "geometry \<Rightarrow> grow_env \<Rightarrow> dmap \<Rightarrow> (dmap \<times> errno) option" where
  "dm_init_fresh g env d =
     (case grow g env d of
        None \<Rightarrow> None
      | Some (d', rc, _) \<Rightarrow>
          if rc \<noteq> E_OK then Some (d', rc)
          else Some (d'\<lparr>map_entry_nr_bits_m := entry_nr_bits_m (dme_map (directory d' ! 0))\<rparr>, E_OK))"

subsection \<open>Shutdown\<close>

definition make_ftr :: "grow_env \<Rightarrow> u64 \<Rightarrow> u64 \<Rightarrow> nat \<Rightarrow> nat \<Rightarrow> dirmap_ftr" where
  "make_ftr env tot usd n i =
     (let sz = of_nat n; ix = of_nat i in
      \<lparr>ftr_dir_size = sz, ftr_idx = ix,
       ftr_csum = ge_csum32 env (ge_ts env i) (le16 sz @ le16 ix), ftr_ts = ge_ts env i,
       ftr_used_bytes_kv = (if n - 1 \<noteq> i then 0 else usd),
       ftr_tot_bytes_kv = (if n - 1 \<noteq> i then 0 else tot)\<rparr>)"

text \<open>The directory as \<open>shutdown\<close> leaves it on the device, then the empty in-memory state.\<close>

definition dm_shutdown :: "grow_env \<Rightarrow> u64 \<Rightarrow> u64 \<Rightarrow> dmap \<Rightarrow> dme list \<times> dmap" where
  "dm_shutdown env tot usd d =
     (let dir = directory d in
      (map (\<lambda>i. (dir ! i)\<lparr>dme_ftr := make_ftr env tot usd (length dir) i\<rparr>) [0..<length dir],
       d\<lparr>directory := []\<rparr>))"

definition invalidate_ftr :: "dmap \<Rightarrow> dmap" where
  "invalidate_ftr d = d\<lparr>directory := map (\<lambda>e. e\<lparr>dme_ftr := zero_ftr\<rparr>) (directory d)\<rparr>"

end
