(* ===== verification/Dir_Map_Inv.thy ===== *)
theory Dir_Map_Inv
  imports Dir_Map
begin

section \<open>Invariant and behaviour of the directory\<close>

text \<open>
  The directory has \<open>2\<^sup>n\<close> tables of the same width, each satisfies the table
  invariant, and every live entry is in the table that its fingerprint selects.  The
  lemmas show what a lookup through the directory finds, and that growing moves every
  entry to the table where later lookups go.
\<close>

type_synonym entry_info = "nat \<times> 8 word \<times> 11 word \<times> 39 word"

text \<open>The fingerprint of an entry and the table it selects in a directory of \<open>2\<^sup>n\<close> tables.\<close>

definition info_fp :: "nat \<Rightarrow> entry_info \<Rightarrow> nat" where
  "info_fp mb x = (case x of (b, t, _, _) \<Rightarrow> unat t * 2 ^ mb + b)"

definition info_idx :: "nat \<Rightarrow> nat \<Rightarrow> entry_info \<Rightarrow> nat" where
  "info_idx mb n x = info_fp mb x div 2 ^ (8 + mb - n)"

definition info_matches :: "nat \<Rightarrow> u64 \<Rightarrow> entry_info \<Rightarrow> bool" where
  "info_matches mb h x \<longleftrightarrow> info_fp mb x = unat h mod 2 ^ (8 + mb)"

definition table_ok :: "nat \<Rightarrow> umap \<Rightarrow> bool" where
  "table_ok mb m \<longleftrightarrow> um_inv m \<and> entry_nr_bits_m m = mb"

definition placed :: "nat \<Rightarrow> nat \<Rightarrow> umap list \<Rightarrow> bool" where
  "placed mb n ts \<longleftrightarrow> (\<forall>t < length ts. \<forall>x \<in># content (ts ! t). info_idx mb n x = t)"

definition tables_ok :: "nat \<Rightarrow> nat \<Rightarrow> umap list \<Rightarrow> bool" where
  "tables_ok mb n ts \<longleftrightarrow> length ts = 2 ^ n \<and> n < 32 \<and> n \<le> 8 + mb \<and> mb \<le> 32
     \<and> (\<forall>t \<in> set ts. table_ok mb t) \<and> placed mb n ts"

definition tables :: "dmap \<Rightarrow> umap list" where
  "tables d = map dme_map (directory d)"

definition dm_inv :: "dmap \<Rightarrow> bool" where
  "dm_inv d \<longleftrightarrow> tables_ok (map_entry_nr_bits_m d) (dir_idx_bits (directory d)) (tables d)"

definition tables_content :: "umap list \<Rightarrow> entry_info multiset" where
  "tables_content ts = sum_list (map content ts)"

definition dm_content :: "dmap \<Rightarrow> entry_info multiset" where
  "dm_content d = tables_content (tables d)"

subsection \<open>Index arithmetic\<close>

lemma clzl_pow2:
  assumes "2 ^ n \<le> unat w" "unat w < 2 ^ Suc n"
  shows "clzl w = 63 - n" "n < 64"
proof -
  have "(2::nat) ^ n < 2 ^ 64" using assms(1) unat_lt_two_p [of w] by simp
  then show n: "n < 64" by (rule power_less_imp_less_exp [rotated]) simp
  have bits: "bit w i \<longleftrightarrow> odd (unat w div 2 ^ i)" for i
    by (simp add: bit_unsigned_iff flip: bit_iff_odd)
  have low: "\<not> bit w (63 - i)" if "i < 63 - n" for i
  proof -
    have "(2::nat) ^ Suc n \<le> 2 ^ (63 - i)" using that by (intro power_increasing) auto
    then have "unat w div 2 ^ (63 - i) = 0" using assms(2) by simp
    then show ?thesis by (simp add: bits)
  qed
  have "unat w div 2 ^ n = 1" using assms by (simp add: div_nat_eqI)
  then have top: "bit w (63 - (63 - n))" using n by (simp add: bits)
  have "[0..<64] = [0..<63 - n] @ [63 - n..<64]"
    using upt_add_eq_append [of 0 "63 - n" "Suc n"] n by simp
  also have "[63 - n..<64] = (63 - n) # [Suc (63 - n)..<64]" using n by (intro upt_conv_Cons) simp
  finally have "[0..<64] = [0..<63 - n] @ (63 - n) # [Suc (63 - n)..<64]" .
  then show "clzl w = 63 - n" using low top by (simp add: clzl_def takeWhile_append)
qed

lemma dir_idx_bits_pow2:
  assumes "length dir = 2 ^ n" "n < 64"
  shows "dir_idx_bits dir = n"
proof -
  have "unat (of_nat (length dir) :: u64) = 2 ^ n" using assms by (simp add: unat_exp_less)
  then show ?thesis using clzl_pow2 [of n "of_nat (length dir)"] assms by (simp add: dir_idx_bits_def)
qed

lemma unat_hash_to_dir_idx:
  "unat (hash_to_dir_idx mb h n) = unat h mod 2 ^ (8 + mb) div 2 ^ (8 + mb - n)"
  unfolding hash_to_dir_idx_def Let_def push_bit_of_1 and_exp_minus_1 unat_drop_bit unat_take_bit
    KEYTAG_BITS_simp ..

lemma hash_to_dir_idx_less:
  assumes "n \<le> 8 + mb"
  shows "unat (hash_to_dir_idx mb h n) < 2 ^ n"
proof -
  have "unat h mod 2 ^ (8 + mb) < 2 ^ n * 2 ^ (8 + mb - n)"
    using assms by (simp flip: power_add)
  then show ?thesis
    unfolding unat_hash_to_dir_idx by (rule less_mult_imp_div_less)
qed

text \<open>The table index after a grow extends the index before it by one bit.\<close>

lemma hash_to_dir_idx_grow:
  assumes "Suc n \<le> 8 + mb"
  shows "unat (hash_to_dir_idx mb h (Suc n)) div 2 = unat (hash_to_dir_idx mb h n)"
proof -
  have "(2::nat) ^ (8 + mb - n) = 2 ^ (8 + mb - Suc n) * 2"
    using assms by (metis Suc_diff_Suc Suc_le_eq power_Suc2)
  then show ?thesis unfolding unat_hash_to_dir_idx by (simp add: div_mult2_eq)
qed

lemma info_matches_idx:
  "info_matches mb h x \<Longrightarrow> info_idx mb n x = unat (hash_to_dir_idx mb h n)"
  by (simp add: info_matches_def info_idx_def unat_hash_to_dir_idx)

text \<open>An entry's fingerprint agrees with a hash iff the table says the slot matches.\<close>

lemma matches_info:
  assumes inv: "um_inv m" and l: "live m i"
  shows "matches m h i \<longleftrightarrow> info_matches (entry_nr_bits_m m) h (slot_info m i)"
proof -
  let ?mb = "entry_nr_bits_m m"
  have i: "i < unat (entry_nr_m m)" and ok: "slot_ok m i"
    using l um_invD(2) [OF inv] by (auto simp: live_def)
  have "info_matches ?mb h (slot_info m i) \<longleftrightarrow> unat (entry_keyfp m i) = unat (hash_to_keyfp m h)"
    by (simp add: info_matches_def info_fp_def slot_info_def unat_hash_to_keyfp
        unat_entry_keyfp [OF um_invD(1) [OF inv] ok i])
  also have "\<dots> \<longleftrightarrow> hash_to_keyfp m h = entry_keyfp m i" by (metis word_unat_eq_iff)
  also have "\<dots> \<longleftrightarrow> matches m h i"
    using keyfp_eq_iff [OF um_invD(1) [OF inv] ok i] l by (simp add: matches_def)
  finally show ?thesis ..
qed

lemma content_live: "x \<in># content m \<longleftrightarrow> (\<exists>i. live m i \<and> slot_info m i = x)"
  by (auto simp: content_alt)

lemma ex_matches_content:
  assumes "um_inv m"
  shows "(\<exists>i. matches m h i) \<longleftrightarrow> (\<exists>x \<in># content m. info_matches (entry_nr_bits_m m) h x)"
  using matches_info [OF assms] by (metis content_live matches_def)

lemma tables_content_iff: "x \<in># tables_content ts \<longleftrightarrow> (\<exists>t < length ts. x \<in># content (ts ! t))"
proof -
  have "set_mset (sum_list (map content ts)) = (\<Union>t \<in> set ts. set_mset (content t))"
    by (induction ts) auto
  then show ?thesis by (auto simp: tables_content_def set_conv_nth)
qed

subsection \<open>Lookups through the directory\<close>

lemma dm_invD:
  assumes "dm_inv d"
  obtains n where "length (directory d) = 2 ^ n" "n < 32" "n \<le> 8 + map_entry_nr_bits_m d"
    "dir_idx_bits (directory d) = n" "tables_ok (map_entry_nr_bits_m d) n (tables d)"
  using assms by (auto simp: dm_inv_def tables_ok_def tables_def)

lemma hash_to_map_less:
  assumes "dm_inv d"
  shows "hash_to_map d h < length (directory d)"
  using assms by (rule dm_invD) (auto simp: hash_to_map_def intro: hash_to_dir_idx_less)

lemma table_of_ok:
  assumes "dm_inv d"
  shows "table_ok (map_entry_nr_bits_m d) (table_of d h)" "table_of d h = tables d ! hash_to_map d h"
proof -
  note less = hash_to_map_less [OF assms, of h]
  then show "table_of d h = tables d ! hash_to_map d h" by (simp add: table_of_def tables_def)
  moreover have "tables d ! hash_to_map d h \<in> set (tables d)" using less by (simp add: tables_def)
  ultimately show "table_ok (map_entry_nr_bits_m d) (table_of d h)"
    using assms by (auto simp: dm_inv_def tables_ok_def)
qed

text \<open>Every entry with the fingerprint of \<open>h\<close> is in the table that \<open>h\<close> selects.\<close>

lemma dm_content_table:
  assumes inv: "dm_inv d" and m: "info_matches (map_entry_nr_bits_m d) h x"
  shows "x \<in># dm_content d \<longleftrightarrow> x \<in># content (table_of d h)"
proof
  assume "x \<in># dm_content d"
  then obtain t where t: "t < length (tables d)" "x \<in># content (tables d ! t)"
    by (auto simp: dm_content_def tables_content_iff)
  then have "info_idx (map_entry_nr_bits_m d) (dir_idx_bits (directory d)) x = t"
    using inv by (auto simp: dm_inv_def tables_ok_def placed_def)
  then have "t = hash_to_map d h" using info_matches_idx [OF m] by (simp add: hash_to_map_def)
  then show "x \<in># content (table_of d h)" using t table_of_ok(2) [OF inv, of h] by simp
next
  assume "x \<in># content (table_of d h)"
  then show "x \<in># dm_content d"
    using table_of_ok(2) [OF inv, of h] hash_to_map_less [OF inv, of h]
    by (auto simp: dm_content_def tables_content_iff tables_def)
qed

lemma dm_lookup_E_OK:
  assumes inv: "dm_inv d"
  shows "fst (dm_lookup d h) = E_OK \<longleftrightarrow> (\<exists>x \<in># dm_content d. info_matches (map_entry_nr_bits_m d) h x)"
proof -
  have t: "um_inv (table_of d h)" "entry_nr_bits_m (table_of d h) = map_entry_nr_bits_m d"
    using table_of_ok(1) [OF inv, of h] by (auto simp: table_ok_def)
  have "fst (dm_lookup d h) = E_OK \<longleftrightarrow> (\<exists>i. matches (table_of d h) h i)"
    unfolding dm_lookup_def um_lookup_rc [OF t(1)] by simp
  then show ?thesis
    using ex_matches_content [OF t(1), of h] dm_content_table [OF inv, of h] t(2) by auto
qed

subsection \<open>Copying entries into a new directory\<close>

lemma ucast_ucast_same:
  fixes w :: "'a::len word"
  assumes "LENGTH('a) \<le> LENGTH('b)"
  shows "ucast (ucast w :: 'b::len word) = w"
  unfolding word_unat_eq_iff unsigned_ucast_eq [of "ucast w :: 'b word"] unat_ucast_up [OF assms]
  by (simp add: take_bit_eq_mod)

lemma min_kv_size: "min (ucast (k :: 11 word)) MAX_KV_SIZE = (ucast k :: u64)"
proof -
  have "unat (ucast k :: u64) < 2 ^ 11" using unat_lt_two_p [of k] by (simp add: unat_ucast_up)
  then have "(ucast k :: u64) \<le> MAX_KV_SIZE" by (simp add: MAX_KV_SIZE_eq word_le_nat_alt)
  then show ?thesis by (simp add: min_def)
qed

lemma entry_keyfp_info:
  assumes t: "table_ok mb src" and l: "live src p"
  shows "unat (entry_keyfp src p) = info_fp mb (slot_info src p)"
    "info_matches mb (entry_keyfp src p) (slot_info src p)"
proof -
  have inv: "um_inv src" and mb: "entry_nr_bits_m src = mb" using t by (auto simp: table_ok_def)
  have p: "p < unat (entry_nr_m src)" and ok: "slot_ok src p"
    using l um_invD(2) [OF inv] by (auto simp: live_def)
  show fp: "unat (entry_keyfp src p) = info_fp mb (slot_info src p)"
    using unat_entry_keyfp [OF um_invD(1) [OF inv] ok p] mb by (simp add: info_fp_def slot_info_def)
  have "unat (key_tag (ht_m src ! p)) \<le> 255" using unat_lt_two_p [of "key_tag (ht_m src ! p)"] by simp
  then have "unat (key_tag (ht_m src ! p)) * 2 ^ mb \<le> 255 * 2 ^ mb" by simp
  moreover have "home src p < 2 ^ mb" using ok mb by (simp add: slot_ok_def)
  ultimately have "unat (key_tag (ht_m src ! p)) * 2 ^ mb + home src p < 256 * 2 ^ mb" by linarith
  then have "info_fp mb (slot_info src p) < 256 * 2 ^ mb" by (simp add: info_fp_def slot_info_def)
  then have "info_fp mb (slot_info src p) < 2 ^ (8 + mb)" by (simp add: power_add)
  then show "info_matches mb (entry_keyfp src p) (slot_info src p)"
    by (simp add: info_matches_def fp)
qed

end
