(* ===== verification/Dir_Copy.thy ===== *)
theory Dir_Copy
  imports Dir_Map_Inv
begin

section \<open>Copying the entries into a larger directory\<close>

text \<open>
  Step 3 of \<open>grow\<close>.  A table of the old directory fills two tables of the new one, slot by
  slot in increasing order, and an entry has the same home bucket in both.  Hence an
  entry never lands behind the slot it came from: slot \<open>p\<close> of its new table is still
  unused when slot \<open>p\<close> of the old one is copied, so its bucket has room.  The copy
  never displaces or overwrites an entry and never fails.
\<close>

definition put_copy :: "umap \<Rightarrow> umap \<Rightarrow> nat \<Rightarrow> nat \<Rightarrow> umap" where
  "put_copy t src p c =
     um_insert t c (entry_keyfp src p) (ucast (kv_size (ht_m src ! p))) (ucast (pba (ht_m src ! p)))"

definition copy_target :: "nat \<Rightarrow> nat \<Rightarrow> umap \<Rightarrow> nat \<Rightarrow> nat" where
  "copy_target mb n src p = unat (ucast (hash_to_dir_idx mb (entry_keyfp src p) n) :: u32)"

definition used_slot :: "umap \<Rightarrow> nat \<Rightarrow> bool" where
  "used_slot t i \<longleftrightarrow> i < unat (entry_nr_m t) \<and> used (ht_m t ! i)"

definition below :: "nat \<Rightarrow> umap \<Rightarrow> bool" where
  "below p t \<longleftrightarrow> (\<forall>i. used_slot t i \<longrightarrow> i < p)"

text \<open>Every used slot, live or tombstone, lies in the table its fingerprint selects.\<close>

definition used_placed :: "nat \<Rightarrow> nat \<Rightarrow> umap list \<Rightarrow> bool" where
  "used_placed mb n ts \<longleftrightarrow>
     (\<forall>k < length ts. \<forall>p. used_slot (ts ! k) p \<longrightarrow> unat (hash_to_dir_idx mb (entry_keyfp (ts ! k) p) n) = k)"

lemma live_used_slot: "live t i \<longleftrightarrow> used_slot t i \<and> \<not> deleted (ht_m t ! i)"
  by (auto simp: live_def used_slot_def)

lemma copy_home:
  assumes src: "table_ok mb src" "used_slot src p" and t: "table_ok mb t"
  shows "bucket_of t (entry_keyfp src p) = home src p" "home src p \<le> p" "p < home src p + 32"
    "ucast (hash_to_keytag t (entry_keyfp src p)) = key_tag (ht_m src ! p)" "entry_nr_m t = entry_nr_m src"
proof -
  have inv: "um_inv src" and mb: "entry_nr_bits_m src = mb" "entry_nr_bits_m t = mb" using src t by (auto simp: table_ok_def)
  have p: "p < unat (entry_nr_m src)" and ok: "slot_ok src p" using src(2) um_invD(2) [OF inv] by (auto simp: used_slot_def)
  have fp: "unat (entry_keyfp src p) = unat (key_tag (ht_m src ! p)) * 2 ^ mb + home src p"
    using unat_entry_keyfp [OF um_invD(1) [OF inv] ok p] mb by simp
  have hb: "home src p < 2 ^ mb" using ok mb by (simp add: slot_ok_def)
  show "bucket_of t (entry_keyfp src p) = home src p" using hb by (simp add: bucket_of_def mb fp)
  show "home src p \<le> p" "p < home src p + 32" using ok by (auto simp: slot_ok_def home_def)
  have "unat (hash_to_keytag t (entry_keyfp src p)) = unat (key_tag (ht_m src ! p))"
    using hb unat_lt_two_p [of "key_tag (ht_m src ! p)"] by (simp add: unat_hash_to_keytag mb fp)
  then show "ucast (hash_to_keytag t (entry_keyfp src p)) = key_tag (ht_m src ! p)"
    using unat_lt_two_p [of "key_tag (ht_m src ! p)"] unfolding word_unat_eq_iff
    by (simp add: unsigned_ucast_eq take_bit_eq_mod)
  show "entry_nr_m t = entry_nr_m src"
    using src(1) t by (simp add: table_ok_def um_inv_def um_wf_def word_unat_eq_iff)
qed

lemma put_copy_ok:
  assumes src: "table_ok mb src" "used_slot src p" and t: "table_ok mb t"
    and c: "insertable t (entry_keyfp src p) c"
  shows "table_ok mb (put_copy t src p c)"
    "content (put_copy t src p c) = (if live src p then add_mset (slot_info src p) (content t) else content t)"
    "used_slot (put_copy t src p c) i \<Longrightarrow> used_slot t i \<or> i = c"
proof -
  let ?e = "ht_m src ! p" and ?h = "entry_keyfp src p"
  have inv: "um_inv t" using t by (simp add: table_ok_def)
  have v: "valid_pba (ucast (pba ?e))" using src(2) by (auto simp: used_slot_def used_iff valid_pba_def ucast_ucast_same)
  have k: "(ucast (kv_size ?e) :: u64) = 0 \<longleftrightarrow> deleted ?e"
    using ucast_eq_iff_small [of "kv_size ?e" 0, where 'b = 64] by (auto simp: deleted_iff)
  show "table_ok mb (put_copy t src p c)"
    using um_insert_inv [OF um_inv_hole [OF inv] c v] t
    by (simp add: table_ok_def put_copy_def) (simp add: um_insert_def um_update_def Let_def)
  have len: "c < length (ht_m t)" using bucket_in_table [OF um_invD(1) [OF inv]] c by (auto simp: insertable_def)
  show "used_slot t i \<or> i = c" if "used_slot (put_copy t src p c) i"
    using that by (auto simp: used_slot_def put_copy_def um_insert_def um_update_write Let_def)
  note b = copy_home(1,4) [OF src t]
  show "content (put_copy t src p c) = (if live src p then add_mset (slot_info src p) (content t) else content t)"
  proof (cases "live src p")
    case True
    then have nz: "(ucast (kv_size ?e) :: u64) \<noteq> 0" using k by (simp add: live_def)
    show ?thesis
      unfolding put_copy_def content_insert [OF um_invD(1) [OF inv] c v nz] b min_kv_size
      using True by (simp add: slot_info_def ucast_ucast_same)
  next
    case False
    then have "(ucast (kv_size ?e) :: u64) = 0" using k src(2) by (simp add: live_used_slot)
    moreover have "\<not> live t c" using c by (auto simp: insertable_def free_slot_def live_def)
    ultimately show ?thesis
      using False content_same [of t c "new_entry t c ?h 0 (ucast (pba ?e))"] len
      by (simp add: put_copy_def um_insert_def um_update_write Let_def live_def new_entry_flags)
  qed
qed

lemma tables_content_update:
  assumes "i < length ts" "content t = add_mset x (content (ts ! i))"
  shows "tables_content (ts[i := t]) = add_mset x (tables_content ts)"
  using assms
proof (induction ts arbitrary: i)
  case (Cons a ts)
  show ?case
  proof (cases i)
    case 0
    then show ?thesis using Cons.prems by (simp add: tables_content_def)
  next
    case (Suc j)
    then show ?thesis using Cons.IH [of j] Cons.prems by (simp add: tables_content_def)
  qed
qed simp

lemma tables_content_same:
  "i < length ts \<Longrightarrow> content t = content (ts ! i) \<Longrightarrow> tables_content (ts[i := t]) = tables_content ts"
proof (induction ts arbitrary: i)
  case (Cons a ts)
  then show ?case by (cases i) (auto simp: tables_content_def)
qed simp

lemma copy_target_less:
  assumes "tables_ok mb n ts"
  shows "copy_target mb n src p = unat (hash_to_dir_idx mb (entry_keyfp src p) n)"
    "copy_target mb n src p < length ts"
proof -
  have less: "unat (hash_to_dir_idx mb (entry_keyfp src p) n) < 2 ^ n"
    using assms by (intro hash_to_dir_idx_less) (simp add: tables_ok_def)
  have "(2::nat) ^ n \<le> 2 ^ 32" using assms by (intro power_increasing) (simp_all add: tables_ok_def)
  then show "copy_target mb n src p = unat (hash_to_dir_idx mb (entry_keyfp src p) n)"
      "copy_target mb n src p < length ts"
    using assms less by (simp_all add: copy_target_def tables_ok_def unsigned_ucast_eq take_bit_eq_mod)
qed

text \<open>The slot that takes the copy is not behind the slot of the original.\<close>

lemma copy_entry_greedy:
  assumes ts: "tables_ok mb n ts" and src: "table_ok mb src" "used_slot src p"
    and low: "below p (ts ! copy_target mb n src p)"
  obtains c where "copy_entry mb n ts src p = Some (ts[copy_target mb n src p := put_copy (ts ! copy_target mb n src p) src p c])"
    "insertable (ts ! copy_target mb n src p) (entry_keyfp src p) c" "c \<le> p"
proof -
  let ?i = "copy_target mb n src p" and ?h = "entry_keyfp src p"
  let ?t = "ts ! ?i"
  have tok: "table_ok mb ?t" using ts copy_target_less(2) [OF ts, of src p] by (auto simp: tables_ok_def)
  then have inv: "um_inv ?t" and small: "entry_nr_bits_m ?t \<le> 32" using ts by (auto simp: table_ok_def tables_ok_def)
  note hm = copy_home [OF src tok]
  have un: "\<not> used (ht_m ?t ! p)" using low src(2) hm(5) by (auto simp: below_def used_slot_def)
  have room: "\<not> bucket_full ?t ?h" using un hm by (auto simp: bucket_full_def free_slot_def)
  have le: "c \<le> p" if "insertable ?t ?h c" for c using that un hm by (auto simp: insertable_def not_less [symmetric])
  have usd: "used (ht_m src ! p)" using src(2) by (simp add: used_slot_def)
  note unfold = copy_entry_def [of mb n ts src p] copy_target_def [of mb n src p, symmetric]
  obtain rc he where l: "um_lookup ?t ?h = (rc, he)" by force
  have "rc \<noteq> ENOSPC" using bucket_full_lookup [OF inv, of ?h] room l by auto
  then consider (hit) c where "rc = E_OK" "he = Some c" | (free) c where "rc = ENODATA" "he = Some c"
    using um_lookup_cases [OF l] by auto
  then show ?thesis
  proof cases
    case free
    then have c: "insertable ?t ?h c" using insertable_candidate [OF inv] l by blast
    have "copy_entry mb n ts src p = Some (ts[?i := put_copy ?t src p c])"
      using l free usd by (simp add: unfold Let_def put_copy_def)
    then show ?thesis using c le [OF c] by (rule that)
  next
    case hit
    obtain rc2 he2 where f: "um_next_free ?t ?h = (rc2, he2)" by force
    then obtain c where c: "he2 = Some c" using bucket_full_next_free [OF inv small] room by (cases he2) auto
    have i: "insertable ?t ?h c" using insertable_next_free(1) [OF inv small] f c by blast
    have "copy_entry mb n ts src p = Some (ts[?i := put_copy ?t src p c])"
      using l hit usd f c by (simp add: unfold Let_def put_copy_def)
    then show ?thesis using i le [OF i] by (rule that)
  qed
qed

lemma copy_entry_ok:
  assumes ts: "tables_ok mb n ts" and src: "table_ok mb src" "used_slot src p"
    and low: "below p (ts ! copy_target mb n src p)"
  shows "\<exists>t. copy_entry mb n ts src p = Some (ts[copy_target mb n src p := t]) \<and> below (Suc p) t
    \<and> tables_ok mb n (ts[copy_target mb n src p := t])
    \<and> tables_content (ts[copy_target mb n src p := t]) = tables_content ts + mset (map (slot_info src) (filter (live src) [p]))"
proof -
  let ?i = "copy_target mb n src p"
  note idx = copy_target_less [OF ts, of src p]
  have tok: "table_ok mb (ts ! ?i)" using ts idx(2) by (auto simp: tables_ok_def)
  obtain c where c: "copy_entry mb n ts src p = Some (ts[?i := put_copy (ts ! ?i) src p c])"
    "insertable (ts ! ?i) (entry_keyfp src p) c" "c \<le> p" by (rule copy_entry_greedy [OF ts src low])
  let ?t = "put_copy (ts ! ?i) src p c"
  note put = put_copy_ok [OF src tok c(2)]
  have "below (Suc p) ?t" using put(3) low c(3) by (fastforce simp: below_def)
  moreover have "tables_content (ts[?i := ?t]) = tables_content ts + mset (map (slot_info src) (filter (live src) [p]))"
    using tables_content_update [OF idx(2), of ?t] tables_content_same [OF idx(2), of ?t] put(2) by simp
  moreover have "info_idx mb n (slot_info src p) = ?i" if "live src p"
    using info_matches_idx [OF entry_keyfp_info(2) [OF src(1) that]] idx(1) by simp
  then have "placed mb n (ts[?i := ?t])"
    using ts put(2) idx(2) by (auto simp: placed_def tables_ok_def nth_list_update split: if_splits)
  moreover have "\<forall>t \<in> set (ts[?i := ?t]). table_ok mb t"
    using ts put(1) by (auto simp: tables_ok_def dest!: set_update_subset_insert [THEN subsetD])
  ultimately show ?thesis using c(1) ts by (auto simp: tables_ok_def)
qed

lemma copy_slots_ok:
  assumes "tables_ok mb n ts" "table_ok mb src" "\<forall>q. used_slot src q \<longrightarrow> copy_target mb n src q \<in> I"
    "\<forall>i \<in> I. i < length ts \<longrightarrow> below p (ts ! i)" "p \<le> unat (entry_nr_m src)"
  shows "\<exists>ts'. copy_slots mb n ts src [p..<unat (entry_nr_m src)] = Some ts' \<and> tables_ok mb n ts'
    \<and> tables_content ts' = tables_content ts + mset (map (slot_info src) (filter (live src) [p..<unat (entry_nr_m src)]))
    \<and> (\<forall>i. i \<notin> I \<longrightarrow> ts' ! i = ts ! i)"
  using assms
proof (induction "unat (entry_nr_m src) - p" arbitrary: p ts)
  case 0
  then show ?case by simp
next
  case (Suc k)
  have p: "p < unat (entry_nr_m src)" using Suc.hyps(2) by simp
  note cons = upt_conv_Cons [OF p]
  show ?case
  proof (cases "used_slot src p")
    case False
    then have "\<not> used (ht_m src ! p)" "\<not> live src p" using p by (auto simp: used_slot_def live_def)
    moreover have "\<forall>i \<in> I. i < length ts \<longrightarrow> below (Suc p) (ts ! i)" using Suc.prems(4) by (fastforce simp: below_def)
    ultimately show ?thesis
      unfolding cons using Suc.hyps(1) [of "Suc p" ts] Suc.hyps(2) Suc.prems p by (simp add: copy_entry_def)
  next
    case True
    let ?i = "copy_target mb n src p"
    note idx = copy_target_less(2) [OF Suc.prems(1), of src p]
    have I: "?i \<in> I" using True Suc.prems(3) by blast
    then have "below p (ts ! ?i)" using Suc.prems(4) idx by blast
    then obtain t where t: "copy_entry mb n ts src p = Some (ts[?i := t])" "below (Suc p) t" "tables_ok mb n (ts[?i := t])"
      "tables_content (ts[?i := t]) = tables_content ts + mset (map (slot_info src) (filter (live src) [p]))"
      using copy_entry_ok [OF Suc.prems(1,2) True] by blast
    have mono: "below p u \<Longrightarrow> below (Suc p) u" for u by (auto simp: below_def intro: less_SucI)
    have "\<forall>i \<in> I. i < length (ts[?i := t]) \<longrightarrow> below (Suc p) (ts[?i := t] ! i)"
      using Suc.prems(4) t(2) mono idx by (simp add: nth_list_update)
    moreover have "k = unat (entry_nr_m src) - Suc p" "Suc p \<le> unat (entry_nr_m src)" using Suc.hyps(2) by simp_all
    ultimately obtain ts' where ts': "copy_slots mb n (ts[?i := t]) src [Suc p..<unat (entry_nr_m src)] = Some ts'" "tables_ok mb n ts'"
      "tables_content ts' = tables_content (ts[?i := t]) + mset (map (slot_info src) (filter (live src) [Suc p..<unat (entry_nr_m src)]))"
      "\<forall>i. i \<notin> I \<longrightarrow> ts' ! i = ts[?i := t] ! i"
      using Suc.hyps(1) [OF _ t(3) Suc.prems(2,3)] by blast
    have "ts' ! i = ts ! i" if "i \<notin> I" for i
    proof -
      have "?i \<noteq> i" using that I by blast
      then show ?thesis using ts'(4) that by simp
    qed
    then show ?thesis unfolding cons using ts' t(1,4) by auto
  qed
qed

lemma copy_tables_ok:
  assumes "tables_ok mb n ts" "\<forall>src \<in> set srcs. table_ok mb src"
    "\<forall>j < length srcs. \<forall>q. used_slot (srcs ! j) q \<longrightarrow> copy_target mb n (srcs ! j) q div 2 = k + j"
    "\<forall>i < length ts. k \<le> i div 2 \<longrightarrow> below 0 (ts ! i)"
  shows "\<exists>ts'. copy_tables mb n ts srcs = Some ts' \<and> tables_ok mb n ts'
    \<and> tables_content ts' = tables_content ts + tables_content srcs"
  using assms
proof (induction srcs arbitrary: ts k)
  case Nil
  then show ?case by (simp add: tables_content_def)
next
  case (Cons src srcs)
  have tg: "\<forall>q. used_slot src q \<longrightarrow> copy_target mb n src q \<in> {i. i div 2 = k}"
    using Cons.prems(3) [rule_format, of 0] by simp
  have "table_ok mb src" "\<forall>i \<in> {i. i div 2 = k}. i < length ts \<longrightarrow> below 0 (ts ! i)" using Cons.prems(2,4) by simp_all
  note sl = copy_slots_ok [OF Cons.prems(1) this(1) tg this(2) le0]
  obtain ts1 where ts1: "copy_slots mb n ts src [0..<unat (entry_nr_m src)] = Some ts1" "tables_ok mb n ts1"
    "tables_content ts1 = tables_content ts + content src" "\<And>i. i div 2 \<noteq> k \<Longrightarrow> ts1 ! i = ts ! i"
    using sl unfolding content_def live_slots_def by blast
  have "length ts1 = length ts" using ts1(2) Cons.prems(1) by (simp add: tables_ok_def)
  then have low: "\<forall>i < length ts1. Suc k \<le> i div 2 \<longrightarrow> below 0 (ts1 ! i)" using Cons.prems(4) ts1(4) by simp
  have "copy_target mb n (srcs ! j) q div 2 = Suc k + j" if "j < length srcs" "used_slot (srcs ! j) q" for j q
    using Cons.prems(3) [rule_format, of "Suc j" q] that by simp
  then obtain ts' where "copy_tables mb n ts1 srcs = Some ts'" "tables_ok mb n ts'"
    "tables_content ts' = tables_content ts1 + tables_content srcs"
    using Cons.IH [OF ts1(2) _ _ low] Cons.prems(2) by auto
  then show ?case using ts1(1,3) by (simp add: tables_content_def add.assoc)
qed

text \<open>Without tombstones the placement of the live entries is the placement of the used ones.\<close>

lemma clean_used_placed:
  assumes "tables_ok mb n ts" "\<forall>t \<in> set ts. clean t"
  shows "used_placed mb n ts"
  unfolding used_placed_def
proof (intro allI impI)
  fix k p assume k: "k < length ts" and u: "used_slot (ts ! k) p"
  have tok: "table_ok mb (ts ! k)" "clean (ts ! k)" using assms k by (auto simp: tables_ok_def)
  have len: "p < length (ht_m (ts ! k))" using u tok(1) by (auto simp: used_slot_def table_ok_def um_inv_def um_wf_def)
  then have l: "live (ts ! k) p" using u tok(2) by (auto simp: live_used_slot clean_def)
  then have "slot_info (ts ! k) p \<in># content (ts ! k)" unfolding content_live by blast
  then have "info_idx mb n (slot_info (ts ! k) p) = k" using assms(1) k by (auto simp: tables_ok_def placed_def)
  then show "unat (hash_to_dir_idx mb (entry_keyfp (ts ! k) p) n) = k"
    using info_matches_idx [OF entry_keyfp_info(2) [OF tok(1) l]] by simp
qed

end
