(* ===== verification/Dir_Grow.thy ===== *)
theory Dir_Grow
  imports Dir_Copy
begin

section \<open>Growing the directory\<close>

text \<open>
  The whole of \<open>grow\<close>: the new tables are fresh and of the same width, the copy
  loop fills them, and the published directory satisfies the invariant and has the
  contents of the old one.  \<open>grow_fits\<close> says that a segment's net size gives tables
  of width \<open>mb\<close>.
\<close>

definition table_size :: "geometry \<Rightarrow> u64" where
  "table_size g = net_size_b g - DIRMAP_MD_OVRH"

definition grow_fits :: "geometry \<Rightarrow> grow_env \<Rightarrow> nat \<Rightarrow> bool" where
  "grow_fits g env mb \<longleftrightarrow> mb \<le> 32 \<and> unat (table_size g) < 2 ^ 58
     \<and> 2 ^ mb + 32 \<le> unat (table_size g) div 8 \<and> unat (table_size g) div 8 < 2 ^ Suc mb + 32
     \<and> (\<forall>i. length (ge_region env i) = unat (table_size g) div 8)"

definition fresh :: "nat \<Rightarrow> umap \<Rightarrow> bool" where
  "fresh mb m \<longleftrightarrow> table_ok mb m \<and> clean m \<and> content m = {#}"

lemma pow2_sandwich:
  assumes "(2::nat) ^ k + 32 \<le> S" "S < 2 * 2 ^ k + 32" "2 ^ mb + 32 \<le> S" "S < 2 ^ Suc mb + 32"
  shows "k = mb"
proof -
  have "(2::nat) ^ k < 2 ^ Suc mb" "(2::nat) ^ mb < 2 ^ Suc k" using assms by simp_all
  then have "k < Suc mb" "mb < Suc k" by (simp_all add: power_less_imp_less_exp [of 2])
  then show ?thesis by simp
qed

lemma um_init_fresh:
  assumes fits: "grow_fits g env mb" and lk: "lock_nr \<noteq> 0" and len: "length ht = unat (table_size g) div 8"
  obtains m' where "um_init m lock_nr (table_size g) (Some ht) = Some (m', E_OK)" "fresh mb m'"
proof -
  let ?S = "unat (table_size g) div 8"
  have "(1::nat) \<le> 2 ^ mb" by simp
  then have "33 \<le> ?S" using fits unfolding grow_fits_def by linarith
  then have sz: "264 \<le> unat (table_size g)" "unat (table_size g) < 2 ^ 58"
    using fits by (auto simp: grow_fits_def)
  obtain m' where m': "um_init m lock_nr (table_size g) (Some ht) = Some (m', E_OK)" "um_inv m'"
    "ht_m m' = replicate ?S erased_entry" "?S < 2 * (unat (entry_nr_m m') - 32) + 32"
    using um_init_inv [OF sz lk len] by metis
  note wf = um_invD(1) [OF m'(2)]
  have "entry_nr_bits_m m' = mb"
    using fits m'(3,4) um_wf_nr [OF wf] um_wf_length [OF wf]
    by (intro pow2_sandwich [of _ ?S]) (simp_all add: grow_fits_def)
  moreover have "clean m'" using m'(3) by (simp add: clean_def erased_entry_free)
  moreover have none: "{i. live m' i} = {}"
    using m'(3) um_wf_length [OF wf] um_wf_nr [OF wf] by (auto simp: live_def erased_entry_free)
  have "content m' = {#}" unfolding content_alt none by simp
  ultimately show ?thesis using that m' by (simp add: fresh_def table_ok_def)
qed

lemma grow_alloc_ok:
  assumes "grow_alloc g env i n acc = (E_OK, dir)"
    "\<forall>e \<in> set acc. size_b e = net_size_b g \<and> length (ht_m (dme_map e)) = unat (table_size g) div 8"
    "\<forall>i. length (ge_region env i) = unat (table_size g) div 8"
  shows "length dir = length acc + n \<and>
    (\<forall>e \<in> set dir. size_b e = net_size_b g \<and> length (ht_m (dme_map e)) = unat (table_size g) div 8)"
  using assms
  by (induction g env i n acc rule: grow_alloc.induct) (auto simp: Let_def split: prod.splits if_splits)

lemma grow_init_ok:
  assumes fits: "grow_fits g env mb" and lk: "lock_nr \<noteq> 0"
    and "\<forall>e \<in> set dir. size_b e = net_size_b g \<and> length (ht_m (dme_map e)) = unat (table_size g) div 8"
  shows "\<exists>dir'. grow_init lock_nr dir = Some (E_OK, dir') \<and> length dir' = length dir
    \<and> (\<forall>e \<in> set dir'. fresh mb (dme_map e))"
  using assms(3)
proof (induction dir)
  case (Cons e es)
  obtain es' where es': "grow_init lock_nr es = Some (E_OK, es')" "length es' = length es"
    "\<forall>e \<in> set es'. fresh mb (dme_map e)" using Cons by auto
  obtain m where m: "um_init (dme_map e) lock_nr (table_size g) (Some (ht_m (dme_map e))) = Some (m, E_OK)" "fresh mb m"
    using um_init_fresh [OF fits lk] Cons.prems by (metis list.set_intros(1))
  have "size_b e - DIRMAP_MD_OVRH = table_size g" using Cons.prems by (simp add: table_size_def)
  then show ?case using es' m by simp
qed simp

lemma lock_nr_nonzero: "(of_nat (max 1 (HOP_LOCK_NR div k)) :: u32) \<noteq> 0"
proof -
  have "8192 div k < 2 ^ 32" by (rule le_less_trans [OF div_le_dividend]) simp
  then have "unat (of_nat (max 1 (8192 div k)) :: u32) = max 1 (8192 div k)"
    by (intro unat_of_nat_small) simp
  then have "unat (of_nat (max 1 (8192 div k)) :: u32) \<noteq> 0" by simp
  then show ?thesis by (metis HOP_LOCK_NR_simp unat_0)
qed

text \<open>What the tables look like when the copy starts.\<close>

definition new_tables :: "geometry \<Rightarrow> grow_env \<Rightarrow> dmap \<Rightarrow> dme list" where
  "new_tables g env d =
     (let n = max 1 (2 * length (directory d));
          lock_nr = of_nat (max 1 (HOP_LOCK_NR div n))
      in snd (the (grow_init lock_nr (snd (grow_alloc g env 0 n [])))))"

lemma new_tables_fresh:
  assumes "grow_fits g env mb" "fst (grow_alloc g env 0 (max 1 (2 * length (directory d))) []) = E_OK"
  shows "length (new_tables g env d) = max 1 (2 * length (directory d))"
    "\<forall>e \<in> set (new_tables g env d). fresh mb (dme_map e)"
    "grow_init (of_nat (max 1 (HOP_LOCK_NR div max 1 (2 * length (directory d)))))
       (snd (grow_alloc g env 0 (max 1 (2 * length (directory d))) [])) = Some (E_OK, new_tables g env d)"
proof -
  let ?n = "max 1 (2 * length (directory d))"
  obtain dir where a: "grow_alloc g env 0 ?n [] = (E_OK, dir)" using assms(2) by (metis prod.collapse)
  have dir: "length dir = ?n"
    "\<forall>e \<in> set dir. size_b e = net_size_b g \<and> length (ht_m (dme_map e)) = unat (table_size g) div 8"
    using grow_alloc_ok [OF a] assms(1) by (auto simp: grow_fits_def)
  obtain dir' where i: "grow_init (of_nat (max 1 (HOP_LOCK_NR div ?n))) dir = Some (E_OK, dir')"
    "length dir' = length dir" "\<forall>e \<in> set dir'. fresh mb (dme_map e)"
    using grow_init_ok [OF assms(1) lock_nr_nonzero dir(2), of ?n] by blast
  then have "new_tables g env d = dir'" using a by (simp add: new_tables_def Let_def)
  then show "length (new_tables g env d) = ?n" "\<forall>e \<in> set (new_tables g env d). fresh mb (dme_map e)"
    "grow_init (of_nat (max 1 (HOP_LOCK_NR div ?n))) (snd (grow_alloc g env 0 ?n [])) = Some (E_OK, new_tables g env d)"
    using i dir(1) a by simp_all
qed

lemma fresh_tables_ok:
  assumes "\<forall>t \<in> set ts. fresh mb t" "length ts = 2 ^ n" "n < 32" "n \<le> 8 + mb" "mb \<le> 32"
  shows "tables_ok mb n ts" "\<forall>t \<in> set ts. clean t" "tables_content ts = {#}"
proof -
  show "\<forall>t \<in> set ts. clean t" using assms(1) by (simp add: fresh_def)
  have "\<forall>t < length ts. content (ts ! t) = {#}" using assms(1) by (simp add: fresh_def)
  then show "tables_ok mb n ts" using assms by (auto simp: tables_ok_def placed_def fresh_def)
  show "tables_content ts = {#}"
    using assms(1) unfolding tables_content_def fresh_def by (induction ts) auto
qed

lemma tables_write_hdrs:
  assumes "length maps = length dir"
  shows "map dme_map (write_hdrs env (map2 (\<lambda>e m. e\<lparr>dme_map := m\<rparr>) dir maps)) = maps"
  using assms by (auto simp: write_hdrs_def intro!: nth_equalityI)

lemma copy_tables_length: "copy_tables mb n ts srcs = Some ts' \<Longrightarrow> length ts' = length ts"
proof -
  have one: "length ts'' = length ts" if "copy_entry mb n ts src p = Some ts''" for ts ts'' src p
    using that by (auto simp: copy_entry_def Let_def split: if_splits prod.splits errno.splits option.splits)
  have slots: "length ts'' = length ts" if "copy_slots mb n ts src ps = Some ts''" for ts ts'' src ps
    using that by (induction ps arbitrary: ts) (auto dest: one split: option.splits)
  show "copy_tables mb n ts srcs = Some ts' \<Longrightarrow> length ts' = length ts"
    by (induction srcs arbitrary: ts) (auto dest: slots split: option.splits)
qed

text \<open>Everything that has to go right for the new directory to be published.\<close>

definition env_ok :: "geometry \<Rightarrow> grow_env \<Rightarrow> dmap \<Rightarrow> bool" where
  "env_ok g env d \<longleftrightarrow> \<not> ge_raced env
     \<and> fst (grow_alloc g env 0 (max 1 (2 * length (directory d))) []) = E_OK
     \<and> (directory d \<noteq> [] \<longrightarrow> ge_protect_ro env = E_OK \<and> ge_protect_none env = E_OK)
     \<and> fst (grow_munmap g env 0 (directory d)) = E_OK"

definition copied :: "geometry \<Rightarrow> grow_env \<Rightarrow> dmap \<Rightarrow> umap list option" where
  "copied g env d = copy_tables (map_entry_nr_bits_m d) (dir_idx_bits (new_tables g env d))
     (map dme_map (new_tables g env d)) (tables d)"

lemma grow_unfold:
  assumes "grow_fits g env mb" "env_ok g env d"
  shows "grow g env d =
    (case copied g env d of
       None \<Rightarrow> Some (d, E_OK, grains_of g (new_tables g env d))
     | Some maps \<Rightarrow>
         Some (d\<lparr>directory := write_hdrs env (map2 (\<lambda>e m. e\<lparr>dme_map := m\<rparr>) (new_tables g env d) maps),
                 grow_nr_m := grow_nr_m d + 1\<rparr>, E_OK, snd (grow_munmap g env 0 (directory d))))"
proof -
  let ?n = "max 1 (2 * length (directory d))"
  obtain dir where a: "grow_alloc g env 0 ?n [] = (E_OK, dir)"
    using assms(2) by (metis env_ok_def prod.collapse)
  have "fst (grow_alloc g env 0 ?n []) = E_OK" using a by simp
  note nt = new_tables_fresh [OF assms(1) this]
  obtain ivs where u: "grow_munmap g env 0 (directory d) = (E_OK, ivs)"
    using assms(2) by (metis env_ok_def prod.collapse)
  show ?thesis
    using assms(2) a nt(3) u
    by (auto simp: grow_def Let_def env_ok_def grow_fail_def copied_def tables_def split: option.splits)
qed

lemma fresh_below: "fresh mb t \<Longrightarrow> below 0 t"
  unfolding below_def
proof (intro allI impI)
  fix i assume f: "fresh mb t" and u: "used_slot t i"
  have "i < length (ht_m t)" using f u by (auto simp: fresh_def table_ok_def um_inv_def um_wf_def used_slot_def)
  then have "live t i" using f u by (auto simp: fresh_def clean_def live_used_slot)
  then have "slot_info t i \<in># content t" unfolding content_live by blast
  then show "i < 0" using f by (simp add: fresh_def)
qed

lemma copied_ok:
  assumes ts: "tables_ok mb n (tables d)" and mb: "mb = map_entry_nr_bits_m d" and up: "used_placed mb n (tables d)"
    and len: "length (new_tables g env d) = 2 ^ Suc n" and fr: "\<forall>t \<in> set (map dme_map (new_tables g env d)). fresh mb t"
    and small: "Suc n < 32" "Suc n \<le> 8 + mb"
  shows "\<exists>maps. copied g env d = Some maps \<and> tables_ok mb (Suc n) maps \<and> tables_content maps = dm_content d"
proof -
  let ?nt = "map dme_map (new_tables g env d)"
  have bits: "dir_idx_bits (new_tables g env d) = Suc n" using dir_idx_bits_pow2 [OF len] small by simp
  have "mb \<le> 32" using ts by (simp add: tables_ok_def)
  note ft = fresh_tables_ok [OF fr _ small this, unfolded length_map, OF len]
  have tg: "copy_target mb (Suc n) (tables d ! j) q div 2 = 0 + j" if "j < length (tables d)" "used_slot (tables d ! j) q" for j q
    using up that copy_target_less(1) [OF ft(1)] hash_to_dir_idx_grow [OF small(2)] by (simp add: used_placed_def)
  have low: "\<forall>i < length ?nt. 0 \<le> i div 2 \<longrightarrow> below 0 (?nt ! i)"
    using fr fresh_below nth_mem [of _ ?nt] by blast
  obtain maps where "copy_tables mb (Suc n) ?nt (tables d) = Some maps" "tables_ok mb (Suc n) maps"
    "tables_content maps = tables_content ?nt + tables_content (tables d)"
    using copy_tables_ok [OF ft(1) _ _ low, of "tables d"] ts tg by (auto simp: tables_ok_def)
  then show ?thesis using ft(3) by (simp add: copied_def bits mb dm_content_def)
qed

lemma grow_content:
  assumes inv: "dm_inv d" and fits: "grow_fits g env (map_entry_nr_bits_m d)" and env: "env_ok g env d"
    and room: "2 * length (directory d) \<le> 2 ^ (8 + map_entry_nr_bits_m d)" "length (directory d) < 2 ^ 31"
    and up: "used_placed (map_entry_nr_bits_m d) (dir_idx_bits (directory d)) (tables d)"
  obtains d' ivs where "grow g env d = Some (d', E_OK, ivs)" "dm_inv d'" "dm_content d' = dm_content d"
    "length (directory d') = 2 * length (directory d)" "map_entry_nr_bits_m d' = map_entry_nr_bits_m d"
proof -
  let ?mb = "map_entry_nr_bits_m d" and ?nt = "new_tables g env d"
  define n where "n = dir_idx_bits (directory d)"
  have ts: "tables_ok ?mb n (tables d)" using inv by (simp add: dm_inv_def n_def)
  then have n: "length (directory d) = 2 ^ n" by (simp add: tables_ok_def tables_def)
  have len: "length ?nt = 2 ^ Suc n"
    using new_tables_fresh(1) [OF fits, of d] env n(1) by (simp add: env_ok_def)
  have fr: "\<forall>t \<in> set (map dme_map ?nt). fresh ?mb t"
    using new_tables_fresh(2) [OF fits, of d] env by (simp add: env_ok_def)
  have "(2::nat) ^ n < 2 ^ 31" using room(2) n(1) by metis
  then have "n < 31" by (rule power_less_imp_less_exp [rotated]) simp
  moreover have "(2::nat) ^ Suc n \<le> 2 ^ (8 + ?mb)" using room(1) n(1) by (simp only: power_Suc)
  then have "Suc n \<le> 8 + ?mb" by (rule power_le_imp_le_exp [rotated]) simp
  ultimately have small: "Suc n < 32" "Suc n \<le> 8 + ?mb" by simp_all
  obtain maps where c: "copied g env d = Some maps" "tables_ok ?mb (Suc n) maps" "tables_content maps = dm_content d"
    using copied_ok [OF ts refl up [folded n_def] len fr small] by blast
  let ?d' = "d\<lparr>directory := write_hdrs env (map2 (\<lambda>e m. e\<lparr>dme_map := m\<rparr>) ?nt maps), grow_nr_m := grow_nr_m d + 1\<rparr>"
  have g: "grow g env d = Some (?d', E_OK, snd (grow_munmap g env 0 (directory d)))"
    using grow_unfold [OF fits env] c(1) by simp
  have lm: "length maps = length ?nt" using copy_tables_length [OF c(1) [unfolded copied_def]] by simp
  have tb: "tables ?d' = maps" unfolding tables_def using tables_write_hdrs [OF lm] by simp
  have "length (directory ?d') = length (tables ?d')" by (simp add: tables_def)
  then have ld: "length (directory ?d') = 2 ^ Suc n" unfolding tb using lm len by simp
  then have "dir_idx_bits (directory ?d') = Suc n" using dir_idx_bits_pow2 [OF ld] small by simp
  then have "dm_inv ?d'" unfolding dm_inv_def tb using c(2) by simp
  moreover have "dm_content ?d' = dm_content d" unfolding dm_content_def tb by (simp add: c(3) dm_content_def)
  moreover have "length (directory ?d') = 2 * length (directory d)" using ld n by simp
  ultimately show ?thesis by (intro that [OF g]) simp_all
qed

text \<open>Starting from scratch.\<close>

lemma dm_init_fresh_ok:
  assumes fits: "grow_fits g env mb" and env: "env_ok g env dm_new"
    and r: "dm_init_fresh g env dm_new = Some (d', rc)"
  shows "rc = E_OK" "dm_inv d'" "dm_content d' = {#}" "map_entry_nr_bits_m d' = mb" "length (directory d') = 1"
proof -
  let ?nt = "new_tables g env dm_new"
  have len: "length ?nt = 1" and fr: "\<forall>e \<in> set ?nt. fresh mb (dme_map e)"
    using new_tables_fresh [OF fits, of dm_new] env by (auto simp: env_ok_def dm_new_def)
  then obtain e where e: "?nt = [e]" "fresh mb (dme_map e)" by (cases ?nt) auto
  have none: "tables dm_new = []" by (simp add: tables_def dm_new_def)
  have c: "copied g env dm_new = Some [dme_map e]" by (simp add: copied_def e(1) none)
  define d1 where "d1 = dm_new\<lparr>directory := write_hdrs env [e], grow_nr_m := grow_nr_m dm_new + 1\<rparr>"
  have g: "grow g env dm_new = Some (d1, E_OK, [])"
    using grow_unfold [OF fits env] c by (simp add: e(1) d1_def) (simp add: dm_new_def)
  have dir1: "map dme_map (directory d1) = [dme_map e]" "length (directory d1) = 1"
    by (simp_all add: d1_def write_hdrs_def)
  then have d0: "dme_map (directory d1 ! 0) = dme_map e" by (cases "directory d1") auto
  have mb: "entry_nr_bits_m (dme_map e) = mb" using e(2) by (simp add: fresh_def table_ok_def)
  have d': "d' = d1\<lparr>map_entry_nr_bits_m := mb\<rparr>" "rc = E_OK"
    using r g d0 mb by (simp_all add: dm_init_fresh_def)
  then show "rc = E_OK" "map_entry_nr_bits_m d' = mb" "length (directory d') = 1" using dir1 by simp_all
  have tb: "tables d' = [dme_map e]" using d' dir1 by (simp add: tables_def)
  have "dir_idx_bits (directory d') = 0"
    using dir_idx_bits_pow2 [of "directory d'" 0] d' dir1 by simp
  moreover have "mb \<le> 32" using fits by (simp add: grow_fits_def)
  ultimately show "dm_inv d'" "dm_content d' = {#}"
    using fresh_tables_ok [of "[dme_map e]" mb 0] e(2) tb d' by (simp_all add: dm_inv_def dm_content_def)
qed

end
