(* ===== verification/Dir_Props.thy ===== *)
theory Dir_Props
  imports Dir_Grow Hop_Props
begin

section \<open>Properties of the directory of tables\<close>

text \<open>
  Growing the directory: what it keeps when it succeeds and what its error exits leave behind.
\<close>

subsection \<open>A directory with one table\<close>

definition ex_geom :: geometry where
  "ex_geom = \<lparr>g_seg_size = 82, g_seg_md_size = 1, g_grain_size = 16\<rparr>"

definition ex_grow :: grow_env where
  "ex_grow = \<lparr>ge_raced = False, ge_alloc = (\<lambda>i. (E_OK, of_nat i * 82)), ge_mmap_huge = (\<lambda>_. False), ge_mmap = (\<lambda>_. True),
     ge_region = (\<lambda>_. replicate 34 erased_entry), ge_protect_ro = E_OK, ge_protect_none = E_OK, ge_munmap = (\<lambda>_. E_OK),
     ge_ts = (\<lambda>_. 0), ge_csum32 = (\<lambda>_ _. 0)\<rparr>"

definition ex_dme :: "umap \<Rightarrow> dme" where
  "ex_dme t = \<lparr>dme_map = t, grain_offset = 820, size_b = 1296, huge = False, dme_hdr = zero_hdr, dme_ftr = zero_ftr\<rparr>"

definition ex_dir :: dmap where
  "ex_dir = \<lparr>directory = [ex_dme ex_one], grow_nr_m = 1, map_entry_nr_bits_m = 1\<rparr>"

lemma ex_grow_fits: "grow_fits ex_geom ex_grow 1"
  by (simp add: grow_fits_def table_size_def net_size_b_def ex_geom_def ex_grow_def DIRMAP_MD_OVRH_def)

lemma ex_dir_simps: "directory ex_dir = [ex_dme ex_one]" "tables ex_dir = [ex_one]" "map_entry_nr_bits_m ex_dir = 1"
  by (simp_all add: ex_dir_def tables_def ex_dme_def)

lemma ex_dir_bits: "dir_idx_bits [ex_dme t] = 0"
  using dir_idx_bits_pow2 [of "[ex_dme t]" 0] by simp

lemma ex_grow_env_ok: "env_ok ex_geom ex_grow ex_dir"
  by (simp add: env_ok_def ex_grow_def ex_geom_def ex_dir_simps eval_nat_numeral full_seg_b_def)

lemma ex_dir_inv: "dm_inv ex_dir" "used_placed 1 0 (tables ex_dir)"
proof -
  have t: "table_ok 1 ex_one" using ex_one_inv by (simp add: table_ok_def ex_one_def um_insert_def um_update_def Let_def ex_empty_def)
  have z: "info_idx 1 0 x = 0" if "x \<in># content ex_one" for x
  proof -
    have "\<exists>i. live ex_one i \<and> slot_info ex_one i = x" using that unfolding content_live .
    then obtain i where i: "live ex_one i" "slot_info ex_one i = x" by auto
    show ?thesis
      using info_matches_idx [OF entry_keyfp_info(2) [OF t i(1)], of 0] hash_to_dir_idx_less [of 0 1] i(2) by simp
  qed
  show "dm_inv ex_dir" using t z by (simp add: dm_inv_def tables_ok_def placed_def ex_dir_simps ex_dir_bits)
  show "used_placed 1 0 (tables ex_dir)" using hash_to_dir_idx_less [of 0 1] by (simp add: used_placed_def ex_dir_simps)
qed

subsection \<open>The properties\<close>

text \<open>
  C27: growing keeps every entry.  If the segments and mappings for the new tables can be had
  and the system calls on the old ones succeed, grow returns 0 with a directory of twice
  the size that holds exactly the same live entries (home bucket, tag, size and address)
  and satisfies the invariant; no entry is displaced, overwritten or refused on the way,
  and a lookup by hash finds an entry in the new directory iff it found one in the old.
\<close>

theorem grow_keeps_entries:
  assumes "dm_inv d" "grow_fits g env (map_entry_nr_bits_m d)" "env_ok g env d"
    "2 * length (directory d) \<le> 2 ^ (8 + map_entry_nr_bits_m d)" "length (directory d) < 2 ^ 31"
    "used_placed (map_entry_nr_bits_m d) (dir_idx_bits (directory d)) (tables d)"
  shows "\<exists>d' ivs. grow g env d = Some (d', E_OK, ivs) \<and> dm_inv d' \<and> dm_content d' = dm_content d
    \<and> length (directory d') = 2 * length (directory d)
    \<and> (\<forall>h. fst (dm_lookup d' h) = E_OK \<longleftrightarrow> fst (dm_lookup d h) = E_OK)"
proof -
  obtain d' ivs where g: "grow g env d = Some (d', E_OK, ivs)" "dm_inv d'" "dm_content d' = dm_content d"
    "length (directory d') = 2 * length (directory d)" "map_entry_nr_bits_m d' = map_entry_nr_bits_m d"
    by (rule grow_content [OF assms])
  then show ?thesis using dm_lookup_E_OK [OF assms(1)] dm_lookup_E_OK [OF g(2)] by simp
qed

theorem grow_keeps_entries_witness:
  "\<exists>d' ivs. grow ex_geom ex_grow ex_dir = Some (d', E_OK, ivs) \<and> dm_content d' = dm_content ex_dir
     \<and> length (directory d') = 2 \<and> fst (dm_lookup d' 5) = E_OK"
proof -
  have l: "fst (dm_lookup ex_dir 5) = E_OK" by code_simp
  show ?thesis
    using grow_keeps_entries [of ex_dir ex_geom ex_grow] ex_dir_inv ex_grow_fits ex_grow_env_ok l
    by (auto simp: ex_dir_simps ex_dir_bits)
qed

text \<open>
  A failed grow leaves the directory as it was.  Whatever call fails, and at whichever
  table, the directory that readers see is the old one.
\<close>

lemma grow_error_keeps_directory:
  assumes "grow g env d = Some (d', rc, ivs)" "rc \<noteq> E_OK"
  shows "d' = d"
  using assms by (auto simp: grow_def Let_def grow_fail_def split: if_splits option.splits prod.splits)

lemma grow_error_keeps_directory_witness:
  "\<exists>d' ivs. grow ex_geom (ex_grow\<lparr>ge_alloc := (\<lambda>i. if i = 0 then (E_OK, 0) else (ENOSPC, 0))\<rparr>) ex_dir = Some (d', ENOSPC, ivs) \<and> d' = ex_dir"
proof -
  have "\<exists>d' ivs. grow ex_geom (ex_grow\<lparr>ge_alloc := (\<lambda>i. if i = 0 then (E_OK, 0) else (ENOSPC, 0))\<rparr>) ex_dir = Some (d', ENOSPC, ivs)"
    by (simp add: grow_def Let_def ex_dir_simps ex_grow_def eval_nat_numeral grow_fail_def)
  then show ?thesis using grow_error_keeps_directory by blast
qed

lemma munmap_invalidates:
  assumes "j < length es" "\<forall>i \<le> j. i < j \<longrightarrow> ge_munmap env (k + i) = E_OK" "ge_munmap env (k + j) \<noteq> E_OK"
  shows "grow_munmap g env k es = (ge_munmap env (k + j), take j (grains_of g es))"
  using assms
proof (induction es arbitrary: k j)
  case (Cons e es)
  show ?case
  proof (cases j)
    case 0
    then show ?thesis using Cons.prems by simp
  next
    case (Suc i)
    have "grow_munmap g env (k + 1) es = (ge_munmap env (k + 1 + i), take i (grains_of g es))"
      using Cons.prems Suc by (intro Cons.IH) (auto simp: le_Suc_eq, metis Suc_le_mono add_Suc_right less_Suc_eq_le Suc_less_eq)
    moreover have "ge_munmap env k = E_OK" using Cons.prems(2) [rule_format, of 0] Suc by simp
    ultimately show ?thesis using Suc by (simp add: grains_of_def)
  qed
qed simp


definition ex_dir2 :: dmap where
  "ex_dir2 = \<lparr>directory = [ex_dme ex_empty, ex_dme ex_empty], grow_nr_m = 2, map_entry_nr_bits_m = 1\<rparr>"

lemma ex_empty_unused: "\<not> used_slot ex_empty i"
  by (auto simp: used_slot_def ex_empty_def um_new_def erased_entry_free)

lemma ex_dir2_copied:
  assumes "grow_fits ex_geom env 1" "fst (grow_alloc ex_geom env 0 4 []) = E_OK"
  shows "\<exists>maps. copied ex_geom env ex_dir2 = Some maps"
proof -
  have tb: "tables ex_dir2 = [ex_empty, ex_empty]" by (simp add: ex_dir2_def tables_def ex_dme_def)
  have len: "length (directory ex_dir2) = 2" by (simp add: ex_dir2_def)
  have "\<not> live ex_empty i" for i using ex_empty_unused by (simp add: live_used_slot)
  then have "content ex_empty = {#}" using content_live [of _ ex_empty] by (metis multiset_nonemptyE)
  then have ts: "tables_ok 1 1 (tables ex_dir2)"
    using ex_empty_inv by (simp add: tables_ok_def tb table_ok_def ex_empty_def placed_def less_Suc_eq)
  have up: "used_placed 1 1 (tables ex_dir2)"
    using ex_empty_unused by (simp add: used_placed_def tb less_Suc_eq)
  have four: "max 1 (2 * length (directory ex_dir2)) = 4" by (simp add: len)
  note nt = new_tables_fresh [OF assms(1), of ex_dir2, unfolded four, OF assms(2)]
  show ?thesis
    using copied_ok [OF ts _ up, of ex_geom env] nt by (auto simp: ex_dir2_def)
qed


end
