(* ===== verification/KV_Record.thy ===== *)
theory KV_Record
  imports UD_Util Byte_Enc
begin

section \<open>Records on the device (\<^verbatim>\<open>lsa/store.hh\<close>, sizes of \<^verbatim>\<open>udepot-lsa.hh\<close>)\<close>

text \<open>
  A record is the packed header, the key, the value, the checksum suffix and zero
  padding up to a whole number of grains.  The device is a function from byte
  addresses to bytes.
\<close>

record store_hdr =
  sh_key_size :: u16
  sh_val_size :: u32
  sh_timestamp :: u64

definition PREFIX_SIZE :: nat where "PREFIX_SIZE = 2 + 4 + 8"
definition SUFFIX_SIZE :: nat where "SUFFIX_SIZE = 2"

definition zero_md :: store_hdr where
  "zero_md = \<lparr>sh_key_size = 0, sh_val_size = 0, sh_timestamp = 0\<rparr>"

definition enc_hdr :: "store_hdr \<Rightarrow> bytes" where
  "enc_hdr md = le16 (sh_key_size md) @ le32 (sh_val_size md) @ le64 (sh_timestamp md)"

definition dec_hdr :: "bytes \<Rightarrow> store_hdr" where
  "dec_hdr bs = \<lparr>sh_key_size = of_le (take 2 bs), sh_val_size = of_le (take 4 (drop 2 bs)),
     sh_timestamp = of_le (take 8 (drop 6 bs))\<rparr>"

text \<open>The grain number that stands for none.\<close>

definition SALSA_INVAL_GRAIN :: u64 where
  "SALSA_INVAL_GRAIN = - 1"

subsection \<open>Sizes\<close>

text \<open>The two sizes are added as 32-bit values before the header sizes are.\<close>

definition kv_raw_bytes_get :: "u32 \<Rightarrow> u32 \<Rightarrow> u64" where
  "kv_raw_bytes_get key_size val_size = ucast (val_size + key_size)"

definition kv_tot_raw_bytes_get :: "u32 \<Rightarrow> u32 \<Rightarrow> u64" where
  "kv_tot_raw_bytes_get key_size val_size =
     ucast (val_size + key_size) + of_nat PREFIX_SIZE + of_nat SUFFIX_SIZE"

definition kv_tot_grains_get :: "u64 \<Rightarrow> u32 \<Rightarrow> u32 \<Rightarrow> u64" where
  "kv_tot_grains_get grain_size key_size val_size =
     udiv_round_up (ucast (val_size + key_size) + of_nat PREFIX_SIZE + of_nat SUFFIX_SIZE) grain_size"

definition kv_tot_bytes_get :: "u64 \<Rightarrow> u32 \<Rightarrow> u32 \<Rightarrow> u64" where
  "kv_tot_bytes_get grain_size key_size val_size =
     grain_size * kv_tot_grains_get grain_size key_size val_size"

subsection \<open>The device\<close>

type_synonym device = "nat \<Rightarrow> u8"

definition dev_read :: "device \<Rightarrow> nat \<Rightarrow> nat \<Rightarrow> bytes" where
  "dev_read dev off n = map dev [off..<off + n]"

definition dev_write :: "device \<Rightarrow> nat \<Rightarrow> bytes \<Rightarrow> device" where
  "dev_write dev off bs = (\<lambda>a. if off \<le> a \<and> a < off + length bs then bs ! (a - off) else dev a)"

definition record_bytes :: "u64 \<Rightarrow> store_hdr \<Rightarrow> bytes \<Rightarrow> bytes \<Rightarrow> u16 \<Rightarrow> bytes" where
  "record_bytes grain_size md key val crc =
     (let body = enc_hdr md @ key @ val @ le16 crc;
          grains = udiv_round_up (of_nat (length body)) grain_size
      in body @ replicate (unat (grains * grain_size) - length body) 0)"

subsection \<open>Reading what was written\<close>

lemma PREFIX_SIZE_simp [simp]: "PREFIX_SIZE = 14" by (simp add: PREFIX_SIZE_def)
lemma SUFFIX_SIZE_simp [simp]: "SUFFIX_SIZE = 2" by (simp add: SUFFIX_SIZE_def)

lemma length_enc_hdr [simp]: "length (enc_hdr md) = 14"
  by (simp add: enc_hdr_def)

lemma dec_enc_hdr [simp]: "dec_hdr (enc_hdr md @ rest) = md"
  by (simp add: dec_hdr_def enc_hdr_def drop_append)

lemma enc_dec_hdr:
  assumes "length bs = 14"
  shows "enc_hdr (dec_hdr bs) = bs"
proof -
  have "le16 (of_le (take 2 bs)) = take 2 bs" "le32 (of_le (take 4 (drop 2 bs))) = take 4 (drop 2 bs)"
    "le64 (of_le (take 8 (drop 6 bs))) = take 8 (drop 6 bs)"
    using le_bytes_of_le [of "take 2 bs", where 'a = 16] le_bytes_of_le [of "take 4 (drop 2 bs)", where 'a = 32]
      le_bytes_of_le [of "take 8 (drop 6 bs)", where 'a = 64] assms by (simp_all add: le16_def le32_def le64_def)
  moreover have "bs = take 2 bs @ take 4 (drop 2 bs) @ take 8 (drop 6 bs)"
    using append_take_drop_id [of 2 bs] append_take_drop_id [of 4 "drop 2 bs"] assms by simp
  ultimately show ?thesis by (simp add: enc_hdr_def dec_hdr_def)
qed

lemma dec_hdr_take: "14 \<le> n \<Longrightarrow> dec_hdr (take n bs) = dec_hdr bs"
  by (simp add: dec_hdr_def drop_take min_def)

lemma length_dev_read [simp]: "length (dev_read dev off n) = n"
  by (simp add: dev_read_def)

lemma take_dev_read: "k \<le> n \<Longrightarrow> take k (dev_read dev off n) = dev_read dev off k"
  by (simp add: dev_read_def take_map)

lemma dev_read_write [simp]: "dev_read (dev_write dev off bs) off (length bs) = bs"
  by (rule nth_equalityI) (simp_all add: dev_read_def dev_write_def)

lemma dev_read_write_other:
  assumes "off + n \<le> off' \<or> off' + length bs \<le> off"
  shows "dev_read (dev_write dev off' bs) off n = dev_read dev off n"
  using assms by (auto simp: dev_read_def dev_write_def)

lemma dev_read_cong: "(\<And>a. off \<le> a \<Longrightarrow> a < off + n \<Longrightarrow> dev a = dev' a) \<Longrightarrow> dev_read dev off n = dev_read dev' off n"
  by (simp add: dev_read_def)

text \<open>Sizes without wrap-around.\<close>

lemma unat_kv_tot_raw:
  assumes "unat ks + unat vs < 2 ^ 32"
  shows "unat (ucast (vs + ks :: u32) + 14 + 2 :: u64) = unat ks + unat vs + 16"
proof -
  have a: "unat (vs + ks) = unat ks + unat vs" using assms unat_add_no_wrap [of vs ks] by simp
  have b: "unat (ucast (vs + ks) :: u64) = unat ks + unat vs" using a by (simp add: unat_ucast_up)
  have "(ucast (vs + ks) + 14 + 2 :: u64) = ucast (vs + ks) + 16" by simp
  then show ?thesis using unat_add_no_wrap [of "ucast (vs + ks) :: u64" 16] b assms by (simp only:) simp
qed

lemma kv_tot_grains_bounds:
  assumes fits: "unat ks + unat vs < 2 ^ 32" and gs: "gs \<noteq> 0" "unat gs < 2 ^ 32"
  defines "n \<equiv> unat ks + unat vs + 16"
  shows "unat (kv_tot_grains_get gs ks vs) = (n + unat gs - 1) div unat gs"
    "n \<le> unat (kv_tot_grains_get gs ks vs) * unat gs"
    "unat (kv_tot_grains_get gs ks vs) * unat gs < n + unat gs"
    "0 < unat (kv_tot_grains_get gs ks vs)"
proof -
  have n: "unat (ucast (vs + ks :: u32) + 14 + 2 :: u64) = n" using unat_kv_tot_raw [OF fits] by (simp add: n_def)
  show g: "unat (kv_tot_grains_get gs ks vs) = (n + unat gs - 1) div unat gs"
    using unat_udiv_round_up [OF gs(1), of "ucast (vs + ks) + 14 + 2"] n fits gs(2)
    by (simp add: kv_tot_grains_get_def n_def)
  have pos: "0 < unat gs" using gs(1) by (simp add: unat_gt_0)
  show "n \<le> unat (kv_tot_grains_get gs ks vs) * unat gs" "unat (kv_tot_grains_get gs ks vs) * unat gs < n + unat gs"
    using ceil_div_bounds [OF pos, of n] by (simp_all add: g mult.commute)
  then show "0 < unat (kv_tot_grains_get gs ks vs)" by (cases "unat (kv_tot_grains_get gs ks vs)") (auto simp: n_def)
qed

end
