(* ===== verification/KV_Store.thy ===== *)
theory KV_Store
  imports Dir_Map KV_Record
begin

section \<open>The key-value store (\<^verbatim>\<open>udepot-lsa.cc\<close>)\<close>

text \<open>
  \<open>kv\<close> is the state of \<open>uDepotSalsa\<close>: the directory map, the device and the counters
  of the base class.  \<open>'s\<close> is the state of the segment manager, which this theory only
  calls; its operations, the hash and checksum functions of the external libraries and
  the outcomes of I/O and buffer allocation are the fields of \<open>kv_env\<close>.  Buffers are
  byte lists; an operation runs without another one in between.
\<close>

datatype PutOp = NORMAL | REPLACE | CREATE

record 's kv_env =
  ev_hash :: "bytes \<Rightarrow> u64"
  ev_crc32 :: "u32 \<Rightarrow> bytes \<Rightarrow> u32"
  ev_seed :: u64
  ev_geom :: geometry
  ev_streams :: u32
  ev_allocate :: "'s \<Rightarrow> device \<Rightarrow> u64 \<Rightarrow> u32 \<Rightarrow> 's \<times> device \<times> errno \<times> u64"
  ev_drain :: "'s \<Rightarrow> u32 \<Rightarrow> 's"
  ev_invalidate :: "'s \<Rightarrow> u64 \<Rightarrow> u64 \<Rightarrow> 's"
  ev_release :: "'s \<Rightarrow> u64 \<Rightarrow> u64 \<Rightarrow> u32 \<Rightarrow> 's"
  ev_seg_ts :: "'s \<Rightarrow> u64 \<Rightarrow> u64"
  ev_grow :: "nat \<Rightarrow> grow_env"
  ev_mem_ok :: "nat \<Rightarrow> bool"
  ev_room_ok :: "nat \<Rightarrow> bool"
  ev_rd_err :: "nat \<Rightarrow> errno"
  ev_wr_err :: "nat \<Rightarrow> errno"

record 's kv =
  kv_map :: dmap
  kv_dev :: device
  kv_seg :: 's
  key_nr_m :: u64
  used_bytes_m :: u64
  total_bytes_m :: u64
  kv_ev :: nat

definition tick :: "'s kv \<Rightarrow> 's kv" where
  "tick s = s\<lparr>kv_ev := Suc (kv_ev s)\<rparr>"

definition gsize :: "'s kv_env \<Rightarrow> u64" where
  "gsize env = g_grain_size (ev_geom env)"

definition grain_to_seg_idx :: "'s kv_env \<Rightarrow> u64 \<Rightarrow> u64" where
  "grain_to_seg_idx env grain = grain div g_seg_size (ev_geom env)"

definition salsa_stream_get_id :: "'s kv_env \<Rightarrow> u64 \<Rightarrow> u32" where
  "salsa_stream_get_id env h = ucast (h mod ucast (ev_streams env))"

subsection \<open>Counters\<close>

definition kv_added :: "u64 \<Rightarrow> u64 \<Rightarrow> 's kv \<Rightarrow> 's kv" where
  "kv_added kv_bytes tot_bytes s = s\<lparr>used_bytes_m := used_bytes_m s + kv_bytes,
     total_bytes_m := total_bytes_m s + tot_bytes, key_nr_m := key_nr_m s + 1\<rparr>"

definition kv_removed :: "u64 \<Rightarrow> u64 \<Rightarrow> 's kv \<Rightarrow> 's kv" where
  "kv_removed kv_bytes tot_bytes s = s\<lparr>used_bytes_m := used_bytes_m s - kv_bytes,
     total_bytes_m := total_bytes_m s - tot_bytes, key_nr_m := key_nr_m s - 1\<rparr>"

definition kv_bytes_restored :: "u64 \<Rightarrow> u64 \<Rightarrow> 's kv \<Rightarrow> 's kv" where
  "kv_bytes_restored tot_bytes kv_bytes s = s\<lparr>used_bytes_m := kv_bytes, total_bytes_m := tot_bytes\<rparr>"

subsection \<open>Checksums\<close>

definition checksum32 :: "'s kv_env \<Rightarrow> u32 \<Rightarrow> bytes \<Rightarrow> u32" where
  "checksum32 env seed buf = ev_crc32 env (ev_crc32 env seed buf) (le64 (ev_seed env))"

definition checksum16 :: "'s kv_env \<Rightarrow> u32 \<Rightarrow> bytes \<Rightarrow> u16" where
  "checksum16 env seed buf = ucast (checksum32 env seed buf)"

subsection \<open>Finding an entry that has not been tried yet\<close>

definition visited_pba :: "u64 \<Rightarrow> u64 list \<Rightarrow> bool" where
  "visited_pba a pbas_visited \<longleftrightarrow> a \<in> set pbas_visited"

function skip_visited :: "umap \<Rightarrow> u64 \<Rightarrow> u64 list \<Rightarrow> nat option \<Rightarrow> nat option" where
  "skip_visited m h visited he =
     (case he of
        None \<Rightarrow> None
      | Some i \<Rightarrow> if visited_pba (ucast (pba (ht_m m ! i))) visited
                  then skip_visited m h visited (um_next m (Some i) h) else Some i)"
  by pat_completeness auto
termination
proof (relation "measure (\<lambda>(m, h, v, he). case he of None \<Rightarrow> 0
    | Some i \<Rightarrow> Suc (unat (hash_to_hb m h) + 32 - i))", simp)
  show "((m, h, v, um_next m (Some i) h), m, h, v, he) \<in> measure (\<lambda>(m, h, v, he). case he of None \<Rightarrow> 0
    | Some i \<Rightarrow> Suc (unat (hash_to_hb m h) + 32 - i))" if "he = Some i" for m h v he i
    using that um_next_bounds [of m i h] by (cases "um_next m (Some i) h") fastforce+
qed

declare skip_visited.simps [simp del]

definition lookup_common :: "dmap \<Rightarrow> u64 \<Rightarrow> u64 list \<Rightarrow> errno \<times> nat option" where
  "lookup_common d h visited =
     (case dm_lookup d h of (rc, trgt) \<Rightarrow>
        if rc \<noteq> E_OK then (rc, trgt) else (rc, skip_visited (table_of d h) h visited trgt))"

definition entry_at :: "dmap \<Rightarrow> u64 \<Rightarrow> nat \<Rightarrow> hash_entry" where
  "entry_at d h i = ht_m (table_of d h) ! i"

definition key_matches :: "store_hdr \<Rightarrow> bytes \<Rightarrow> bytes \<Rightarrow> bool" where
  "key_matches md key buf \<longleftrightarrow>
     unat (sh_key_size md) = length key \<and> take (length key) (drop PREFIX_SIZE buf) = key"

subsection \<open>Lookup for get\<close>

text \<open>
  The loop ends when an entry matches, when no untried entry is left or on an error; the
  33rd round would write past the array \<open>pbas_visited\<close> and is \<open>None\<close>.
\<close>

fun lookup_mbuff :: "'s kv_env \<Rightarrow> u64 \<Rightarrow> bytes \<Rightarrow> u64 list \<Rightarrow> nat \<Rightarrow> 's kv
    \<Rightarrow> ('s kv \<times> errno \<times> u32 \<times> bytes) option" where
  "lookup_mbuff env h key visited 0 s = None"
| "lookup_mbuff env h key visited (Suc n) s =
     (case lookup_common (kv_map s) h visited of (rc, trgt) \<Rightarrow>
      if rc \<noteq> E_OK then Some (s, rc, 0, [])
      else case trgt of
        None \<Rightarrow> Some (s, ENODATA, 0, [])
      | Some i \<Rightarrow>
          let trgtcpy = entry_at (kv_map s) h i;
              offset = ucast (pba trgtcpy) * gsize env;
              io_size = ucast (kv_size trgtcpy) * gsize env;
              alignment = min 512 (gsize env);
              io_size_aligned = align_up io_size alignment
          in if \<not> ev_mem_ok env (kv_ev s) then Some (tick s, ENOMEM, 0, [])
             else if ev_rd_err env (kv_ev s) \<noteq> E_OK then Some (tick s, EIO, 0, [])
             else
               let buf = dev_read (kv_dev s) (unat offset) (unat io_size_aligned);
                   md = dec_hdr buf;
                   ks = ucast (sh_key_size md);
                   vs = sh_val_size md;
                   s1 = tick s
               in if key_matches md key buf
                  then
                    if io_size \<noteq> gsize env * kv_tot_grains_get (gsize env) ks vs
                    then
                      let new_io_size = align_up (kv_tot_grains_get (gsize env) ks vs * gsize env) alignment
                      in if \<not> ev_mem_ok env (kv_ev s1) then Some (tick s1, ENOMEM, 0, [])
                         else if ev_rd_err env (kv_ev s1) \<noteq> E_OK then Some (tick s1, EIO, 0, [])
                         else Some (tick s1, EEXIST, vs, dev_read (kv_dev s) (unat offset) (unat new_io_size))
                    else Some (s1, EEXIST, vs, buf)
                  else lookup_mbuff env h key (visited @ [ucast (pba trgtcpy)]) n s1)"

definition kv_get :: "'s kv_env \<Rightarrow> bytes \<Rightarrow> 's kv \<Rightarrow> ('s kv \<times> errno \<times> bytes) option" where
  "kv_get env key s =
     (let h = ev_hash env key in
      case lookup_mbuff env h key [] (Suc BUCKET_SIZE) s of
        None \<Rightarrow> None
      | Some (s', err, val_size, buf) \<Rightarrow>
          if err = EEXIST
          then Some (s', E_OK, take (unat val_size) (drop (PREFIX_SIZE + length key) buf))
          else Some (s', err, []))"

subsection \<open>Metadata-only lookup\<close>

fun lookup_exists :: "'s kv_env \<Rightarrow> u64 \<Rightarrow> bytes \<Rightarrow> u64 list \<Rightarrow> nat \<Rightarrow> 's kv
    \<Rightarrow> ('s kv \<times> errno \<times> u32) option" where
  "lookup_exists env h key visited 0 s = None"
| "lookup_exists env h key visited (Suc n) s =
     (case lookup_common (kv_map s) h visited of (rc, trgt) \<Rightarrow>
      if rc \<noteq> E_OK then Some (s, rc, 0)
      else case trgt of
        None \<Rightarrow> Some (s, ENODATA, 0)
      | Some i \<Rightarrow>
          let trgtcpy = entry_at (kv_map s) h i;
              offset = ucast (pba trgtcpy) * gsize env;
              md_io_size = align_up (of_nat (PREFIX_SIZE + length key)) (min 512 (gsize env))
          in if \<not> ev_mem_ok env (kv_ev s) then Some (tick s, ENOMEM, 0)
             else if ev_rd_err env (kv_ev s) \<noteq> E_OK then Some (tick s, EIO, 0)
             else
               let buf = dev_read (kv_dev s) (unat offset) (unat md_io_size);
                   md = dec_hdr buf
               in if key_matches md key buf then Some (tick s, EEXIST, sh_val_size md)
                  else lookup_exists env h key (visited @ [ucast (pba trgtcpy)]) n (tick s))"

definition kv_exists :: "'s kv_env \<Rightarrow> bytes \<Rightarrow> 's kv \<Rightarrow> ('s kv \<times> errno \<times> u32) option" where
  "kv_exists env key s =
     (case lookup_exists env (ev_hash env key) key [] (Suc BUCKET_SIZE) s of
        None \<Rightarrow> None
      | Some (s', err, val_size) \<Rightarrow> Some (s', if err = EEXIST then E_OK else err, val_size))"

subsection \<open>Lookup for put and del\<close>

text \<open>
  After the I/O the entry is compared with the copy taken before it; \<open>put_check\<close> is that
  comparison against the map \<open>d'\<close> found when the lock is taken again.
\<close>

definition put_check :: "dmap \<Rightarrow> u64 \<Rightarrow> nat \<Rightarrow> hash_entry \<Rightarrow> bool \<Rightarrow> bool \<times> nat option" where
  "put_check d' h i trgtcpy match =
     (if entry_at d' h i \<noteq> trgtcpy
      then let trgt = dm_lookup_pba d' h (ucast (pba trgtcpy)) in (match \<and> trgt \<noteq> None, trgt)
      else (match, Some i))"

fun lookup_mbuff_put :: "'s kv_env \<Rightarrow> u64 \<Rightarrow> bytes \<Rightarrow> u64 list \<Rightarrow> nat \<Rightarrow> 's kv
    \<Rightarrow> ('s kv \<times> errno \<times> nat option \<times> store_hdr) option" where
  "lookup_mbuff_put env h key visited 0 s = None"
| "lookup_mbuff_put env h key visited (Suc n) s =
     (case lookup_common (kv_map s) h visited of (rc, trgt) \<Rightarrow>
      if rc \<noteq> E_OK then Some (s, rc, trgt, zero_md)
      else case trgt of
        None \<Rightarrow>
          (case dm_next_free (kv_map s) h of
             (err, Some f) \<Rightarrow> Some (s, ENODATA, Some f, zero_md)
           | (err, None) \<Rightarrow> Some (s, ENOSPC, None, zero_md))
      | Some i \<Rightarrow>
          let trgtcpy = entry_at (kv_map s) h i;
              offset = ucast (pba trgtcpy) * gsize env;
              io_size = of_nat (PREFIX_SIZE + length key);
              io_size_aligned = align_up io_size (min 512 (gsize env))
          in if \<not> ev_mem_ok env (kv_ev s) then Some (tick s, ENOMEM, None, zero_md)
             else if ev_rd_err env (kv_ev s) \<noteq> E_OK
             then Some (tick s, ev_rd_err env (kv_ev s), None, zero_md)
             else
               let buf = dev_read (kv_dev s) (unat offset) (unat io_size_aligned);
                   md = dec_hdr buf;
                   s1 = tick s
               in case put_check (kv_map s1) h i trgtcpy (key_matches md key buf) of (match, trgt') \<Rightarrow>
                    if match then Some (s1, EEXIST, trgt', md)
                    else lookup_mbuff_put env h key (visited @ [ucast (pba trgtcpy)]) n s1)"

subsection \<open>Writing a record\<close>

definition make_md :: "'s kv_env \<Rightarrow> 's kv \<Rightarrow> nat \<Rightarrow> nat \<Rightarrow> u64 \<Rightarrow> store_hdr" where
  "make_md env s key_size val_size grain =
     \<lparr>sh_key_size = of_nat key_size, sh_val_size = of_nat val_size,
      sh_timestamp = ev_seg_ts env (kv_seg s) (grain_to_seg_idx env grain)\<rparr>"

definition give_back :: "'s kv_env \<Rightarrow> u64 \<Rightarrow> u64 \<Rightarrow> u64 \<Rightarrow> 's kv \<Rightarrow> 's kv" where
  "give_back env h grain nr s =
     s\<lparr>kv_seg := ev_release env (ev_invalidate env (kv_seg s) grain nr) grain nr (salsa_stream_get_id env h)\<rparr>"

definition local_put_mbuff_io :: "'s kv_env \<Rightarrow> u64 \<Rightarrow> bytes \<Rightarrow> bytes \<Rightarrow> 's kv
    \<Rightarrow> 's kv \<times> errno \<times> u64" where
  "local_put_mbuff_io env h key val s =
     (let io_size = of_nat (length key + length val + PREFIX_SIZE + SUFFIX_SIZE);
          io_size_grains = udiv_round_up io_size (gsize env)
      in case ev_allocate env (kv_seg s) (kv_dev s) io_size_grains (salsa_stream_get_id env h) of
           (seg, dev, err, grain) \<Rightarrow>
             let s1 = s\<lparr>kv_seg := seg, kv_dev := dev\<rparr> in
             if err \<noteq> E_OK then (s1, err, SALSA_INVAL_GRAIN)
             else if \<not> ev_room_ok env (kv_ev s1)
             then (give_back env h grain io_size_grains (tick s1), EINVAL, SALSA_INVAL_GRAIN)
             else if \<not> ev_mem_ok env (kv_ev s1)
             then (give_back env h grain io_size_grains (tick s1), ENOMEM, SALSA_INVAL_GRAIN)
             else if ev_wr_err env (kv_ev s1) \<noteq> E_OK
             then (give_back env h grain io_size_grains (tick s1), ev_wr_err env (kv_ev s1), grain)
             else
               let md = make_md env s1 (length key) (length val) grain;
                   crc = checksum16 env (ucast (sh_timestamp md)) (enc_hdr md);
                   rec = record_bytes (gsize env) md key val crc
               in ((tick s1)\<lparr>kv_dev := dev_write dev (unat (grain * gsize env)) rec\<rparr>, E_OK, grain))"

definition is_pba_order_equal_to_total_order :: "'s kv_env \<Rightarrow> 's kv \<Rightarrow> u64 \<Rightarrow> u64 \<Rightarrow> store_hdr \<Rightarrow> bool" where
  "is_pba_order_equal_to_total_order env s old_pba new_pba old_md =
     (let old_seg_idx = grain_to_seg_idx env old_pba; new_seg_idx = grain_to_seg_idx env new_pba in
      if old_seg_idx \<noteq> new_seg_idx
      then sh_timestamp old_md < ev_seg_ts env (kv_seg s) new_seg_idx
      else old_pba < new_pba)"

subsection \<open>Updating the map\<close>

definition set_mapping :: "'s kv_env \<Rightarrow> u64 \<Rightarrow> nat \<Rightarrow> bool \<Rightarrow> nat \<Rightarrow> nat \<Rightarrow> u64 \<Rightarrow> store_hdr
    \<Rightarrow> 's kv \<Rightarrow> 's kv" where
  "set_mapping env h trgt update key_len val_len a old_md s =
     (let gs = gsize env;
          e = entry_at (kv_map s) h trgt;
          oks = ucast (sh_key_size old_md);
          ovs = sh_val_size old_md;
          old_grains = kv_tot_grains_get gs oks ovs;
          grains = kv_tot_grains_get gs (of_nat key_len) (of_nat val_len);
          s1 = (if update
                then kv_removed (kv_raw_bytes_get oks ovs) (kv_tot_bytes_get gs oks ovs)
                       (s\<lparr>kv_seg := ev_invalidate env (kv_seg s) (ucast (pba e)) old_grains,
                          kv_map := dm_update_inplace (kv_map s) h trgt grains a\<rparr>)
                else s\<lparr>kv_seg := (if deleted e then ev_invalidate env (kv_seg s) (ucast (pba e)) old_grains
                                  else kv_seg s),
                       kv_map := dm_insert (kv_map s) h trgt grains a\<rparr>)
      in kv_added (kv_raw_bytes_get (of_nat key_len) (of_nat val_len))
           (kv_tot_bytes_get gs (of_nat key_len) (of_nat val_len)) s1)"

definition local_put_mbuff :: "'s kv_env \<Rightarrow> u64 \<Rightarrow> bytes \<Rightarrow> bytes \<Rightarrow> u64 \<Rightarrow> PutOp \<Rightarrow> 's kv
    \<Rightarrow> ('s kv \<times> errno \<times> u64) option" where
  "local_put_mbuff env h key val grain op s =
     (case lookup_mbuff_put env h key [] (Suc BUCKET_SIZE) s of
        None \<Rightarrow> None
      | Some (s1, rc, trgt, old_md) \<Rightarrow>
          if rc = ENODATA then
            (if op = REPLACE then Some (s1, EINVAL, - 1)
             else Some (set_mapping env h (the trgt) False (length key) (length val) grain old_md s1, E_OK, - 1))
          else if rc = EEXIST then
            (if op = CREATE then Some (s1, EINVAL, - 1)
             else
               let old_pba = ucast (pba (entry_at (kv_map s1) h (the trgt))) in
               if \<not> is_pba_order_equal_to_total_order env s1 old_pba grain old_md
               then Some (s1, EALREADY, old_pba)
               else Some (set_mapping env h (the trgt) True (length key) (length val) grain old_md s1, E_OK, - 1))
          else if rc = ENOSPC then
            (case dm_try_shift (kv_map s1) h of (d', rc', trgt') \<Rightarrow>
               let s2 = s1\<lparr>kv_map := d'\<rparr> in
               if rc' \<noteq> E_OK then Some (s2, rc', - 1)
               else if op = REPLACE then Some (s2, EINVAL, - 1)
               else Some (set_mapping env h (the trgt') False (length key) (length val) grain old_md s2, E_OK, - 1))
          else Some (s1, rc, - 1))"

subsection \<open>put\<close>

text \<open>The three nested loops; running forever is \<open>None\<close>.\<close>

partial_function (option) put_io_loop :: "'s kv_env \<Rightarrow> u64 \<Rightarrow> bytes \<Rightarrow> bytes \<Rightarrow> 's kv
    \<Rightarrow> ('s kv \<times> errno \<times> u64) option" where
  [code]: "put_io_loop env h key val s =
     (case local_put_mbuff_io env h key val s of (s1, rc, grain) \<Rightarrow>
        if rc = EAGAIN then put_io_loop env h key val s1 else Some (s1, rc, grain))"

partial_function (option) put_map_loop :: "'s kv_env \<Rightarrow> u64 \<Rightarrow> bytes \<Rightarrow> bytes \<Rightarrow> u64 \<Rightarrow> PutOp \<Rightarrow> 's kv
    \<Rightarrow> ('s kv \<times> errno) option" where
  [code]: "put_map_loop env h key val grain op s =
     (case local_put_mbuff env h key val grain op s of
        None \<Rightarrow> None
      | Some (s1, rc, old_pba) \<Rightarrow>
          if rc = ENOSPC then
            (case grow (ev_geom env) (ev_grow env (kv_ev s1)) (kv_map s1) of
               None \<Rightarrow> None
             | Some (d', rc2, ivs) \<Rightarrow>
                 let s2 = tick (s1\<lparr>kv_map := d'\<rparr>) in
                 if rc2 = E_OK \<or> rc2 = EAGAIN then put_map_loop env h key val grain op s2
                 else Some (s2, ENOSPC))
          else if rc = EALREADY then
            Some (if grain_to_seg_idx env old_pba \<noteq> grain_to_seg_idx env grain
                  then s1\<lparr>kv_seg := ev_drain env (kv_seg s1) (salsa_stream_get_id env h)\<rparr> else s1, EALREADY)
          else if rc = EAGAIN then put_map_loop env h key val grain op s1
          else Some (s1, rc))"

partial_function (option) put_loop :: "'s kv_env \<Rightarrow> u64 \<Rightarrow> bytes \<Rightarrow> bytes \<Rightarrow> PutOp \<Rightarrow> 's kv
    \<Rightarrow> ('s kv \<times> errno) option" where
  [code]: "put_loop env h key val op s =
     (let size_grains = kv_tot_grains_get (gsize env) (of_nat (length key)) (of_nat (length val)) in
      case put_io_loop env h key val s of
        None \<Rightarrow> None
      | Some (s1, rc, grain) \<Rightarrow>
          if rc \<noteq> E_OK then Some (s1, rc)
          else case put_map_loop env h key val grain op s1 of
            None \<Rightarrow> None
          | Some (s2, rc) \<Rightarrow>
              let seg = (if rc \<noteq> E_OK then ev_invalidate env (kv_seg s2) grain size_grains else kv_seg s2);
                  s3 = s2\<lparr>kv_seg := ev_release env seg grain size_grains (salsa_stream_get_id env h)\<rparr>
              in if rc = EALREADY then put_loop env h key val op s3 else Some (s3, rc))"

definition kv_put :: "'s kv_env \<Rightarrow> bytes \<Rightarrow> bytes \<Rightarrow> PutOp \<Rightarrow> 's kv \<Rightarrow> ('s kv \<times> errno) option" where
  "kv_put env key val op s = put_loop env (ev_hash env key) key val op s"

subsection \<open>del\<close>

definition local_del_mbuff :: "'s kv_env \<Rightarrow> u64 \<Rightarrow> bytes \<Rightarrow> 's kv \<Rightarrow> ('s kv \<times> errno) option" where
  "local_del_mbuff env h key s =
     (case lookup_mbuff_put env h key [] (Suc BUCKET_SIZE) s of
        None \<Rightarrow> None
      | Some (s1, rc, trgt, old_md) \<Rightarrow>
          if rc \<noteq> EEXIST then
            Some (s1, if rc = ENOSPC then ENODATA else if rc = EIO \<or> rc = ENODATA then rc else ENOENT)
          else case put_io_loop env h key [] s1 of
            None \<Rightarrow> None
          | Some (s2, rc, grain) \<Rightarrow>
              if rc \<noteq> E_OK then Some (s2, rc)
              else
                let gs = gsize env;
                    old_pba = ucast (pba (entry_at (kv_map s2) h (the trgt)));
                    oks = ucast (sh_key_size old_md);
                    ovs = sh_val_size old_md
                in if \<not> is_pba_order_equal_to_total_order env s2 old_pba grain old_md then Some (s2, EAGAIN)
                   else
                     let s3 = s2\<lparr>kv_seg := ev_invalidate env (kv_seg s2) old_pba (kv_tot_grains_get gs oks ovs)\<rparr>;
                         s4 = kv_removed (kv_raw_bytes_get oks ovs) (kv_tot_bytes_get gs oks ovs) s3;
                         s5 = s4\<lparr>kv_map := dm_remove (kv_map s4) h (the trgt) grain\<rparr>
                     in Some (s5\<lparr>kv_seg := ev_release env (kv_seg s5) grain
                                   (kv_tot_grains_get gs (of_nat (length key)) 0) (salsa_stream_get_id env h)\<rparr>, E_OK))"

partial_function (option) del_loop :: "'s kv_env \<Rightarrow> u64 \<Rightarrow> bytes \<Rightarrow> 's kv \<Rightarrow> ('s kv \<times> errno) option" where
  [code]: "del_loop env h key s =
     (case local_del_mbuff env h key s of
        None \<Rightarrow> None
      | Some (s1, rc) \<Rightarrow> if rc = EAGAIN then del_loop env h key s1 else Some (s1, rc))"

definition kv_del :: "'s kv_env \<Rightarrow> bytes \<Rightarrow> 's kv \<Rightarrow> ('s kv \<times> errno) option" where
  "kv_del env key s = del_loop env (ev_hash env key) key s"

end
