(* ===== verification/Dir_Ops.thy ===== *)
theory Dir_Ops
  imports Dir_Map_Inv
begin

section \<open>Updates through the directory\<close>

text \<open>
  An update of the table that a hash selects, seen from the contents of the whole
  directory: \<open>insert\<close> adds an entry, \<open>remove\<close> takes one out, \<open>update_inplace\<close> replaces
  one, and displacement changes nothing.
\<close>

lemma tables_content_swap:
  assumes "i < length ts"
  shows "tables_content (ts[i := t]) + content (ts ! i) = tables_content ts + content t"
  using assms
proof (induction ts arbitrary: i)
  case (Cons a ts)
  show ?case
  proof (cases i)
    case 0
    then show ?thesis by (simp add: tables_content_def)
  next
    case (Suc j)
    then show ?thesis using Cons.IH [of j] Cons.prems by (simp add: tables_content_def add.assoc)
  qed
qed simp

lemma set_table_simps [simp]:
  "map_entry_nr_bits_m (set_table d h m) = map_entry_nr_bits_m d"
  "length (directory (set_table d h m)) = length (directory d)"
  "hash_to_map (set_table d h m) h' = hash_to_map d h'"
  "grow_nr_m (set_table d h m) = grow_nr_m d"
  by (simp_all add: set_table_def hash_to_map_def dir_idx_bits_def)

lemma dir_idx_bits_set_table [simp]:
  "dir_idx_bits (directory (set_table d h m)) = dir_idx_bits (directory d)"
  by (simp add: set_table_def dir_idx_bits_def)

lemma tables_set_table: "tables (set_table d h m) = (tables d)[hash_to_map d h := m]"
  by (simp add: tables_def set_table_def map_update)

lemma table_of_set_table:
  assumes "dm_inv d"
  shows "table_of (set_table d h m) h = m"
  using hash_to_map_less [OF assms, of h] by (simp add: table_of_def) (simp add: set_table_def)

lemma set_table_ok:
  assumes inv: "dm_inv d" and m: "table_ok (map_entry_nr_bits_m d) m"
    and pl: "\<And>x. x \<in># content m \<Longrightarrow> x \<in># content (table_of d h) \<or> info_matches (map_entry_nr_bits_m d) h x"
  shows "dm_inv (set_table d h m)"
    "dm_content (set_table d h m) + content (table_of d h) = dm_content d + content m"
proof -
  let ?mb = "map_entry_nr_bits_m d" and ?i = "hash_to_map d h" and ?n = "dir_idx_bits (directory d)"
  have less: "?i < length (tables d)" using hash_to_map_less [OF inv] by (simp add: tables_def)
  have t: "table_of d h = tables d ! ?i" by (rule table_of_ok(2) [OF inv])
  have ok: "tables_ok ?mb ?n (tables d)" using inv by (simp add: dm_inv_def)
  have idx: "info_idx ?mb ?n x = ?i" if "x \<in># content m" for x
    using pl [OF that]
  proof
    assume "x \<in># content (table_of d h)"
    then show ?thesis using ok less t by (auto simp: tables_ok_def placed_def)
  next
    assume "info_matches ?mb h x"
    then show ?thesis by (simp add: info_matches_idx hash_to_map_def)
  qed
  have "placed ?mb ?n ((tables d)[?i := m])"
    using ok idx less by (auto simp: tables_ok_def placed_def nth_list_update)
  moreover have "\<forall>t \<in> set ((tables d)[?i := m]). table_ok ?mb t"
    using ok m by (auto simp: tables_ok_def dest!: set_update_subset_insert [THEN subsetD])
  ultimately show "dm_inv (set_table d h m)"
    using ok by (simp add: dm_inv_def tables_set_table) (simp add: tables_ok_def)
  show "dm_content (set_table d h m) + content (table_of d h) = dm_content d + content m"
    unfolding dm_content_def tables_set_table t by (rule tables_content_swap [OF less])
qed

text \<open>The entry that an insertion under hash \<open>h\<close> creates.\<close>

definition info_new :: "nat \<Rightarrow> u64 \<Rightarrow> u64 \<Rightarrow> u64 \<Rightarrow> entry_info" where
  "info_new mb h kvs a =
     (unat h mod 2 ^ mb, ucast (drop_bit mb h), ucast (min kvs MAX_KV_SIZE), ucast a)"

lemma info_new_matches: "info_matches mb h (info_new mb h kvs a)"
proof -
  have "(2::nat) ^ (8 + mb) = 2 ^ mb * 256" by (simp add: power_add)
  then have "unat h mod 2 ^ (8 + mb) = 2 ^ mb * (unat h div 2 ^ mb mod 256) + unat h mod 2 ^ mb"
    by (simp add: mod_mult2_eq)
  then show ?thesis
    by (simp add: info_matches_def info_fp_def info_new_def unsigned_ucast_eq take_bit_eq_mod unat_drop_bit)
qed

lemma info_matches_fields:
  assumes "info_matches mb h (b, t, k, p)" "b < 2 ^ mb"
  shows "b = unat h mod 2 ^ mb" "t = ucast (drop_bit mb h)"
proof -
  have "info_fp mb (b, t, k, p) = info_fp mb (info_new mb h 0 0)"
    using assms(1) info_new_matches [of mb h 0 0] by (simp add: info_matches_def)
  then have "unat t * 2 ^ mb + b = unat (ucast (drop_bit mb h) :: 8 word) * 2 ^ mb + unat h mod 2 ^ mb"
    by (simp add: info_fp_def info_new_def)
  then have "unat t = unat (ucast (drop_bit mb h) :: 8 word) \<and> b = unat h mod 2 ^ mb"
    using assms(2) by (intro div_mod_unique [THEN iffD1]) simp_all
  then show "b = unat h mod 2 ^ mb" "t = ucast (drop_bit mb h)" by (auto simp: word_unat_eq_iff)
qed

lemma dm_put_ok:
  assumes inv: "dm_inv d" and m: "um_hole m c" "entry_nr_bits_m m = map_entry_nr_bits_m d"
    "content m = content (table_of d h)"
    and c: "insertable m h c" "valid_pba a" "kvs \<noteq> 0"
  shows "dm_inv (set_table d h (um_insert m c h kvs a))"
    "dm_content (set_table d h (um_insert m c h kvs a)) =
      add_mset (info_new (map_entry_nr_bits_m d) h kvs a) (dm_content d)"
proof -
  let ?t = "table_of d h" and ?mb = "map_entry_nr_bits_m d"
  have info: "(bucket_of m h, ucast (hash_to_keytag m h), ucast (min kvs MAX_KV_SIZE), ucast a) = info_new ?mb h kvs a"
    by (simp add: info_new_def bucket_of_def ucast_keytag m(2))
  note ct = content_insert [OF um_holeD(1) [OF m(1)] c, unfolded info m(3)]
  have ok: "table_ok ?mb (um_insert m c h kvs a)"
    using um_insert_inv [OF m(1) c(1,2)] m(2)
    by (simp add: table_ok_def) (simp add: um_insert_def um_update_def Let_def)
  note st = set_table_ok [OF inv ok, of h, unfolded ct]
  show "dm_inv (set_table d h (um_insert m c h kvs a))"
    using info_new_matches by (intro st(1)) auto
  have "dm_content (set_table d h (um_insert m c h kvs a)) + content ?t =
      dm_content d + add_mset (info_new ?mb h kvs a) (content ?t)"
    using info_new_matches by (intro st(2)) auto
  then show "dm_content (set_table d h (um_insert m c h kvs a)) = add_mset (info_new ?mb h kvs a) (dm_content d)"
    by simp
qed

lemma set_table_set_table [simp]: "set_table (set_table d h m) h m' = set_table d h m'"
proof (cases "hash_to_map d h < length (directory d)")
  case True
  have "hash_to_map (set_table d h m) h = hash_to_map d h" by simp
  then show ?thesis using True unfolding set_table_def [of "set_table d h m"] by (simp add: set_table_def)
next
  case False
  have "hash_to_map (set_table d h m) h = hash_to_map d h" by simp
  then show ?thesis
    using False unfolding set_table_def [of "set_table d h m"] by (simp add: set_table_def list_update_beyond)
qed

lemma dm_table_facts:
  assumes "dm_inv d"
  shows "um_inv (table_of d h)" "entry_nr_bits_m (table_of d h) = map_entry_nr_bits_m d"
    "entry_nr_bits_m (table_of d h) \<le> 32"
  using table_of_ok(1) [OF assms, of h] assms by (auto simp: table_ok_def dm_inv_def tables_ok_def)

lemma dm_insert_ok:
  assumes inv: "dm_inv d" and c: "insertable (table_of d h) h c" "valid_pba a" "kvs \<noteq> 0"
  shows "dm_inv (dm_insert d h c kvs a)"
    "dm_content (dm_insert d h c kvs a) = add_mset (info_new (map_entry_nr_bits_m d) h kvs a) (dm_content d)"
  unfolding dm_insert_def
  using dm_put_ok [OF inv um_inv_hole [OF dm_table_facts(1) [OF inv]] dm_table_facts(2) [OF inv] refl c] .

text \<open>Displacement and the insertion that follows it.\<close>

lemma dm_shift_insert_ok:
  assumes inv: "dm_inv d" and full: "bucket_full (table_of d h) h" and nt: "no_tombstones (table_of d h) h"
    and s: "dm_try_shift d h = (d', E_OK, he)" and a: "valid_pba a" "kvs \<noteq> 0"
  shows "\<exists>c. he = Some c \<and> dm_inv (dm_insert d' h c kvs a) \<and>
    dm_content (dm_insert d' h c kvs a) = add_mset (info_new (map_entry_nr_bits_m d) h kvs a) (dm_content d)"
proof -
  let ?t = "table_of d h"
  note tf = dm_table_facts [OF inv, of h]
  obtain m' where m': "try_shift ?t h = (m', E_OK, he)" "d' = set_table d h m'"
    using s by (auto simp: dm_try_shift_def split: prod.splits)
  note sh = try_shift_inv [OF tf(1,3) full nt m'(1)]
  obtain c where c: "he = Some c" "um_hole m' c" "insertable m' h c" using sh(2) by auto
  have "table_of d' h = m'" using table_of_set_table [OF inv] m'(2) by simp
  then have "dm_insert d' h c kvs a = set_table d h (um_insert m' c h kvs a)"
    by (simp add: dm_insert_def m'(2))
  then show ?thesis using dm_put_ok [OF inv c(2) _ _ c(3) a] sh(1) tf(2) c(1) by simp
qed

lemma dm_update_inplace_ok:
  assumes inv: "dm_inv d" and i: "matches (table_of d h) h i" and a: "valid_pba a" "kvs \<noteq> 0"
  shows "dm_inv (dm_update_inplace d h i kvs a)"
    "add_mset (slot_info (table_of d h) i) (dm_content (dm_update_inplace d h i kvs a)) =
     add_mset (info_new (map_entry_nr_bits_m d) h kvs a) (dm_content d)"
proof -
  let ?t = "table_of d h" and ?mb = "map_entry_nr_bits_m d"
  note tf = dm_table_facts [OF inv, of h]
  note up = content_update_inplace [OF tf(1) i a]
  have info: "(home ?t i, key_tag (ht_m ?t ! i), ucast (min kvs MAX_KV_SIZE), ucast a) = info_new ?mb h kvs a"
    using i by (simp add: info_new_def matches_def bucket_of_def tf(2))
  have ok: "table_ok ?mb (um_update_inplace ?t i h kvs a)"
    using up(1) tf(2) by (simp add: table_ok_def) (simp add: um_update_inplace_def)
  have mem: "x \<in># content ?t \<or> info_matches ?mb h x" if "x \<in># content (um_update_inplace ?t i h kvs a)" for x
  proof -
    have "x \<in># add_mset (info_new ?mb h kvs a) (content ?t)"
      using that up(2) [unfolded info] by (metis union_iff union_single_eq_member add_mset_add_single)
    then show ?thesis using info_new_matches [of ?mb h kvs a] by auto
  qed
  note st = set_table_ok [OF inv ok mem]
  show "dm_inv (dm_update_inplace d h i kvs a)" unfolding dm_update_inplace_def by (rule st(1))
  have "dm_content (dm_update_inplace d h i kvs a) + content ?t = dm_content d + content (um_update_inplace ?t i h kvs a)"
    unfolding dm_update_inplace_def by (rule st(2))
  then have "dm_content (dm_update_inplace d h i kvs a) + (content ?t + {#slot_info ?t i#}) =
      dm_content d + (content (um_update_inplace ?t i h kvs a) + {#slot_info ?t i#})" by simp
  also have "content (um_update_inplace ?t i h kvs a) + {#slot_info ?t i#} = add_mset (info_new ?mb h kvs a) (content ?t)"
    using up(2) [unfolded info] by simp
  finally show "add_mset (slot_info ?t i) (dm_content (dm_update_inplace d h i kvs a)) =
     add_mset (info_new ?mb h kvs a) (dm_content d)" by simp
qed

lemma dm_remove_ok:
  assumes inv: "dm_inv d" and i: "live (table_of d h) i" and a: "valid_pba a"
  shows "dm_inv (dm_remove d h i a)"
    "dm_content d = add_mset (slot_info (table_of d h) i) (dm_content (dm_remove d h i a))"
proof -
  let ?t = "table_of d h" and ?mb = "map_entry_nr_bits_m d"
  note tf = dm_table_facts [OF inv, of h]
  note ct = content_remove [OF um_invD(1) [OF tf(1)] i, of a]
  have ok: "table_ok ?mb (um_remove ?t i a)"
    using um_remove_inv [OF tf(1) i a] tf(2) by (simp add: table_ok_def) (simp add: um_remove_def Let_def)
  note st = set_table_ok [OF inv ok, of h]
  show "dm_inv (dm_remove d h i a)" unfolding dm_remove_def using ct by (intro st(1)) auto
  have "dm_content (dm_remove d h i a) + content ?t = dm_content d + content (um_remove ?t i a)"
    unfolding dm_remove_def using ct by (intro st(2)) auto
  then show "dm_content d = add_mset (slot_info ?t i) (dm_content (dm_remove d h i a))"
    unfolding ct by simp
qed

end
