(* ===== verification/KV_Inv.thy ===== *)
theory KV_Inv
  imports KV_Store Dir_Ops Hop_Walk
begin

section \<open>Invariant of the key-value store and its abstraction\<close>

text \<open>
  Each live map entry points to a well-formed record on the device, the entry's
  fingerprint is that of the record's key, and no two entries have the same key.  The
  abstraction of a state is the finite map from keys to values that its entries encode.
\<close>

definition info_pba :: "entry_info \<Rightarrow> u64" where
  "info_pba x = (case x of (_, _, _, p) \<Rightarrow> ucast p)"

definition info_kvs :: "entry_info \<Rightarrow> nat" where
  "info_kvs x = (case x of (_, _, k, _) \<Rightarrow> unat k)"

definition rec_off :: "'s kv_env \<Rightarrow> u64 \<Rightarrow> nat" where
  "rec_off env a = unat a * unat (gsize env)"

definition rec_md :: "'s kv_env \<Rightarrow> device \<Rightarrow> u64 \<Rightarrow> store_hdr" where
  "rec_md env dev a = dec_hdr (dev_read dev (rec_off env a) 14)"

definition rec_ks :: "'s kv_env \<Rightarrow> device \<Rightarrow> u64 \<Rightarrow> nat" where
  "rec_ks env dev a = unat (sh_key_size (rec_md env dev a))"

definition rec_vs :: "'s kv_env \<Rightarrow> device \<Rightarrow> u64 \<Rightarrow> nat" where
  "rec_vs env dev a = unat (sh_val_size (rec_md env dev a))"

definition rec_key :: "'s kv_env \<Rightarrow> device \<Rightarrow> u64 \<Rightarrow> bytes" where
  "rec_key env dev a = dev_read dev (rec_off env a + 14) (rec_ks env dev a)"

definition rec_val :: "'s kv_env \<Rightarrow> device \<Rightarrow> u64 \<Rightarrow> bytes" where
  "rec_val env dev a = dev_read dev (rec_off env a + 14 + rec_ks env dev a) (rec_vs env dev a)"

text \<open>Bytes of the record: header, key and value.\<close>

definition rec_len :: "'s kv_env \<Rightarrow> device \<Rightarrow> u64 \<Rightarrow> nat" where
  "rec_len env dev a = 14 + rec_ks env dev a + rec_vs env dev a"

definition rec_grains :: "'s kv_env \<Rightarrow> device \<Rightarrow> u64 \<Rightarrow> nat" where
  "rec_grains env dev a = (rec_ks env dev a + rec_vs env dev a + 16 + unat (gsize env) - 1) div unat (gsize env)"

definition env_wf :: "'s kv_env \<Rightarrow> bool" where
  "env_wf env \<longleftrightarrow> 33 \<le> unat (gsize env) \<and> unat (gsize env) < 2 ^ 32
     \<and> (\<forall>n. ev_rd_err env n \<in> {E_OK, EIO})"

definition rec_ok :: "'s kv_env \<Rightarrow> device \<Rightarrow> nat \<Rightarrow> entry_info \<Rightarrow> bool" where
  "rec_ok env dev mb x \<longleftrightarrow>
     (let a = info_pba x in
      rec_ks env dev a + rec_vs env dev a < 2 ^ 32
      \<and> rec_off env a < 2 ^ 64
      \<and> info_kvs x = min (rec_grains env dev a) 2047
      \<and> info_matches mb (ev_hash env (rec_key env dev a)) x)"

definition entry_key :: "'s kv_env \<Rightarrow> device \<Rightarrow> entry_info \<Rightarrow> bytes" where
  "entry_key env dev x = rec_key env dev (info_pba x)"

definition entry_val :: "'s kv_env \<Rightarrow> device \<Rightarrow> entry_info \<Rightarrow> bytes" where
  "entry_val env dev x = rec_val env dev (info_pba x)"

definition kv_content :: "'s kv \<Rightarrow> entry_info multiset" where
  "kv_content s = dm_content (kv_map s)"

definition kv_inv :: "'s kv_env \<Rightarrow> 's kv \<Rightarrow> bool" where
  "kv_inv env s \<longleftrightarrow> env_wf env \<and> dm_inv (kv_map s)
     \<and> (\<forall>x \<in># kv_content s. rec_ok env (kv_dev s) (map_entry_nr_bits_m (kv_map s)) x)
     \<and> (\<forall>x \<in># kv_content s. count (image_mset (entry_key env (kv_dev s)) (kv_content s)) (entry_key env (kv_dev s) x) = 1)"

text \<open>The abstract map.\<close>

definition dm_entries :: "dmap \<Rightarrow> entry_info list" where
  "dm_entries d = concat (map (\<lambda>t. map (slot_info t) (live_slots t)) (tables d))"

definition kv_abs :: "'s kv_env \<Rightarrow> 's kv \<Rightarrow> bytes \<Rightarrow> bytes option" where
  "kv_abs env s =
     map_of (map (\<lambda>x. (entry_key env (kv_dev s) x, entry_val env (kv_dev s) x)) (dm_entries (kv_map s)))"

lemma mset_dm_entries: "mset (dm_entries d) = dm_content d"
  unfolding dm_entries_def dm_content_def tables_content_def
  by (induction "tables d") (auto simp: content_def mset_concat comp_def)

lemma set_dm_entries: "set (dm_entries d) = set_mset (dm_content d)"
  by (metis mset_dm_entries set_mset_mset)

lemma count_key_unique:
  assumes c: "count (image_mset f M) (f x) = 1" and x: "x \<in># M" and y: "y \<in># M" and e: "f y = f x"
  shows "y = x"
proof (rule ccontr)
  assume "y \<noteq> x"
  then have "{#x, y#} \<subseteq># M" using x y by (simp add: insert_subset_eq_iff in_diff_count)
  then have "image_mset f {#x, y#} \<subseteq># image_mset f M" by (rule image_mset_subseteq_mono)
  then have "count {#f x, f x#} (f x) \<le> count (image_mset f M) (f x)" using e mset_subset_eq_count [of "{#f x, f x#}" "image_mset f M" "f x"] by simp
  then show False using c by simp
qed

lemma kv_invD:
  assumes "kv_inv env s"
  shows "env_wf env" "dm_inv (kv_map s)"
    "x \<in># kv_content s \<Longrightarrow> rec_ok env (kv_dev s) (map_entry_nr_bits_m (kv_map s)) x"
    "x \<in># kv_content s \<Longrightarrow> y \<in># kv_content s \<Longrightarrow> entry_key env (kv_dev s) y = entry_key env (kv_dev s) x \<Longrightarrow> y = x"
  using assms count_key_unique [of "entry_key env (kv_dev s)" "kv_content s" x y]
  by (auto simp: kv_inv_def)

lemma kv_abs_Some:
  assumes "kv_inv env s"
  shows "kv_abs env s k = Some v \<longleftrightarrow>
    (\<exists>x \<in># kv_content s. entry_key env (kv_dev s) x = k \<and> entry_val env (kv_dev s) x = v)"
proof -
  let ?K = "entry_key env (kv_dev s)" and ?V = "entry_val env (kv_dev s)"
  have set: "set (dm_entries (kv_map s)) = set_mset (kv_content s)"
    by (simp add: set_dm_entries kv_content_def)
  show ?thesis
  proof
    assume "kv_abs env s k = Some v"
    then have "(k, v) \<in> set (map (\<lambda>x. (?K x, ?V x)) (dm_entries (kv_map s)))"
      unfolding kv_abs_def by (rule map_of_SomeD)
    then show "\<exists>x \<in># kv_content s. ?K x = k \<and> ?V x = v" using set by auto
  next
    assume "\<exists>x \<in># kv_content s. ?K x = k \<and> ?V x = v"
    then obtain x where x: "x \<in># kv_content s" "?K x = k" "?V x = v" by blast
    then have "k \<in> fst ` set (map (\<lambda>x. (?K x, ?V x)) (dm_entries (kv_map s)))"
      using set by (auto simp: image_iff)
    then have "kv_abs env s k \<noteq> None" unfolding kv_abs_def map_of_eq_None_iff by blast
    then obtain w where w: "kv_abs env s k = Some w" by blast
    then have "(k, w) \<in> set (map (\<lambda>x. (?K x, ?V x)) (dm_entries (kv_map s)))"
      unfolding kv_abs_def by (rule map_of_SomeD)
    then obtain y where "y \<in># kv_content s" "?K y = k" "?V y = w" using set by auto
    then have "w = v" using kv_invD(4) [OF assms x(1)] x by metis
    then show "kv_abs env s k = Some v" using w by simp
  qed
qed

lemma kv_abs_None:
  assumes "kv_inv env s"
  shows "kv_abs env s k = None \<longleftrightarrow> (\<forall>x \<in># kv_content s. entry_key env (kv_dev s) x \<noteq> k)"
  using kv_abs_Some [OF assms, of k] by (metis not_None_eq)

subsection \<open>Reading a record\<close>

lemma gsize_pos:
  assumes "env_wf env"
  shows "0 < unat (gsize env)" "gsize env \<noteq> 0"
  using assms by (auto simp: env_wf_def)

lemma align_up_ge:
  assumes "d \<noteq> 0" "unat v + unat d \<le> 2 ^ 64"
  shows "unat v \<le> unat (align_up v d)"
  using align_up_bounds(1) [OF assms] .

lemma alignment_nz:
  assumes "env_wf env"
  shows "min 512 (gsize env) \<noteq> 0" "unat (min 512 (gsize env)) \<le> 512"
  using gsize_pos [OF assms] by (auto simp: min_def word_le_nat_alt)

lemma drop_dev_read: "k \<le> n \<Longrightarrow> drop k (dev_read dev off n) = dev_read dev (off + k) (n - k)"
  by (simp add: dev_read_def drop_map)

lemma sub_dev_read: "k + j \<le> n \<Longrightarrow> take j (drop k (dev_read dev off n)) = dev_read dev (off + k) j"
  by (simp add: drop_dev_read take_dev_read)

lemma dec_hdr_dev_read: "14 \<le> n \<Longrightarrow> dec_hdr (dev_read dev off n) = dec_hdr (dev_read dev off 14)"
  by (metis dec_hdr_take order_refl take_dev_read)

text \<open>Comparing the key in a buffer that holds enough of the record.\<close>

lemma key_matches_iff:
  assumes "14 \<le> n" "rec_ks env dev a = length key \<Longrightarrow> 14 + length key \<le> n"
  shows "key_matches (dec_hdr (dev_read dev (rec_off env a) n)) key (dev_read dev (rec_off env a) n)
    \<longleftrightarrow> rec_key env dev a = key"
proof (cases "rec_ks env dev a = length key")
  case True
  then have "take (length key) (drop 14 (dev_read dev (rec_off env a) n)) = rec_key env dev a"
    using assms(2) by (simp add: sub_dev_read rec_key_def)
  then show ?thesis
    using True dec_hdr_dev_read [OF assms(1)] by (simp add: key_matches_def rec_ks_def rec_md_def)
next
  case False
  then have "length (rec_key env dev a) \<noteq> length key" by (simp add: rec_key_def)
  then show ?thesis
    using False dec_hdr_dev_read [OF assms(1)] by (auto simp: key_matches_def rec_ks_def rec_md_def)
qed

lemma rec_ks_small: "rec_ks env dev a < 2 ^ 16"
  using unat_lt_two_p [of "sh_key_size (rec_md env dev a)"] by (simp add: rec_ks_def)

lemma rec_grains_bounds:
  assumes "env_wf env"
  shows "rec_ks env dev a + rec_vs env dev a + 16 \<le> rec_grains env dev a * unat (gsize env)"
    "rec_grains env dev a * unat (gsize env) < rec_ks env dev a + rec_vs env dev a + 16 + unat (gsize env)"
    "0 < rec_grains env dev a"
proof -
  let ?n = "rec_ks env dev a + rec_vs env dev a + 16"
  show a: "?n \<le> rec_grains env dev a * unat (gsize env)"
    "rec_grains env dev a * unat (gsize env) < ?n + unat (gsize env)"
    using ceil_div_bounds [OF gsize_pos(1) [OF assms], of ?n] by (simp_all add: rec_grains_def mult.commute)
  then show "0 < rec_grains env dev a" by (cases "rec_grains env dev a") auto
qed

text \<open>The grains that the code computes for a record.\<close>

lemma kv_tot_grains_rec:
  assumes "env_wf env" "rec_ks env dev a + rec_vs env dev a < 2 ^ 32"
  shows "unat (kv_tot_grains_get (gsize env) (ucast (sh_key_size (rec_md env dev a))) (sh_val_size (rec_md env dev a)))
    = rec_grains env dev a"
proof -
  have ks: "unat (ucast (sh_key_size (rec_md env dev a)) :: u32) = rec_ks env dev a"
    by (simp add: rec_ks_def unat_ucast_up)
  have "unat (gsize env) < 2 ^ 32" using assms(1) by (simp add: env_wf_def)
  then show ?thesis
    using kv_tot_grains_bounds(1) [OF _ gsize_pos(2) [OF assms(1)], of "ucast (sh_key_size (rec_md env dev a))" "sh_val_size (rec_md env dev a)"]
      assms(2) ks by (simp add: rec_grains_def rec_vs_def)
qed

lemma rec_offset_word:
  assumes "rec_off env a < 2 ^ 64"
  shows "unat (a * gsize env) = rec_off env a"
  using unat_mult_no_wrap [of a "gsize env"] assms by (simp add: rec_off_def)

subsection \<open>Which entry a lookup tries next\<close>

definition slot_pba :: "umap \<Rightarrow> nat \<Rightarrow> u64" where
  "slot_pba m i = ucast (pba (ht_m m ! i))"

lemma info_pba_slot [simp]: "info_pba (slot_info m i) = slot_pba m i"
  by (simp add: info_pba_def slot_info_def slot_pba_def)

lemma skip_visited_find:
  "skip_visited m h V he = find (\<lambda>i. slot_pba m i \<notin> set V) (um_walk m he h)"
proof (induction m he h rule: um_walk.induct)
  case (1 m he h)
  show ?case
    unfolding skip_visited.simps [of m h V he] um_walk.simps [of m he h]
    using 1 by (cases he) (auto simp: visited_pba_def slot_pba_def)
qed

lemma lookup_common_eq:
  fixes d :: dmap and h :: u64
  assumes inv: "dm_inv d"
  defines "t \<equiv> table_of d h"
  shows "lookup_common d h V =
    (if um_find_all t h = [] then um_lookup t h else (E_OK, find (\<lambda>i. slot_pba t i \<notin> set V) (um_find_all t h)))"
    "um_find_all t h = [] \<Longrightarrow> fst (um_lookup t h) \<noteq> E_OK"
proof -
  note ti = dm_table_facts(1) [OF inv, of h, folded t_def]
  obtain rc he where l: "um_lookup t h = (rc, he)" by force
  have all: "um_find_all t h = (if rc = E_OK then um_walk t he h else [])" by (simp add: um_find_all_def l)
  have ne: "um_walk t he h \<noteq> []" if "rc = E_OK"
  proof -
    have "he \<noteq> None" using um_lookup_cases [OF l] that by auto
    then show ?thesis by (auto simp: um_walk.simps [of t he h])
  qed
  then show "um_find_all t h = [] \<Longrightarrow> fst (um_lookup t h) \<noteq> E_OK" using all l by auto
  show "lookup_common d h V =
    (if um_find_all t h = [] then um_lookup t h else (E_OK, find (\<lambda>i. slot_pba t i \<notin> set V) (um_find_all t h)))"
    using all ne by (auto simp: lookup_common_def dm_lookup_def t_def [symmetric] l skip_visited_find)
qed

text \<open>The slots that match a hash: at most one bucket, with pairwise different block addresses.\<close>

lemma um_find_all_props:
  assumes "um_inv t"
  shows "i \<in> set (um_find_all t h) \<longleftrightarrow> matches t h i" "distinct (um_find_all t h)" "length (um_find_all t h) \<le> 32"
proof -
  have eq: "um_find_all t h = filter (matches t h) [0..<unat (entry_nr_m t)]" by (rule um_find_all_filter [OF assms])
  then show m: "i \<in> set (um_find_all t h) \<longleftrightarrow> matches t h i" for i
    by (auto simp: matches_def live_def)
  show d: "distinct (um_find_all t h)" by (simp add: eq)
  have "set (um_find_all t h) \<subseteq> {bucket_of t h..<bucket_of t h + 32}"
    using m matches_bucket [OF assms, of h] by auto
  then have "card (set (um_find_all t h)) \<le> card {bucket_of t h..<bucket_of t h + 32}"
    by (intro card_mono) auto
  then show "length (um_find_all t h) \<le> 32" by (simp add: distinct_card [OF d])
qed

lemma content_member_le: "t \<in> set ts \<Longrightarrow> content t \<subseteq># sum_list (map content ts)"
proof (induction ts)
  case (Cons a ts)
  then show ?case by (auto intro: subset_mset.add_increasing)
qed simp

lemma table_content_le:
  assumes "dm_inv d"
  shows "content (table_of d h) \<subseteq># dm_content d"
proof -
  have "tables d ! hash_to_map d h \<in> set (tables d)" using hash_to_map_less [OF assms] by (simp add: tables_def)
  then have "content (tables d ! hash_to_map d h) \<subseteq># sum_list (map content (tables d))"
    by (rule content_member_le)
  then show ?thesis using table_of_ok(2) [OF assms] by (simp add: dm_content_def tables_content_def)
qed

lemma two_slots_content:
  assumes "live t i" "live t j" "i \<noteq> j"
  shows "{#slot_info t i, slot_info t j#} \<subseteq># content t"
proof -
  have "{#i, j#} \<subseteq># mset_set {i. live t i}"
    using assms by (simp add: insert_subset_eq_iff in_diff_count)
  then have "image_mset (slot_info t) {#i, j#} \<subseteq># content t"
    unfolding content_alt by (rule image_mset_subseteq_mono)
  then show ?thesis by simp
qed

lemma kv_slots_inj:
  assumes inv: "kv_inv env s" and i: "live (table_of (kv_map s) h) i" and j: "live (table_of (kv_map s) h) j"
    and k: "rec_key env (kv_dev s) (slot_pba (table_of (kv_map s) h) i) = rec_key env (kv_dev s) (slot_pba (table_of (kv_map s) h) j)"
  shows "i = j"
proof (rule ccontr)
  let ?t = "table_of (kv_map s) h" and ?K = "entry_key env (kv_dev s)"
  assume "i \<noteq> j"
  then have "{#slot_info ?t i, slot_info ?t j#} \<subseteq># kv_content s"
    using two_slots_content [OF i j] table_content_le [OF kv_invD(2) [OF inv], of h]
    unfolding kv_content_def by (meson subset_mset.order_trans)
  then have sub: "image_mset ?K {#slot_info ?t i, slot_info ?t j#} \<subseteq># image_mset ?K (kv_content s)"
    by (rule image_mset_subseteq_mono)
  have same: "?K (slot_info ?t j) = ?K (slot_info ?t i)" using k by (simp add: entry_key_def)
  have "slot_info ?t i \<in># kv_content s"
    using \<open>{#slot_info ?t i, slot_info ?t j#} \<subseteq># kv_content s\<close> by (simp add: insert_subset_eq_iff)
  then have "count (image_mset ?K (kv_content s)) (?K (slot_info ?t i)) = 1" using inv by (simp add: kv_inv_def)
  moreover have "2 \<le> count (image_mset ?K (kv_content s)) (?K (slot_info ?t i))"
    using mset_subset_eq_count [OF sub, of "?K (slot_info ?t i)"] same by simp
  ultimately show False by simp
qed

end
