(* ===== verification/KV_Lookup.thy ===== *)
theory KV_Lookup
  imports KV_Inv
begin

section \<open>The lookup loops\<close>

text \<open>
  The three lookup loops (for get, for put and del, for exists) try the map entries with
  the key's fingerprint one after the other and read the device for each.  \<open>probe\<close> is
  their common shape: \<open>hit\<close> tries one slot and either ends the loop or continues,
  \<open>fin\<close> is the result when every slot has been tried.
\<close>

fun probe :: "umap \<Rightarrow> nat list \<Rightarrow> (nat \<Rightarrow> 'c \<Rightarrow> 'r + 'c) \<Rightarrow> ('c \<Rightarrow> 'r) \<Rightarrow> u64 list \<Rightarrow> nat \<Rightarrow> 'c \<Rightarrow> 'r option" where
  "probe t L hit fin V 0 s = None"
| "probe t L hit fin V (Suc n) s =
     (case find (\<lambda>i. slot_pba t i \<notin> set V) L of
        None \<Rightarrow> Some (fin s)
      | Some i \<Rightarrow> (case hit i s of Inl r \<Rightarrow> Some r | Inr s' \<Rightarrow> probe t L hit fin (V @ [slot_pba t i]) n s'))"

lemma find_NoneD: "find P xs = None \<Longrightarrow> x \<in> set xs \<Longrightarrow> \<not> P x"
  by (simp add: find_None_iff)

lemma find_SomeD: "find P xs = Some x \<Longrightarrow> x \<in> set xs \<and> P x"
  by (metis find_Some_iff nth_mem)

lemma probe_ends:
  assumes keep: "\<And>i s s'. Q s \<Longrightarrow> hit i s = Inr s' \<Longrightarrow> Q s'"
    and "Q s" "Suc (length L) \<le> n + length V" "distinct V" "set V \<subseteq> slot_pba t ` set L"
    and "\<forall>i \<in> set L. slot_pba t i \<in> set V \<longrightarrow> missed (slot_pba t i)"
    and miss: "\<And>i s s'. Q s \<Longrightarrow> i \<in> set L \<Longrightarrow> hit i s = Inr s' \<Longrightarrow> missed (slot_pba t i)"
  shows "(\<exists>s'. probe t L hit fin V n s = Some (fin s') \<and> Q s' \<and> (\<forall>i \<in> set L. missed (slot_pba t i)))
    \<or> (\<exists>i \<in> set L. \<exists>s' r. Q s' \<and> hit i s' = Inl r \<and> probe t L hit fin V n s = Some r)"
  using assms(2-6)
proof (induction n arbitrary: V s)
  case 0
  have "card (set V) \<le> card (slot_pba t ` set L)" using "0.prems"(4) by (intro card_mono) auto
  also have "\<dots> \<le> length L" by (metis card_image_le card_length finite_set le_trans)
  finally have "length V \<le> length L" using distinct_card [OF "0.prems"(3)] by simp
  then show ?case using "0.prems"(2) by simp
next
  case (Suc n)
  show ?case
  proof (cases "find (\<lambda>i. slot_pba t i \<notin> set V) L")
    case None
    then have "\<forall>i \<in> set L. missed (slot_pba t i)" using Suc.prems(5) find_NoneD by fastforce
    then show ?thesis using None Suc.prems(1) by auto
  next
    case (Some i)
    then have i: "i \<in> set L" "slot_pba t i \<notin> set V" using find_SomeD by fastforce+
    show ?thesis
    proof (cases "hit i s")
      case (Inl r)
      then show ?thesis using Some i(1) Suc.prems(1) by auto
    next
      case (Inr s')
      let ?V = "V @ [slot_pba t i]"
      have "\<forall>j \<in> set L. slot_pba t j \<in> set ?V \<longrightarrow> missed (slot_pba t j)"
        using Suc.prems(5) miss [OF Suc.prems(1) i(1) Inr] by auto
      then have "(\<exists>s''. probe t L hit fin ?V n s' = Some (fin s'') \<and> Q s'' \<and> (\<forall>i \<in> set L. missed (slot_pba t i)))
        \<or> (\<exists>i \<in> set L. \<exists>s'' r. Q s'' \<and> hit i s'' = Inl r \<and> probe t L hit fin ?V n s' = Some r)"
        using Suc.prems i by (intro Suc.IH keep [OF Suc.prems(1) Inr]) auto
      then show ?thesis using Some Inr by simp
    qed
  qed
qed

subsection \<open>The states a lookup goes through\<close>

text \<open>A lookup only advances the event counter.\<close>

definition same_store :: "'s kv \<Rightarrow> 's kv \<Rightarrow> bool" where
  "same_store s s' \<longleftrightarrow> s' = s\<lparr>kv_ev := kv_ev s'\<rparr>"

lemma same_store_refl [simp]: "same_store s s" by (simp add: same_store_def)

lemma same_store_tick: "same_store s s' \<Longrightarrow> same_store s (tick s')"
  unfolding same_store_def tick_def by (metis kv.surjective kv.update_convs(7) kv.select_convs(7))

lemma same_store_fields:
  assumes "same_store s s'"
  shows "kv_map s' = kv_map s" "kv_dev s' = kv_dev s" "kv_seg s' = kv_seg s"
proof -
  have "s' = s\<lparr>kv_ev := kv_ev s'\<rparr>" using assms by (simp add: same_store_def)
  then show "kv_map s' = kv_map s" "kv_dev s' = kv_dev s" "kv_seg s' = kv_seg s"
    by (metis kv.ext_inject kv.surjective kv.update_convs(7))+
qed

lemma kv_content_same: "kv_map s' = kv_map s \<Longrightarrow> kv_content s' = kv_content s"
  by (simp add: kv_content_def)

lemma kv_inv_same_store:
  assumes "same_store s s'"
  shows "kv_inv env s' \<longleftrightarrow> kv_inv env s" "kv_abs env s' = kv_abs env s"
  using same_store_fields [OF assms] by (simp_all add: kv_inv_def kv_content_def kv_abs_def)

subsection \<open>The loop of put and del\<close>

definition put_hit :: "'s kv_env \<Rightarrow> bytes \<Rightarrow> umap \<Rightarrow> nat \<Rightarrow> 's kv
    \<Rightarrow> ('s kv \<times> errno \<times> nat option \<times> store_hdr) + 's kv" where
  "put_hit env key t i s =
     (if \<not> ev_mem_ok env (kv_ev s) then Inl (tick s, ENOMEM, None, zero_md)
      else if ev_rd_err env (kv_ev s) \<noteq> E_OK then Inl (tick s, ev_rd_err env (kv_ev s), None, zero_md)
      else
        let buf = dev_read (kv_dev s) (unat (slot_pba t i * gsize env))
                    (unat (align_up (of_nat (PREFIX_SIZE + length key)) (min 512 (gsize env))));
            md = dec_hdr buf
        in if key_matches md key buf then Inl (tick s, EEXIST, Some i, md) else Inr (tick s))"

definition put_fin :: "u64 \<Rightarrow> 's kv \<Rightarrow> 's kv \<times> errno \<times> nat option \<times> store_hdr" where
  "put_fin h s =
     (case dm_next_free (kv_map s) h of
        (err, Some f) \<Rightarrow> (s, ENODATA, Some f, zero_md)
      | (err, None) \<Rightarrow> (s, ENOSPC, None, zero_md))"

lemma tick_map [simp]: "kv_map (tick s) = kv_map s" "kv_dev (tick s) = kv_dev s" "kv_seg (tick s) = kv_seg s"
  by (simp_all add: tick_def)

lemma lookup_mbuff_put_probe:
  assumes "dm_inv (kv_map s)" "um_find_all (table_of (kv_map s) h) h \<noteq> []"
  shows "lookup_mbuff_put env h key V n s =
    probe (table_of (kv_map s) h) (um_find_all (table_of (kv_map s) h) h)
      (put_hit env key (table_of (kv_map s) h)) (put_fin h) V n s"
  using assms
proof (induction n arbitrary: V s)
  case (Suc n)
  let ?t = "table_of (kv_map s) h"
  have lc: "lookup_common (kv_map s) h V = (E_OK, find (\<lambda>i. slot_pba ?t i \<notin> set V) (um_find_all ?t h))"
    using lookup_common_eq(1) [OF Suc.prems(1), of h V] Suc.prems(2) by simp
  show ?case
  proof (cases "find (\<lambda>i. slot_pba ?t i \<notin> set V) (um_find_all ?t h)")
    case None
    then show ?thesis by (auto simp: lc put_fin_def split: prod.splits option.splits)
  next
    case (Some i)
    have chk: "put_check (kv_map s) h i (entry_at (kv_map s) h i) b = (b, Some i)" for b
      by (simp add: put_check_def)
    have pb: "ucast (pba (entry_at (kv_map s) h i)) = slot_pba ?t i"
      by (simp add: entry_at_def slot_pba_def)
    show ?thesis
      using Suc.IH [of "tick s"] Suc.prems put_hit_def [of env key ?t i s]
      by (simp add: lc Some Let_def chk pb)
  qed
qed simp

text \<open>What a lookup for put and del returns.\<close>

definition io_failure :: "'s kv_env \<Rightarrow> errno \<Rightarrow> bool" where
  "io_failure env rc \<longleftrightarrow> rc = ENOMEM \<and> (\<exists>n. \<not> ev_mem_ok env n) \<or> rc = EIO \<and> (\<exists>n. ev_rd_err env n \<noteq> E_OK)"

lemma io_failureI [simp]:
  "\<not> ev_mem_ok env n \<Longrightarrow> io_failure env ENOMEM" "ev_rd_err env n \<noteq> E_OK \<Longrightarrow> io_failure env EIO"
  by (auto simp: io_failure_def)

lemma io_failureD: "io_failure env rc \<Longrightarrow> rc \<in> {ENOMEM, EIO}"
  by (auto simp: io_failure_def)

definition key_slot :: "'s kv_env \<Rightarrow> 's kv \<Rightarrow> u64 \<Rightarrow> bytes \<Rightarrow> nat \<Rightarrow> bool" where
  "key_slot env s h key i \<longleftrightarrow>
     matches (table_of (kv_map s) h) h i \<and> rec_key env (kv_dev s) (slot_pba (table_of (kv_map s) h) i) = key"

definition put_lookup_spec :: "'s kv_env \<Rightarrow> 's kv \<Rightarrow> u64 \<Rightarrow> bytes \<Rightarrow> errno \<times> nat option \<times> store_hdr \<Rightarrow> bool" where
  "put_lookup_spec env s h key r \<longleftrightarrow>
     (case r of (rc, trgt, md) \<Rightarrow>
       (rc = EEXIST \<and> (\<exists>i. trgt = Some i \<and> key_slot env s h key i \<and> md = rec_md env (kv_dev s) (slot_pba (table_of (kv_map s) h) i)))
     \<or> (rc = ENODATA \<and> (\<forall>i. \<not> key_slot env s h key i) \<and> (\<exists>c. trgt = Some c \<and> insertable (table_of (kv_map s) h) h c))
     \<or> (rc = ENOSPC \<and> (\<forall>i. \<not> key_slot env s h key i) \<and> bucket_full (table_of (kv_map s) h) h)
     \<or> io_failure env rc)"

lemma slot_rec_ok:
  assumes "kv_inv env s" "live (table_of (kv_map s) h) i"
  shows "rec_ok env (kv_dev s) (map_entry_nr_bits_m (kv_map s)) (slot_info (table_of (kv_map s) h) i)"
    "slot_info (table_of (kv_map s) h) i \<in># kv_content s"
proof -
  have "slot_info (table_of (kv_map s) h) i \<in># content (table_of (kv_map s) h)"
    using assms(2) by (simp add: content_alt)
  then show c: "slot_info (table_of (kv_map s) h) i \<in># kv_content s"
    unfolding kv_content_def using table_content_le [OF kv_invD(2) [OF assms(1)], of h] mset_subset_eqD by fastforce
  then show "rec_ok env (kv_dev s) (map_entry_nr_bits_m (kv_map s)) (slot_info (table_of (kv_map s) h) i)"
    by (rule kv_invD(3) [OF assms(1)])
qed

lemma slot_offset:
  assumes "kv_inv env s" "live (table_of (kv_map s) h) i"
  shows "unat (slot_pba (table_of (kv_map s) h) i * gsize env) = rec_off env (slot_pba (table_of (kv_map s) h) i)"
  using slot_rec_ok(1) [OF assms] by (intro rec_offset_word) (simp add: rec_ok_def Let_def)

text \<open>The number of bytes read to compare a key: the header and the key are in the buffer.\<close>

lemma key_io_size:
  assumes "env_wf env" "length key < 2 ^ 32"
  shows "14 + length key \<le> unat (align_up (of_nat (PREFIX_SIZE + length key) :: u64) (min 512 (gsize env)))"
proof -
  have l: "unat (of_nat (14 + length key) :: u64) = 14 + length key"
    using assms(2) by (intro unat_of_nat_small) simp
  show ?thesis
    using align_up_ge [OF alignment_nz(1) [OF assms(1)], of "of_nat (14 + length key)"] alignment_nz(2) [OF assms(1)]
      assms(2) l by simp
qed

lemma key_buffer:
  assumes inv: "kv_inv env s" and i: "live (table_of (kv_map s) h) i" and len: "length key < 2 ^ 32"
    and n: "14 + length key \<le> n"
  defines "a \<equiv> slot_pba (table_of (kv_map s) h) i"
  defines "buf \<equiv> dev_read (kv_dev s) (unat (a * gsize env)) n"
  shows "key_matches (dec_hdr buf) key buf \<longleftrightarrow> rec_key env (kv_dev s) a = key" "dec_hdr buf = rec_md env (kv_dev s) a"
proof -
  have off: "unat (a * gsize env) = rec_off env a" using slot_offset [OF inv i] by (simp add: a_def)
  show "key_matches (dec_hdr buf) key buf \<longleftrightarrow> rec_key env (kv_dev s) a = key"
    using key_matches_iff [of n env "kv_dev s" a key] n by (simp add: buf_def off)
  show "dec_hdr buf = rec_md env (kv_dev s) a"
    using dec_hdr_dev_read [of n "kv_dev s" "rec_off env a"] n by (simp add: buf_def off rec_md_def)
qed

lemma lookup_mbuff_put_ok:
  assumes inv: "kv_inv env s" and len: "length key < 2 ^ 32"
  shows "\<exists>s' r. lookup_mbuff_put env h key [] (Suc BUCKET_SIZE) s = Some (s', r) \<and> same_store s s' \<and> put_lookup_spec env s h key r"
proof -
  let ?t = "table_of (kv_map s) h" and ?L = "um_find_all (table_of (kv_map s) h) h"
  note dm = kv_invD(2) [OF inv] and ewf = kv_invD(1) [OF inv]
  note ti = dm_table_facts(1) [OF dm, of h] and lc = lookup_common_eq [OF dm, of h]
  note all = um_find_all_props [OF ti]
  note buf = key_buffer [OF inv _ len key_io_size [OF ewf len]]
  show ?thesis
  proof (cases "?L = []")
    case True
    then have none: "\<not> key_slot env s h key i" for i using all(1) [of i h] by (auto simp: key_slot_def)
    obtain rc trgt where l: "um_lookup ?t h = (rc, trgt)" by force
    then have "lookup_mbuff_put env h key [] (Suc BUCKET_SIZE) s = Some (s, rc, trgt, zero_md)"
      unfolding lookup_mbuff_put.simps using lc True l by simp
    moreover have "put_lookup_spec env s h key (rc, trgt, zero_md)"
      using um_lookup_cases [OF l] lc(2) [OF True] none l bucket_full_lookup [OF ti, of h] insertable_candidate [OF ti, of h]
      by (auto simp: put_lookup_spec_def)
    ultimately show ?thesis by auto
  next
    case False
    let ?hit = "put_hit env key ?t" and ?P = "probe ?t ?L (put_hit env key ?t) (put_fin h) [] (Suc BUCKET_SIZE) s"
    have keep: "same_store s s2" if "same_store s s1" "?hit i s1 = Inr s2" for i s1 s2
      using that same_store_tick by (auto simp: put_hit_def Let_def split: if_splits)
    have live: "live ?t i" if "i \<in> set ?L" for i using that all(1) by (simp add: matches_def)
    have miss: "rec_key env (kv_dev s) (slot_pba ?t i) \<noteq> key"
      if "same_store s s1" "i \<in> set ?L" "?hit i s1 = Inr s2" for i s1 s2
      using that buf(1) [OF live [OF that(2)]] same_store_fields [OF that(1)]
      by (auto simp: put_hit_def Let_def split: if_splits)
    have rd: "io_failure env (ev_rd_err env n)" if "ev_rd_err env n \<noteq> E_OK" for n
      using that ewf by (force simp: io_failure_def env_wf_def)
    have hit: "\<exists>s' r'. r = (s', r') \<and> same_store s s' \<and> put_lookup_spec env s h key r'"
      if "same_store s s1" "i \<in> set ?L" "?hit i s1 = Inl r" for i s1 r
      using that(3) buf [OF live [OF that(2)]] same_store_fields [OF that(1)] same_store_tick [OF that(1)] that(2) all(1)
      by (auto simp: put_hit_def Let_def put_lookup_spec_def key_slot_def rd split: if_splits)
    have fin: "\<exists>s'' r'. put_fin h s' = (s'', r') \<and> same_store s s'' \<and> put_lookup_spec env s h key r'"
      if "same_store s s'" "\<forall>i \<in> set ?L. rec_key env (kv_dev s) (slot_pba ?t i) \<noteq> key" for s'
    proof -
      have none: "\<not> key_slot env s h key i" for i using that(2) all(1) by (auto simp: key_slot_def)
      show ?thesis
        using none that(1) same_store_fields(1) [OF that(1)] insertable_next_free(1) [OF ti dm_table_facts(3) [OF dm], of h]
          bucket_full_next_free [OF ti dm_table_facts(3) [OF dm], of h]
        by (auto simp: put_fin_def dm_next_free_def put_lookup_spec_def split: prod.splits option.splits)
    qed
    have "(\<exists>s'. ?P = Some (put_fin h s') \<and> same_store s s' \<and> (\<forall>i \<in> set ?L. rec_key env (kv_dev s) (slot_pba ?t i) \<noteq> key))
      \<or> (\<exists>i \<in> set ?L. \<exists>s' r. same_store s s' \<and> ?hit i s' = Inl r \<and> ?P = Some r)"
      using keep miss all(3) by (intro probe_ends) auto
    then show ?thesis
      using fin hit lookup_mbuff_put_probe [OF dm False, of env key "[]" "Suc BUCKET_SIZE"] by (smt (verit, best))
  qed
qed

lemma rec_val_buffer:
  assumes "length key = rec_ks env dev a" "rec_len env dev a \<le> n"
  shows "take (rec_vs env dev a) (drop (14 + length key) (dev_read dev (rec_off env a) n)) = rec_val env dev a"
  using assms sub_dev_read [of "14 + length key" "rec_vs env dev a" n dev "rec_off env a"]
  by (simp add: rec_val_def rec_len_def add.assoc)

subsection \<open>The loop of get\<close>

definition get_hit :: "'s kv_env \<Rightarrow> bytes \<Rightarrow> umap \<Rightarrow> nat \<Rightarrow> 's kv
    \<Rightarrow> ('s kv \<times> errno \<times> u32 \<times> bytes) + 's kv" where
  "get_hit env key t i s =
     (let trgtcpy = ht_m t ! i; offset = slot_pba t i * gsize env; io_size = ucast (kv_size trgtcpy) * gsize env;
          alignment = min 512 (gsize env); io_size_aligned = align_up io_size alignment
      in if \<not> ev_mem_ok env (kv_ev s) then Inl (tick s, ENOMEM, 0, [])
         else if ev_rd_err env (kv_ev s) \<noteq> E_OK then Inl (tick s, EIO, 0, [])
         else
           let buf = dev_read (kv_dev s) (unat offset) (unat io_size_aligned);
               md = dec_hdr buf; ks = ucast (sh_key_size md); vs = sh_val_size md; s1 = tick s
           in if key_matches md key buf
              then
                if io_size \<noteq> gsize env * kv_tot_grains_get (gsize env) ks vs
                then
                  let new_io_size = align_up (kv_tot_grains_get (gsize env) ks vs * gsize env) alignment
                  in if \<not> ev_mem_ok env (kv_ev s1) then Inl (tick s1, ENOMEM, 0, [])
                     else if ev_rd_err env (kv_ev s1) \<noteq> E_OK then Inl (tick s1, EIO, 0, [])
                     else Inl (tick s1, EEXIST, vs, dev_read (kv_dev s) (unat offset) (unat new_io_size))
                else Inl (s1, EEXIST, vs, buf)
              else Inr s1)"

lemma lookup_mbuff_probe:
  assumes "dm_inv (kv_map s)" "um_find_all (table_of (kv_map s) h) h \<noteq> []"
  shows "lookup_mbuff env h key V n s =
    probe (table_of (kv_map s) h) (um_find_all (table_of (kv_map s) h) h)
      (get_hit env key (table_of (kv_map s) h)) (\<lambda>s. (s, ENODATA, 0, [])) V n s"
  using assms
proof (induction n arbitrary: V s)
  case (Suc n)
  let ?t = "table_of (kv_map s) h"
  have lc: "lookup_common (kv_map s) h V = (E_OK, find (\<lambda>i. slot_pba ?t i \<notin> set V) (um_find_all ?t h))"
    using lookup_common_eq(1) [OF Suc.prems(1), of h V] Suc.prems(2) by simp
  show ?case
  proof (cases "find (\<lambda>i. slot_pba ?t i \<notin> set V) (um_find_all ?t h)")
    case (Some i)
    have pb: "ucast (pba (entry_at (kv_map s) h i)) = slot_pba ?t i" "ht_m ?t ! i = entry_at (kv_map s) h i"
      by (simp_all add: entry_at_def slot_pba_def)
    show ?thesis
      using Suc.IH [of "tick s"] Suc.prems get_hit_def [of env key ?t i s]
      by (simp add: lc Some Let_def pb)
  qed (simp add: lc)
qed simp

text \<open>What a lookup for get returns.\<close>

definition get_lookup_spec :: "'s kv_env \<Rightarrow> 's kv \<Rightarrow> u64 \<Rightarrow> bytes \<Rightarrow> errno \<times> u32 \<times> bytes \<Rightarrow> bool" where
  "get_lookup_spec env s h key r \<longleftrightarrow>
     (case r of (rc, vs, buf) \<Rightarrow>
       (rc = EEXIST \<and> (\<exists>i. key_slot env s h key i
          \<and> take (unat vs) (drop (14 + length key) buf) = rec_val env (kv_dev s) (slot_pba (table_of (kv_map s) h) i)))
     \<or> (rc \<in> {ENODATA, ENOSPC} \<and> (\<forall>i. \<not> key_slot env s h key i))
     \<or> io_failure env rc)"

lemma info_kvs_slot [simp]: "info_kvs (slot_info m i) = unat (kv_size (ht_m m ! i))"
  by (simp add: info_kvs_def slot_info_def)

text \<open>
  The first read of \<open>get\<close> has the length the map entry records, capped at 2047 grains.
  With grains of at least 33 bytes it always covers the header and a key of up to
  65535 bytes, so the key comparison is decided by the first read.
\<close>

lemma first_io_size:
  assumes inv: "kv_inv env s" and i: "live (table_of (kv_map s) h) i"
  defines "a \<equiv> slot_pba (table_of (kv_map s) h) i"
  defines "kvs \<equiv> ucast (kv_size (ht_m (table_of (kv_map s) h) ! i)) :: u64"
  shows "unat kvs = min (rec_grains env (kv_dev s) a) 2047"
    "unat (kvs * gsize env) = unat kvs * unat (gsize env)"
    "unat (kvs * gsize env) \<le> unat (align_up (kvs * gsize env) (min 512 (gsize env)))"
    "14 + rec_ks env (kv_dev s) a \<le> unat (kvs * gsize env)"
proof -
  let ?t = "table_of (kv_map s) h" and ?g = "unat (gsize env)"
  note ewf = kv_invD(1) [OF inv]
  have g: "33 \<le> ?g" "?g < 2 ^ 32" using ewf by (auto simp: env_wf_def)
  have k: "unat kvs = unat (kv_size (ht_m ?t ! i))" by (simp add: kvs_def unat_ucast_up)
  then show kvs: "unat kvs = min (rec_grains env (kv_dev s) a) 2047"
    using slot_rec_ok(1) [OF inv i] by (simp add: rec_ok_def Let_def a_def)
  then have lt: "unat kvs \<le> 2047" by simp
  have "unat kvs * ?g \<le> 2047 * 2 ^ 32" using lt g by (intro mult_le_mono) auto
  then have b: "unat kvs * ?g < 2 ^ 63" by simp
  show m: "unat (kvs * gsize env) = unat kvs * ?g" using b by (intro unat_mult_no_wrap) simp
  show "unat (kvs * gsize env) \<le> unat (align_up (kvs * gsize env) (min 512 (gsize env)))"
    using m b alignment_nz(2) [OF ewf] by (intro align_up_ge [OF alignment_nz(1) [OF ewf]]) simp
  show "14 + rec_ks env (kv_dev s) a \<le> unat (kvs * gsize env)"
  proof (cases "rec_grains env (kv_dev s) a \<le> 2047")
    case True
    then show ?thesis using rec_grains_bounds(1) [OF ewf, of "kv_dev s" a] kvs m by simp
  next
    case False
    have "2047 * 33 \<le> 2047 * ?g" using g by simp
    then show ?thesis using rec_ks_small [of env "kv_dev s" a] kvs m False by simp
  qed
qed

lemma full_io_size:
  assumes inv: "kv_inv env s" and i: "live (table_of (kv_map s) h) i"
  defines "a \<equiv> slot_pba (table_of (kv_map s) h) i"
  defines "g \<equiv> kv_tot_grains_get (gsize env) (ucast (sh_key_size (rec_md env (kv_dev s) a))) (sh_val_size (rec_md env (kv_dev s) a))"
  shows "rec_len env (kv_dev s) a \<le> unat (g * gsize env)"
    "unat (g * gsize env) \<le> unat (align_up (g * gsize env) (min 512 (gsize env)))"
proof -
  note ewf = kv_invD(1) [OF inv]
  have small: "rec_ks env (kv_dev s) a + rec_vs env (kv_dev s) a < 2 ^ 32" "unat (gsize env) < 2 ^ 32"
    using slot_rec_ok(1) [OF inv i] ewf by (auto simp: rec_ok_def Let_def a_def env_wf_def)
  have g: "unat g = rec_grains env (kv_dev s) a" unfolding g_def by (rule kv_tot_grains_rec [OF ewf small(1)])
  have m: "unat (g * gsize env) = rec_grains env (kv_dev s) a * unat (gsize env)"
    using rec_grains_bounds(2) [OF ewf, of "kv_dev s" a] small g by (subst unat_mult_no_wrap) simp_all
  then show "rec_len env (kv_dev s) a \<le> unat (g * gsize env)"
    using rec_grains_bounds(1) [OF ewf, of "kv_dev s" a] by (simp add: rec_len_def)
  show "unat (g * gsize env) \<le> unat (align_up (g * gsize env) (min 512 (gsize env)))"
    using m rec_grains_bounds(2) [OF ewf, of "kv_dev s" a] small alignment_nz(2) [OF ewf]
    by (intro align_up_ge [OF alignment_nz(1) [OF ewf]]) simp
qed

lemma get_hit_ok:
  assumes inv: "kv_inv env s" and i: "matches (table_of (kv_map s) h) h i" and s1: "same_store s s1"
  defines "a \<equiv> slot_pba (table_of (kv_map s) h) i"
  shows "get_hit env key (table_of (kv_map s) h) i s1 = Inr s2 \<Longrightarrow> same_store s s2 \<and> rec_key env (kv_dev s) a \<noteq> key"
    "get_hit env key (table_of (kv_map s) h) i s1 = Inl r \<Longrightarrow>
       \<exists>s' r'. r = (s', r') \<and> same_store s s' \<and> get_lookup_spec env s h key r'"
proof -
  let ?t = "table_of (kv_map s) h" and ?g = "gsize env"
  let ?io = "ucast (kv_size (ht_m ?t ! i)) * gsize env :: u64"
  let ?n = "unat (align_up ?io (min 512 ?g))" and ?dev = "kv_dev s"
  let ?buf = "dev_read ?dev (unat (a * ?g)) ?n"
  have live: "live ?t i" using i by (simp add: matches_def)
  note dev = same_store_fields(2) [OF s1] and off = slot_offset [OF inv live, folded a_def]
  note io = first_io_size [OF inv live, folded a_def]
  have km: "key_matches (dec_hdr ?buf) key ?buf \<longleftrightarrow> rec_key env ?dev a = key"
    using key_matches_iff [of ?n env ?dev a key] io(3,4) off by simp
  have md: "dec_hdr ?buf = rec_md env ?dev a"
    using dec_hdr_dev_read [of ?n ?dev "rec_off env a"] io(3,4) off by (simp add: rec_md_def)
  note fl = full_io_size [OF inv live, folded a_def]
  have ks: "length key = rec_ks env ?dev a" if "rec_key env ?dev a = key" using that by (auto simp: rec_key_def)
  have ok: "get_lookup_spec env s h key (EEXIST, sh_val_size (rec_md env ?dev a), dev_read ?dev (unat (a * ?g)) n)"
    if "rec_key env ?dev a = key" "rec_len env ?dev a \<le> n" for n
    using rec_val_buffer [OF ks [OF that(1)] that(2)] that(1) i off
    by (auto simp: get_lookup_spec_def key_slot_def rec_vs_def a_def [symmetric])
  have ok1: "get_lookup_spec env s h key (EEXIST, sh_val_size (rec_md env ?dev a), ?buf)"
    if "rec_key env ?dev a = key" "?io = ?g * kv_tot_grains_get ?g (ucast (sh_key_size (rec_md env ?dev a))) (sh_val_size (rec_md env ?dev a))"
    using ok [OF that(1), of ?n] fl(1) io(3) that(2) by (simp add: mult.commute)
  have err: "get_lookup_spec env s h key (e, x)" if "io_failure env e" for e x
    using that by (auto simp: get_lookup_spec_def split: prod.splits)
  note t1 = same_store_tick [OF s1] note t2 = same_store_tick [OF t1]
  show "get_hit env key ?t i s1 = Inr s2 \<Longrightarrow> same_store s s2 \<and> rec_key env (kv_dev s) a \<noteq> key"
    using km t1 by (auto simp: get_hit_def Let_def dev a_def [symmetric] split: if_splits)
  show "get_hit env key ?t i s1 = Inl r \<Longrightarrow> \<exists>s' r'. r = (s', r') \<and> same_store s s' \<and> get_lookup_spec env s h key r'"
    using km md ok1 ok [OF _ order_trans [OF fl]] err t1 t2
    by (auto simp: get_hit_def Let_def dev a_def [symmetric] split: if_splits)
qed

lemma lookup_mbuff_ok:
  assumes inv: "kv_inv env s"
  shows "\<exists>s' r. lookup_mbuff env h key [] (Suc BUCKET_SIZE) s = Some (s', r) \<and> same_store s s' \<and> get_lookup_spec env s h key r"
proof -
  let ?t = "table_of (kv_map s) h" and ?L = "um_find_all (table_of (kv_map s) h) h"
  note dm = kv_invD(2) [OF inv]
  note ti = dm_table_facts(1) [OF dm, of h] and lc = lookup_common_eq [OF dm, of h]
  note all = um_find_all_props [OF ti] and hit = get_hit_ok [OF inv]
  show ?thesis
  proof (cases "?L = []")
    case True
    then have none: "\<not> key_slot env s h key i" for i using all(1) [of i h] by (auto simp: key_slot_def)
    obtain rc trgt where l: "um_lookup ?t h = (rc, trgt)" by force
    then have "lookup_mbuff env h key [] (Suc BUCKET_SIZE) s = Some (s, rc, 0, [])"
      unfolding lookup_mbuff.simps using lc True l by simp
    moreover have "get_lookup_spec env s h key (rc, 0, [])"
      using um_lookup_cases [OF l] lc(2) [OF True] none l by (auto simp: get_lookup_spec_def)
    ultimately show ?thesis by auto
  next
    case False
    let ?hit = "get_hit env key ?t"
    let ?P = "probe ?t ?L ?hit (\<lambda>s. (s, ENODATA, 0, [])) [] (Suc BUCKET_SIZE) s"
    have "(\<exists>s'. ?P = Some (s', ENODATA, 0, []) \<and> same_store s s' \<and> (\<forall>i \<in> set ?L. rec_key env (kv_dev s) (slot_pba ?t i) \<noteq> key))
      \<or> (\<exists>i \<in> set ?L. \<exists>s' r. same_store s s' \<and> ?hit i s' = Inl r \<and> ?P = Some r)"
      using hit(1) all(1,3) by (intro probe_ends) (auto simp: get_hit_def Let_def same_store_tick split: if_splits)
    then show ?thesis
    proof (elim disjE exE conjE bexE)
      fix s' assume P: "?P = Some (s', ENODATA, 0, [])" "same_store s s'" "\<forall>i \<in> set ?L. rec_key env (kv_dev s) (slot_pba ?t i) \<noteq> key"
      have "\<not> key_slot env s h key i" for i using P(3) all(1) [of i h] by (auto simp: key_slot_def)
      then show ?thesis using P(1,2) lookup_mbuff_probe [OF dm False] by (auto simp: get_lookup_spec_def)
    next
      fix i s' r assume "i \<in> set ?L" "same_store s s'" "?hit i s' = Inl r" "?P = Some r"
      then show ?thesis using hit(2) [of h i s' key r] all(1) lookup_mbuff_probe [OF dm False] by auto
    qed
  qed
qed

end
