(* ===== verification/KV_Update.thy ===== *)
theory KV_Update
  imports KV_Lookup
begin

section \<open>Changes of the store\<close>

text \<open>
  What a change of the device or of the map does to the abstract map: bytes outside the
  live records do not matter, an entry added under a new key adds a binding, an entry
  exchanged under its key changes one, an entry taken out removes one.
\<close>

subsection \<open>Slots and bindings\<close>

lemma slot_entry_key [simp]:
  "entry_key env dev (slot_info t i) = rec_key env dev (slot_pba t i)"
  "entry_val env dev (slot_info t i) = rec_val env dev (slot_pba t i)"
  by (simp_all add: entry_key_def entry_val_def)

lemma key_slot_entry:
  assumes inv: "kv_inv env s" and x: "x \<in># kv_content s" "entry_key env (kv_dev s) x = key"
  shows "\<exists>i. key_slot env s (ev_hash env key) key i \<and> slot_info (table_of (kv_map s) (ev_hash env key)) i = x"
proof -
  let ?h = "ev_hash env key" and ?d = "kv_map s"
  let ?t = "table_of ?d ?h"
  note dm = kv_invD(2) [OF inv]
  note tf = dm_table_facts [OF dm, of ?h]
  have m: "info_matches (map_entry_nr_bits_m ?d) ?h x"
    using kv_invD(3) [OF inv x(1)] x(2) by (simp add: rec_ok_def Let_def entry_key_def)
  then have "x \<in># content ?t" using dm_content_table [OF dm m] x(1) by (simp add: kv_content_def)
  then obtain i where i: "live ?t i" "slot_info ?t i = x" by (auto simp: content_live)
  then have "matches ?t ?h i" using matches_info [OF tf(1) i(1), of ?h] m tf(2) by simp
  then show ?thesis using i x(2) by (auto simp: key_slot_def)
qed

lemma key_slotD:
  assumes inv: "kv_inv env s" and i: "key_slot env s h key i"
  shows "live (table_of (kv_map s) h) i" "slot_info (table_of (kv_map s) h) i \<in># kv_content s"
    "entry_key env (kv_dev s) (slot_info (table_of (kv_map s) h) i) = key"
  using i slot_rec_ok(2) [OF inv, of h i] by (auto simp: key_slot_def matches_def)

lemma key_slot_abs:
  assumes "kv_inv env s" "key_slot env s h key i"
  shows "kv_abs env s key = Some (rec_val env (kv_dev s) (slot_pba (table_of (kv_map s) h) i))"
  using key_slotD [OF assms] kv_abs_Some [OF assms(1)] by (metis slot_entry_key(2))

lemma no_key_slot_abs:
  assumes "kv_inv env s"
  shows "(\<forall>i. \<not> key_slot env s (ev_hash env key) key i) \<longleftrightarrow> kv_abs env s key = None"
  using key_slot_entry [OF assms] key_slotD [OF assms] unfolding kv_abs_None [OF assms] by metis

subsection \<open>Changes of the device\<close>

definition same_records :: "'s kv_env \<Rightarrow> 's kv \<Rightarrow> device \<Rightarrow> bool" where
  "same_records env s dev \<longleftrightarrow>
     (\<forall>x \<in># kv_content s. dev_read dev (rec_off env (info_pba x)) (rec_len env (kv_dev s) (info_pba x))
        = dev_read (kv_dev s) (rec_off env (info_pba x)) (rec_len env (kv_dev s) (info_pba x)))"

lemma rec_same:
  assumes "dev_read dev' (rec_off env a) (rec_len env dev a) = dev_read dev (rec_off env a) (rec_len env dev a)"
  shows "rec_md env dev' a = rec_md env dev a" "rec_ks env dev' a = rec_ks env dev a" "rec_vs env dev' a = rec_vs env dev a"
    "rec_key env dev' a = rec_key env dev a" "rec_val env dev' a = rec_val env dev a"
proof -
  have sub: "dev_read dev' (rec_off env a + k) j = dev_read dev (rec_off env a + k) j" if "k + j \<le> rec_len env dev a" for k j
    using sub_dev_read [OF that, of dev' "rec_off env a"] sub_dev_read [OF that, of dev "rec_off env a"] assms by simp
  show md: "rec_md env dev' a = rec_md env dev a"
    using sub [of 0 14] by (simp add: rec_md_def rec_len_def)
  show ks: "rec_ks env dev' a = rec_ks env dev a" and vs: "rec_vs env dev' a = rec_vs env dev a"
    by (simp_all add: rec_ks_def rec_vs_def md)
  show "rec_key env dev' a = rec_key env dev a"
    using sub [of 14 "rec_ks env dev a"] by (simp add: rec_key_def ks rec_len_def)
  show "rec_val env dev' a = rec_val env dev a"
    using sub [of "14 + rec_ks env dev a" "rec_vs env dev a"] by (simp add: rec_val_def ks vs rec_len_def add.assoc)
qed

lemma rec_ok_same:
  assumes "dev_read dev' (rec_off env (info_pba x)) (rec_len env dev (info_pba x))
    = dev_read dev (rec_off env (info_pba x)) (rec_len env dev (info_pba x))"
  shows "rec_ok env dev' mb x \<longleftrightarrow> rec_ok env dev mb x" "entry_key env dev' x = entry_key env dev x"
    "entry_val env dev' x = entry_val env dev x"
  using rec_same [OF assms] by (simp_all add: rec_ok_def Let_def rec_grains_def entry_key_def entry_val_def)

lemma kv_dev_change:
  assumes inv: "kv_inv env s" and same: "same_records env s (kv_dev s')" and m: "kv_map s' = kv_map s"
  shows "kv_inv env s'" "kv_abs env s' = kv_abs env s"
proof -
  have c: "kv_content s' = kv_content s" by (rule kv_content_same [OF m])
  note r = rec_ok_same [OF same [unfolded same_records_def, rule_format]]
  have keys: "image_mset (entry_key env (kv_dev s')) (kv_content s) = image_mset (entry_key env (kv_dev s)) (kv_content s)"
    by (rule image_mset_cong) (rule r(2))
  show "kv_inv env s'" using inv r by (simp add: kv_inv_def c m keys)
  have "map (\<lambda>x. (entry_key env (kv_dev s') x, entry_val env (kv_dev s') x)) (dm_entries (kv_map s)) =
    map (\<lambda>x. (entry_key env (kv_dev s) x, entry_val env (kv_dev s) x)) (dm_entries (kv_map s))"
    using r by (intro map_cong) (auto simp: set_dm_entries kv_content_def)
  then show "kv_abs env s' = kv_abs env s" unfolding kv_abs_def m by (rule arg_cong)
qed

subsection \<open>Changes of the map\<close>

lemma kv_bind:
  assumes inv: "kv_inv env s" and dm: "dm_inv (kv_map s')" and mb: "map_entry_nr_bits_m (kv_map s') = map_entry_nr_bits_m (kv_map s)"
    and dev: "kv_dev s' = kv_dev s" and c: "kv_content s = M + old" and c': "kv_content s' = add_mset x M"
    and old: "\<And>y. y \<in># old \<Longrightarrow> entry_key env (kv_dev s) y = entry_key env (kv_dev s) x"
    and new: "\<And>y. y \<in># M \<Longrightarrow> entry_key env (kv_dev s) y \<noteq> entry_key env (kv_dev s) x"
    and ok: "rec_ok env (kv_dev s) (map_entry_nr_bits_m (kv_map s)) x"
  shows "kv_inv env s'"
    "kv_abs env s' = (kv_abs env s)(entry_key env (kv_dev s) x \<mapsto> entry_val env (kv_dev s) x)"
proof -
  let ?K = "entry_key env (kv_dev s)"
  have out: "count (image_mset ?K M) (?K x) = 0"
    using new by (simp add: count_eq_zero_iff) (metis (no_types, lifting) imageE)
  have one: "count (image_mset ?K M) (?K y) = 1" if "y \<in># M" for y
  proof -
    have "count (image_mset ?K (M + old)) (?K y) = 1" using inv that c by (simp add: kv_inv_def)
    moreover have "count (image_mset ?K M) (?K y) \<noteq> 0" using that by simp
    ultimately show ?thesis unfolding image_mset_union count_union by linarith
  qed
  have cnt: "count (image_mset ?K (add_mset x M)) (?K y) = 1" if "y \<in># add_mset x M" for y
  proof (cases "y = x")
    case False
    then have "y \<in># M" using that by simp
    then show ?thesis using one new [of y] by simp
  qed (use out in simp)
  have recs: "rec_ok env (kv_dev s) (map_entry_nr_bits_m (kv_map s)) y" if "y \<in># add_mset x M" for y
    using that ok kv_invD(3) [OF inv, of y] by (auto simp: c)
  show inv': "kv_inv env s'"
    unfolding kv_inv_def c' mb dev using kv_invD(1) [OF inv] dm cnt recs by blast
  show "kv_abs env s' = (kv_abs env s)(?K x \<mapsto> entry_val env (kv_dev s) x)"
  proof
    fix k
    have eq: "kv_abs env s' k = Some v \<longleftrightarrow> ((kv_abs env s)(?K x \<mapsto> entry_val env (kv_dev s) x)) k = Some v" for v
    proof (cases "k = ?K x")
      case True
      then show ?thesis
        using kv_abs_Some [OF inv', of k v] kv_invD(4) [OF inv', of x] by (auto simp: c' dev)
    next
      case False
      then show ?thesis
        using kv_abs_Some [OF inv, of k v] kv_abs_Some [OF inv', of k v] old unfolding c c' dev by fastforce
    qed
    then show "kv_abs env s' k = ((kv_abs env s)(?K x \<mapsto> entry_val env (kv_dev s) x)) k" by (metis option.exhaust)
  qed
qed

lemma key_alone:
  assumes inv: "kv_inv env s" and c: "kv_content s = add_mset x M" and y: "y \<in># M"
  shows "entry_key env (kv_dev s) y \<noteq> entry_key env (kv_dev s) x"
proof
  assume e: "entry_key env (kv_dev s) y = entry_key env (kv_dev s) x"
  have "count (image_mset (entry_key env (kv_dev s)) (add_mset x M)) (entry_key env (kv_dev s) x) = 1"
    using inv c by (auto simp: kv_inv_def)
  moreover have "count (image_mset (entry_key env (kv_dev s)) M) (entry_key env (kv_dev s) x) > 0"
    using y e by (metis count_greater_zero_iff image_eqI set_image_mset)
  ultimately show False by simp
qed

lemma kv_unbind:
  assumes inv: "kv_inv env s" and dm: "dm_inv (kv_map s')" and mb: "map_entry_nr_bits_m (kv_map s') = map_entry_nr_bits_m (kv_map s)"
    and dev: "kv_dev s' = kv_dev s" and c: "kv_content s = add_mset x (kv_content s')"
  shows "kv_inv env s'" "kv_abs env s' = (kv_abs env s)(entry_key env (kv_dev s) x := None)"
proof -
  let ?K = "entry_key env (kv_dev s)"
  note alone = key_alone [OF inv c]
  have one: "count (image_mset ?K (kv_content s')) (?K y) = 1" if "y \<in># kv_content s'" for y
  proof -
    have "count (image_mset ?K (add_mset x (kv_content s'))) (?K y) = 1" using inv that c by (simp add: kv_inv_def)
    then show ?thesis using alone [OF that] by simp
  qed
  show inv': "kv_inv env s'" using inv dm one c by (auto simp: kv_inv_def mb dev)
  show "kv_abs env s' = (kv_abs env s)(?K x := None)"
  proof
    fix k
    have "kv_abs env s' k = Some v \<longleftrightarrow> ((kv_abs env s)(?K x := None)) k = Some v" for v
      using kv_abs_Some [OF inv, of k v] kv_abs_Some [OF inv', of k v] alone unfolding c dev
      by (cases "k = ?K x") fastforce+
    then show "kv_abs env s' k = ((kv_abs env s)(?K x := None)) k" by (metis option.exhaust)
  qed
qed

end
