(* ===== verification/KV_Put.thy ===== *)
theory KV_Put
  imports KV_Update
begin

section \<open>Writing and deleting over a grain allocator\<close>

text \<open>
  The store relies on the segment manager for one thing: a range of grains that is handed
  out is not in use, and nothing else writes to the grains in use.  The locale
  \<open>grain_alloc\<close> states that contract for the operations the store calls; the lemmas
  about writing a record, \<open>put\<close> and \<open>del\<close> are proved from it.
\<close>

definition grain_bytes :: "'s kv_env \<Rightarrow> nat set \<Rightarrow> nat set" where
  "grain_bytes env G = {b. b div unat (gsize env) \<in> G}"

definition rec_range :: "'s kv_env \<Rightarrow> device \<Rightarrow> u64 \<Rightarrow> nat set" where
  "rec_range env dev a = {unat a..<unat a + rec_grains env dev a}"

text \<open>The sizes that the counters of the store add up.\<close>

definition raw_bytes :: "'s kv_env \<Rightarrow> device \<Rightarrow> entry_info multiset \<Rightarrow> nat" where
  "raw_bytes env dev M = (\<Sum>x \<in># M. rec_ks env dev (info_pba x) + rec_vs env dev (info_pba x))"

definition tot_bytes :: "'s kv_env \<Rightarrow> device \<Rightarrow> entry_info multiset \<Rightarrow> nat" where
  "tot_bytes env dev M = (\<Sum>x \<in># M. rec_grains env dev (info_pba x) * unat (gsize env))"

definition counts_ok :: "'s kv_env \<Rightarrow> 's kv \<Rightarrow> bool" where
  "counts_ok env s \<longleftrightarrow>
     key_nr_m s = of_nat (size (kv_content s))
   \<and> used_bytes_m s = of_nat (raw_bytes env (kv_dev s) (kv_content s))
   \<and> total_bytes_m s = of_nat (tot_bytes env (kv_dev s) (kv_content s))"

lemma bytes_cong:
  assumes "\<And>x. x \<in># M \<Longrightarrow> rec_ks env dev' (info_pba x) = rec_ks env dev (info_pba x)"
    "\<And>x. x \<in># M \<Longrightarrow> rec_vs env dev' (info_pba x) = rec_vs env dev (info_pba x)"
  shows "raw_bytes env dev' M = raw_bytes env dev M" "tot_bytes env dev' M = tot_bytes env dev M"
  unfolding raw_bytes_def tot_bytes_def rec_grains_def
  using assms by (auto intro!: arg_cong [of _ _ sum_mset] image_mset_cong)

lemma bytes_add [simp]:
  "raw_bytes env dev (add_mset x M) = rec_ks env dev (info_pba x) + rec_vs env dev (info_pba x) + raw_bytes env dev M"
  "tot_bytes env dev (add_mset x M) = rec_grains env dev (info_pba x) * unat (gsize env) + tot_bytes env dev M"
  by (simp_all add: raw_bytes_def tot_bytes_def)

lemma bytes_union [simp]:
  "raw_bytes env dev (M + N) = raw_bytes env dev M + raw_bytes env dev N"
  "tot_bytes env dev (M + N) = tot_bytes env dev M + tot_bytes env dev N"
  "raw_bytes env dev {#} = 0" "tot_bytes env dev {#} = 0"
  by (simp_all add: raw_bytes_def tot_bytes_def)

text \<open>The counters change by the sizes of the record.\<close>

lemma counter_sizes:
  assumes "unat ks + unat vs < 2 ^ 32" "env_wf env"
  shows "kv_raw_bytes_get ks vs = of_nat (unat ks + unat vs)"
    "kv_tot_bytes_get (gsize env) ks vs =
      of_nat ((unat ks + unat vs + 16 + unat (gsize env) - 1) div unat (gsize env) * unat (gsize env))"
proof -
  have "unat (vs + ks) = unat ks + unat vs" using assms(1) unat_add_no_wrap [of vs ks] by simp
  then have "unat (kv_raw_bytes_get ks vs) = unat ks + unat vs" by (simp add: kv_raw_bytes_get_def unat_ucast_up)
  then show "kv_raw_bytes_get ks vs = of_nat (unat ks + unat vs)" by (metis of_nat_unat ucast_id)
  have "unat (gsize env) < 2 ^ 32" using assms(2) by (simp add: env_wf_def)
  then have "unat (kv_tot_grains_get (gsize env) ks vs) = (unat ks + unat vs + 16 + unat (gsize env) - 1) div unat (gsize env)"
    by (rule kv_tot_grains_bounds(1) [OF assms(1) gsize_pos(2) [OF assms(2)]])
  then have "kv_tot_grains_get (gsize env) ks vs = of_nat ((unat ks + unat vs + 16 + unat (gsize env) - 1) div unat (gsize env))"
    by (metis of_nat_unat ucast_id)
  then show "kv_tot_bytes_get (gsize env) ks vs =
      of_nat ((unat ks + unat vs + 16 + unat (gsize env) - 1) div unat (gsize env) * unat (gsize env))"
    by (simp add: kv_tot_bytes_get_def mult.commute)
qed

text \<open>A record written at a grain and not yet in the map.\<close>

definition written :: "'s kv_env \<Rightarrow> device \<Rightarrow> u64 \<Rightarrow> bytes \<Rightarrow> bytes \<Rightarrow> bool" where
  "written env dev grain key val \<longleftrightarrow>
     rec_key env dev grain = key \<and> rec_val env dev grain = val
     \<and> rec_ks env dev grain = length key \<and> rec_vs env dev grain = length val
     \<and> unat grain < 2 ^ 39 \<and> valid_pba grain \<and> rec_off env grain < 2 ^ 64"

lemma dev_write_prefix:
  assumes "n \<le> length bs"
  shows "dev_read (dev_write dev off bs) off n = take n bs"
  using take_dev_read [OF assms, of "dev_write dev off bs" off] by simp

lemma written_record:
  assumes key: "length key < 2 ^ 16" and sz: "length key + length val < 2 ^ 32"
    and g: "unat grain < 2 ^ 39" "valid_pba grain" "rec_off env grain < 2 ^ 64"
    and md: "sh_key_size md = of_nat (length key)" "sh_val_size md = of_nat (length val)"
    and bs: "bs = enc_hdr md @ key @ val @ rest"
  shows "written env (dev_write dev (unat (grain * gsize env)) bs) grain key val"
proof -
  let ?dev = "dev_write dev (unat (grain * gsize env)) bs"
  have off: "unat (grain * gsize env) = rec_off env grain" by (rule rec_offset_word [OF g(3)])
  have "rec_md env ?dev grain = dec_hdr (take 14 bs)"
    unfolding rec_md_def off by (subst dev_write_prefix) (simp_all add: bs)
  also have "\<dots> = md" using dec_enc_hdr [of md "[]"] by (simp add: bs)
  finally have "rec_md env ?dev grain = md" .
  then have ks: "rec_ks env ?dev grain = length key" and vs: "rec_vs env ?dev grain = length val"
    using key sz by (simp_all add: rec_ks_def rec_vs_def md unat_of_nat_small)
  have sub: "dev_read ?dev (rec_off env grain + k) j = take j (drop k bs)" if "k + j \<le> length bs" for k j
    using sub_dev_read [OF that, of ?dev "rec_off env grain"] dev_read_write [of dev "rec_off env grain" bs] off by simp
  have "rec_key env ?dev grain = key"
    unfolding rec_key_def ks using sub [of 14 "length key"] by (simp add: bs)
  moreover have "rec_val env ?dev grain = val"
    unfolding rec_val_def ks vs using sub [of "14 + length key" "length val"] by (simp add: bs add.assoc)
  ultimately show ?thesis using ks vs g by (simp add: written_def)
qed

lemma record_bytes_shape:
  "\<exists>rest. record_bytes gs md key val crc = enc_hdr md @ key @ val @ rest"
  by (simp add: record_bytes_def Let_def)

lemma record_grains:
  assumes ewf: "env_wf env" and sz: "length key + length val < 2 ^ 32"
  defines "nr \<equiv> udiv_round_up (of_nat (length key + length val + PREFIX_SIZE + SUFFIX_SIZE)) (gsize env)"
  shows "unat nr = (length key + length val + 16 + unat (gsize env) - 1) div unat (gsize env)"
    "length (record_bytes (gsize env) md key val crc) = unat nr * unat (gsize env)"
proof -
  let ?g = "unat (gsize env)" and ?n = "length key + length val + 16"
  have g: "?g < 2 ^ 32" "0 < ?g" using ewf gsize_pos [OF ewf] by (auto simp: env_wf_def)
  have n: "unat (of_nat ?n :: u64) = ?n" using sz by (intro unat_of_nat_small) simp
  have nr_eq: "nr = udiv_round_up (of_nat ?n) (gsize env)" by (simp add: nr_def ac_simps)
  show nr: "unat nr = (?n + ?g - 1) div ?g"
    unfolding nr_eq using unat_udiv_round_up [OF gsize_pos(2) [OF ewf], of "of_nat ?n"] n sz g by simp
  have b: "?n \<le> unat nr * ?g" "unat nr * ?g < ?n + ?g" using ceil_div_bounds [OF g(2), of ?n] nr by (simp_all add: mult.commute)
  have m: "unat (nr * gsize env) = unat nr * ?g" using b sz g by (intro unat_mult_no_wrap) simp
  have "length (enc_hdr md @ key @ val @ le16 crc) = ?n" by simp
  then show "length (record_bytes (gsize env) md key val crc) = unat nr * ?g"
    unfolding record_bytes_def Let_def length_append [of _ "replicate _ _"] length_replicate
    using b(1) m by (simp only: nr_eq)
qed

text \<open>A written record as a map entry.\<close>

lemma written_entry:
  fixes mb :: nat
  assumes ewf: "env_wf env" and w: "written env dev grain key val" and sz: "length key + length val < 2 ^ 32"
  defines "x \<equiv> info_new mb (ev_hash env key) (kv_tot_grains_get (gsize env) (of_nat (length key)) (of_nat (length val))) grain"
  shows "info_pba x = grain" "rec_ok env dev mb x" "entry_key env dev x = key" "entry_val env dev x = val"
proof -
  let ?n = "kv_tot_grains_get (gsize env) (of_nat (length key)) (of_nat (length val))"
  have "unat (ucast (ucast grain :: 39 word) :: u64) = unat (ucast grain :: 39 word)" by (rule unat_ucast_up) simp
  also have "\<dots> = unat grain" using w by (simp add: unsigned_ucast_eq take_bit_eq_mod written_def)
  finally have "unat (ucast (ucast grain :: 39 word) :: u64) = unat grain" .
  then show a: "info_pba x = grain"
    unfolding word_unat_eq_iff [of "info_pba x"] by (simp only: x_def info_new_def info_pba_def prod.case)
  have md: "(ucast (sh_key_size (rec_md env dev grain)) :: u32) = of_nat (length key)"
    "sh_val_size (rec_md env dev grain) = of_nat (length val)"
    using w sz by (auto simp: word_unat_eq_iff unat_ucast_up unat_of_nat_small written_def rec_ks_def rec_vs_def)
  have n: "unat ?n = rec_grains env dev grain"
    using kv_tot_grains_rec [OF ewf, of dev grain] w sz by (simp add: md written_def)
  have "unat (min ?n MAX_KV_SIZE) = min (rec_grains env dev grain) 2047"
    unfolding min_def word_le_nat_alt n by (simp add: MAX_KV_SIZE_eq n)
  then have "info_kvs x = min (rec_grains env dev grain) 2047"
    by (simp add: x_def info_new_def info_kvs_def unsigned_ucast_eq take_bit_eq_mod)
  then show "rec_ok env dev mb x"
    using w sz info_new_matches [of mb "ev_hash env key" ?n grain, folded x_def]
    by (simp add: rec_ok_def Let_def a) (simp add: written_def)
  show "entry_key env dev x = key" "entry_val env dev x = val"
    using w by (simp_all add: entry_key_def entry_val_def a written_def)
qed

text \<open>
  There is room for a put when the bucket has a free slot, or when displacement makes one.
  Without it the map grows.
\<close>

definition put_room :: "dmap \<Rightarrow> u64 \<Rightarrow> PutOp \<Rightarrow> bool" where
  "put_room d h op \<longleftrightarrow> \<not> bucket_full (table_of d h) h
     \<or> op \<noteq> REPLACE \<and> no_tombstones (table_of d h) h \<and> fst (snd (dm_try_shift d h)) = E_OK"

definition op_allows :: "PutOp \<Rightarrow> bool \<Rightarrow> bool" where
  "op_allows op present \<longleftrightarrow> (op = REPLACE \<longrightarrow> present) \<and> (op = CREATE \<longrightarrow> \<not> present)"

text \<open>A change of the device after which the live records have the same header and key.\<close>

definition same_heads :: "'s kv_env \<Rightarrow> 's kv \<Rightarrow> 's kv \<Rightarrow> bool" where
  "same_heads env s s' \<longleftrightarrow> kv_map s' = kv_map s
     \<and> (\<forall>x \<in># kv_content s. rec_md env (kv_dev s') (info_pba x) = rec_md env (kv_dev s) (info_pba x)
          \<and> rec_key env (kv_dev s') (info_pba x) = rec_key env (kv_dev s) (info_pba x))"

lemma same_heads_trans: "same_heads env s s1 \<Longrightarrow> same_heads env s1 s2 \<Longrightarrow> same_heads env s s2"
  by (auto simp: same_heads_def kv_content_def)

subsection \<open>The contract\<close>

locale grain_alloc =
  fixes env :: "'s kv_env" and seg_inv :: "'s \<Rightarrow> bool" and owned :: "'s \<Rightarrow> nat set"
  assumes allocate_inv: "seg_inv seg \<Longrightarrow> unat nr < 2 ^ 63 \<Longrightarrow> ev_allocate env seg dev nr st = (seg', dev', err, grain)
        \<Longrightarrow> seg_inv seg' \<and> owned seg \<subseteq> owned seg'"
    and allocate_dev: "seg_inv seg \<Longrightarrow> unat nr < 2 ^ 63 \<Longrightarrow> ev_allocate env seg dev nr st = (seg', dev', err, grain)
        \<Longrightarrow> b \<in> grain_bytes env (owned seg) \<Longrightarrow> dev' b = dev b"
    and allocate_range: "seg_inv seg \<Longrightarrow> unat nr < 2 ^ 63 \<Longrightarrow> ev_allocate env seg dev nr st = (seg', dev', E_OK, grain)
        \<Longrightarrow> {unat grain..<unat grain + unat nr} \<subseteq> owned seg' - owned seg"
    and owned_small: "seg_inv seg \<Longrightarrow> g \<in> owned seg \<Longrightarrow> g < 2 ^ 39 - 1 \<and> g * unat (gsize env) < 2 ^ 64"
    and drain_inv: "seg_inv seg \<Longrightarrow> seg_inv (ev_drain env seg st) \<and> owned seg \<subseteq> owned (ev_drain env seg st)"
    and invalidate_inv: "seg_inv seg \<Longrightarrow> seg_inv (ev_invalidate env seg grain nr) \<and> owned seg \<subseteq> owned (ev_invalidate env seg grain nr)"
    and release_inv: "seg_inv seg \<Longrightarrow> seg_inv (ev_release env seg grain nr st) \<and> owned seg \<subseteq> owned (ev_release env seg grain nr st)"
begin

text \<open>Every live record lies in grains that are in use.\<close>

definition kv_safe :: "'s kv \<Rightarrow> bool" where
  "kv_safe s \<longleftrightarrow> kv_inv env s \<and> counts_ok env s \<and> seg_inv (kv_seg s)
     \<and> (\<forall>x \<in># kv_content s. rec_range env (kv_dev s) (info_pba x) \<subseteq> owned (kv_seg s))"

definition placed_record :: "'s kv \<Rightarrow> u64 \<Rightarrow> bytes \<Rightarrow> bytes \<Rightarrow> bool" where
  "placed_record s grain key val \<longleftrightarrow> written env (kv_dev s) grain key val
     \<and> rec_range env (kv_dev s) grain \<subseteq> owned (kv_seg s)"

lemma kv_safeD:
  assumes "kv_safe s"
  shows "kv_inv env s" "seg_inv (kv_seg s)" "counts_ok env s" "env_wf env"
    "x \<in># kv_content s \<Longrightarrow> rec_range env (kv_dev s) (info_pba x) \<subseteq> owned (kv_seg s)"
  using assms kv_invD(1) by (auto simp: kv_safe_def)

lemma rec_bytes_in_range:
  assumes ewf: "env_wf env" and "rec_off env a \<le> b" "b < rec_off env a + rec_len env dev a"
  shows "b \<in> grain_bytes env (rec_range env dev a)"
proof -
  let ?g = "unat (gsize env)"
  have "b < (unat a + rec_grains env dev a) * ?g"
    using assms(3) rec_grains_bounds(1) [OF ewf, of dev a] by (simp add: rec_off_def rec_len_def algebra_simps)
  then have "b div ?g < unat a + rec_grains env dev a" by (rule less_mult_imp_div_less)
  moreover have "unat a \<le> b div ?g"
    using assms(2) gsize_pos(1) [OF ewf] by (simp add: rec_off_def less_eq_div_iff_mult_less_eq)
  ultimately show ?thesis by (simp add: grain_bytes_def rec_range_def)
qed

text \<open>A device that agrees on the grains in use has the same records.\<close>

lemma owned_same_read:
  assumes ewf: "env_wf env" and "rec_range env dev a \<subseteq> G" "\<And>b. b \<in> grain_bytes env G \<Longrightarrow> dev' b = dev b"
  shows "dev_read dev' (rec_off env a) (rec_len env dev a) = dev_read dev (rec_off env a) (rec_len env dev a)"
proof (rule dev_read_cong)
  fix b assume "rec_off env a \<le> b" "b < rec_off env a + rec_len env dev a"
  then have "b \<in> grain_bytes env (rec_range env dev a)" by (rule rec_bytes_in_range [OF ewf])
  then show "dev' b = dev b" using assms by (auto simp: grain_bytes_def)
qed

lemma kv_safe_dev:
  assumes safe: "kv_safe s" and m: "kv_map s' = kv_map s"
    and dev: "\<And>b. b \<in> grain_bytes env (owned (kv_seg s)) \<Longrightarrow> kv_dev s' b = kv_dev s b"
    and seg: "seg_inv (kv_seg s')" "owned (kv_seg s) \<subseteq> owned (kv_seg s')"
    and cnt: "key_nr_m s' = key_nr_m s" "used_bytes_m s' = used_bytes_m s" "total_bytes_m s' = total_bytes_m s"
  shows "kv_safe s'" "kv_abs env s' = kv_abs env s" "same_heads env s s'"
proof -
  have read: "dev_read (kv_dev s') (rec_off env (info_pba x)) (rec_len env (kv_dev s) (info_pba x))
    = dev_read (kv_dev s) (rec_off env (info_pba x)) (rec_len env (kv_dev s) (info_pba x))" if "x \<in># kv_content s" for x
    using owned_same_read [OF kv_safeD(4) [OF safe] kv_safeD(5) [OF safe that] dev] .
  then have "same_records env s (kv_dev s')" by (simp add: same_records_def)
  note ch = kv_dev_change [OF kv_safeD(1) [OF safe] this m] and c = kv_content_same [OF m]
  note rs = rec_same(2,3) [OF read]
  have g: "rec_grains env (kv_dev s') (info_pba x) = rec_grains env (kv_dev s) (info_pba x)" if "x \<in># kv_content s" for x
    using rs [OF that] by (simp add: rec_grains_def)
  have "counts_ok env s'"
    using kv_safeD(3) [OF safe] bytes_cong [of "kv_content s", OF rs] by (simp add: counts_ok_def c cnt)
  then show "kv_safe s'" using ch(1) seg kv_safeD(5) [OF safe] g by (fastforce simp: kv_safe_def c rec_range_def)
  show "kv_abs env s' = kv_abs env s" by (rule ch(2))
  show "same_heads env s s'" using rec_same(1,4) [OF read] by (simp add: same_heads_def m)
qed

text \<open>Writing a record, on every outcome.\<close>

lemma fresh_range_ok:
  assumes "seg_inv seg" "{unat grain..<unat grain + unat nr} \<subseteq> owned seg" "nr \<noteq> 0"
  shows "unat grain < 2 ^ 39" "valid_pba grain" "rec_off env grain < 2 ^ 64"
proof -
  have "unat grain \<in> owned seg" using assms(2,3) by (auto simp: unat_gt_0)
  then have g: "unat grain < 2 ^ 39 - 1" "rec_off env grain < 2 ^ 64"
    using owned_small [OF assms(1)] by (auto simp: rec_off_def)
  have "unat (ucast grain :: 39 word) < 2 ^ 39 - 1" using g(1) by (simp add: unsigned_ucast_eq take_bit_eq_mod)
  moreover have "unat (- 1 :: 39 word) = 2 ^ 39 - 1" by (simp add: unsigned_minus_1_eq_mask mask_eq_exp_minus_1)
  ultimately have "(ucast grain :: 39 word) \<noteq> - 1" by (metis less_irrefl)
  then show "unat grain < 2 ^ 39" "valid_pba grain" "rec_off env grain < 2 ^ 64" using g by (auto simp: valid_pba_def)
qed

lemma give_back_simps [simp]:
  "kv_map (give_back env h g n s) = kv_map s" "kv_dev (give_back env h g n s) = kv_dev s"
  "key_nr_m (give_back env h g n s) = key_nr_m s" "used_bytes_m (give_back env h g n s) = used_bytes_m s"
  "total_bytes_m (give_back env h g n s) = total_bytes_m s"
  by (simp_all add: give_back_def)

lemma give_back_seg:
  assumes "seg_inv (kv_seg s)"
  shows "seg_inv (kv_seg (give_back env h g n s))" "owned (kv_seg s) \<subseteq> owned (kv_seg (give_back env h g n s))"
  using invalidate_inv [OF assms, of g n] release_inv [of "ev_invalidate env (kv_seg s) g n" g n "salsa_stream_get_id env h"]
  by (auto simp: give_back_def)

lemma write_fresh_ok:
  assumes safe: "kv_safe s" and nr: "unat nr = (length key + length val + 16 + unat (gsize env) - 1) div unat (gsize env)"
    and key: "length key < 2 ^ 16" and sz: "length key + length val < 2 ^ 32"
    and al: "ev_allocate env (kv_seg s) (kv_dev s) nr st = (seg, dev, E_OK, gr)"
    and md: "sh_key_size md = of_nat (length key)" "sh_val_size md = of_nat (length val)"
    and bs: "bs = enc_hdr md @ key @ val @ rest" "length bs \<le> unat nr * unat (gsize env)"
    and s': "kv_map s' = kv_map s" "kv_dev s' = dev_write dev (unat (gr * gsize env)) bs" "kv_seg s' = seg"
      "key_nr_m s' = key_nr_m s" "used_bytes_m s' = used_bytes_m s" "total_bytes_m s' = total_bytes_m s"
  shows "kv_safe s' \<and> kv_abs env s' = kv_abs env s \<and> same_heads env s s' \<and> placed_record s' gr key val
    \<and> {unat gr..<unat gr + unat nr} \<inter> owned (kv_seg s) = {} \<and> owned (kv_seg s) \<subseteq> owned seg
    \<and> (\<forall>b \<in> grain_bytes env (owned (kv_seg s)). kv_dev s' b = kv_dev s b)"
proof -
  let ?g = "unat (gsize env)" and ?off = "unat (gr * gsize env)"
  note ewf = kv_safeD(4) [OF safe] and sinv = kv_safeD(2) [OF safe]
  have "unat nr \<le> length key + length val + 16 + ?g - 1" unfolding nr by (rule div_le_dividend)
  moreover have "?g < 2 ^ 32" using ewf by (simp add: env_wf_def)
  ultimately have small: "unat nr < 2 ^ 63" using sz by simp
  note ai = allocate_inv [OF sinv small al] and ad = allocate_dev [OF sinv small al] and range = allocate_range [OF sinv small al]
  have "0 < unat nr" using nr gsize_pos(1) [OF ewf] by (simp add: div_greater_zero_iff)
  then have "nr \<noteq> 0" by (metis unat_0 less_irrefl)
  then have g: "unat gr < 2 ^ 39" "valid_pba gr" "rec_off env gr < 2 ^ 64" using fresh_range_ok [of seg gr nr] ai range by auto
  have w: "written env (kv_dev s') gr key val" using written_record [OF key sz g md bs(1)] by (simp add: s')
  then have "rec_grains env (kv_dev s') gr = unat nr" using nr by (simp add: rec_grains_def written_def)
  then have pl: "placed_record s' gr key val" using w range by (auto simp: placed_record_def rec_range_def s')
  have "dev_write dev ?off bs b = kv_dev s b" if b: "b \<in> grain_bytes env (owned (kv_seg s))" for b
  proof -
    have "\<not> (?off \<le> b \<and> b < ?off + length bs)"
    proof
      assume "?off \<le> b \<and> b < ?off + length bs"
      then have "unat gr * ?g \<le> b" "b < (unat gr + unat nr) * ?g"
        using rec_offset_word [OF g(3)] bs(2) by (simp_all add: rec_off_def algebra_simps)
      then have "b div ?g \<in> {unat gr..<unat gr + unat nr}"
        using gsize_pos(1) [OF ewf] less_mult_imp_div_less by (simp add: less_eq_div_iff_mult_less_eq)
      then show False using b range by (auto simp: grain_bytes_def)
    qed
    then show ?thesis using ad [OF b] by (simp only: dev_write_def if_False)
  qed
  then show ?thesis using kv_safe_dev [OF safe, of s'] ai pl s' range by auto
qed

lemma local_put_mbuff_io_ok:
  assumes safe: "kv_safe s" and key: "length key < 2 ^ 16" and sz: "length key + length val < 2 ^ 32"
    and io: "local_put_mbuff_io env h key val s = (s', rc, grain)"
  shows "kv_safe s' \<and> kv_abs env s' = kv_abs env s \<and> same_heads env s s' \<and> (rc = E_OK \<longrightarrow> placed_record s' grain key val)"
proof -
  let ?g = "unat (gsize env)"
  let ?nr = "udiv_round_up (of_nat (length key + length val + PREFIX_SIZE + SUFFIX_SIZE)) (gsize env)"
  let ?st = "salsa_stream_get_id env h"
  obtain seg dev err gr where al: "ev_allocate env (kv_seg s) (kv_dev s) ?nr ?st = (seg, dev, err, gr)" by (metis prod_cases4)
  note sinv = kv_safeD(2) [OF safe]
  have small: "unat ?nr < 2 ^ 63"
  proof -
    have "unat ?nr \<le> length key + length val + 16 + ?g - 1"
      unfolding record_grains(1) [OF kv_safeD(4) [OF safe] sz] by (rule div_le_dividend)
    moreover have "?g < 2 ^ 32" using kv_safeD(4) [OF safe] by (simp add: env_wf_def)
    ultimately show ?thesis using sz by simp
  qed
  note ai = allocate_inv [OF sinv small al] and ad = allocate_dev [OF sinv small al]
  note keep = kv_safe_dev [OF safe]
  define s1 where "s1 = s\<lparr>kv_seg := seg, kv_dev := dev\<rparr>"
  note unf = io [unfolded local_put_mbuff_io_def Let_def al prod.case, folded s1_def]
  have give: "kv_safe (give_back env h gr ?nr (tick s1)) \<and> kv_abs env (give_back env h gr ?nr (tick s1)) = kv_abs env s
      \<and> same_heads env s (give_back env h gr ?nr (tick s1))"
    using keep [of "give_back env h gr ?nr (tick s1)"] ai ad give_back_seg [of "tick s1" h gr ?nr]
    by (auto simp: s1_def tick_def)
  consider "err \<noteq> E_OK" "s' = s1" "rc = err" | "s' = give_back env h gr ?nr (tick s1)" "rc \<noteq> E_OK"
    | (ok) md crc where "err = E_OK" "rc = E_OK" "grain = gr" "md = make_md env s1 (length key) (length val) gr"
      "s' = (tick s1)\<lparr>kv_dev := dev_write dev (unat (gr * gsize env)) (record_bytes (gsize env) md key val crc)\<rparr>"
    using unf by (auto split: if_splits)
  then show ?thesis
  proof cases
    case 1
    then show ?thesis using keep [of s1] ai ad by (simp add: s1_def)
  next
    case 2
    then show ?thesis using give by (simp add: s1_def)
  next
    case ok
    note rg = record_grains [OF kv_safeD(4) [OF safe] sz]
    obtain rest where "record_bytes (gsize env) md key val crc = enc_hdr md @ key @ val @ rest" using record_bytes_shape by blast
    from write_fresh_ok [OF safe rg(1) key sz al [unfolded ok(1)] _ _ this, of s'] rg(2) [of md crc]
    show ?thesis by (simp add: ok s1_def tick_def make_md_def)
  qed
qed

text \<open>Entering a written record into the map.\<close>

lemma bind_safe:
  fixes key :: bytes and val :: bytes and grain :: u64 and s s' :: "'s kv"
  assumes safe: "kv_safe s" and pl: "placed_record s grain key val" and sz: "length key + length val < 2 ^ 32"
    and dm: "dm_inv (kv_map s')" "map_entry_nr_bits_m (kv_map s') = map_entry_nr_bits_m (kv_map s)"
    and dev: "kv_dev s' = kv_dev s" and seg: "seg_inv (kv_seg s')" "owned (kv_seg s) \<subseteq> owned (kv_seg s')"
    and c: "kv_content s = M + old" and c': "kv_content s' = add_mset (info_new (map_entry_nr_bits_m (kv_map s)) (ev_hash env key)
        (kv_tot_grains_get (gsize env) (of_nat (length key)) (of_nat (length val))) grain) M"
    and old: "\<And>y. y \<in># old \<Longrightarrow> entry_key env (kv_dev s) y = key"
    and new: "\<And>y. y \<in># M \<Longrightarrow> entry_key env (kv_dev s) y \<noteq> key"
    and cnt: "key_nr_m s' = key_nr_m s - of_nat (size old) + 1"
      "used_bytes_m s' = used_bytes_m s - of_nat (raw_bytes env (kv_dev s) old) + kv_raw_bytes_get (of_nat (length key)) (of_nat (length val))"
      "total_bytes_m s' = total_bytes_m s - of_nat (tot_bytes env (kv_dev s) old) + kv_tot_bytes_get (gsize env) (of_nat (length key)) (of_nat (length val))"
  shows "kv_safe s' \<and> kv_abs env s' = (kv_abs env s)(key \<mapsto> val)"
proof -
  have w: "written env (kv_dev s) grain key val" using pl by (simp add: placed_record_def)
  define x where "x = info_new (map_entry_nr_bits_m (kv_map s)) (ev_hash env key)
        (kv_tot_grains_get (gsize env) (of_nat (length key)) (of_nat (length val))) grain"
  note we = written_entry [OF kv_safeD(4) [OF safe] w sz, of "map_entry_nr_bits_m (kv_map s)", folded x_def]
  note c' = c' [folded x_def]
  have b: "kv_inv env s'" "kv_abs env s' = (kv_abs env s)(key \<mapsto> val)"
    using kv_bind [OF kv_safeD(1) [OF safe] dm dev c c' _ _ we(2)] old new we(3,4) by simp_all
  have len: "unat (of_nat (length key) :: u32) = length key" "unat (of_nat (length val) :: u32) = length val"
    using sz by (auto intro!: unat_of_nat_small)
  note cs = counter_sizes [of "of_nat (length key)" "of_nat (length val)" env, unfolded len, OF sz kv_safeD(4) [OF safe]]
  have "rec_ks env (kv_dev s) grain = length key" "rec_vs env (kv_dev s) grain = length val"
    using w by (simp_all add: written_def)
  then have "counts_ok env s'"
    using kv_safeD(3) [OF safe] by (simp add: counts_ok_def c c' dev cnt cs we(1) rec_grains_def)
  moreover have "rec_range env (kv_dev s') (info_pba y) \<subseteq> owned (kv_seg s')" if "y \<in># kv_content s'" for y
    using that kv_safeD(5) [OF safe, of y] pl seg(2) by (auto simp: c c' dev we(1) placed_record_def)
  ultimately show ?thesis using b seg(1) by (simp add: kv_safe_def)
qed

lemma put_grains_nz:
  assumes ewf: "env_wf env" and "length key + length val < 2 ^ 32"
  shows "kv_tot_grains_get (gsize env) (of_nat (length key)) (of_nat (length val)) \<noteq> 0"
proof -
  have "unat (of_nat (length key) :: u32) = length key" "unat (of_nat (length val) :: u32) = length val"
    using assms(2) by (auto intro!: unat_of_nat_small)
  then have "0 < unat (kv_tot_grains_get (gsize env) (of_nat (length key)) (of_nat (length val)))"
    using kv_tot_grains_bounds(4) [of "of_nat (length key)" "of_nat (length val)" "gsize env"] assms(2)
      ewf gsize_pos(2) [OF ewf] by (simp add: env_wf_def)
  then show ?thesis by (metis unat_0 less_irrefl)
qed

lemma set_mapping_insert:
  assumes safe: "kv_safe s" and pl: "placed_record s grain key val" and sz: "length key + length val < 2 ^ 32"
    and n: "n = kv_tot_grains_get (gsize env) (of_nat (length key)) (of_nat (length val))" and h: "h = ev_hash env key"
    and dm: "dm_inv (dm_insert d' h c n grain)"
      "dm_content (dm_insert d' h c n grain) = add_mset (info_new (map_entry_nr_bits_m (kv_map s)) h n grain) (dm_content (kv_map s))"
      "map_entry_nr_bits_m d' = map_entry_nr_bits_m (kv_map s)"
    and none: "kv_abs env s key = None"
  shows "kv_safe (set_mapping env h c False (length key) (length val) grain md (s\<lparr>kv_map := d'\<rparr>))
    \<and> kv_abs env (set_mapping env h c False (length key) (length val) grain md (s\<lparr>kv_map := d'\<rparr>)) = (kv_abs env s)(key \<mapsto> val)"
proof (rule bind_safe [OF safe pl sz, where M = "kv_content s" and old = "{#}"])
  let ?s = "set_mapping env h c False (length key) (length val) grain md (s\<lparr>kv_map := d'\<rparr>)"
  have map: "kv_map ?s = dm_insert d' h c n grain" by (simp add: set_mapping_def Let_def kv_added_def n)
  show "dm_inv (kv_map ?s)" using dm(1) map by simp
  show "map_entry_nr_bits_m (kv_map ?s) = map_entry_nr_bits_m (kv_map s)" using map dm(3) by (simp add: dm_insert_def)
  show "kv_content ?s = add_mset (info_new (map_entry_nr_bits_m (kv_map s)) (ev_hash env key)
        (kv_tot_grains_get (gsize env) (of_nat (length key)) (of_nat (length val))) grain) (kv_content s)"
    using dm(2) map by (simp add: kv_content_def h n)
  show "entry_key env (kv_dev s) y \<noteq> key" if "y \<in># kv_content s" for y
    using none that kv_abs_None [OF kv_safeD(1) [OF safe]] by blast
  show "seg_inv (kv_seg ?s)" "owned (kv_seg s) \<subseteq> owned (kv_seg ?s)"
    using invalidate_inv [OF kv_safeD(2) [OF safe]] kv_safeD(2) [OF safe] by (auto simp: set_mapping_def Let_def kv_added_def)
qed (simp_all add: set_mapping_def Let_def kv_added_def)

lemma set_mapping_update:
  assumes safe: "kv_safe s" and pl: "placed_record s grain key val" and sz: "length key + length val < 2 ^ 32"
    and h: "h = ev_hash env key" and i: "key_slot env s h key i"
    and md: "md = rec_md env (kv_dev s) (slot_pba (table_of (kv_map s) h) i)"
  shows "kv_safe (set_mapping env h i True (length key) (length val) grain md s)
    \<and> kv_abs env (set_mapping env h i True (length key) (length val) grain md s) = (kv_abs env s)(key \<mapsto> val)"
proof -
  let ?s = "set_mapping env h i True (length key) (length val) grain md s"
  let ?n = "kv_tot_grains_get (gsize env) (of_nat (length key)) (of_nat (length val))"
  let ?t = "table_of (kv_map s) h"
  note inv = kv_safeD(1) [OF safe]
  let ?x = "info_new (map_entry_nr_bits_m (kv_map s)) h ?n grain"
  obtain M where M: "kv_content s = add_mset (slot_info ?t i) M"
    using key_slotD(2) [OF inv i] by (metis insert_DiffM)
  have w: "written env (kv_dev s) grain key val" using pl by (simp add: placed_record_def)
  note n0 = put_grains_nz [OF kv_safeD(4) [OF safe] sz]
  have "matches ?t h i" "valid_pba grain" using i w by (auto simp: key_slot_def written_def)
  note up = dm_update_inplace_ok [OF kv_invD(2) [OF inv] this n0]
  have map: "kv_map ?s = dm_update_inplace (kv_map s) h i ?n grain"
    by (simp add: set_mapping_def Let_def kv_added_def kv_removed_def)
  have c': "kv_content ?s = add_mset ?x M"
    using up(2) M map by (simp add: kv_content_def add_mset_commute)
  have ro: "rec_ok env (kv_dev s) (map_entry_nr_bits_m (kv_map s)) (slot_info ?t i)"
    by (rule kv_invD(3) [OF inv key_slotD(2) [OF inv i]])
  have sizes: "unat (ucast (sh_key_size md) :: u32) = rec_ks env (kv_dev s) (slot_pba ?t i)"
    "unat (sh_val_size md) = rec_vs env (kv_dev s) (slot_pba ?t i)"
    by (simp_all add: md rec_ks_def rec_vs_def unat_ucast_up)
  have "unat (ucast (sh_key_size md) :: u32) + unat (sh_val_size md) < 2 ^ 32"
    using ro unfolding sizes by (simp add: rec_ok_def Let_def)
  note cs = counter_sizes [OF this kv_safeD(4) [OF safe], unfolded sizes]
  show ?thesis
  proof (rule bind_safe [OF safe pl sz, where M = M and old = "{#slot_info ?t i#}"])
    show "dm_inv (kv_map ?s)" using up(1) map by simp
    show "map_entry_nr_bits_m (kv_map ?s) = map_entry_nr_bits_m (kv_map s)" using map by (simp add: dm_update_inplace_def)
    show "kv_content s = M + {#slot_info ?t i#}" using M by simp
    show "kv_content ?s = add_mset (info_new (map_entry_nr_bits_m (kv_map s)) (ev_hash env key) ?n grain) M"
      using c' h by simp
    show "entry_key env (kv_dev s) y = key" if "y \<in># {#slot_info ?t i#}" for y
      using that key_slotD(3) [OF inv i] by simp
    show "entry_key env (kv_dev s) y \<noteq> key" if "y \<in># M" for y
      using key_alone [OF inv M that] key_slotD(3) [OF inv i] by simp
    show "seg_inv (kv_seg ?s)" "owned (kv_seg s) \<subseteq> owned (kv_seg ?s)"
      using invalidate_inv [OF kv_safeD(2) [OF safe]] by (auto simp: set_mapping_def Let_def kv_added_def kv_removed_def)
    show "used_bytes_m ?s = used_bytes_m s - of_nat (raw_bytes env (kv_dev s) {#slot_info ?t i#}) + kv_raw_bytes_get (of_nat (length key)) (of_nat (length val))"
      by (simp add: set_mapping_def Let_def kv_added_def kv_removed_def cs raw_bytes_def)
    show "total_bytes_m ?s = total_bytes_m s - of_nat (tot_bytes env (kv_dev s) {#slot_info ?t i#}) + kv_tot_bytes_get (gsize env) (of_nat (length key)) (of_nat (length val))"
      by (simp add: set_mapping_def Let_def kv_added_def kv_removed_def cs tot_bytes_def rec_grains_def)
  qed (simp_all add: set_mapping_def Let_def kv_added_def kv_removed_def)
qed

text \<open>Updating the map for a record that has been written, on every branch.\<close>

lemma placed_same:
  "placed_record s grain key val \<Longrightarrow> kv_dev s' = kv_dev s \<Longrightarrow> owned (kv_seg s) \<subseteq> owned (kv_seg s') \<Longrightarrow> placed_record s' grain key val"
  by (auto simp: placed_record_def)

lemma kv_safe_same_store:
  assumes "same_store s s'" "kv_safe s"
  shows "kv_safe s'" "kv_abs env s' = kv_abs env s" "placed_record s grain key val \<Longrightarrow> placed_record s' grain key val"
proof -
  have eq: "s' = s\<lparr>kv_ev := kv_ev s'\<rparr>" using assms(1) by (simp add: same_store_def)
  have cnt: "key_nr_m s' = key_nr_m s" "used_bytes_m s' = used_bytes_m s" "total_bytes_m s' = total_bytes_m s"
    by (subst eq, simp)+
  note f = same_store_fields [OF assms(1)]
  note k = kv_safe_dev [OF assms(2) f(1) _ _ _ cnt]
  show "kv_safe s'" "kv_abs env s' = kv_abs env s"
    using k kv_safeD(2) [OF assms(2)] f by simp_all
  show "placed_record s grain key val \<Longrightarrow> placed_record s' grain key val"
    using f by (auto elim: placed_same)
qed

lemma local_put_mbuff_insert:
  assumes safe: "kv_safe s" and pl: "placed_record s grain key val" and sz: "length key + length val < 2 ^ 32"
    and h: "h = ev_hash env key" and c: "insertable (table_of (kv_map s) h) h c" and none: "kv_abs env s key = None"
  shows "kv_safe (set_mapping env h c False (length key) (length val) grain md s)
    \<and> kv_abs env (set_mapping env h c False (length key) (length val) grain md s) = (kv_abs env s)(key \<mapsto> val)"
proof -
  have a: "valid_pba grain" using pl by (simp add: placed_record_def written_def)
  show ?thesis
    using set_mapping_insert [OF safe pl sz refl h _ _ refl none, of c md]
      dm_insert_ok [OF kv_invD(2) [OF kv_safeD(1) [OF safe]] c a put_grains_nz [OF kv_safeD(4) [OF safe] sz]] by simp
qed

lemma local_put_mbuff_shift:
  assumes safe: "kv_safe s" and pl: "placed_record s grain key val" and sz: "length key + length val < 2 ^ 32"
    and h: "h = ev_hash env key" and full: "bucket_full (table_of (kv_map s) h) h"
    and nt: "no_tombstones (table_of (kv_map s) h) h" and sh: "dm_try_shift (kv_map s) h = (d', E_OK, he)"
    and none: "kv_abs env s key = None"
  shows "kv_safe (set_mapping env h (the he) False (length key) (length val) grain md (s\<lparr>kv_map := d'\<rparr>))
    \<and> kv_abs env (set_mapping env h (the he) False (length key) (length val) grain md (s\<lparr>kv_map := d'\<rparr>)) = (kv_abs env s)(key \<mapsto> val)"
proof -
  have a: "valid_pba grain" using pl by (simp add: placed_record_def written_def)
  obtain c where "he = Some c" "dm_inv (dm_insert d' h c (kv_tot_grains_get (gsize env) (of_nat (length key)) (of_nat (length val))) grain)"
    "dm_content (dm_insert d' h c (kv_tot_grains_get (gsize env) (of_nat (length key)) (of_nat (length val))) grain) =
      add_mset (info_new (map_entry_nr_bits_m (kv_map s)) h (kv_tot_grains_get (gsize env) (of_nat (length key)) (of_nat (length val))) grain)
        (dm_content (kv_map s))"
    using dm_shift_insert_ok [OF kv_invD(2) [OF kv_safeD(1) [OF safe]] full nt sh a put_grains_nz [OF kv_safeD(4) [OF safe] sz]] by blast
  moreover have "map_entry_nr_bits_m d' = map_entry_nr_bits_m (kv_map s)"
    using sh by (auto simp: dm_try_shift_def split: prod.splits)
  ultimately show ?thesis using set_mapping_insert [OF safe pl sz refl h _ _ _ none] by simp
qed

definition put_result :: "'s kv \<Rightarrow> bytes \<Rightarrow> bytes \<Rightarrow> PutOp \<Rightarrow> 's kv \<Rightarrow> errno \<Rightarrow> bool" where
  "put_result s key val op s' rc \<longleftrightarrow> kv_safe s'
     \<and> (if rc = E_OK then op_allows op (kv_abs env s key \<noteq> None) \<and> kv_abs env s' = (kv_abs env s)(key \<mapsto> val)
         else kv_abs env s' = kv_abs env s)"

definition put_error :: "'s kv \<Rightarrow> u64 \<Rightarrow> bytes \<Rightarrow> u64 \<Rightarrow> PutOp \<Rightarrow> errno \<Rightarrow> bool" where
  "put_error s h key grain op rc \<longleftrightarrow> rc = E_OK
     \<or> rc = EINVAL \<and> \<not> op_allows op (kv_abs env s key \<noteq> None)
     \<or> rc = EALREADY \<and> (\<exists>i. key_slot env s h key i
          \<and> \<not> is_pba_order_equal_to_total_order env s (slot_pba (table_of (kv_map s) h) i) grain
                (rec_md env (kv_dev s) (slot_pba (table_of (kv_map s) h) i)))
     \<or> io_failure env rc"

lemma local_put_mbuff_ok:
  assumes safe: "kv_safe s" and pl: "placed_record s grain key val" and sz: "length key + length val < 2 ^ 32"
    and h: "h = ev_hash env key" and room: "put_room (kv_map s) h op"
  shows "\<exists>s' rc old. local_put_mbuff env h key val grain op s = Some (s', rc, old)
    \<and> put_result s key val op s' rc
    \<and> (rc \<noteq> E_OK \<longrightarrow> same_store s s') \<and> put_error s h key grain op rc"
proof -
  let ?t = "table_of (kv_map s) h"
  have "length key < 2 ^ 32" using sz by simp
  then obtain s1 rc trgt md where l: "lookup_mbuff_put env h key [] (Suc BUCKET_SIZE) s = Some (s1, rc, trgt, md)"
    and s1: "same_store s s1" and spec: "put_lookup_spec env s h key (rc, trgt, md)"
    using lookup_mbuff_put_ok [OF kv_safeD(1) [OF safe], of key h] by auto
  note f = same_store_fields [OF s1] and k = kv_safe_same_store [OF s1 safe]
  note k' = k(1) k(3) [OF pl]
  note abs = no_key_slot_abs [OF kv_safeD(1) [OF safe], of key, folded h]
  note unf = local_put_mbuff_def [of env h key val grain op s, unfolded l option.case prod.case]
  note defs = put_result_def op_allows_def put_error_def
  consider (hit) i where "rc = EEXIST" "trgt = Some i" "key_slot env s h key i" "md = rec_md env (kv_dev s) (slot_pba ?t i)"
    | (new) c where "rc = ENODATA" "kv_abs env s key = None" "trgt = Some c" "insertable ?t h c"
    | (full) "rc = ENOSPC" "kv_abs env s key = None" "bucket_full ?t h"
    | (err) "io_failure env rc"
    using spec abs by (auto simp: put_lookup_spec_def)
  then show ?thesis
  proof cases
    case hit
    then have "key_slot env s1 h key i" "md = rec_md env (kv_dev s1) (slot_pba (table_of (kv_map s1) h) i)"
      by (simp_all add: key_slot_def f)
    note up = set_mapping_update [OF k' sz h this]
    have "kv_abs env s key \<noteq> None" using key_slot_abs [OF kv_safeD(1) [OF safe] hit(3)] by simp
    moreover have "ucast (pba (entry_at (kv_map s1) h i)) = slot_pba ?t i" by (simp add: entry_at_def slot_pba_def f)
    moreover have "is_pba_order_equal_to_total_order env s1 = is_pba_order_equal_to_total_order env s"
      by (simp add: fun_eq_iff is_pba_order_equal_to_total_order_def f)
    ultimately show ?thesis using up k s1 hit(3) unfolding unf by (auto simp: hit(1,2,4) defs Let_def)
  next
    case new
    then have "insertable (table_of (kv_map s1) h) h c" "kv_abs env s1 key = None" by (simp_all add: f k(2))
    then show ?thesis using local_put_mbuff_insert [OF k' sz h] k s1 new by (simp add: unf defs)
  next
    case full
    then have r: "op \<noteq> REPLACE" "no_tombstones ?t h" "fst (snd (dm_try_shift (kv_map s) h)) = E_OK"
      using room by (auto simp: put_room_def)
    obtain d' he where sh: "dm_try_shift (kv_map s1) h = (d', E_OK, he)" using r(3) f(1) by (metis prod.collapse)
    have "bucket_full (table_of (kv_map s1) h) h" "no_tombstones (table_of (kv_map s1) h) h" "kv_abs env s1 key = None"
      using full r by (simp_all add: f k(2))
    note ins = local_put_mbuff_shift [OF k' sz h this(1,2) sh this(3)]
    show ?thesis using ins k full r(1) by (simp add: unf defs sh Let_def)
  next
    case err
    then show ?thesis using k s1 io_failureD [OF err] by (auto simp: unf defs)
  qed
qed

end

end
