(* ===== verification/KV_Ops.thy ===== *)
theory KV_Ops
  imports KV_Put
begin

section \<open>put, get, exists and del\<close>

text \<open>
  The operations of the store against the abstract map, under the contract of
  \<open>grain_alloc\<close>: what each returns and how it changes the map, on every outcome of
  memory allocation, I/O and grain allocation.
\<close>

subsection \<open>get\<close>

lemma kv_get_ok:
  assumes inv: "kv_inv env s"
  shows "\<exists>s' rc val. kv_get env key s = Some (s', rc, val) \<and> same_store s s'
    \<and> (rc = E_OK \<and> kv_abs env s key = Some val
        \<or> rc \<in> {ENODATA, ENOSPC} \<and> kv_abs env s key = None
        \<or> io_failure env rc)"
proof -
  let ?h = "ev_hash env key"
  obtain s' rc vs buf where l: "lookup_mbuff env ?h key [] (Suc BUCKET_SIZE) s = Some (s', rc, vs, buf)"
    and s': "same_store s s'" and spec: "get_lookup_spec env s ?h key (rc, vs, buf)"
    using lookup_mbuff_ok [OF inv, of ?h key] by auto
  note unf = kv_get_def [of env key s, unfolded l Let_def option.case prod.case]
  consider i where "rc = EEXIST" "key_slot env s ?h key i"
      "take (unat vs) (drop (14 + length key) buf) = rec_val env (kv_dev s) (slot_pba (table_of (kv_map s) ?h) i)"
    | "rc \<in> {ENODATA, ENOSPC}" "\<forall>i. \<not> key_slot env s ?h key i" | "io_failure env rc"
    using spec by (auto simp: get_lookup_spec_def)
  then show ?thesis
  proof cases
    case 1
    then show ?thesis using unf s' key_slot_abs [OF inv 1(2)] by simp
  next
    case 2
    then show ?thesis using unf s' no_key_slot_abs [OF inv, of key] by auto
  next
    case 3
    then show ?thesis using unf s' io_failureD [OF 3] by auto
  qed
qed

subsection \<open>exists\<close>

definition exists_hit :: "'s kv_env \<Rightarrow> bytes \<Rightarrow> umap \<Rightarrow> nat \<Rightarrow> 's kv \<Rightarrow> ('s kv \<times> errno \<times> u32) + 's kv" where
  "exists_hit env key t i s =
     (if \<not> ev_mem_ok env (kv_ev s) then Inl (tick s, ENOMEM, 0)
      else if ev_rd_err env (kv_ev s) \<noteq> E_OK then Inl (tick s, EIO, 0)
      else
        let buf = dev_read (kv_dev s) (unat (slot_pba t i * gsize env))
                    (unat (align_up (of_nat (PREFIX_SIZE + length key)) (min 512 (gsize env))));
            md = dec_hdr buf
        in if key_matches md key buf then Inl (tick s, EEXIST, sh_val_size md) else Inr (tick s))"

lemma lookup_exists_probe:
  assumes "dm_inv (kv_map s)" "um_find_all (table_of (kv_map s) h) h \<noteq> []"
  shows "lookup_exists env h key V n s =
    probe (table_of (kv_map s) h) (um_find_all (table_of (kv_map s) h) h)
      (exists_hit env key (table_of (kv_map s) h)) (\<lambda>s. (s, ENODATA, 0)) V n s"
  using assms
proof (induction n arbitrary: V s)
  case (Suc n)
  let ?t = "table_of (kv_map s) h"
  have lc: "lookup_common (kv_map s) h V = (E_OK, find (\<lambda>i. slot_pba ?t i \<notin> set V) (um_find_all ?t h))"
    using lookup_common_eq(1) [OF Suc.prems(1), of h V] Suc.prems(2) by simp
  show ?case
  proof (cases "find (\<lambda>i. slot_pba ?t i \<notin> set V) (um_find_all ?t h)")
    case (Some i)
    have pb: "ucast (pba (entry_at (kv_map s) h i)) = slot_pba ?t i" by (simp add: entry_at_def slot_pba_def)
    show ?thesis
      using Suc.IH [of "tick s"] Suc.prems exists_hit_def [of env key ?t i s] by (simp add: lc Some Let_def pb)
  qed (simp add: lc)
qed simp

definition exists_spec :: "'s kv_env \<Rightarrow> 's kv \<Rightarrow> bytes \<Rightarrow> errno \<times> u32 \<Rightarrow> bool" where
  "exists_spec env s key r \<longleftrightarrow>
     (case r of (rc, vs) \<Rightarrow>
       rc = EEXIST \<and> (\<exists>val. kv_abs env s key = Some val \<and> length val = unat vs)
     \<or> rc \<in> {ENODATA, ENOSPC} \<and> kv_abs env s key = None
     \<or> io_failure env rc)"

lemma length_rec_val [simp]: "length (rec_val env dev a) = rec_vs env dev a"
  by (simp add: rec_val_def)

lemma lookup_exists_ok:
  assumes inv: "kv_inv env s" and len: "length key < 2 ^ 32"
  shows "\<exists>s' r. lookup_exists env (ev_hash env key) key [] (Suc BUCKET_SIZE) s = Some (s', r)
    \<and> same_store s s' \<and> exists_spec env s key r"
proof -
  let ?h = "ev_hash env key"
  let ?t = "table_of (kv_map s) ?h" and ?L = "um_find_all (table_of (kv_map s) ?h) ?h"
  note dm = kv_invD(2) [OF inv] and none = no_key_slot_abs [OF inv, of key]
  note ti = dm_table_facts(1) [OF dm, of ?h] and lc = lookup_common_eq [OF dm, of ?h]
  note all = um_find_all_props [OF ti]
  note buf = key_buffer [OF inv _ len key_io_size [OF kv_invD(1) [OF inv] len]]
  show ?thesis
  proof (cases "?L = []")
    case True
    then have "kv_abs env s key = None" using none all(1) [of _ ?h] by (auto simp: key_slot_def)
    moreover obtain rc trgt where l: "um_lookup ?t ?h = (rc, trgt)" by force
    moreover have "lookup_exists env ?h key [] (Suc BUCKET_SIZE) s = Some (s, rc, 0)"
      unfolding lookup_exists.simps using lc True l by simp
    ultimately show ?thesis
      using um_lookup_cases [OF l] lc(2) [OF True] by (auto simp: exists_spec_def)
  next
    case False
    let ?hit = "exists_hit env key ?t" and ?P = "probe ?t ?L (exists_hit env key ?t) (\<lambda>s. (s, ENODATA, 0)) [] (Suc BUCKET_SIZE) s"
    have live: "live ?t i" if "i \<in> set ?L" for i using that all(1) by (simp add: matches_def)
    have hit: "(?hit i s1 = Inr s2 \<longrightarrow> same_store s s2 \<and> rec_key env (kv_dev s) (slot_pba ?t i) \<noteq> key)
        \<and> (?hit i s1 = Inl r \<longrightarrow> (\<exists>s' r'. r = (s', r') \<and> same_store s s' \<and> exists_spec env s key r'))"
      if "same_store s s1" "i \<in> set ?L" for i s1 s2 r
    proof -
      have "kv_abs env s key = Some (rec_val env (kv_dev s) (slot_pba ?t i))"
        if "rec_key env (kv_dev s) (slot_pba ?t i) = key"
        using key_slot_abs [OF inv, of ?h key i] \<open>i \<in> set ?L\<close> all(1) that by (simp add: key_slot_def)
      then show ?thesis
        using buf [OF live [OF that(2)]] same_store_fields [OF that(1)] same_store_tick [OF that(1)]
        by (auto simp: exists_hit_def Let_def exists_spec_def rec_vs_def split: if_splits)
    qed
    have keep: "same_store s s2" if "same_store s s1" "?hit i s1 = Inr s2" for i s1 s2
      using that same_store_tick by (auto simp: exists_hit_def Let_def split: if_splits)
    have "(\<exists>s'. ?P = Some (s', ENODATA, 0) \<and> same_store s s' \<and> (\<forall>i \<in> set ?L. rec_key env (kv_dev s) (slot_pba ?t i) \<noteq> key))
      \<or> (\<exists>i \<in> set ?L. \<exists>s' r. same_store s s' \<and> ?hit i s' = Inl r \<and> ?P = Some r)"
      using hit keep all(3) by (intro probe_ends) auto
    then show ?thesis
    proof (elim disjE exE conjE bexE)
      fix s' assume P: "?P = Some (s', ENODATA, 0)" "same_store s s'" "\<forall>i \<in> set ?L. rec_key env (kv_dev s) (slot_pba ?t i) \<noteq> key"
      have "kv_abs env s key = None" using P(3) none all(1) [of _ ?h] by (auto simp: key_slot_def)
      then show ?thesis using P(1,2) lookup_exists_probe [OF dm False] by (auto simp: exists_spec_def)
    next
      fix i s' r assume "i \<in> set ?L" "same_store s s'" "?hit i s' = Inl r" "?P = Some r"
      then show ?thesis using hit lookup_exists_probe [OF dm False] by metis
    qed
  qed
qed

lemma kv_exists_ok:
  assumes "kv_inv env s" "length key < 2 ^ 32"
  shows "\<exists>s' rc vs. kv_exists env key s = Some (s', rc, vs) \<and> same_store s s'
    \<and> (rc = E_OK \<and> (\<exists>val. kv_abs env s key = Some val \<and> length val = unat vs)
        \<or> rc \<in> {ENODATA, ENOSPC} \<and> kv_abs env s key = None
        \<or> io_failure env rc)"
  using lookup_exists_ok [OF assms] io_failureD by (fastforce simp: kv_exists_def exists_spec_def)

subsection \<open>put\<close>

context grain_alloc
begin

lemma put_io_loop_ok:
  assumes "kv_safe s" "length key < 2 ^ 16" "length key + length val < 2 ^ 32"
    "put_io_loop env h key val s = Some (s', rc, grain)"
  shows "kv_safe s' \<and> kv_abs env s' = kv_abs env s \<and> same_heads env s s'
    \<and> rc \<noteq> EAGAIN \<and> (rc = E_OK \<longrightarrow> placed_record s' grain key val)"
proof -
  define P where "P = (\<lambda>e (h :: u64) k v s (r :: 's kv \<times> errno \<times> u64). e = env \<and> k = key \<and> v = val \<and> kv_safe s \<longrightarrow>
    (case r of (s', rc, grain) \<Rightarrow> kv_safe s' \<and> kv_abs env s' = kv_abs env s \<and> same_heads env s s'
      \<and> rc \<noteq> EAGAIN \<and> (rc = E_OK \<longrightarrow> placed_record s' grain key val)))"
  have "P env h key val s (s', rc, grain)"
  proof (rule put_io_loop.raw_induct [OF _ assms(4), of P])
    fix f e h' k v s r
    assume IH: "\<And>e h k v s r. f e h k v s = Some r \<Longrightarrow> P e h k v s r"
      and body: "(case local_put_mbuff_io e h' k v s of (s1, rc, grain) \<Rightarrow>
         if rc = EAGAIN then f e h' k v s1 else Some (s1, rc, grain)) = Some r"
    obtain s1 rc1 g1 where io: "local_put_mbuff_io e h' k v s = (s1, rc1, g1)" by (metis prod_cases3)
    show "P e h' k v s r"
      unfolding P_def
    proof (intro impI)
      assume a: "e = env \<and> k = key \<and> v = val \<and> kv_safe s"
      then have ok: "kv_safe s1 \<and> kv_abs env s1 = kv_abs env s \<and> same_heads env s s1 \<and> (rc1 = E_OK \<longrightarrow> placed_record s1 g1 key val)"
        using local_put_mbuff_io_ok [OF _ assms(2,3), of s h'] io by blast
      then show "case r of (s', rc, grain) \<Rightarrow> kv_safe s' \<and> kv_abs env s' = kv_abs env s \<and> same_heads env s s'
          \<and> rc \<noteq> EAGAIN \<and> (rc = E_OK \<longrightarrow> placed_record s' grain key val)"
        using body io a IH [of e h' k v s1 r] by (cases "rc1 = EAGAIN") (auto simp: P_def intro: same_heads_trans)
    qed
  qed
  then show ?thesis using assms(1) by (simp add: P_def)
qed

lemmas put_io_loop_map = put_io_loop_ok [THEN conjunct2, THEN conjunct2, THEN conjunct1, unfolded same_heads_def, THEN conjunct1]

lemma kv_safe_seg:
  assumes "kv_safe s" "seg_inv seg" "owned (kv_seg s) \<subseteq> owned seg"
  shows "kv_safe (s\<lparr>kv_seg := seg\<rparr>)" "kv_abs env (s\<lparr>kv_seg := seg\<rparr>) = kv_abs env s"
  using kv_safe_dev [OF assms(1), of "s\<lparr>kv_seg := seg\<rparr>"] assms(2,3) by simp_all

lemma put_error_rc: "put_error s h key grain op rc \<Longrightarrow> rc \<noteq> ENOSPC \<and> rc \<noteq> EAGAIN"
  by (auto simp: put_error_def io_failure_def)

lemma put_map_loop_ok:
  assumes safe: "kv_safe s" and pl: "placed_record s grain key val" and sz: "length key + length val < 2 ^ 32"
    and h: "h = ev_hash env key" and room: "put_room (kv_map s) h op"
  shows "\<exists>s' rc. put_map_loop env h key val grain op s = Some (s', rc)
    \<and> put_result s key val op s' rc \<and> (rc \<noteq> E_OK \<longrightarrow> kv_map s' = kv_map s) \<and> put_error s h key grain op rc"
proof -
  obtain s' rc old where l: "local_put_mbuff env h key val grain op s = Some (s', rc, old)"
    and r: "put_result s key val op s' rc" "rc \<noteq> E_OK \<longrightarrow> same_store s s'" "put_error s h key grain op rc"
    using local_put_mbuff_ok [OF safe pl sz h room] by blast
  note rc = put_error_rc [OF r(3)]
  have same: "kv_map s' = kv_map s" if "rc \<noteq> E_OK" using r(2) that same_store_fields(1) by blast
  have safe': "kv_safe s'" using r(1) by (simp add: put_result_def)
  note dr = kv_safe_seg [OF safe'] drain_inv [OF kv_safeD(2) [OF safe'], of "salsa_stream_get_id env h"]
  show ?thesis
  proof (cases "rc = EALREADY")
    case True
    then show ?thesis using dr r same rc by (simp add: put_map_loop.simps [of env] l put_result_def)
  next
    case False
    then show ?thesis using r same rc by (simp add: put_map_loop.simps [of env] l)
  qed
qed

text \<open>Giving back the grains of a failed attempt and releasing them.\<close>

lemma put_release_ok:
  fixes b :: bool and g n :: u64 and st :: u32
  assumes "kv_safe s"
  defines "s' \<equiv> s\<lparr>kv_seg := ev_release env (if b then ev_invalidate env (kv_seg s) g n else kv_seg s) g n st\<rparr>"
  shows "kv_safe s' \<and> kv_abs env s' = kv_abs env s \<and> kv_map s' = kv_map s"
proof -
  note iv = invalidate_inv [OF kv_safeD(2) [OF assms(1)], of g n]
  have "seg_inv (kv_seg s')" "owned (kv_seg s) \<subseteq> owned (kv_seg s')"
    using iv release_inv [of "kv_seg s" g n st] release_inv [of "ev_invalidate env (kv_seg s) g n" g n st] kv_safeD(2) [OF assms(1)]
    by (auto simp: s'_def)
  then show ?thesis using kv_safe_seg [OF assms(1), of "kv_seg s'"] by (simp add: s'_def)
qed

text \<open>
  One round of \<open>put\<close>: write the record, then update the map.  \<open>EALREADY\<close> from the map
  starts the next round in a state with the same map.
\<close>

definition put_attempt :: "bytes \<Rightarrow> bytes \<Rightarrow> PutOp \<Rightarrow> 's kv \<Rightarrow> ('s kv \<times> errno \<times> bool) option" where
  "put_attempt key val op s =
     (let h = ev_hash env key; n = kv_tot_grains_get (gsize env) (of_nat (length key)) (of_nat (length val)) in
      case put_io_loop env h key val s of
        None \<Rightarrow> None
      | Some (s1, rc, grain) \<Rightarrow>
          if rc \<noteq> E_OK then Some (s1, rc, False)
          else case put_map_loop env h key val grain op s1 of
            None \<Rightarrow> None
          | Some (s2, rc) \<Rightarrow>
              Some (s2\<lparr>kv_seg := ev_release env (if rc \<noteq> E_OK then ev_invalidate env (kv_seg s2) grain n else kv_seg s2)
                      grain n (salsa_stream_get_id env h)\<rparr>, rc, rc = EALREADY))"

lemma put_loop_attempt:
  "put_loop env (ev_hash env key) key val op s =
     (case put_attempt key val op s of None \<Rightarrow> None
      | Some (s3, rc, again) \<Rightarrow> if again then put_loop env (ev_hash env key) key val op s3 else Some (s3, rc))"
  by (subst put_loop.simps) (simp add: put_attempt_def Let_def split: option.splits prod.splits)

lemma put_attempt_ok:
  assumes safe: "kv_safe s" and key: "length key < 2 ^ 16" and sz: "length key + length val < 2 ^ 32"
    and room: "put_room (kv_map s) (ev_hash env key) op" and at: "put_attempt key val op s = Some (s', rc, again)"
  shows "put_result s key val op s' rc" "again \<Longrightarrow> rc \<noteq> E_OK" "rc \<noteq> E_OK \<Longrightarrow> kv_map s' = kv_map s"
proof -
  let ?h = "ev_hash env key" and ?n = "kv_tot_grains_get (gsize env) (of_nat (length key)) (of_nat (length val))"
  obtain s1 rc1 grain where io: "put_io_loop env ?h key val s = Some (s1, rc1, grain)"
    using at by (auto simp: put_attempt_def Let_def split: option.splits)
  note iok = put_io_loop_ok [OF safe key sz io] put_io_loop_map [OF safe key sz io]
  have "put_result s key val op s' rc \<and> (again \<longrightarrow> rc \<noteq> E_OK) \<and> (rc \<noteq> E_OK \<longrightarrow> kv_map s' = kv_map s)"
  proof (cases "rc1 = E_OK")
    case False
    then show ?thesis using iok at by (auto simp: put_attempt_def io put_result_def)
  next
    case True
    then have r1: "kv_safe s1" "placed_record s1 grain key val" "put_room (kv_map s1) ?h op" using iok room by auto
    obtain s2 rc2 where m: "put_map_loop env ?h key val grain op s1 = Some (s2, rc2)" "put_result s1 key val op s2 rc2"
      "rc2 \<noteq> E_OK \<longrightarrow> kv_map s2 = kv_map s1"
      using put_map_loop_ok [OF r1(1,2) sz refl r1(3)] by blast
    have s': "s' = s2\<lparr>kv_seg := ev_release env (if rc2 \<noteq> E_OK then ev_invalidate env (kv_seg s2) grain ?n else kv_seg s2) grain ?n
        (salsa_stream_get_id env ?h)\<rparr>" "rc = rc2" "again = (rc2 = EALREADY)"
      using at True by (auto simp: put_attempt_def io m(1) Let_def)
    have "kv_safe s' \<and> kv_abs env s' = kv_abs env s2 \<and> kv_map s' = kv_map s2"
      using m(2) unfolding s' by (intro put_release_ok) (simp add: put_result_def)
    then show ?thesis using m(2,3) iok s'(2,3) by (auto simp: put_result_def split: if_splits)
  qed
  then show "put_result s key val op s' rc" "again \<Longrightarrow> rc \<noteq> E_OK" "rc \<noteq> E_OK \<Longrightarrow> kv_map s' = kv_map s" by auto
qed

lemma put_loop_ok:
  assumes "kv_safe s" "length key < 2 ^ 16" "length key + length val < 2 ^ 32"
    "put_room (kv_map s) (ev_hash env key) op" "put_loop env (ev_hash env key) key val op s = Some (s', rc)"
  shows "put_result s key val op s' rc"
proof -
  define P where "P = (\<lambda>e h k v (o' :: PutOp) s (r :: 's kv \<times> errno). e = env \<and> h = ev_hash env key \<and> k = key \<and> v = val \<and> o' = op
    \<and> kv_safe s \<and> put_room (kv_map s) h op \<longrightarrow> put_result s key val op (fst r) (snd r))"
  have "P env (ev_hash env key) key val op s (s', rc)"
  proof (rule put_loop.raw_induct [OF _ assms(5), of P])
    fix f e h k v o' s r
    assume IH: "\<And>e h k v o' s r. f e h k v o' s = Some r \<Longrightarrow> P e h k v o' s r"
      and body: "(let size_grains = kv_tot_grains_get (gsize e) (of_nat (length k)) (of_nat (length v)) in
        case put_io_loop e h k v s of None \<Rightarrow> None
        | Some (s1, rc, grain) \<Rightarrow>
            if rc \<noteq> E_OK then Some (s1, rc)
            else case put_map_loop e h k v grain o' s1 of None \<Rightarrow> None
              | Some (s2, rc) \<Rightarrow>
                let seg = (if rc \<noteq> E_OK then ev_invalidate e (kv_seg s2) grain size_grains else kv_seg s2);
                    s3 = s2\<lparr>kv_seg := ev_release e seg grain size_grains (salsa_stream_get_id e h)\<rparr>
                in if rc = EALREADY then f e h k v o' s3 else Some (s3, rc)) = Some r"
    show "P e h k v o' s r"
      unfolding P_def
    proof (intro impI)
      assume a: "e = env \<and> h = ev_hash env key \<and> k = key \<and> v = val \<and> o' = op \<and> kv_safe s \<and> put_room (kv_map s) h op"
      have b: "(case put_attempt key val op s of None \<Rightarrow> None
        | Some (s3, rc, again) \<Rightarrow> if again then f env (ev_hash env key) key val op s3 else Some (s3, rc)) = Some r"
        using body a unfolding put_attempt_def Let_def by (auto split: option.splits prod.splits if_splits)
      then obtain s3 rc3 again where at: "put_attempt key val op s = Some (s3, rc3, again)" by (auto split: option.splits)
      note ok = put_attempt_ok [OF _ assms(2,3) _ at]
      show "put_result s key val op (fst r) (snd r)"
      proof (cases again)
        case True
        then have "P env (ev_hash env key) key val op s3 r" using b IH at by simp
        then show ?thesis using ok a True by (auto simp: P_def put_result_def)
      next
        case False
        then show ?thesis using b at ok a by auto
      qed
    qed
  qed
  then show ?thesis using assms by (simp add: P_def)
qed

text \<open>
  \<open>put\<close> returns when the allocation does not ask to retry and the new grain is later in
  the order of segments than the entry it replaces.
\<close>

lemma put_loop_returns:
  assumes safe: "kv_safe s" and key: "length key < 2 ^ 16" and sz: "length key + length val < 2 ^ 32"
    and room: "put_room (kv_map s) (ev_hash env key) op"
    and io: "local_put_mbuff_io env (ev_hash env key) key val s = (s1, rc1, grain)" "rc1 \<noteq> EAGAIN"
    and order: "\<And>i. key_slot env s1 (ev_hash env key) key i \<Longrightarrow>
      is_pba_order_equal_to_total_order env s1 (slot_pba (table_of (kv_map s) (ev_hash env key)) i) grain
        (rec_md env (kv_dev s1) (slot_pba (table_of (kv_map s) (ev_hash env key)) i))"
  shows "\<exists>s' rc. put_loop env (ev_hash env key) key val op s = Some (s', rc)
    \<and> (rc1 = E_OK \<and> op_allows op (kv_abs env s key \<noteq> None) \<and> \<not> io_failure env rc \<longrightarrow> rc = E_OK)"
proof -
  let ?h = "ev_hash env key"
  have io': "put_io_loop env ?h key val s = Some (s1, rc1, grain)"
    using io by (simp add: put_io_loop.simps [of env])
  note iok = put_io_loop_ok [OF safe key sz io'] put_io_loop_map [OF safe key sz io']
  show ?thesis
  proof (cases "rc1 = E_OK")
    case False
    then show ?thesis by (simp add: put_loop_attempt [of key val op s] put_attempt_def Let_def io')
  next
    case True
    then have r1: "kv_safe s1" "placed_record s1 grain key val" "put_room (kv_map s1) ?h op" using iok room by auto
    obtain s2 rc where m: "put_map_loop env ?h key val grain op s1 = Some (s2, rc)" "put_error s1 ?h key grain op rc"
      using put_map_loop_ok [OF r1(1,2) sz refl r1(3)] by blast
    have "rc \<noteq> EALREADY" using m(2) order iok by (auto simp: put_error_def io_failure_def)
    then show ?thesis using True m iok by (auto simp: put_loop_attempt [of key val op s] put_attempt_def Let_def io' put_error_def)
  qed
qed

subsection \<open>del\<close>

lemma unbind_safe:
  assumes safe: "kv_safe s" and dm: "dm_inv (kv_map s')" "map_entry_nr_bits_m (kv_map s') = map_entry_nr_bits_m (kv_map s)"
    and dev: "kv_dev s' = kv_dev s" and seg: "seg_inv (kv_seg s')" "owned (kv_seg s) \<subseteq> owned (kv_seg s')"
    and c: "kv_content s = add_mset x (kv_content s')"
    and cnt: "key_nr_m s' = key_nr_m s - 1"
      "used_bytes_m s' = used_bytes_m s - of_nat (raw_bytes env (kv_dev s) {#x#})"
      "total_bytes_m s' = total_bytes_m s - of_nat (tot_bytes env (kv_dev s) {#x#})"
  shows "kv_safe s' \<and> kv_abs env s' = (kv_abs env s)(entry_key env (kv_dev s) x := None)"
proof -
  note u = kv_unbind [OF kv_safeD(1) [OF safe] dm dev c]
  have "counts_ok env s'" using kv_safeD(3) [OF safe] by (simp add: counts_ok_def c dev cnt)
  moreover have "rec_range env (kv_dev s') (info_pba y) \<subseteq> owned (kv_seg s')" if "y \<in># kv_content s'" for y
    using that kv_safeD(5) [OF safe, of y] seg(2) by (auto simp: c dev)
  ultimately show ?thesis using u seg(1) by (simp add: kv_safe_def)
qed

definition del_result :: "'s kv \<Rightarrow> bytes \<Rightarrow> 's kv \<Rightarrow> errno \<Rightarrow> bool" where
  "del_result s key s' rc \<longleftrightarrow> kv_safe s'
     \<and> (if rc = E_OK then kv_abs env s key \<noteq> None \<and> kv_abs env s' = (kv_abs env s)(key := None)
         else kv_abs env s' = kv_abs env s)"

text \<open>Removing the entry once the tombstone record has been written.\<close>

lemma del_entry_ok:
  assumes safe: "kv_safe s" and pl: "placed_record s grain key []" and h: "h = ev_hash env key" and i: "key_slot env s h key i"
    and md: "md = rec_md env (kv_dev s) (slot_pba (table_of (kv_map s) h) i)"
  defines "s3 \<equiv> s\<lparr>kv_seg := ev_invalidate env (kv_seg s) (slot_pba (table_of (kv_map s) h) i)
      (kv_tot_grains_get (gsize env) (ucast (sh_key_size md)) (sh_val_size md))\<rparr>"
  defines "s4 \<equiv> kv_removed (kv_raw_bytes_get (ucast (sh_key_size md)) (sh_val_size md))
      (kv_tot_bytes_get (gsize env) (ucast (sh_key_size md)) (sh_val_size md)) s3"
  defines "s5 \<equiv> s4\<lparr>kv_map := dm_remove (kv_map s4) h i grain\<rparr>"
  shows "del_result s key (s5\<lparr>kv_seg := ev_release env (kv_seg s5) grain (kv_tot_grains_get (gsize env) (of_nat (length key)) 0)
      (salsa_stream_get_id env h)\<rparr>) E_OK"
proof -
  let ?t = "table_of (kv_map s) h"
  let ?s = "s5\<lparr>kv_seg := ev_release env (kv_seg s5) grain (kv_tot_grains_get (gsize env) (of_nat (length key)) 0) (salsa_stream_get_id env h)\<rparr>"
  note inv = kv_safeD(1) [OF safe] and sl = key_slotD [OF kv_safeD(1) [OF safe] i]
  have a: "valid_pba grain" using pl by (simp add: placed_record_def written_def)
  note rm = dm_remove_ok [OF kv_invD(2) [OF inv] sl(1) a]
  have ro: "rec_ok env (kv_dev s) (map_entry_nr_bits_m (kv_map s)) (slot_info ?t i)"
    by (rule kv_invD(3) [OF inv sl(2)])
  have sizes: "unat (ucast (sh_key_size md) :: u32) = rec_ks env (kv_dev s) (slot_pba ?t i)"
    "unat (sh_val_size md) = rec_vs env (kv_dev s) (slot_pba ?t i)"
    by (simp_all add: md rec_ks_def rec_vs_def unat_ucast_up)
  have "unat (ucast (sh_key_size md) :: u32) + unat (sh_val_size md) < 2 ^ 32"
    using ro unfolding sizes by (simp add: rec_ok_def Let_def)
  note cs = counter_sizes [OF this kv_safeD(4) [OF safe], unfolded sizes]
  have map: "kv_map ?s = dm_remove (kv_map s) h i grain" by (simp add: s5_def s4_def s3_def kv_removed_def)
  have segs: "seg_inv (kv_seg s3)" "owned (kv_seg s) \<subseteq> owned (kv_seg s3)" "kv_seg s5 = kv_seg s3"
    using invalidate_inv [OF kv_safeD(2) [OF safe]] by (simp_all add: s5_def s4_def s3_def kv_removed_def)
  have "kv_safe ?s \<and> kv_abs env ?s = (kv_abs env s)(entry_key env (kv_dev s) (slot_info ?t i) := None)"
  proof (rule unbind_safe [OF safe])
    show "dm_inv (kv_map ?s)" using rm(1) map by simp
    show "map_entry_nr_bits_m (kv_map ?s) = map_entry_nr_bits_m (kv_map s)" using map by (simp add: dm_remove_def)
    show "kv_content s = add_mset (slot_info ?t i) (kv_content ?s)" using rm(2) map by (simp add: kv_content_def)
    show "seg_inv (kv_seg ?s)" "owned (kv_seg s) \<subseteq> owned (kv_seg ?s)" using release_inv [OF segs(1)] segs(2,3) by (simp_all add: subset_trans)
    show "used_bytes_m ?s = used_bytes_m s - of_nat (raw_bytes env (kv_dev s) {#slot_info ?t i#})"
      by (simp add: s5_def s4_def s3_def kv_removed_def cs raw_bytes_def)
    show "total_bytes_m ?s = total_bytes_m s - of_nat (tot_bytes env (kv_dev s) {#slot_info ?t i#})"
      by (simp add: s5_def s4_def s3_def kv_removed_def cs tot_bytes_def rec_grains_def)
  qed (simp_all add: s5_def s4_def s3_def kv_removed_def)
  then show ?thesis using sl(3) key_slot_abs [OF inv i] by (simp add: del_result_def)
qed

lemma local_del_mbuff_ok:
  assumes safe: "kv_safe s" and key: "length key < 2 ^ 16" and h: "h = ev_hash env key"
    and l: "local_del_mbuff env h key s = Some (s', rc)"
  shows "del_result s key s' rc"
proof -
  let ?t = "table_of (kv_map s) h"
  have "length key < 2 ^ 32" and sz: "length key + length ([] :: bytes) < 2 ^ 32" using key by simp_all
  then obtain s1 rc1 trgt md where lk: "lookup_mbuff_put env h key [] (Suc BUCKET_SIZE) s = Some (s1, rc1, trgt, md)"
    and s1: "same_store s s1" and spec: "put_lookup_spec env s h key (rc1, trgt, md)"
    using lookup_mbuff_put_ok [OF kv_safeD(1) [OF safe], of key h] by auto
  note f = same_store_fields [OF s1] and k = kv_safe_same_store [OF s1 safe]
  note unf = local_del_mbuff_def [of env h key s, unfolded lk option.case prod.case]
  show ?thesis
  proof (cases "rc1 = EEXIST")
    case False
    then show ?thesis using l k by (auto simp: unf del_result_def split: if_splits)
  next
    case True
    then obtain i where i: "trgt = Some i" "key_slot env s h key i" "md = rec_md env (kv_dev s) (slot_pba ?t i)"
      using spec by (auto simp: put_lookup_spec_def io_failure_def)
    obtain s2 rc2 grain where io: "put_io_loop env h key [] s1 = Some (s2, rc2, grain)"
      using l True by (auto simp: unf split: option.splits)
    note iok = put_io_loop_ok [OF k(1) key sz io] put_io_loop_map [OF k(1) key sz io]
    have "slot_info ?t i \<in># kv_content s1" using key_slotD(2) [OF kv_safeD(1) [OF safe] i(2)] by (simp add: kv_content_def f)
    then have heads: "rec_md env (kv_dev s2) (slot_pba ?t i) = md" "rec_key env (kv_dev s2) (slot_pba ?t i) = key"
      using iok(1) i f by (auto simp: same_heads_def key_slot_def)
    then have i2: "key_slot env s2 h key i" "md = rec_md env (kv_dev s2) (slot_pba (table_of (kv_map s2) h) i)"
      using i(2) iok(2) f by (simp_all add: key_slot_def)
    have pb: "ucast (pba (entry_at (kv_map s2) h i)) = slot_pba (table_of (kv_map s2) h) i"
      by (simp add: entry_at_def slot_pba_def)
    consider "rc2 \<noteq> E_OK" "s' = s2" "rc = rc2" | "s' = s2" "rc = EAGAIN"
      | (ok) "rc2 = E_OK" "rc = E_OK" "del_result s2 key s' E_OK"
      using l True del_entry_ok [OF _ _ h i2] iok(1) by (auto simp: unf io i(1) Let_def pb split: if_splits)
    then show ?thesis using iok k(2) by cases (auto simp: del_result_def)
  qed
qed

lemma del_loop_ok:
  assumes "kv_safe s" "length key < 2 ^ 16" "del_loop env (ev_hash env key) key s = Some (s', rc)"
  shows "del_result s key s' rc"
proof -
  define P where "P = (\<lambda>e h k s (r :: 's kv \<times> errno). e = env \<and> h = ev_hash env key \<and> k = key \<and> kv_safe s \<longrightarrow>
    del_result s key (fst r) (snd r))"
  have "P env (ev_hash env key) key s (s', rc)"
  proof (rule del_loop.raw_induct [OF _ assms(3), of P])
    fix f e h k s r
    assume IH: "\<And>e h k s r. f e h k s = Some r \<Longrightarrow> P e h k s r"
      and body: "(case local_del_mbuff e h k s of None \<Rightarrow> None
        | Some (s1, rc) \<Rightarrow> if rc = EAGAIN then f e h k s1 else Some (s1, rc)) = Some r"
    then obtain s1 rc1 where l: "local_del_mbuff e h k s = Some (s1, rc1)" by (auto split: option.splits)
    show "P e h k s r"
    proof (cases "rc1 = EAGAIN")
      case True
      then have "P e h k s1 r" using IH body l by simp
      then show ?thesis
        using local_del_mbuff_ok [OF _ assms(2), of s h s1 rc1] l True by (auto simp: P_def del_result_def)
    next
      case False
      then show ?thesis using local_del_mbuff_ok [OF _ assms(2), of s h s1 rc1] l body by (auto simp: P_def)
    qed
  qed
  then show ?thesis using assms by (simp add: P_def)
qed

text \<open>Deleting an absent key returns at once and changes nothing.\<close>

lemma del_absent:
  assumes safe: "kv_safe s" and key: "length key < 2 ^ 16" and none: "kv_abs env s key = None"
  shows "\<exists>s' rc. del_loop env (ev_hash env key) key s = Some (s', rc) \<and> same_store s s'
    \<and> rc \<in> {ENODATA, EIO, ENOENT} \<and> (rc \<noteq> ENODATA \<longrightarrow> (\<exists>e. io_failure env e))"
proof -
  let ?h = "ev_hash env key"
  obtain s1 rc1 trgt md where lk: "lookup_mbuff_put env ?h key [] (Suc BUCKET_SIZE) s = Some (s1, rc1, trgt, md)"
    and s1: "same_store s s1" and spec: "put_lookup_spec env s ?h key (rc1, trgt, md)"
    using lookup_mbuff_put_ok [OF kv_safeD(1) [OF safe], of key ?h] key by auto
  have "\<not> key_slot env s ?h key i" for i using no_key_slot_abs [OF kv_safeD(1) [OF safe], of key] none by simp
  then have rc: "rc1 = ENODATA \<or> rc1 = ENOSPC \<or> io_failure env rc1" using spec by (auto simp: put_lookup_spec_def)
  then have "rc1 \<noteq> EEXIST" by (auto simp: io_failure_def)
  then have "local_del_mbuff env ?h key s = Some (s1, if rc1 = ENOSPC then ENODATA else if rc1 = EIO \<or> rc1 = ENODATA then rc1 else ENOENT)"
    unfolding local_del_mbuff_def lk by simp
  then show ?thesis using rc s1 io_failureD [of env rc1] by (auto simp: del_loop.simps [of env])
qed

end

end
