(* ===== verification/Seg_MD.thy ===== *)
theory Seg_MD
  imports KV_Record
begin

section \<open>Device and segment metadata (\<^verbatim>\<open>lsa/metadata.cc\<close>)\<close>

text \<open>
  The persistent headers of the device and of each segment, and the class that writes and
  validates them.  \<open>md\<close> is the state of \<open>uDepotSalsaMD\<close>; \<open>crc32\<close> of zlib and the bytes
  of the uninitialised padding buffers are the fields of \<open>md_env\<close>.  The outcome of an I/O
  is the argument \<open>io_ok\<close>; a write that fails leaves the device as it is.
\<close>

datatype uDepotSalsaType = KV | Directory

record salsa_dev_md =
  dv_physical_size :: u64
  dv_logical_size :: u64
  dv_segment_size :: u64
  dv_grain_size :: u64
  dv_seed :: u64
  dv_csum :: u32

record salsa_seg_md =
  sg_segment_size :: u64
  sg_grain_size :: u64
  sg_timestamp :: u64
  sg_seed :: u64
  sg_ctlr_type :: u8
  sg_csum :: u32
  sg_write_nr :: u64
  sg_reloc_nr :: u64

record md_env =
  me_crc32 :: "u64 \<Rightarrow> bytes \<Rightarrow> u32"
  me_pad :: "nat \<Rightarrow> u8"

record md =
  seed_m :: u64
  grain_size_m :: u64
  restored_m :: bool
  dev_md_m :: salsa_dev_md
  seg_md_m :: salsa_seg_md
  seg_ts_m :: "u64 list"
  md_io_size :: u64

definition seed_g :: u32 where "seed_g = 0xDEADBEEF"

definition zero_dev_md :: salsa_dev_md where
  "zero_dev_md = \<lparr>dv_physical_size = 0, dv_logical_size = 0, dv_segment_size = 0, dv_grain_size = 0, dv_seed = 0, dv_csum = 0\<rparr>"

definition zero_seg_md :: salsa_seg_md where
  "zero_seg_md = \<lparr>sg_segment_size = 0, sg_grain_size = 0, sg_timestamp = 0, sg_seed = 0, sg_ctlr_type = 0, sg_csum = 0,
     sg_write_nr = 0, sg_reloc_nr = 0\<rparr>"

definition ctlr_type_u8 :: "uDepotSalsaType \<Rightarrow> u8" where
  "ctlr_type_u8 t = (case t of KV \<Rightarrow> 0 | Directory \<Rightarrow> 1)"

subsection \<open>Packed layout\<close>

definition dev_md_prefix :: "salsa_dev_md \<Rightarrow> bytes" where
  "dev_md_prefix d = le64 (dv_physical_size d) @ le64 (dv_logical_size d) @ le64 (dv_segment_size d)
     @ le64 (dv_grain_size d) @ le64 (dv_seed d)"

definition enc_dev_md :: "salsa_dev_md \<Rightarrow> bytes" where
  "enc_dev_md d = dev_md_prefix d @ le32 (dv_csum d)"

definition dec_dev_md :: "bytes \<Rightarrow> salsa_dev_md" where
  "dec_dev_md bs = \<lparr>dv_physical_size = of_le (take 8 bs), dv_logical_size = of_le (take 8 (drop 8 bs)),
     dv_segment_size = of_le (take 8 (drop 16 bs)), dv_grain_size = of_le (take 8 (drop 24 bs)),
     dv_seed = of_le (take 8 (drop 32 bs)), dv_csum = of_le (take 4 (drop 40 bs))\<rparr>"

definition seg_md_prefix :: "salsa_seg_md \<Rightarrow> bytes" where
  "seg_md_prefix g = le64 (sg_segment_size g) @ le64 (sg_grain_size g) @ le64 (sg_timestamp g)
     @ le64 (sg_seed g) @ [sg_ctlr_type g]"

definition enc_seg_md :: "salsa_seg_md \<Rightarrow> bytes" where
  "enc_seg_md g = seg_md_prefix g @ le32 (sg_csum g) @ le64 (sg_write_nr g) @ le64 (sg_reloc_nr g)"

definition dec_seg_md :: "bytes \<Rightarrow> salsa_seg_md" where
  "dec_seg_md bs = \<lparr>sg_segment_size = of_le (take 8 bs), sg_grain_size = of_le (take 8 (drop 8 bs)),
     sg_timestamp = of_le (take 8 (drop 16 bs)), sg_seed = of_le (take 8 (drop 24 bs)),
     sg_ctlr_type = bs ! 32, sg_csum = of_le (take 4 (drop 33 bs)),
     sg_write_nr = of_le (take 8 (drop 37 bs)), sg_reloc_nr = of_le (take 8 (drop 45 bs))\<rparr>"

definition DEV_MD_SIZE :: u64 where "DEV_MD_SIZE = 44"
definition SEG_MD_SIZE :: u64 where "SEG_MD_SIZE = 53"

definition md_csum :: "md_env \<Rightarrow> u64 \<Rightarrow> bytes \<Rightarrow> u32" where
  "md_csum env seed prefix = me_crc32 env (ucast (me_crc32 env seed prefix)) (le32 seed_g)"

subsection \<open>Operations\<close>

definition md_new :: "u64 \<Rightarrow> u64 \<Rightarrow> u64 \<Rightarrow> md" where
  "md_new grain_size io_size tv_sec = \<lparr>seed_m = tv_sec, grain_size_m = grain_size, restored_m = False,
     dev_md_m = zero_dev_md, seg_md_m = zero_seg_md, seg_ts_m = [], md_io_size = io_size\<rparr>"

definition dev_md_grain_offset :: "md \<Rightarrow> u64" where
  "dev_md_grain_offset m =
     (let dev_md_grain_nr = align_up DEV_MD_SIZE (grain_size_m m);
          dev_size_grain_nr = align_down (md_io_size m) (grain_size_m m)
      in if dev_md_grain_nr < dev_size_grain_nr then dev_size_grain_nr - dev_md_grain_nr else 0)"

definition md_init :: "salsa_dev_md \<Rightarrow> md \<Rightarrow> md" where
  "md_init dev_md m =
     (let seg_nr = dv_physical_size dev_md div (dv_segment_size dev_md * dv_grain_size dev_md) in
      m\<lparr>dev_md_m := dev_md,
        seg_md_m := (seg_md_m m)\<lparr>sg_segment_size := dv_segment_size dev_md, sg_grain_size := dv_grain_size dev_md,
          sg_seed := dv_seed dev_md\<rparr>,
        grain_size_m := dv_grain_size dev_md,
        restored_m := (seed_m m \<noteq> dv_seed dev_md),
        seed_m := dv_seed dev_md,
        seg_ts_m := replicate (unat seg_nr) 0\<rparr>)"

definition pad_bytes :: "md_env \<Rightarrow> u64 \<Rightarrow> u64 \<Rightarrow> bytes" where
  "pad_bytes env sz grain_size = map (me_pad env) [0..<unat (ucast (align_up sz grain_size - sz) :: u32)]"

definition validate_dev_md :: "md_env \<Rightarrow> bool \<Rightarrow> device \<Rightarrow> md \<Rightarrow> salsa_dev_md option" where
  "validate_dev_md env io_ok dev m =
     (if \<not> io_ok then None
      else
        let buf = dev_read dev (unat (dev_md_grain_offset m)) (unat DEV_MD_SIZE);
            dev_md = dec_dev_md buf;
            csum = md_csum env (dv_seed dev_md) (take 40 buf)
        in if csum \<noteq> dv_csum dev_md then None else Some dev_md)"

definition read_seg_md :: "bool \<Rightarrow> device \<Rightarrow> md \<Rightarrow> u64 \<Rightarrow> salsa_seg_md option" where
  "read_seg_md io_ok dev m grain =
     (if \<not> io_ok then None else Some (dec_seg_md (dev_read dev (unat (grain * grain_size_m m)) (unat SEG_MD_SIZE))))"

definition validate_seg_md :: "md_env \<Rightarrow> md \<Rightarrow> salsa_seg_md \<Rightarrow> uDepotSalsaType \<Rightarrow> bool" where
  "validate_seg_md env m seg_md ctlr_type \<longleftrightarrow>
     md_csum env (sg_seed seg_md) (seg_md_prefix seg_md) = sg_csum seg_md
     \<and> sg_seed seg_md = dv_seed (dev_md_m m) \<and> ctlr_type_u8 ctlr_type = sg_ctlr_type seg_md
     \<and> sg_segment_size seg_md = dv_segment_size (dev_md_m m) \<and> sg_grain_size seg_md = dv_grain_size (dev_md_m m)"

definition validate_seg_md_at :: "md_env \<Rightarrow> bool \<Rightarrow> device \<Rightarrow> md \<Rightarrow> u64 \<Rightarrow> uDepotSalsaType \<Rightarrow> bool" where
  "validate_seg_md_at env io_ok dev m grain ctlr_type =
     (case read_seg_md io_ok dev m grain of None \<Rightarrow> False | Some seg_md \<Rightarrow> validate_seg_md env m seg_md ctlr_type)"

definition persist_seg_md :: "md_env \<Rightarrow> bool \<Rightarrow> u64 \<Rightarrow> u64 \<Rightarrow> uDepotSalsaType \<Rightarrow> device \<Rightarrow> md \<Rightarrow> device \<times> md \<times> errno" where
  "persist_seg_md env io_ok grain timestamp ctlr_type dev m =
     (let seg_md = (seg_md_m m)\<lparr>sg_ctlr_type := ctlr_type_u8 ctlr_type, sg_timestamp := timestamp\<rparr>;
          seg_md = seg_md\<lparr>sg_csum := md_csum env (sg_seed seg_md) (seg_md_prefix seg_md)\<rparr>;
          byte_offset = grain * grain_size_m m;
          buf = enc_seg_md seg_md @ pad_bytes env SEG_MD_SIZE (grain_size_m m);
          seg_idx = grain div sg_segment_size (seg_md_m m)
      in if \<not> io_ok then (dev, m, EIO)
         else (dev_write dev (unat byte_offset) buf, m\<lparr>seg_ts_m := (seg_ts_m m)[unat seg_idx := timestamp]\<rparr>, E_OK))"

definition persist_dev_md :: "md_env \<Rightarrow> bool \<Rightarrow> device \<Rightarrow> md \<Rightarrow> device \<times> errno" where
  "persist_dev_md env io_ok dev m =
     (let dev_md = (dev_md_m m)\<lparr>dv_csum := md_csum env (dv_seed (dev_md_m m)) (dev_md_prefix (dev_md_m m))\<rparr>;
          buf = enc_dev_md dev_md @ pad_bytes env DEV_MD_SIZE (grain_size_m m)
      in if \<not> io_ok then (dev, EIO) else (dev_write dev (unat (dev_md_grain_offset m)) buf, E_OK))"

definition check_dev_size :: "u64 \<Rightarrow> md \<Rightarrow> errno" where
  "check_dev_size segment_size m =
     (let logical_size = align_down (md_io_size m) (segment_size * grain_size_m m);
          byte_offset = dev_md_grain_offset m
      in if byte_offset = 0 \<or> byte_offset < logical_size then EINVAL else E_OK)"

definition default_dev_md :: "u64 \<Rightarrow> u64 \<Rightarrow> md \<Rightarrow> salsa_dev_md" where
  "default_dev_md grain_size segment_size m =
     zero_dev_md\<lparr>dv_seed := seed_m m, dv_physical_size := md_io_size m, dv_grain_size := grain_size,
       dv_segment_size := segment_size\<rparr>"

definition get_seg_md_size :: "md \<Rightarrow> u64" where
  "get_seg_md_size m = align_up SEG_MD_SIZE (grain_size_m m) div grain_size_m m"

definition get_dev_md_size :: "md \<Rightarrow> u64" where
  "get_dev_md_size m = align_up DEV_MD_SIZE (grain_size_m m) div grain_size_m m"

definition get_dev_size :: "md \<Rightarrow> u64" where
  "get_dev_size m = dv_physical_size (dev_md_m m) - align_up DEV_MD_SIZE (grain_size_m m)"

definition get_seg_ts :: "md \<Rightarrow> u64 \<Rightarrow> u64" where
  "get_seg_ts m seg_idx = seg_ts_m m ! unat seg_idx"

definition restore_seg_ts :: "u64 \<Rightarrow> u64 \<Rightarrow> md \<Rightarrow> md" where
  "restore_seg_ts seg_idx ts m = m\<lparr>seg_ts_m := (seg_ts_m m)[unat seg_idx := ts]\<rparr>"

subsection \<open>Round trips\<close>

definition md_synced :: "md \<Rightarrow> bool" where
  "md_synced m \<longleftrightarrow> sg_segment_size (seg_md_m m) = dv_segment_size (dev_md_m m)
     \<and> sg_grain_size (seg_md_m m) = dv_grain_size (dev_md_m m) \<and> grain_size_m m = dv_grain_size (dev_md_m m)
     \<and> sg_seed (seg_md_m m) = dv_seed (dev_md_m m)"

lemma md_init_synced: "md_synced (md_init d m)"
  by (simp add: md_synced_def md_init_def Let_def)

lemma length_enc_md [simp]:
  "length (dev_md_prefix d) = 40" "length (enc_dev_md d) = 44"
  "length (seg_md_prefix g) = 33" "length (enc_seg_md g) = 53"
  by (simp_all add: dev_md_prefix_def enc_dev_md_def seg_md_prefix_def enc_seg_md_def)

lemma dec_enc_dev_md [simp]: "dec_dev_md (enc_dev_md d) = d"
  by (simp add: dec_dev_md_def enc_dev_md_def dev_md_prefix_def drop_append)

lemma dec_enc_seg_md [simp]: "dec_seg_md (enc_seg_md g) = g"
  by (simp add: dec_seg_md_def enc_seg_md_def seg_md_prefix_def drop_append nth_append)

lemma md_sizes [simp]: "unat DEV_MD_SIZE = 44" "unat SEG_MD_SIZE = 53"
  by (simp_all add: DEV_MD_SIZE_def SEG_MD_SIZE_def)

text \<open>A header with its padding fills whole grains.\<close>

lemma md_padded:
  assumes "gs \<noteq> 0" "unat gs < 2 ^ 32" "unat sz < 2 ^ 32"
  shows "unat sz + length (pad_bytes env sz gs) = unat (align_up sz gs)"
    "unat (align_up sz gs) = unat (align_up sz gs div gs) * unat gs"
    "unat (align_up sz gs) < unat sz + unat gs"
proof -
  have sum: "unat sz + unat gs \<le> 2 ^ 64" using assms by simp
  note b = align_up_bounds [OF assms(1) sum]
  have "unat (align_up sz gs - sz) = unat (align_up sz gs) - unat sz"
    using b(1) by (intro unat_sub_no_wrap) (simp add: word_le_nat_alt)
  moreover have "unat (align_up sz gs) - unat sz < 2 ^ 32" using b(2) assms(2) by linarith
  ultimately have "unat (ucast (align_up sz gs - sz) :: u32) = unat (align_up sz gs) - unat sz"
    by (simp add: unsigned_ucast_eq take_bit_eq_mod)
  then show "unat sz + length (pad_bytes env sz gs) = unat (align_up sz gs)" using b(1) by (simp add: pad_bytes_def)
  show "unat (align_up sz gs) = unat (align_up sz gs div gs) * unat gs" using b(3) by (simp add: unat_div)
  show "unat (align_up sz gs) < unat sz + unat gs" by (rule b(2))
qed

lemma dev_read_written:
  assumes "n = length bs"
  shows "dev_read (dev_write dev off (bs @ rest)) off n = bs"
  using take_dev_read [of n "length (bs @ rest)" "dev_write dev off (bs @ rest)" off] dev_read_write [of dev off "bs @ rest"] assms
  by (simp del: dev_read_write)

lemma persist_seg_md_reads:
  assumes p: "persist_seg_md env True grain ts ty dev m = (dev', m', rc)" and s: "md_synced m"
  shows "rc = E_OK" "\<exists>g. read_seg_md True dev' m' grain = Some g \<and> sg_timestamp g = ts \<and> validate_seg_md env m' g ty"
    "validate_seg_md_at env True dev' m' grain ty" "md_synced m'"
    "dev' = dev_write dev (unat (grain * grain_size_m m)) (enc_seg_md
        ((seg_md_m m)\<lparr>sg_ctlr_type := ctlr_type_u8 ty, sg_timestamp := ts, sg_csum := md_csum env (sg_seed (seg_md_m m))
          (seg_md_prefix ((seg_md_m m)\<lparr>sg_ctlr_type := ctlr_type_u8 ty, sg_timestamp := ts\<rparr>))\<rparr>)
        @ pad_bytes env SEG_MD_SIZE (grain_size_m m))"
proof -
  define g where "g = (seg_md_m m)\<lparr>sg_ctlr_type := ctlr_type_u8 ty, sg_timestamp := ts, sg_csum := md_csum env (sg_seed (seg_md_m m))
          (seg_md_prefix ((seg_md_m m)\<lparr>sg_ctlr_type := ctlr_type_u8 ty, sg_timestamp := ts\<rparr>))\<rparr>"
  have dev': "dev' = dev_write dev (unat (grain * grain_size_m m)) (enc_seg_md g @ pad_bytes env SEG_MD_SIZE (grain_size_m m))"
    and m': "grain_size_m m' = grain_size_m m" "dev_md_m m' = dev_md_m m" "seg_md_m m' = seg_md_m m" and rc: "rc = E_OK"
    using p by (auto simp: persist_seg_md_def Let_def g_def)
  show "rc = E_OK" "md_synced m'" using rc s m' by (simp_all add: md_synced_def)
  have pre: "seg_md_prefix (g\<lparr>sg_csum := c\<rparr>) = seg_md_prefix g" for c by (simp add: seg_md_prefix_def)
  have "read_seg_md True dev' m' grain = Some g"
    by (simp add: read_seg_md_def m' dev' dev_read_written)
  moreover have "validate_seg_md env m' g ty"
    using s by (simp add: validate_seg_md_def m' md_synced_def g_def) (simp add: seg_md_prefix_def)
  ultimately show "\<exists>g. read_seg_md True dev' m' grain = Some g \<and> sg_timestamp g = ts \<and> validate_seg_md env m' g ty"
    "validate_seg_md_at env True dev' m' grain ty"
    by (auto simp: validate_seg_md_at_def g_def)
  show "dev' = dev_write dev (unat (grain * grain_size_m m)) (enc_seg_md
        ((seg_md_m m)\<lparr>sg_ctlr_type := ctlr_type_u8 ty, sg_timestamp := ts, sg_csum := md_csum env (sg_seed (seg_md_m m))
          (seg_md_prefix ((seg_md_m m)\<lparr>sg_ctlr_type := ctlr_type_u8 ty, sg_timestamp := ts\<rparr>))\<rparr>)
        @ pad_bytes env SEG_MD_SIZE (grain_size_m m))"
    using dev' by (simp add: g_def)
qed

lemma persist_dev_md_reads:
  assumes "persist_dev_md env True dev m = (dev', rc)"
  shows "rc = E_OK" "\<exists>d. validate_dev_md env True dev' m = Some d \<and> d\<lparr>dv_csum := 0\<rparr> = (dev_md_m m)\<lparr>dv_csum := 0\<rparr>"
proof -
  define d where "d = (dev_md_m m)\<lparr>dv_csum := md_csum env (dv_seed (dev_md_m m)) (dev_md_prefix (dev_md_m m))\<rparr>"
  have dev': "dev' = dev_write dev (unat (dev_md_grain_offset m)) (enc_dev_md d @ pad_bytes env DEV_MD_SIZE (grain_size_m m))"
    and rc: "rc = E_OK" using assms by (auto simp: persist_dev_md_def Let_def d_def)
  show "rc = E_OK" by (rule rc)
  have r: "dev_read dev' (unat (dev_md_grain_offset m)) 44 = enc_dev_md d" by (simp add: dev' dev_read_written)
  have "take 40 (enc_dev_md d) = dev_md_prefix d" by (simp add: enc_dev_md_def)
  moreover have "dev_md_prefix d = dev_md_prefix (dev_md_m m)" by (simp add: d_def dev_md_prefix_def)
  ultimately have "validate_dev_md env True dev' m = Some d" by (simp add: validate_dev_md_def r Let_def) (simp add: d_def)
  then show "\<exists>d. validate_dev_md env True dev' m = Some d \<and> d\<lparr>dv_csum := 0\<rparr> = (dev_md_m m)\<lparr>dv_csum := 0\<rparr>"
    by (simp add: d_def)
qed

text \<open>Where the device header lies when the size check succeeds: behind every segment and on the device.\<close>

lemma check_dev_size_ok:
  assumes c: "check_dev_size segment_size m = E_OK" and gs: "grain_size_m m \<noteq> 0" "unat (grain_size_m m) < 2 ^ 32"
  defines "off \<equiv> unat (dev_md_grain_offset m)"
  shows "segment_size * grain_size_m m \<noteq> 0 \<Longrightarrow> Suc i * unat (segment_size * grain_size_m m) \<le> unat (md_io_size m)
      \<Longrightarrow> Suc i * unat (segment_size * grain_size_m m) \<le> off"
    "off + unat (align_up DEV_MD_SIZE (grain_size_m m)) \<le> unat (md_io_size m)"
proof -
  let ?sb = "unat (segment_size * grain_size_m m)"
  have o: "dev_md_grain_offset m \<noteq> 0" "align_down (md_io_size m) (segment_size * grain_size_m m) \<le> dev_md_grain_offset m"
    using c by (auto simp: check_dev_size_def Let_def split: if_splits)
  show "Suc i * ?sb \<le> off" if nz: "segment_size * grain_size_m m \<noteq> 0" and i: "Suc i * ?sb \<le> unat (md_io_size m)"
  proof -
    have pos: "0 < ?sb" using nz by (simp add: unat_gt_0)
    have "Suc i \<le> unat (md_io_size m) div ?sb" using i pos by (simp add: less_eq_div_iff_mult_less_eq)
    then have "Suc i * ?sb \<le> unat (md_io_size m) div ?sb * ?sb" by (rule mult_le_mono1)
    also have "\<dots> \<le> off" using o(2) nz by (simp add: word_le_nat_alt unat_align_down off_def)
    finally show ?thesis .
  qed
  let ?n = "align_up DEV_MD_SIZE (grain_size_m m)" and ?s = "align_down (md_io_size m) (grain_size_m m)"
  have "?n < ?s" "dev_md_grain_offset m = ?s - ?n"
    using o(1) by (auto simp: dev_md_grain_offset_def Let_def split: if_splits)
  then have "off + unat ?n = unat ?s" by (simp add: off_def unat_sub_no_wrap word_less_nat_alt word_le_nat_alt)
  then show "off + unat ?n \<le> unat (md_io_size m)" using align_down_bounds(1) [OF gs(1), of "md_io_size m"] by simp
qed

end
