(* ===== verification/Salsa_Alloc.thy ===== *)
theory Salsa_Alloc
  imports Seg_MD
begin

section \<open>The grain allocator (\<^verbatim>\<open>salsa/src/frontends/usalsa++\<close>)\<close>

text \<open>
  The allocators of a \<open>SalsaCtlr\<close> (\<open>allocator.c\<close>, \<open>SalsaCtlr.cc\<close>) on top of the free
  segments of the capacity manager (\<open>scm-seg-alloc.c\<close>, \<open>Scm.cc\<close>).  Segments are indices
  into \<open>segs\<close>; each allocator hands out ranges of its staged segments and takes a new one
  from the free queue when they are used up.  One free queue and one relocation queue
  stand for the queues of the capacity manager; the state of the garbage collector is
  not part of the model, except for the counter of valid grains that every collector
  keeps.  A \<open>BUG_ON\<close> that fires sets \<open>sa_bug\<close>.
\<close>

datatype segment_state = SEG_INVALID | SEG_FREE | SEG_FREE_REL | SEG_LSA_ALLOCATOR | SEG_GC | SEG_GC_XNP

record segment =
  sgm_state :: segment_state
  nr3 :: u32
  nr4 :: u32
  valid_nr :: u32
  sgm_ctlr_id :: u8

record allocator =
  stage_fifo :: "nat list"
  done_fifo :: "nat list"
  al_reloc :: bool

record salsa =
  segs :: "segment list"
  q_segs :: "nat list"
  q_rel_segs :: "nat list"
  alltrs :: "allocator list"
  used_capacity :: u64
  seg_alloc_nr :: u64
  sa_md :: md
  sa_bug :: bool
  sa_ev :: nat

record salsa_env =
  se_seg_size :: u64
  se_reserved :: u64
  se_ctlr_id :: u8
  se_stream_nr :: u32
  se_rel_stream_nr :: u32
  se_max_capacity :: u64
  se_max_capacity_reloc :: u64
  se_critical :: "nat \<Rightarrow> bool"
  se_type :: uDepotSalsaType
  se_md :: md_env
  se_md_io :: "nat \<Rightarrow> bool"

subsection \<open>Segments\<close>

definition upd_seg :: "nat \<Rightarrow> (segment \<Rightarrow> segment) \<Rightarrow> salsa \<Rightarrow> salsa" where
  "upd_seg i f s = s\<lparr>segs := (segs s)[i := f (segs s ! i)]\<rparr>"

definition upd_alltr :: "nat \<Rightarrow> (allocator \<Rightarrow> allocator) \<Rightarrow> salsa \<Rightarrow> salsa" where
  "upd_alltr a f s = s\<lparr>alltrs := (alltrs s)[a := f (alltrs s ! a)]\<rparr>"

definition sa_tick :: "salsa \<Rightarrow> salsa" where
  "sa_tick s = s\<lparr>sa_ev := Suc (sa_ev s)\<rparr>"

definition segment_putn :: "nat \<Rightarrow> u32 \<Rightarrow> salsa \<Rightarrow> salsa" where
  "segment_putn i n s =
     (let s1 = s\<lparr>sa_bug := (sa_bug s \<or> sint (valid_nr (segs s ! i)) < sint n)\<rparr> in
      upd_seg i (\<lambda>g. g\<lparr>valid_nr := valid_nr g - n\<rparr>) s1)"

definition scm_seg_to_grain :: "salsa_env \<Rightarrow> nat \<Rightarrow> u64" where
  "scm_seg_to_grain env i = of_nat i * se_seg_size env"

definition scm_grain_to_segment :: "salsa_env \<Rightarrow> u64 \<Rightarrow> nat" where
  "scm_grain_to_segment env grain = unat (grain div se_seg_size env)"

definition scm_get_free_seg :: "bool \<Rightarrow> salsa \<Rightarrow> salsa \<times> nat option" where
  "scm_get_free_seg reloc s =
     (case (if reloc then q_rel_segs s else q_segs s) of
        [] \<Rightarrow> (s, None)
      | i # q \<Rightarrow> (if reloc then s\<lparr>q_rel_segs := q\<rparr> else s\<lparr>q_segs := q\<rparr>, Some i))"

subsection \<open>One allocator\<close>

definition allocator_seg_next_range :: "salsa_env \<Rightarrow> nat \<Rightarrow> u64 \<Rightarrow> salsa \<Rightarrow> salsa \<times> u64" where
  "allocator_seg_next_range env i len s =
     (let idx = scast (nr3 (segs s ! i)); next_idx = idx + len in
      if se_seg_size env \<le> idx \<or> se_seg_size env < next_idx then (s, SALSA_INVAL_GRAIN)
      else (upd_seg i (\<lambda>g. g\<lparr>nr3 := ucast next_idx\<rparr>) s, idx))"

definition seg_md_callback :: "salsa_env \<Rightarrow> u64 \<Rightarrow> device \<Rightarrow> salsa \<Rightarrow> salsa \<times> device" where
  "seg_md_callback env grain dev s =
     (let s1 = sa_tick (s\<lparr>seg_alloc_nr := seg_alloc_nr s + 1\<rparr>) in
      case persist_seg_md (se_md env) (se_md_io env (sa_ev s)) grain (seg_alloc_nr s1) (se_type env) dev (sa_md s1) of
        (dev', m', rc) \<Rightarrow> (s1\<lparr>sa_md := m'\<rparr>, dev'))"

text \<open>The first grains of the cursor stand for the metadata, which is stored in the last grains of the segment.\<close>

definition reserve_seg_md :: "salsa_env \<Rightarrow> nat \<Rightarrow> device \<Rightarrow> salsa \<Rightarrow> salsa \<times> device" where
  "reserve_seg_md env i dev s =
     (if 0 < se_reserved env then
        (case allocator_seg_next_range env i (se_reserved env) s of (s1, grain) \<Rightarrow>
           let s2 = upd_seg i (\<lambda>g. g\<lparr>nr4 := nr4 g - ucast (se_reserved env)\<rparr>) s1;
               s3 = segment_putn i (ucast (se_reserved env)) s2
           in seg_md_callback env (grain + scm_seg_to_grain env i + se_seg_size env - se_reserved env) dev s3)
      else (s, dev))"

definition allocator_allocate_segment :: "salsa_env \<Rightarrow> nat \<Rightarrow> device \<Rightarrow> salsa \<Rightarrow> salsa \<times> device \<times> errno" where
  "allocator_allocate_segment env a dev s =
     (case scm_get_free_seg (al_reloc (alltrs s ! a)) s of
        (s1, None) \<Rightarrow> (s1, dev, ENOSPC)
      | (s1, Some i) \<Rightarrow>
          let s2 = upd_seg i (\<lambda>g. g\<lparr>sgm_ctlr_id := se_ctlr_id env, sgm_state := SEG_LSA_ALLOCATOR,
                     nr3 := 0, nr4 := ucast (se_seg_size env)\<rparr>) s1
          in case reserve_seg_md env i dev s2 of (s3, dev3) \<Rightarrow>
               (upd_alltr a (\<lambda>al. al\<lparr>stage_fifo := stage_fifo al @ [i]\<rparr>) s3, dev3, E_OK))"

text \<open>A segment without room for the request leaves the fifo; its last grains count as invalid.\<close>

definition unstage :: "nat \<Rightarrow> nat \<Rightarrow> salsa \<Rightarrow> salsa" where
  "unstage a p s = upd_alltr a (\<lambda>al. al\<lparr>stage_fifo := remove1 p (stage_fifo al)\<rparr>) s"

definition put_nr4 :: "nat \<Rightarrow> nat \<Rightarrow> u32 \<Rightarrow> salsa \<Rightarrow> salsa" where
  "put_nr4 a p n s =
     (let s1 = upd_seg p (\<lambda>g. g\<lparr>nr4 := nr4 g - n\<rparr>) s in
      if nr4 (segs s1 ! p) = 0 then upd_alltr a (\<lambda>al. al\<lparr>done_fifo := done_fifo al @ [p]\<rparr>) s1 else s1)"

definition recycle :: "salsa_env \<Rightarrow> nat \<Rightarrow> nat \<Rightarrow> salsa \<Rightarrow> salsa" where
  "recycle env a p s =
     (let rem = ucast (se_seg_size env - scast (nr3 (segs s ! p))) in
      put_nr4 a p rem (unstage a p (segment_putn p rem s)))"

fun alloc_scan :: "salsa_env \<Rightarrow> nat \<Rightarrow> u64 \<Rightarrow> nat list \<Rightarrow> salsa \<Rightarrow> salsa \<times> (nat \<times> u64) option" where
  "alloc_scan env a len [] s = (s, None)"
| "alloc_scan env a len (p # ps) s =
     (case allocator_seg_next_range env p len s of (s1, grain) \<Rightarrow>
        if grain \<noteq> SALSA_INVAL_GRAIN
        then (if se_seg_size env = grain + len then unstage a p s1 else s1, Some (p, grain))
        else alloc_scan env a len ps (recycle env a p s1))"

lemma scm_get_free_seg_queues:
  "scm_get_free_seg reloc s = (s1, Some i) \<Longrightarrow>
     (if reloc then q_rel_segs s = i # q_rel_segs s1 \<and> q_segs s1 = q_segs s
      else q_segs s = i # q_segs s1 \<and> q_rel_segs s1 = q_rel_segs s)"
  "scm_get_free_seg reloc s = (s1, None) \<Longrightarrow> s1 = s \<and> (if reloc then q_rel_segs s = [] else q_segs s = [])"
  by (auto simp: scm_get_free_seg_def split: list.splits if_splits)

lemma upd_simps [simp]:
  "q_segs (upd_seg i f s) = q_segs s" "q_rel_segs (upd_seg i f s) = q_rel_segs s" "alltrs (upd_seg i f s) = alltrs s"
  "sa_md (upd_seg i f s) = sa_md s" "length (segs (upd_seg i f s)) = length (segs s)"
  "q_segs (upd_alltr a g s) = q_segs s" "q_rel_segs (upd_alltr a g s) = q_rel_segs s" "segs (upd_alltr a g s) = segs s"
  "sa_md (upd_alltr a g s) = sa_md s" "length (alltrs (upd_alltr a g s)) = length (alltrs s)"
  "sa_bug (upd_seg i f s) = sa_bug s" "sa_bug (upd_alltr a g s) = sa_bug s"
  "used_capacity (upd_seg i f s) = used_capacity s" "used_capacity (upd_alltr a g s) = used_capacity s"
  "seg_alloc_nr (upd_seg i f s) = seg_alloc_nr s" "seg_alloc_nr (upd_alltr a g s) = seg_alloc_nr s"
  by (simp_all add: upd_seg_def upd_alltr_def)

lemma segment_putn_simps [simp]:
  "q_segs (segment_putn i n s) = q_segs s" "q_rel_segs (segment_putn i n s) = q_rel_segs s"
  "alltrs (segment_putn i n s) = alltrs s" "sa_md (segment_putn i n s) = sa_md s"
  "length (segs (segment_putn i n s)) = length (segs s)" "seg_alloc_nr (segment_putn i n s) = seg_alloc_nr s"
  by (simp_all add: segment_putn_def Let_def)

lemma next_range_simps [simp]:
  "q_segs (fst (allocator_seg_next_range env i len s)) = q_segs s"
  "q_rel_segs (fst (allocator_seg_next_range env i len s)) = q_rel_segs s"
  "alltrs (fst (allocator_seg_next_range env i len s)) = alltrs s"
  "sa_md (fst (allocator_seg_next_range env i len s)) = sa_md s"
  "length (segs (fst (allocator_seg_next_range env i len s))) = length (segs s)"
  by (simp_all add: allocator_seg_next_range_def Let_def)

lemma seg_md_callback_simps [simp]:
  "q_segs (fst (seg_md_callback env g dev s)) = q_segs s" "q_rel_segs (fst (seg_md_callback env g dev s)) = q_rel_segs s"
  "alltrs (fst (seg_md_callback env g dev s)) = alltrs s" "segs (fst (seg_md_callback env g dev s)) = segs s"
  by (simp_all add: seg_md_callback_def sa_tick_def Let_def split: prod.splits)

lemma reserve_seg_md_simps [simp]:
  "q_segs (fst (reserve_seg_md env i dev s)) = q_segs s" "q_rel_segs (fst (reserve_seg_md env i dev s)) = q_rel_segs s"
  "alltrs (fst (reserve_seg_md env i dev s)) = alltrs s" "length (segs (fst (reserve_seg_md env i dev s))) = length (segs s)"
  by (simp_all add: reserve_seg_md_def Let_def case_prod_unfold)

lemma recycle_queues [simp]:
  "q_segs (recycle env a p s) = q_segs s" "q_rel_segs (recycle env a p s) = q_rel_segs s"
  "length (alltrs (recycle env a p s)) = length (alltrs s)" "length (segs (recycle env a p s)) = length (segs s)"
  "sa_md (recycle env a p s) = sa_md s"
  by (simp_all add: recycle_def put_nr4_def unstage_def Let_def)

lemma al_reloc_upd [simp]:
  "(\<And>al. al_reloc (f al) = al_reloc al) \<Longrightarrow> al_reloc (alltrs (upd_alltr b f s) ! a) = al_reloc (alltrs s ! a)"
  by (cases "b < length (alltrs s)") (auto simp: upd_alltr_def nth_list_update list_update_beyond)

lemma al_reloc_recycle [simp]: "al_reloc (alltrs (recycle env b p s) ! a) = al_reloc (alltrs s ! a)"
  by (simp add: recycle_def put_nr4_def unstage_def Let_def)

lemma alloc_scan_queues:
  "alloc_scan env a len ps s = (s', r) \<Longrightarrow>
    q_segs s' = q_segs s \<and> q_rel_segs s' = q_rel_segs s \<and> al_reloc (alltrs s' ! a) = al_reloc (alltrs s ! a)"
proof (induction ps arbitrary: s)
  case (Cons p ps)
  obtain s1 grain where n: "allocator_seg_next_range env p len s = (s1, grain)" by force
  have s1: "q_segs s1 = q_segs s" "q_rel_segs s1 = q_rel_segs s" "alltrs s1 = alltrs s"
    using next_range_simps [of env p len s] n by auto
  show ?case
  proof (cases "grain = SALSA_INVAL_GRAIN")
    case True
    then show ?thesis using Cons.IH [of "recycle env a p s1"] Cons.prems n s1 by simp
  next
    case False
    then have "s' = unstage a p s1 \<or> s' = s1" using Cons.prems n by (auto split: if_splits)
    then show ?thesis using s1 by (auto simp: unstage_def)
  qed
qed simp

lemma allocate_segment_queues:
  assumes "allocator_allocate_segment env a dev s = (s', dev', E_OK)"
  shows "if al_reloc (alltrs s ! a) then \<exists>i. q_rel_segs s = i # q_rel_segs s' else \<exists>i. q_segs s = i # q_segs s'"
    "al_reloc (alltrs s' ! a) = al_reloc (alltrs s ! a)"
proof -
  obtain s1 i where g: "scm_get_free_seg (al_reloc (alltrs s ! a)) s = (s1, Some i)"
    using assms by (auto simp: allocator_allocate_segment_def split: prod.splits option.splits)
  note q = scm_get_free_seg_queues(1) [OF g]
  have al: "alltrs s1 = alltrs s" using g by (auto simp: scm_get_free_seg_def split: list.splits if_splits)
  show "if al_reloc (alltrs s ! a) then \<exists>i. q_rel_segs s = i # q_rel_segs s' else \<exists>i. q_segs s = i # q_segs s'"
    "al_reloc (alltrs s' ! a) = al_reloc (alltrs s ! a)"
    using assms q al by (auto simp: allocator_allocate_segment_def g Let_def case_prod_unfold split: if_splits)
qed

text \<open>The free queue is one shorter after each round, so the loop ends.\<close>

function allocator_allocate_grains :: "salsa_env \<Rightarrow> nat \<Rightarrow> u64 \<Rightarrow> device \<Rightarrow> salsa \<Rightarrow> salsa \<times> device \<times> u64" where
  "allocator_allocate_grains env a len dev s =
     (case alloc_scan env a len (stage_fifo (alltrs s ! a)) s of
        (s1, Some (p, grain)) \<Rightarrow> (s1, dev, scm_seg_to_grain env p + grain - se_reserved env)
      | (s1, None) \<Rightarrow>
          if stage_fifo (alltrs s1 ! a) \<noteq> [] then (s1, dev, SALSA_INVAL_GRAIN)
          else case allocator_allocate_segment env a dev s1 of (s2, dev2, rc) \<Rightarrow>
            if rc = E_OK then allocator_allocate_grains env a len dev2 s2 else (s2, dev2, SALSA_INVAL_GRAIN))"
  by pat_completeness auto
termination
proof (relation "measure (\<lambda>(env, a, len, dev, s). length (if al_reloc (alltrs s ! a) then q_rel_segs s else q_segs s))", simp)
  fix env a len dev s s1 s2 dev2 rc and r :: "(nat \<times> u64) option" and z
  assume "(s1, r) = alloc_scan env a len (stage_fifo (alltrs s ! a)) s" "r = None" "\<not> stage_fifo (alltrs s1 ! a) \<noteq> []"
    "(s2, z) = allocator_allocate_segment env a dev s1" "(dev2, rc) = z" "rc = E_OK"
  then have sc: "alloc_scan env a len (stage_fifo (alltrs s ! a)) s = (s1, None)"
    and al: "allocator_allocate_segment env a dev s1 = (s2, dev2, E_OK)" by simp_all
  show "((env, a, len, dev2, s2), env, a, len, dev, s)
    \<in> measure (\<lambda>(env, a, len, dev, s). length (if al_reloc (alltrs s ! a) then q_rel_segs s else q_segs s))"
    using alloc_scan_queues [OF sc] allocate_segment_queues [OF al] by (auto split: if_splits)
qed

declare allocator_allocate_grains.simps [simp del]

definition allocator_drain_remaining_grains :: "salsa_env \<Rightarrow> nat \<Rightarrow> salsa \<Rightarrow> salsa \<times> u32" where
  "allocator_drain_remaining_grains env a s =
     (case stage_fifo (alltrs s ! a) of
        [] \<Rightarrow> (s, 0)
      | p # ps \<Rightarrow> (recycle env a p s, ucast (se_seg_size env - scast (nr3 (segs s ! p)))))"

definition allocator_release_grains :: "salsa_env \<Rightarrow> nat \<Rightarrow> u64 \<Rightarrow> u64 \<Rightarrow> salsa \<Rightarrow> salsa" where
  "allocator_release_grains env a grain len s = put_nr4 a (scm_grain_to_segment env grain) (ucast len) s"

subsection \<open>The controller\<close>

definition provision_grains :: "salsa_env \<Rightarrow> u64 \<Rightarrow> bool \<Rightarrow> salsa \<Rightarrow> salsa \<times> errno" where
  "provision_grains env len is_reloc s =
     (let s1 = sa_tick s; old_val = used_capacity s in
      if \<not> is_reloc \<and> se_critical env (sa_ev s) then (s1, EAGAIN)
      else if \<not> is_reloc \<and> se_max_capacity env < old_val + len then (s1, ENOSPC)
      else if is_reloc \<and> se_max_capacity_reloc env < old_val + len then (s1, ENOSPC)
      else (s1\<lparr>used_capacity := old_val + len\<rparr>, E_OK))"

definition unprovision_grains :: "u64 \<Rightarrow> salsa \<Rightarrow> salsa" where
  "unprovision_grains len s = s\<lparr>used_capacity := used_capacity s - len\<rparr>"

definition stream_to_alltr :: "salsa_env \<Rightarrow> u32 \<Rightarrow> bool \<Rightarrow> nat" where
  "stream_to_alltr env stream is_reloc =
     (if \<not> is_reloc then unat (stream mod se_stream_nr env)
      else if se_rel_stream_nr env = 0 then unat (se_stream_nr env) - 1
      else unat (se_stream_nr env) + unat (stream mod se_rel_stream_nr env))"

definition allocate_grains_no_wait :: "salsa_env \<Rightarrow> u64 \<Rightarrow> u32 \<Rightarrow> bool \<Rightarrow> device \<Rightarrow> salsa
    \<Rightarrow> salsa \<times> device \<times> errno \<times> u64" where
  "allocate_grains_no_wait env len stream is_reloc dev s =
     (if se_seg_size env < len + se_reserved env then (s, dev, EINVAL, SALSA_INVAL_GRAIN)
      else case provision_grains env len is_reloc s of (s1, rc) \<Rightarrow>
        if rc \<noteq> E_OK then (s1, dev, rc, SALSA_INVAL_GRAIN)
        else case allocator_allocate_grains env (stream_to_alltr env stream is_reloc) len dev s1 of (s2, dev2, grain) \<Rightarrow>
          if grain = SALSA_INVAL_GRAIN then (unprovision_grains len s2, dev2, EAGAIN, SALSA_INVAL_GRAIN)
          else (s2, dev2, E_OK, grain))"

definition allocate_grains :: "salsa_env \<Rightarrow> u64 \<Rightarrow> u32 \<Rightarrow> bool \<Rightarrow> device \<Rightarrow> salsa
    \<Rightarrow> salsa \<times> device \<times> errno \<times> u64" where
  "allocate_grains env len stream is_reloc dev s =
     (case allocate_grains_no_wait env len stream is_reloc dev s of (s1, dev1, rc, grain) \<Rightarrow>
        if rc = EAGAIN then allocate_grains_no_wait env len stream is_reloc dev1 s1 else (s1, dev1, rc, grain))"

definition drain_remaining_grains :: "salsa_env \<Rightarrow> u32 \<Rightarrow> bool \<Rightarrow> salsa \<Rightarrow> salsa \<times> u32" where
  "drain_remaining_grains env stream is_reloc s =
     allocator_drain_remaining_grains env (stream_to_alltr env stream is_reloc) s"

definition release_grains :: "salsa_env \<Rightarrow> u64 \<Rightarrow> u64 \<Rightarrow> u32 \<Rightarrow> bool \<Rightarrow> salsa \<Rightarrow> salsa" where
  "release_grains env grain len stream is_reloc s =
     allocator_release_grains env (stream_to_alltr env stream is_reloc) grain len s"

definition gc_base_page_invalidate :: "nat \<Rightarrow> u32 \<Rightarrow> salsa \<Rightarrow> salsa" where
  "gc_base_page_invalidate i grain_nr s = segment_putn i grain_nr s"

definition invalidate_grains :: "salsa_env \<Rightarrow> u64 \<Rightarrow> u64 \<Rightarrow> salsa \<Rightarrow> salsa" where
  "invalidate_grains env grain len s =
     unprovision_grains len (gc_base_page_invalidate (scm_grain_to_segment env grain) (ucast len) s)"

end
