(* ===== verification/Salsa_Inv.thy ===== *)
theory Salsa_Inv
  imports Salsa_Alloc "HOL-Library.Multiset"
begin

section \<open>Ownership of grains\<close>

text \<open>
  A segment is in a free queue, staged in one allocator, or neither; no segment is in
  two of these places.  The grains in use are the data grains of a staged segment below
  its cursor and all data grains of a segment that has left the fifo.  The invariant and
  the grains in use depend only on the cursors, the queues and the fifos.
\<close>

definition nr3s :: "salsa \<Rightarrow> u32 list" where "nr3s s = map nr3 (segs s)"
definition stages :: "salsa \<Rightarrow> nat list list" where "stages s = map stage_fifo (alltrs s)"
definition staged :: "nat list list \<Rightarrow> nat multiset" where "staged st = mset (concat st)"

definition places :: "salsa \<Rightarrow> nat multiset" where
  "places s = mset (q_segs s) + mset (q_rel_segs s) + staged (stages s)"

definition salsa_cfg_ok :: "salsa_env \<Rightarrow> salsa \<Rightarrow> bool" where
  "salsa_cfg_ok env s \<longleftrightarrow>
     unat (se_seg_size env) < 2 ^ 31 \<and> 0 < unat (se_reserved env) \<and> unat (se_reserved env) < unat (se_seg_size env)
     \<and> se_reserved env = get_seg_md_size (sa_md s)
     \<and> length (segs s) * unat (se_seg_size env) < 2 ^ 39
     \<and> length (segs s) * unat (se_seg_size env) * unat (grain_size_m (sa_md s)) \<le> 2 ^ 64
     \<and> 0 < unat (grain_size_m (sa_md s)) \<and> unat (grain_size_m (sa_md s)) < 2 ^ 32
     \<and> 0 < unat (se_stream_nr env)
     \<and> length (alltrs s) = unat (se_stream_nr env) + unat (se_rel_stream_nr env)"

definition salsa_inv :: "salsa_env \<Rightarrow> salsa \<Rightarrow> bool" where
  "salsa_inv env s \<longleftrightarrow> salsa_cfg_ok env s
     \<and> (\<forall>i. count (places s) i \<le> 1) \<and> (\<forall>i \<in># places s. i < length (segs s))
     \<and> (\<forall>p \<in># staged (stages s). unat (se_reserved env) \<le> unat (nr3s s ! p) \<and> unat (nr3s s ! p) \<le> unat (se_seg_size env))"

definition owned_grain :: "salsa_env \<Rightarrow> salsa \<Rightarrow> nat \<Rightarrow> bool" where
  "owned_grain env s g \<longleftrightarrow>
     (let i = g div unat (se_seg_size env); off = g mod unat (se_seg_size env) + unat (se_reserved env) in
      i < length (segs s) \<and> i \<notin># mset (q_segs s) + mset (q_rel_segs s)
      \<and> off < (if i \<in># staged (stages s) then unat (nr3s s ! i) else unat (se_seg_size env)))"

definition owned_grains :: "salsa_env \<Rightarrow> salsa \<Rightarrow> nat set" where
  "owned_grains env s = {g. owned_grain env s g}"

subsection \<open>Effect of the steps\<close>

lemma staged_update:
  "a < length st \<Longrightarrow> staged (st[a := x]) + mset (st ! a) = staged st + mset x"
proof (induction st arbitrary: a)
  case (Cons b st)
  then show ?case by (cases a) (auto simp: staged_def)
qed (simp add: staged_def)

lemma staged_remove1:
  assumes "a < length st" "p \<in> set (st ! a)"
  shows "staged st = add_mset p (staged (st[a := remove1 p (st ! a)]))"
proof -
  have "mset (st ! a) = add_mset p (mset (remove1 p (st ! a)))" using assms(2) by simp
  then have "staged (st[a := remove1 p (st ! a)]) + add_mset p (mset (remove1 p (st ! a))) = staged st + mset (remove1 p (st ! a))"
    using staged_update [OF assms(1), of "remove1 p (st ! a)"] by (simp only:)
  then show ?thesis unfolding union_mset_add_mset_right union_mset_add_mset_left [symmetric] by (rule add_right_imp_eq [symmetric])
qed

lemma staged_append:
  assumes "a < length st"
  shows "staged (st[a := st ! a @ [i]]) = add_mset i (staged st)"
  using staged_update [OF assms, of "st ! a @ [i]"] by simp

lemma staged_mem: "a < length st \<Longrightarrow> p \<in> set (st ! a) \<Longrightarrow> p \<in># staged st"
  by (auto simp: staged_def intro: nth_mem)

lemma nr3s_upd_seg: "nr3s (upd_seg i f s) = (nr3s s)[i := nr3 (f (segs s ! i))]"
  by (simp add: nr3s_def upd_seg_def map_update)

lemma nr3s_upd_seg_same [simp]:
  assumes "\<And>g. nr3 (f g) = nr3 g"
  shows "nr3s (upd_seg i f s) = nr3s s"
proof (cases "i < length (segs s)")
  case True
  then have "nr3s s ! i = nr3 (segs s ! i)" by (simp add: nr3s_def)
  then show ?thesis unfolding nr3s_upd_seg assms by (metis list_update_id)
next
  case False
  then show ?thesis unfolding nr3s_def by (simp add: upd_seg_def list_update_beyond)
qed

lemma stages_upd_alltr_same [simp]:
  assumes "\<And>al. stage_fifo (f al) = stage_fifo al"
  shows "stages (upd_alltr a f s) = stages s"
proof (cases "a < length (alltrs s)")
  case True
  then have "stages s ! a = stage_fifo (alltrs s ! a)" by (simp add: stages_def)
  then have "stages (upd_alltr a f s) = (stages s)[a := stages s ! a]" by (simp add: stages_def upd_alltr_def map_update assms)
  then show ?thesis by simp
next
  case False
  then show ?thesis by (simp add: stages_def upd_alltr_def list_update_beyond)
qed

lemma core_field_simps [simp]:
  "nr3s (upd_alltr a g s) = nr3s s" "stages (upd_seg i f s) = stages s"
  "nr3s (s\<lparr>sa_bug := b\<rparr>) = nr3s s" "stages (s\<lparr>sa_bug := b\<rparr>) = stages s"
  "nr3s (s\<lparr>used_capacity := u\<rparr>) = nr3s s" "stages (s\<lparr>used_capacity := u\<rparr>) = stages s"
  "nr3s (s\<lparr>sa_ev := e\<rparr>) = nr3s s" "stages (s\<lparr>sa_ev := e\<rparr>) = stages s"
  "nr3s (s\<lparr>seg_alloc_nr := e'\<rparr>) = nr3s s" "stages (s\<lparr>seg_alloc_nr := e'\<rparr>) = stages s"
  "nr3s (s\<lparr>sa_md := m\<rparr>) = nr3s s" "stages (s\<lparr>sa_md := m\<rparr>) = stages s"
  "nr3s (s\<lparr>q_segs := q\<rparr>) = nr3s s" "stages (s\<lparr>q_segs := q\<rparr>) = stages s"
  "nr3s (s\<lparr>q_rel_segs := q\<rparr>) = nr3s s" "stages (s\<lparr>q_rel_segs := q\<rparr>) = stages s"
  by (simp_all add: nr3s_def stages_def upd_alltr_def upd_seg_def)

lemma core_simps [simp]:
  "nr3s (segment_putn i n s) = nr3s s" "stages (segment_putn i n s) = stages s"
  "nr3s (put_nr4 a p m s) = nr3s s" "length (segs (put_nr4 a p m s)) = length (segs s)"
  "q_segs (put_nr4 a p m s) = q_segs s" "q_rel_segs (put_nr4 a p m s) = q_rel_segs s"
  "sa_md (put_nr4 a p m s) = sa_md s" "length (alltrs (put_nr4 a p m s)) = length (alltrs s)"
  "stages (put_nr4 a p m s) = stages s"
  by (simp_all add: segment_putn_def put_nr4_def Let_def)

lemma stages_unstage [simp]:
  assumes "a < length (alltrs s)"
  shows "stages (unstage a p s) = (stages s)[a := remove1 p (stages s ! a)]"
  using assms by (simp add: unstage_def stages_def upd_alltr_def map_update)

lemma unstage_simps [simp]:
  "nr3s (unstage a p s) = nr3s s" "q_segs (unstage a p s) = q_segs s" "q_rel_segs (unstage a p s) = q_rel_segs s"
  "length (segs (unstage a p s)) = length (segs s)" "sa_md (unstage a p s) = sa_md s"
  "length (alltrs (unstage a p s)) = length (alltrs s)"
  by (simp_all add: unstage_def)

text \<open>Steps that keep the cursors, queues and fifos keep the invariant and the grains in use.\<close>

definition same_core :: "salsa \<Rightarrow> salsa \<Rightarrow> bool" where
  "same_core s s' \<longleftrightarrow> nr3s s' = nr3s s \<and> q_segs s' = q_segs s \<and> q_rel_segs s' = q_rel_segs s \<and> stages s' = stages s
     \<and> grain_size_m (sa_md s') = grain_size_m (sa_md s)"

lemma same_core_lengths:
  assumes "same_core s s'"
  shows "length (segs s') = length (segs s)" "length (alltrs s') = length (alltrs s)"
  using assms by (auto simp: same_core_def nr3s_def stages_def dest: arg_cong [of _ _ length])

lemma same_core_inv:
  assumes "same_core s s'"
  shows "salsa_inv env s' \<longleftrightarrow> salsa_inv env s" "owned_grains env s' = owned_grains env s"
proof -
  have "get_seg_md_size (sa_md s') = get_seg_md_size (sa_md s)"
    using assms by (simp add: same_core_def get_seg_md_size_def)
  then show "salsa_inv env s' \<longleftrightarrow> salsa_inv env s" "owned_grains env s' = owned_grains env s"
    using assms same_core_lengths [OF assms]
    by (simp_all add: salsa_inv_def salsa_cfg_ok_def places_def owned_grains_def owned_grain_def same_core_def)
qed

lemma same_core_refl [simp]: "same_core s s" by (simp add: same_core_def)

lemma same_core_trans: "same_core s t \<Longrightarrow> same_core t u \<Longrightarrow> same_core s u" by (simp add: same_core_def)

lemma same_core_steps [simp]:
  "same_core s (segment_putn i n s)" "same_core s (put_nr4 a p m s)" "same_core s (unprovision_grains len s)"
  "same_core s (fst (provision_grains env len b s))" "same_core s (invalidate_grains env g len s)"
  "same_core s (release_grains env g len st b s)" "same_core s (sa_tick s)"
  by (simp_all add: same_core_def unprovision_grains_def provision_grains_def invalidate_grains_def
      gc_base_page_invalidate_def release_grains_def allocator_release_grains_def sa_tick_def Let_def)

subsection \<open>Moving a cursor\<close>

lemma unat_scast_small:
  assumes "unat (w :: u32) < 2 ^ 31"
  shows "unat (scast w :: u64) = unat w"
proof -
  have bits: "bit w i \<longleftrightarrow> odd (unat w div 2 ^ i)" for i
    by (simp add: bit_unsigned_iff flip: bit_iff_odd)
  have b: "\<not> bit w 31" unfolding bits using assms by simp
  have "(scast w :: u64) = ucast w"
  proof (rule bit_word_eqI)
    fix n assume n: "n < LENGTH(64)"
    have "\<not> bit w n" if "\<not> n < 32" using that bit_imp_le_length [of w n] by auto
    then show "bit (scast w :: u64) n \<longleftrightarrow> bit (ucast w :: u64) n"
      using b n by (cases "n < 32") (auto simp: bit_word_scast_iff bit_word_ucast_iff)
  qed
  then show ?thesis by (simp add: unat_ucast_up)
qed

lemma salsa_invD:
  assumes "salsa_inv env s"
  shows "salsa_cfg_ok env s" "count (places s) i \<le> 1" "i \<in># places s \<Longrightarrow> i < length (segs s)"
    "p \<in># staged (stages s) \<Longrightarrow> unat (se_reserved env) \<le> unat (nr3s s ! p) \<and> unat (nr3s s ! p) \<le> unat (se_seg_size env)"
  using assms by (auto simp: salsa_inv_def)

lemma salsa_cfgD:
  assumes "salsa_inv env s"
  shows "unat (se_seg_size env) < 2 ^ 31" "0 < unat (se_reserved env)" "unat (se_reserved env) < unat (se_seg_size env)"
  using salsa_invD(1) [OF assms] unfolding salsa_cfg_ok_def by blast+

lemma staged_place: "p \<in># staged (stages s) \<Longrightarrow> p \<in># places s"
  by (simp add: places_def)

lemma next_range_ok:
  assumes S: "unat (se_seg_size env) < 2 ^ 31" and p: "p < length (segs s)" "unat (nr3s s ! p) \<le> unat (se_seg_size env)" and len: "unat len < 2 ^ 63"
    and r: "allocator_seg_next_range env p len s = (s', g)"
  shows "g = SALSA_INVAL_GRAIN \<Longrightarrow> s' = s \<and> (unat (se_seg_size env) \<le> unat (nr3s s ! p) \<or> unat (se_seg_size env) < unat (nr3s s ! p) + unat len)"
    "g \<noteq> SALSA_INVAL_GRAIN \<Longrightarrow> unat g = unat (nr3s s ! p) \<and> unat g + unat len \<le> unat (se_seg_size env)
      \<and> nr3s s' = (nr3s s)[p := of_nat (unat g + unat len)] \<and> s' = s\<lparr>segs := segs s'\<rparr> \<and> length (segs s') = length (segs s)"
proof -
  let ?S = "unat (se_seg_size env)" and ?n = "nr3 (segs s ! p)"
  have n: "nr3s s ! p = ?n" using p(1) by (simp add: nr3s_def)
  have idx: "unat (scast ?n :: u64) = unat ?n" using p(2) S n by (intro unat_scast_small) simp
  have nx: "unat (scast ?n + len :: u64) = unat ?n + unat len"
    using idx len p(2) S n by (subst unat_add_no_wrap) simp_all
  have lt: "unat ?n < 2 ^ 31" using p(2) S n by simp
  have inval: "(scast ?n :: u64) \<noteq> SALSA_INVAL_GRAIN"
  proof
    assume "(scast ?n :: u64) = SALSA_INVAL_GRAIN"
    then have "unat ?n = unat (- 1 :: u64)" using idx by (simp add: SALSA_INVAL_GRAIN_def)
    then show False using lt by (simp add: unsigned_minus_1_eq_mask mask_eq_exp_minus_1)
  qed
  show "s' = s \<and> (?S \<le> unat (nr3s s ! p) \<or> ?S < unat (nr3s s ! p) + unat len)" if "g = SALSA_INVAL_GRAIN"
    using r inval that by (auto simp: allocator_seg_next_range_def Let_def word_le_nat_alt word_less_nat_alt idx nx n split: if_splits)
  show "unat g = unat (nr3s s ! p) \<and> unat g + unat len \<le> ?S \<and> nr3s s' = (nr3s s)[p := of_nat (unat g + unat len)]
      \<and> s' = s\<lparr>segs := segs s'\<rparr> \<and> length (segs s') = length (segs s)" if "g \<noteq> SALSA_INVAL_GRAIN"
  proof -
    have g: "g = scast ?n" "s' = upd_seg p (\<lambda>g. g\<lparr>nr3 := ucast (scast ?n + len)\<rparr>) s" "unat ?n + unat len \<le> ?S"
      using r that by (auto simp: allocator_seg_next_range_def Let_def word_le_nat_alt word_less_nat_alt idx nx n split: if_splits)
    have "unat (of_nat (unat ?n + unat len) :: u32) = unat ?n + unat len"
      using g(3) S by (intro unat_of_nat_small) simp
    moreover have "unat (ucast (scast ?n + len :: u64) :: u32) = unat ?n + unat len"
      unfolding unsigned_ucast_eq nx using g(3) S by (simp add: take_bit_eq_mod)
    ultimately have "(ucast (scast ?n + len :: u64) :: u32) = of_nat (unat ?n + unat len)" by (metis word_unat_eq_iff)
    then show ?thesis using g idx n by (simp add: nr3s_upd_seg) (simp add: upd_seg_def)
  qed
qed

text \<open>A cursor that moves forward puts exactly the grains it passes in use.\<close>

lemma seg_div_mod:
  assumes "off < (S :: nat)"
  shows "(i * S + off) div S = i" "(i * S + off) mod S = off"
  using assms by simp_all

lemma advance_cursor:
  assumes inv: "salsa_inv env s" and p: "p \<in># staged (stages s)"
    and w: "unat (nr3s s ! p) \<le> unat w" "unat w \<le> unat (se_seg_size env)"
    and s': "nr3s s' = (nr3s s)[p := w]" "s' = s\<lparr>segs := segs s'\<rparr>" "length (segs s') = length (segs s)"
  shows "salsa_inv env s'" "owned_grains env s \<subseteq> owned_grains env s'"
    "{p * unat (se_seg_size env) + (unat (nr3s s ! p) - unat (se_reserved env))..<p * unat (se_seg_size env) + (unat w - unat (se_reserved env))}
      \<subseteq> owned_grains env s' - owned_grains env s"
proof -
  let ?S = "unat (se_seg_size env)" and ?R = "unat (se_reserved env)"
  have eq: "q_segs s' = q_segs s" "q_rel_segs s' = q_rel_segs s" "alltrs s' = alltrs s" "sa_md s' = sa_md s"
    by (subst s'(2), simp)+
  have st: "stages s' = stages s" by (simp add: stages_def eq)
  note pl = salsa_invD(3) [OF inv staged_place [OF p]] and cur = salsa_invD(4) [OF inv p] and cfg = salsa_cfgD [OF inv]
  have lp: "p < length (nr3s s)" using pl by (simp add: nr3s_def)
  have nth: "nr3s s' ! j = (if j = p then w else nr3s s ! j)" for j using lp by (simp add: s'(1) nth_list_update)
  have cfg': "salsa_cfg_ok env s'" using salsa_invD(1) [OF inv] unfolding salsa_cfg_ok_def eq s'(3) .
  show "salsa_inv env s'"
    using inv w cur cfg' by (auto simp: salsa_inv_def places_def eq st s'(3) nth)
  show "owned_grains env s \<subseteq> owned_grains env s'"
    using w(1) by (auto simp: owned_grains_def owned_grain_def Let_def eq st s'(3) nth split: if_splits)
  have nq: "p \<notin># mset (q_segs s) + mset (q_rel_segs s)"
  proof
    assume "p \<in># mset (q_segs s) + mset (q_rel_segs s)"
    then have "0 < count (mset (q_segs s) + mset (q_rel_segs s)) p" by simp
    moreover have "0 < count (staged (stages s)) p" using p by simp
    ultimately show False using salsa_invD(2) [OF inv, of p] unfolding places_def count_union by linarith
  qed
  show "{p * ?S + (unat (nr3s s ! p) - ?R)..<p * ?S + (unat w - ?R)} \<subseteq> owned_grains env s' - owned_grains env s"
  proof
    fix g assume g: "g \<in> {p * ?S + (unat (nr3s s ! p) - ?R)..<p * ?S + (unat w - ?R)}"
    define off where "off = g - p * ?S"
    have off: "g = p * ?S + off" "unat (nr3s s ! p) - ?R \<le> off" "off < unat w - ?R" using g by (auto simp: off_def)
    then have dm: "g div ?S = p" "g mod ?S = off" using seg_div_mod [of off ?S p] w(2) by auto
    then show "g \<in> owned_grains env s' - owned_grains env s"
      using off cur pl nq p by (auto simp: owned_grains_def owned_grain_def Let_def eq st s'(3) nth)
  qed
qed

subsection \<open>Leaving and entering a fifo\<close>

definition keeps :: "salsa_env \<Rightarrow> salsa \<Rightarrow> salsa \<Rightarrow> bool" where
  "keeps env s s' \<longleftrightarrow> salsa_inv env s' \<and> owned_grains env s \<subseteq> owned_grains env s'
     \<and> grain_size_m (sa_md s') = grain_size_m (sa_md s) \<and> set_mset (places s') \<subseteq> set_mset (places s)"

lemma keeps_trans: "keeps env s t \<Longrightarrow> keeps env t u \<Longrightarrow> keeps env s u"
  by (auto simp: keeps_def)

lemma keeps_same_core: "salsa_inv env s \<Longrightarrow> same_core s s' \<Longrightarrow> keeps env s s'"
  using same_core_inv [of s s' env] by (simp add: keeps_def) (simp add: same_core_def places_def)

lemma count_twice:
  assumes "N = add_mset x M" "x \<in># M"
  shows "2 \<le> count N x"
proof -
  have "1 \<le> count M x" using assms(2) by (simp only: count_greater_eq_one_iff)
  then show ?thesis unfolding assms(1) by (simp only: count_add_mset if_True refl)
qed

lemma unstage_keeps:
  assumes inv: "salsa_inv env s" and a: "a < length (alltrs s)" and p: "p \<in> set (stages s ! a)"
  shows "keeps env s (unstage a p s)"
proof -
  let ?s = "unstage a p s"
  have a': "a < length (stages s)" using a by (simp add: stages_def)
  have st: "staged (stages s) = add_mset p (staged (stages ?s))"
    using staged_remove1 [OF a' p] a by simp
  have pl: "places s = add_mset p (places ?s)" by (simp add: places_def st)
  have cnt: "count (places ?s) i \<le> 1" for i
    using salsa_invD(2) [OF inv, of i] unfolding pl by (auto split: if_splits)
  have gone: "p \<notin># staged (stages ?s)"
  proof
    assume "p \<in># staged (stages ?s)"
    then have "2 \<le> count (places s) p" by (intro count_twice [OF pl]) (simp add: places_def)
    then show False using salsa_invD(2) [OF inv, of p] by simp
  qed
  have cfg: "salsa_cfg_ok env ?s" using salsa_invD(1) [OF inv] unfolding salsa_cfg_ok_def unstage_simps .
  have "salsa_inv env ?s"
    using cnt cfg salsa_invD(3,4) [OF inv] by (auto simp: salsa_inv_def pl st)
  moreover have "owned_grain env ?s g" if "owned_grain env s g" for g
  proof (cases "g div unat (se_seg_size env) = p")
    case True
    have "unat (nr3s s ! p) \<le> unat (se_seg_size env)" using salsa_invD(4) [OF inv, of p] st by simp
    then show ?thesis using that gone True by (auto simp: owned_grain_def Let_def st split: if_splits)
  next
    case False
    then show ?thesis using that by (auto simp: owned_grain_def Let_def st split: if_splits)
  qed
  ultimately show ?thesis by (auto simp: keeps_def owned_grains_def pl)
qed

lemma recycle_keeps:
  assumes inv: "salsa_inv env s" and a: "a < length (alltrs s)" and p: "p \<in> set (stages s ! a)"
  shows "keeps env s (recycle env a p s)" "stages (recycle env a p s) = (stages s)[a := remove1 p (stages s ! a)]"
proof -
  define rem where "rem = (ucast (se_seg_size env - scast (nr3 (segs s ! p))) :: u32)"
  let ?t = "segment_putn p rem s"
  have t: "salsa_inv env ?t" "keeps env s ?t" using keeps_same_core [OF inv, of ?t] by (auto simp: keeps_def)
  have u: "keeps env ?t (unstage a p ?t)" using unstage_keeps [OF t(1)] a p by simp
  then have "keeps env (unstage a p ?t) (put_nr4 a p rem (unstage a p ?t))"
    by (intro keeps_same_core) (simp_all add: keeps_def)
  then show "keeps env s (recycle env a p s)"
    using keeps_trans [OF t(2) keeps_trans [OF u]] by (simp add: recycle_def Let_def rem_def)
  show "stages (recycle env a p s) = (stages s)[a := remove1 p (stages s ! a)]"
    using a by (simp add: recycle_def Let_def)
qed

lemma stage_new:
  assumes inv: "salsa_inv env s" and a: "a < length (alltrs s)"
    and q: "mset (q_segs s) + mset (q_rel_segs s) = add_mset i (mset (q_segs s') + mset (q_rel_segs s'))"
    and s': "nr3s s' = (nr3s s)[i := w]" "unat w = unat (se_reserved env)" "stages s' = (stages s)[a := stages s ! a @ [i]]"
      "length (segs s') = length (segs s)" "length (alltrs s') = length (alltrs s)"
      "grain_size_m (sa_md s') = grain_size_m (sa_md s)"
  shows "salsa_inv env s'" "owned_grains env s' = owned_grains env s" "places s' = places s"
proof -
  have a': "a < length (stages s)" using a by (simp add: stages_def)
  have st: "staged (stages s') = add_mset i (staged (stages s))" using staged_append [OF a'] by (simp add: s'(3))
  show pl: "places s' = places s" using q by (simp add: places_def st)
  have pli: "places s = add_mset i (mset (q_segs s') + mset (q_rel_segs s') + staged (stages s))"
    unfolding places_def q by simp
  then have "i \<in># places s" by simp
  then have i: "i < length (segs s)" by (rule salsa_invD(3) [OF inv])
  have fresh: "i \<notin># staged (stages s)"
  proof
    assume "i \<in># staged (stages s)"
    then have "2 \<le> count (places s) i" by (intro count_twice [OF pli]) simp
    then show False using salsa_invD(2) [OF inv, of i] by simp
  qed
  have once: "i \<notin># mset (q_segs s') + mset (q_rel_segs s')"
  proof
    assume "i \<in># mset (q_segs s') + mset (q_rel_segs s')"
    then have "2 \<le> count (places s) i" by (intro count_twice [OF pli]) simp
    then show False using salsa_invD(2) [OF inv, of i] by simp
  qed
  have nth: "nr3s s' ! j = (if j = i then w else nr3s s ! j)" for j
    using i unfolding s'(1) by (simp add: nth_list_update nr3s_def)
  have "get_seg_md_size (sa_md s') = get_seg_md_size (sa_md s)" by (simp add: get_seg_md_size_def s'(6))
  then have cfg: "salsa_cfg_ok env s'"
    using salsa_invD(1) [OF inv] unfolding salsa_cfg_ok_def s'(4,5,6) by metis
  show "salsa_inv env s'"
    using inv cfg salsa_cfgD [OF inv] fresh by (auto simp: salsa_inv_def pl st nth s'(2,4))
  have qs: "j \<in># mset (q_segs s) + mset (q_rel_segs s) \<longleftrightarrow> j = i \<or> j \<in># mset (q_segs s') + mset (q_rel_segs s')" for j
    unfolding q by simp
  have "owned_grain env s' g \<longleftrightarrow> owned_grain env s g" for g
    unfolding owned_grain_def Let_def qs st nth s'(4) using fresh s'(2) by auto
  then show "owned_grains env s' = owned_grains env s" by (simp add: owned_grains_def)
qed

subsection \<open>Allocation\<close>

definition fresh_range :: "salsa_env \<Rightarrow> salsa \<Rightarrow> salsa \<Rightarrow> nat \<Rightarrow> u64 \<Rightarrow> u64 \<Rightarrow> bool" where
  "fresh_range env s s' p g len \<longleftrightarrow> p < length (segs s) \<and> unat (se_reserved env) \<le> unat g \<and> unat g + unat len \<le> unat (se_seg_size env)
     \<and> {p * unat (se_seg_size env) + (unat g - unat (se_reserved env))..<p * unat (se_seg_size env) + (unat g - unat (se_reserved env)) + unat len}
       \<subseteq> owned_grains env s' - owned_grains env s"

lemma fresh_range_mono:
  assumes "fresh_range env t u p g len" "keeps env s t" "length (segs t) = length (segs s)"
  shows "fresh_range env s u p g len"
  using assms by (auto simp: fresh_range_def keeps_def)

lemma stages_nth: "a < length (alltrs s) \<Longrightarrow> stages s ! a = stage_fifo (alltrs s ! a)"
  by (simp add: stages_def)

lemma next_range_fresh:
  assumes inv: "salsa_inv env s" and p: "p \<in># staged (stages s)" and len: "unat len < 2 ^ 63"
    and r: "allocator_seg_next_range env p len s = (s', g)" and g: "g \<noteq> SALSA_INVAL_GRAIN"
  shows "keeps env s s'" "fresh_range env s s' p g len" "alltrs s' = alltrs s" "length (segs s') = length (segs s)"
proof -
  note cur = salsa_invD(4) [OF inv p] and pl = salsa_invD(3) [OF inv staged_place [OF p]]
  note nr = next_range_ok(2) [OF salsa_cfgD(1) [OF inv] pl _ len r g]
  let ?w = "of_nat (unat g + unat len) :: u32"
  have n: "unat g = unat (nr3s s ! p)" "unat g + unat len \<le> unat (se_seg_size env)" "nr3s s' = (nr3s s)[p := ?w]"
    "s' = s\<lparr>segs := segs s'\<rparr>" "length (segs s') = length (segs s)" using nr cur by blast+
  have w: "unat ?w = unat g + unat len" using n(2) salsa_cfgD(1) [OF inv] by (intro unat_of_nat_small) simp
  note adv = advance_cursor [OF inv p _ _ n(3,4,5), unfolded w]
  have eq: "alltrs s' = alltrs s" "sa_md s' = sa_md s" "places s' = places s" by (subst n(4), simp add: places_def stages_def)+
  show "alltrs s' = alltrs s" "length (segs s') = length (segs s)" by (rule eq(1), rule n(5))
  show "keeps env s s'" using adv(1,2) n(1,2) eq by (simp add: keeps_def)
  have "unat g + unat len - unat (se_reserved env) = unat g - unat (se_reserved env) + unat len" using cur n(1) by simp
  then show "fresh_range env s s' p g len" using adv(3) n(1,2) cur pl by (simp add: fresh_range_def add.assoc)
qed

lemma alloc_scan_ok:
  assumes "salsa_inv env s" "a < length (alltrs s)" "stages s ! a = ps" "unat len < 2 ^ 63"
    "alloc_scan env a len ps s = (s', r)"
  shows "keeps env s s' \<and> length (segs s') = length (segs s) \<and> length (alltrs s') = length (alltrs s)
    \<and> (case r of None \<Rightarrow> stages s' ! a = [] | Some (p, g) \<Rightarrow> fresh_range env s s' p g len)"
  using assms
proof (induction ps arbitrary: s)
  case Nil
  then show ?case by (auto simp: keeps_def)
next
  case (Cons p ps)
  obtain s1 g where n: "allocator_seg_next_range env p len s = (s1, g)" by force
  have a': "a < length (stages s)" using Cons.prems(2) by (simp add: stages_def)
  have p: "p \<in># staged (stages s)" using staged_mem [OF a', of p] Cons.prems(3) by simp
  note pl = salsa_invD(3) [OF Cons.prems(1) staged_place [OF p]] and cur = salsa_invD(4) [OF Cons.prems(1) p]
  show ?case
  proof (cases "g = SALSA_INVAL_GRAIN")
    case True
    then have s1: "s1 = s" using next_range_ok(1) [OF salsa_cfgD(1) [OF Cons.prems(1)] pl _ Cons.prems(4) n] cur by blast
    let ?t = "recycle env a p s"
    note rc = recycle_keeps [OF Cons.prems(1,2), of p]
    have t: "keeps env s ?t" "stages ?t ! a = ps" using rc Cons.prems(3) a' by simp_all
    have "keeps env ?t s' \<and> length (segs s') = length (segs ?t) \<and> length (alltrs s') = length (alltrs ?t)
      \<and> (case r of None \<Rightarrow> stages s' ! a = [] | Some (p, g) \<Rightarrow> fresh_range env ?t s' p g len)"
      using t Cons.prems True n s1 by (intro Cons.IH) (auto simp: keeps_def)
    then show ?thesis
      using t(1) keeps_trans [OF t(1)] fresh_range_mono [OF _ t(1)] by (auto split: option.splits)
  next
    case False
    note fr = next_range_fresh [OF Cons.prems(1) p Cons.prems(4) n False]
    have res: "s' = (if se_seg_size env = g + len then unstage a p s1 else s1)" "r = Some (p, g)"
      using Cons.prems(5) n False by simp_all
    show ?thesis
    proof (cases "se_seg_size env = g + len")
      case True
      have "keeps env s1 (unstage a p s1)"
        using fr(1,3) Cons.prems(2,3) by (intro unstage_keeps) (auto simp: keeps_def stages_def)
      then show ?thesis
        using fr keeps_trans [OF fr(1)] res True by (auto simp: keeps_def fresh_range_def)
    next
      case False
      then show ?thesis using fr res by simp
    qed
  qed
qed

text \<open>The device changes only in the metadata grains of the segment that is taken.\<close>

definition dev_kept :: "salsa_env \<Rightarrow> salsa \<Rightarrow> device \<Rightarrow> device \<Rightarrow> bool" where
  "dev_kept env s dev dev' \<longleftrightarrow>
     (\<forall>b. b div unat (grain_size_m (sa_md s)) \<in> owned_grains env s \<longrightarrow> dev' b = dev b)"

lemma dev_kept_trans:
  assumes "dev_kept env s dev dev1" "dev_kept env t dev1 dev2" "keeps env s t"
  shows "dev_kept env s dev dev2"
  using assms by (auto simp: dev_kept_def keeps_def)

lemma owned_data:
  assumes "salsa_inv env s" "g \<in> owned_grains env s"
  shows "g mod unat (se_seg_size env) + unat (se_reserved env) < unat (se_seg_size env)"
    "g div unat (se_seg_size env) < length (segs s)"
  using assms salsa_invD(4) [OF assms(1), of "g div unat (se_seg_size env)"]
  by (auto simp: owned_grains_def owned_grain_def Let_def split: if_splits)

lemma seg_md_written:
  assumes inv: "salsa_inv env s" and i: "i < length (segs s)" and m: "grain_size_m m = grain_size_m (sa_md s)"
    and p: "persist_seg_md e ok (scm_seg_to_grain env i + se_seg_size env - se_reserved env) ts ty dev m = (dev', m', rc)"
  shows "dev_kept env s dev dev'" "grain_size_m m' = grain_size_m (sa_md s)"
proof -
  let ?S = "unat (se_seg_size env)" and ?R = "unat (se_reserved env)" and ?g = "unat (grain_size_m (sa_md s))"
  let ?gr = "scm_seg_to_grain env i + se_seg_size env - se_reserved env"
  have c: "?S < 2 ^ 31" "0 < ?R" "?R < ?S" "length (segs s) * ?S < 2 ^ 39" "length (segs s) * ?S * ?g \<le> 2 ^ 64" "0 < ?g" "?g < 2 ^ 32"
    and R: "se_reserved env = get_seg_md_size (sa_md s)" using salsa_invD(1) [OF inv] unfolding salsa_cfg_ok_def by blast+
  have "Suc i * ?S \<le> length (segs s) * ?S" using i by (intro mult_le_mono1) simp
  then have top: "i * ?S + ?S \<le> length (segs s) * ?S" by simp
  have is_lt: "i * ?S + ?S < 2 ^ 39" using top c(4) by linarith
  have "i \<le> i * ?S" using c(3) by simp
  then have "i < 2 ^ 39" using is_lt by linarith
  then have "unat (of_nat i :: u64) = i" by (intro unat_of_nat_small) simp
  then have "unat (scm_seg_to_grain env i) = i * ?S"
    unfolding scm_seg_to_grain_def using is_lt by (subst unat_mult_no_wrap) simp_all
  then have "unat (scm_seg_to_grain env i + se_seg_size env) = i * ?S + ?S"
    using is_lt by (subst unat_add_no_wrap) simp_all
  then have gr: "unat ?gr = i * ?S + ?S - ?R" using c(3) by (simp add: unat_sub_no_wrap)
  have "(i * ?S + ?S - ?R) * ?g < (i * ?S + ?S) * ?g" using c(2,3,6) by (intro mult_strict_right_mono) auto
  also have "\<dots> \<le> 2 ^ 64" using mult_le_mono1 [OF top, of ?g] c(5) by linarith
  finally have off: "unat (?gr * grain_size_m (sa_md s)) = (i * ?S + ?S - ?R) * ?g"
    using gr by (subst unat_mult_no_wrap) simp_all
  have gs: "grain_size_m (sa_md s) \<noteq> 0" using c(6) by (simp add: unat_gt_0)
  have "unat SEG_MD_SIZE < 2 ^ 32" by simp
  note pad = md_padded [OF gs c(7) this]
  have len: "unat SEG_MD_SIZE + length (pad_bytes e SEG_MD_SIZE (grain_size_m (sa_md s))) = ?R * ?g"
    using pad(1,2) by (simp add: R get_seg_md_size_def)
  have dev': "dev' = dev \<or> (\<exists>x. length x = ?R * ?g \<and> dev' = dev_write dev ((i * ?S + ?S - ?R) * ?g) x)"
    and m': "grain_size_m m' = grain_size_m (sa_md s)"
    using p off len m by (auto simp: persist_seg_md_def Let_def split: if_splits intro!: exI [of _ "enc_seg_md _ @ _"])
  show "grain_size_m m' = grain_size_m (sa_md s)" by (rule m')
  have "dev' b = dev b" if b: "b div ?g \<in> owned_grains env s" for b
  proof -
    have "\<not> ((i * ?S + ?S - ?R) * ?g \<le> b \<and> b < (i * ?S + ?S - ?R) * ?g + ?R * ?g)"
    proof
      assume r: "(i * ?S + ?S - ?R) * ?g \<le> b \<and> b < (i * ?S + ?S - ?R) * ?g + ?R * ?g"
      have "(i * ?S + ?S - ?R) * ?g + ?R * ?g = (i * ?S + ?S) * ?g" using c(3) by (simp flip: add_mult_distrib)
      then have "i * ?S + ?S - ?R \<le> b div ?g" "b div ?g < i * ?S + ?S"
        using r c(6) less_mult_imp_div_less [of b "i * ?S + ?S" ?g] by (simp_all add: less_eq_div_iff_mult_less_eq)
      moreover define o' where "o' = b div ?g - i * ?S"
      ultimately have "b div ?g = i * ?S + o'" "o' < ?S" "?S \<le> o' + ?R" using c(3) by auto
      then show False using owned_data(1) [OF inv b] by simp
    qed
    then show ?thesis using dev' by (auto simp: dev_write_def)
  qed
  then show "dev_kept env s dev dev'" by (auto simp: dev_kept_def)
qed

lemma reserve_seg_md_ok:
  assumes inv: "salsa_inv env s" and i: "i < length (segs s)" and md2: "grain_size_m (sa_md s2) = grain_size_m (sa_md s)"
    and i2: "i < length (segs s2)" and len: "length (segs s2) = length (segs s)" and n: "nr3s s2 = (nr3s s)[i := 0]"
    and r: "reserve_seg_md env i dev s2 = (s3, dev3)"
  shows "nr3s s3 = (nr3s s)[i := ucast (se_reserved env)] \<and> dev_kept env s dev dev3
    \<and> grain_size_m (sa_md s3) = grain_size_m (sa_md s)"
proof -
  note c = salsa_cfgD [OF inv]
  have R: "0 < se_reserved env" using c(2) by (simp add: word_less_nat_alt)
  obtain t1 grain where nx: "allocator_seg_next_range env i (se_reserved env) s2 = (t1, grain)" by force
  have z: "nr3s s2 ! i = 0" using i unfolding n by (simp add: nr3s_def)
  have small: "unat (se_reserved env) < 2 ^ 63" using c by simp
  note ok = next_range_ok [OF c(1) i2 _ small nx]
  have gr: "grain \<noteq> SALSA_INVAL_GRAIN" using ok(1) z c(3) by fastforce
  have "unat (nr3s s2 ! i) \<le> unat (se_seg_size env)" using z by simp
  note k = ok(2) [OF this gr]
  have t1: "unat grain = 0" using k z by simp
  have t1: "unat grain = 0" "nr3s t1 = (nr3s s2)[i := of_nat (unat grain + unat (se_reserved env))]" "t1 = s2\<lparr>segs := segs t1\<rparr>"
    using t1 k by blast+
  have g0: "grain = 0" using t1(1) by (simp add: word_unat_eq_iff)
  then have n1: "nr3s t1 = (nr3s s)[i := ucast (se_reserved env)]" using t1(2) by (simp add: n)
  have m1: "sa_md t1 = sa_md s2" by (subst t1(3)) simp
  define t3 where "t3 = segment_putn i (ucast (se_reserved env)) (upd_seg i (\<lambda>g. g\<lparr>nr4 := nr4 g - ucast (se_reserved env)\<rparr>) t1)"
  have t3: "nr3s t3 = nr3s t1" "sa_md t3 = sa_md s2" by (simp_all add: t3_def m1)
  have cb: "seg_md_callback env (scm_seg_to_grain env i + se_seg_size env - se_reserved env) dev t3 = (s3, dev3)"
    using r R nx g0 by (simp add: reserve_seg_md_def Let_def t3_def)
  obtain m' rc where p: "persist_seg_md (se_md env) (se_md_io env (sa_ev t3)) (scm_seg_to_grain env i + se_seg_size env - se_reserved env)
      (seg_alloc_nr t3 + 1) (se_type env) dev (sa_md t3) = (dev3, m', rc)" and s3: "s3 = (sa_tick (t3\<lparr>seg_alloc_nr := seg_alloc_nr t3 + 1\<rparr>))\<lparr>sa_md := m'\<rparr>"
    using cb by (auto simp: seg_md_callback_def Let_def sa_tick_def split: prod.splits)
  have "grain_size_m (sa_md t3) = grain_size_m (sa_md s)" by (simp add: t3 md2)
  note w = seg_md_written [OF inv i this p]
  show ?thesis using w n1 t3 by (simp add: s3 sa_tick_def)
qed

lemma allocate_segment_stage:
  assumes inv: "salsa_inv env s" and a: "a < length (alltrs s)"
    and g: "scm_get_free_seg (al_reloc (alltrs s ! a)) s = (s1, Some i)"
    and r: "allocator_allocate_segment env a dev s = (s', dev', rc)"
  shows "rc = E_OK" "i < length (segs s)"
    and "mset (q_segs s) + mset (q_rel_segs s) = add_mset i (mset (q_segs s') + mset (q_rel_segs s'))"
    and "nr3s s' = (nr3s s)[i := ucast (se_reserved env)]" "stages s' = (stages s)[a := stages s ! a @ [i]]"
    and "length (segs s') = length (segs s)" "length (alltrs s') = length (alltrs s)"
    and "grain_size_m (sa_md s') = grain_size_m (sa_md s)" "dev_kept env s dev dev'"
proof -
  have eq: "segs s1 = segs s" "alltrs s1 = alltrs s" "sa_md s1 = sa_md s"
    using g by (auto simp: scm_get_free_seg_def split: list.splits if_splits)
  have q: "mset (q_segs s) + mset (q_rel_segs s) = add_mset i (mset (q_segs s1) + mset (q_rel_segs s1))"
    using scm_get_free_seg_queues(1) [OF g] by (auto split: if_splits)
  then have "i \<in># places s" by (simp add: places_def)
  then show i: "i < length (segs s)" by (rule salsa_invD(3) [OF inv])
  define s2 where "s2 = upd_seg i (\<lambda>g. g\<lparr>sgm_ctlr_id := se_ctlr_id env, sgm_state := SEG_LSA_ALLOCATOR,
                   nr3 := 0, nr4 := ucast (se_seg_size env)\<rparr>) s1"
  obtain s3 dev3 where rs: "reserve_seg_md env i dev s2 = (s3, dev3)" by force
  have res: "s' = upd_alltr a (\<lambda>al. al\<lparr>stage_fifo := stage_fifo al @ [i]\<rparr>) s3" "dev' = dev3" "rc = E_OK"
    using r g rs by (simp_all add: allocator_allocate_segment_def Let_def s2_def)
  have f2: "grain_size_m (sa_md s2) = grain_size_m (sa_md s)" "i < length (segs s2)" "length (segs s2) = length (segs s)"
    using i by (simp_all add: s2_def eq)
  have n2: "nr3s s2 = (nr3s s)[i := 0]" unfolding s2_def nr3s_upd_seg by (simp add: nr3s_def eq)
  note rm = reserve_seg_md_ok [OF inv i f2 n2 rs]
  have q3: "q_segs s3 = q_segs s1" "q_rel_segs s3 = q_rel_segs s1" "alltrs s3 = alltrs s" "length (segs s3) = length (segs s)"
    using reserve_seg_md_simps [of env i dev s2] unfolding rs fst_conv by (simp_all add: s2_def eq)
  show "stages s' = (stages s)[a := stages s ! a @ [i]]"
    using a by (simp add: res stages_def upd_alltr_def q3 map_update)
  show "rc = E_OK" "mset (q_segs s) + mset (q_rel_segs s) = add_mset i (mset (q_segs s') + mset (q_rel_segs s'))"
    "nr3s s' = (nr3s s)[i := ucast (se_reserved env)]" "length (segs s') = length (segs s)" "length (alltrs s') = length (alltrs s)"
    "grain_size_m (sa_md s') = grain_size_m (sa_md s)" "dev_kept env s dev dev'"
    using rm q q3 by (simp_all add: res)
qed

lemma unat_reserved32: "salsa_inv env s \<Longrightarrow> unat (ucast (se_reserved env) :: u32) = unat (se_reserved env)"
  using salsa_cfgD [of env s] by (simp add: unsigned_ucast_eq take_bit_eq_mod)

lemma allocate_segment_ok:
  assumes inv: "salsa_inv env s" and a: "a < length (alltrs s)"
    and r: "allocator_allocate_segment env a dev s = (s', dev', rc)"
  shows "keeps env s s' \<and> dev_kept env s dev dev' \<and> length (segs s') = length (segs s) \<and> length (alltrs s') = length (alltrs s)
    \<and> owned_grains env s' = owned_grains env s"
proof -
  obtain s1 fi where g: "scm_get_free_seg (al_reloc (alltrs s ! a)) s = (s1, fi)" by force
  show ?thesis
  proof (cases fi)
    case None
    then have "s1 = s" using scm_get_free_seg_queues(2) g by blast
    then have "s' = s" "dev' = dev" using r None g by (simp_all add: allocator_allocate_segment_def)
    then show ?thesis using inv by (simp add: keeps_def dev_kept_def)
  next
    case (Some i)
    note st = allocate_segment_stage [OF inv a g [unfolded Some] r]
    note new = stage_new [OF inv a st(3,4) unat_reserved32 [OF inv] st(5-8)]
    show ?thesis using new st by (simp add: keeps_def)
  qed
qed

end
