(* ===== verification/Salsa_Grains.thy ===== *)
theory Salsa_Grains
  imports Salsa_Inv
begin

section \<open>What the allocator hands out\<close>

text \<open>
  The operations of the controller: each keeps the ownership invariant, an allocation
  returns a range of grains that was not in use and is in use afterwards, and the device
  changes only in the metadata grains of segments that were free.
\<close>

definition alloc_ok :: "salsa_env \<Rightarrow> u64 \<Rightarrow> device \<Rightarrow> salsa \<Rightarrow> device \<Rightarrow> salsa \<Rightarrow> bool" where
  "alloc_ok env len dev s dev' s' \<longleftrightarrow> keeps env s s' \<and> dev_kept env s dev dev'"

definition granted :: "salsa_env \<Rightarrow> salsa \<Rightarrow> salsa \<Rightarrow> u64 \<Rightarrow> u64 \<Rightarrow> bool" where
  "granted env s s' grain len \<longleftrightarrow>
     {unat grain..<unat grain + unat len} \<subseteq> owned_grains env s' - owned_grains env s
     \<and> unat grain mod unat (se_seg_size env) + unat len + unat (se_reserved env) \<le> unat (se_seg_size env)"

lemma fresh_range_grain:
  assumes inv: "salsa_inv env s" and f: "fresh_range env s s' p g len"
  defines "gr \<equiv> scm_seg_to_grain env p + g - se_reserved env"
  shows "gr \<noteq> SALSA_INVAL_GRAIN" "granted env s s' gr len"
proof -
  let ?S = "unat (se_seg_size env)" and ?R = "unat (se_reserved env)"
  have p: "p < length (segs s)" and g: "?R \<le> unat g" "unat g + unat len \<le> ?S" using f by (auto simp: fresh_range_def)
  have c: "length (segs s) * ?S < 2 ^ 39" using salsa_invD(1) [OF inv] unfolding salsa_cfg_ok_def by blast
  have "Suc p * ?S \<le> length (segs s) * ?S" using p by (intro mult_le_mono1) simp
  then have top: "p * ?S + ?S < 2 ^ 39" using c by simp
  have "p \<le> p * ?S" using salsa_cfgD [OF inv] by simp
  then have "p < 2 ^ 39" using top by linarith
  then have "unat (of_nat p :: u64) = p" by (intro unat_of_nat_small) simp
  then have m: "unat (scm_seg_to_grain env p) = p * ?S"
    unfolding scm_seg_to_grain_def using top by (subst unat_mult_no_wrap) simp_all
  then have "unat (scm_seg_to_grain env p + g) = p * ?S + unat g"
    using top g by (subst unat_add_no_wrap) simp_all
  then have gr: "unat gr = p * ?S + (unat g - ?R)" using g(1) by (simp add: gr_def unat_sub_no_wrap)
  show "gr \<noteq> SALSA_INVAL_GRAIN"
  proof
    assume "gr = SALSA_INVAL_GRAIN"
    then have "unat gr = 2 ^ 64 - 1"
      by (simp add: SALSA_INVAL_GRAIN_def unsigned_minus_1_eq_mask mask_eq_exp_minus_1)
    then show False using gr top g by simp
  qed
  have "unat g - ?R < ?S" using g salsa_cfgD [OF inv] by simp
  then have "unat gr mod ?S = unat g - ?R" by (simp add: gr)
  then show "granted env s s' gr len" using f g by (simp add: granted_def gr fresh_range_def)
qed

lemma granted_mono: "granted env t u g len \<Longrightarrow> keeps env s t \<Longrightarrow> granted env s u g len"
  by (auto simp: granted_def keeps_def)

lemma allocate_grains_ok:
  assumes "salsa_inv env s" "a < length (alltrs s)" "unat len < 2 ^ 63"
    "allocator_allocate_grains env a len dev s = (s', dev', grain)"
  shows "alloc_ok env len dev s dev' s' \<and> (grain \<noteq> SALSA_INVAL_GRAIN \<longrightarrow> granted env s s' grain len)"
  using assms
proof (induction env a len dev s arbitrary: s' dev' grain rule: allocator_allocate_grains.induct)
  case (1 env a len dev s)
  obtain s1 r where sc: "alloc_scan env a len (stage_fifo (alltrs s ! a)) s = (s1, r)" by force
  have sa: "keeps env s s1" "length (alltrs s1) = length (alltrs s)"
    "case r of None \<Rightarrow> stages s1 ! a = [] | Some (p, g) \<Rightarrow> fresh_range env s s1 p g len"
    using alloc_scan_ok [OF "1.prems"(1,2) stages_nth [OF "1.prems"(2)] "1.prems"(3) sc] by auto
  note unf = "1.prems"(4) [unfolded allocator_allocate_grains.simps [of env a len dev s] sc prod.case]
  show ?case
  proof (cases r)
    case (Some pg)
    obtain p g where pg: "pg = (p, g)" by force
    then have "fresh_range env s s1 p g len" using sa Some by simp
    note fg = fresh_range_grain [OF "1.prems"(1) this]
    show ?thesis using unf fg sa(1) by (simp add: Some pg alloc_ok_def dev_kept_def)
  next
    case None
    have "stage_fifo (alltrs s1 ! a) = []" using sa None "1.prems"(2) by (simp add: stages_nth)
    moreover obtain s2 dev2 rc where al: "allocator_allocate_segment env a dev s1 = (s2, dev2, rc)" by (metis prod_cases3)
    ultimately have res: "(if rc = E_OK then allocator_allocate_grains env a len dev2 s2 else (s2, dev2, SALSA_INVAL_GRAIN)) = (s', dev', grain)"
      using unf by (simp add: None)
    have inv1: "salsa_inv env s1" using sa(1) by (simp add: keeps_def)
    have a1: "a < length (alltrs s1)" using sa "1.prems"(2) by simp
    have k2: "keeps env s1 s2" "dev_kept env s1 dev dev2" "length (alltrs s2) = length (alltrs s1)"
      using allocate_segment_ok [OF inv1 a1 al] by auto
    have k: "keeps env s s2" "dev_kept env s dev dev2"
      using keeps_trans [OF sa(1) k2(1)] k2(2) sa(1) by (auto simp: dev_kept_def keeps_def)
    show ?thesis
    proof (cases "rc = E_OK")
      case False
      then show ?thesis using res k by (simp add: alloc_ok_def)
    next
      case True
      have "alloc_ok env len dev2 s2 dev' s' \<and> (grain \<noteq> SALSA_INVAL_GRAIN \<longrightarrow> granted env s2 s' grain len)"
        using "1.IH" [OF sc [symmetric] None _ al [symmetric] refl True] res True k k2 a1 "1.prems"(3)
          \<open>stage_fifo (alltrs s1 ! a) = []\<close> by (simp add: keeps_def)
      then show ?thesis
        using k keeps_trans [OF k(1)] dev_kept_trans [OF k(2) _ k(1)] granted_mono [OF _ k(1)] by (auto simp: alloc_ok_def)
    qed
  qed
qed

lemma stream_to_alltr_less:
  assumes "salsa_inv env s"
  shows "stream_to_alltr env st b < length (alltrs s)"
proof -
  have c: "0 < unat (se_stream_nr env)" "length (alltrs s) = unat (se_stream_nr env) + unat (se_rel_stream_nr env)"
    using salsa_invD(1) [OF assms] unfolding salsa_cfg_ok_def by blast+
  have "unat (st mod n) < unat n" if "n \<noteq> 0" for n :: u32
    using that by (simp add: unat_mod unat_gt_0)
  moreover have "se_stream_nr env \<noteq> 0" using c(1) by (simp add: unat_gt_0)
  ultimately show ?thesis using c by (auto simp: stream_to_alltr_def intro: trans_less_add1)
qed

lemma allocate_no_wait_ok:
  assumes inv: "salsa_inv env s" and len: "unat len < 2 ^ 63"
    and r: "allocate_grains_no_wait env len st b dev s = (s', dev', rc, grain)"
  shows "alloc_ok env len dev s dev' s' \<and> (rc = E_OK \<longrightarrow> granted env s s' grain len)"
proof -
  obtain s1 rc1 where pv: "provision_grains env len b s = (s1, rc1)" by force
  have sc: "same_core s s1" using same_core_steps(4) [of s env len b] pv by simp
  have k1: "keeps env s s1" by (rule keeps_same_core [OF inv sc])
  have inv1: "salsa_inv env s1" using k1 by (simp add: keeps_def)
  have id: "alloc_ok env len dev s dev s" "alloc_ok env len dev s dev s1" using inv k1 by (simp_all add: alloc_ok_def keeps_def dev_kept_def)
  obtain s2 dev2 g where al: "allocator_allocate_grains env (stream_to_alltr env st b) len dev s1 = (s2, dev2, g)" by (metis prod_cases3)
  note ok = allocate_grains_ok [OF inv1 stream_to_alltr_less [OF inv1] len al]
  have k2: "keeps env s s2" "dev_kept env s dev dev2"
    using ok keeps_trans [OF k1] same_core_inv(2) [OF sc, of env] sc by (auto simp: alloc_ok_def dev_kept_def same_core_def)
  have up: "keeps env s (unprovision_grains len s2)"
    using keeps_trans [OF k2(1) keeps_same_core [OF _ same_core_steps(3)]] k2(1) by (simp add: keeps_def)
  show ?thesis
    using r id k2 up ok granted_mono [OF _ k1]
    by (auto simp: allocate_grains_no_wait_def pv al alloc_ok_def split: if_splits)
qed

text \<open>The second attempt starts in the state that the first one left.\<close>

lemma salsa_allocate_ok:
  assumes inv: "salsa_inv env s" and len: "unat len < 2 ^ 63"
    and r: "allocate_grains env len st b dev s = (s', dev', rc, grain)"
  shows "alloc_ok env len dev s dev' s' \<and> (rc = E_OK \<longrightarrow> granted env s s' grain len)"
proof -
  obtain s1 dev1 rc1 g1 where a1: "allocate_grains_no_wait env len st b dev s = (s1, dev1, rc1, g1)" by (metis prod_cases4)
  note ok1 = allocate_no_wait_ok [OF inv len a1]
  show ?thesis
  proof (cases "rc1 = EAGAIN")
    case True
    then have a2: "allocate_grains_no_wait env len st b dev1 s1 = (s', dev', rc, grain)"
      using r by (simp add: allocate_grains_def a1)
    have k1: "keeps env s s1" "dev_kept env s dev dev1" "salsa_inv env s1" using ok1 by (auto simp: alloc_ok_def keeps_def)
    note ok2 = allocate_no_wait_ok [OF k1(3) len a2]
    show ?thesis
      using ok2 keeps_trans [OF k1(1)] dev_kept_trans [OF k1(2) _ k1(1)] granted_mono [OF _ k1(1)] by (auto simp: alloc_ok_def)
  next
    case False
    then show ?thesis using r ok1 by (simp add: allocate_grains_def a1)
  qed
qed

lemma drain_keeps:
  assumes inv: "salsa_inv env s"
  shows "keeps env s (fst (drain_remaining_grains env st b s))"
proof -
  let ?a = "stream_to_alltr env st b"
  have a: "?a < length (alltrs s)" by (rule stream_to_alltr_less [OF inv])
  show ?thesis
  proof (cases "stage_fifo (alltrs s ! ?a)")
    case Nil
    then show ?thesis using inv by (simp add: drain_remaining_grains_def allocator_drain_remaining_grains_def keeps_def)
  next
    case (Cons p ps)
    then have "keeps env s (recycle env ?a p s)" using a by (intro recycle_keeps(1) [OF inv a]) (simp add: stages_nth)
    then show ?thesis using Cons by (simp add: drain_remaining_grains_def allocator_drain_remaining_grains_def)
  qed
qed

subsection \<open>An allocation succeeds while there is a free segment\<close>

lemma alloc_scan_new:
  assumes inv: "salsa_inv env s" and a: "a < length (alltrs s)" and st: "stages s ! a = [i]"
    and cur: "unat (nr3s s ! i) = unat (se_reserved env)" and len: "unat len < 2 ^ 63"
    and fit: "unat (se_reserved env) + unat len \<le> unat (se_seg_size env)"
  shows "\<exists>s' g. alloc_scan env a len [i] s = (s', Some (i, g))"
proof -
  obtain s1 g where n: "allocator_seg_next_range env i len s = (s1, g)" by force
  have a': "a < length (stages s)" using a by (simp add: stages_def)
  have p: "i \<in># staged (stages s)" using staged_mem [OF a', of i] st by simp
  note pl = salsa_invD(3) [OF inv staged_place [OF p]]
  have "g \<noteq> SALSA_INVAL_GRAIN"
    using next_range_ok(1) [OF salsa_cfgD(1) [OF inv] pl _ len n] cur fit salsa_cfgD [OF inv] by fastforce
  then show ?thesis by (simp add: n)
qed

lemma allocator_succeeds:
  assumes inv: "salsa_inv env s" and a: "a < length (alltrs s)" and len: "unat len < 2 ^ 63"
    and fit: "unat (se_reserved env) + unat len \<le> unat (se_seg_size env)"
    and free: "(if al_reloc (alltrs s ! a) then q_rel_segs s else q_segs s) \<noteq> []"
  shows "snd (snd (allocator_allocate_grains env a len dev s)) \<noteq> SALSA_INVAL_GRAIN"
proof -
  obtain s1 r where sc: "alloc_scan env a len (stage_fifo (alltrs s ! a)) s = (s1, r)" by force
  note sa = alloc_scan_ok [OF inv a stages_nth [OF a] len sc]
  show ?thesis
  proof (cases r)
    case (Some pg)
    then obtain p g where "r = Some (p, g)" by (cases pg) auto
    then show ?thesis
      using sa fresh_range_grain(1) [OF inv] by (auto simp: allocator_allocate_grains.simps [of env a len dev s] sc)
  next
    case None
    note q = alloc_scan_queues [OF sc]
    have inv1: "salsa_inv env s1" and a1: "a < length (alltrs s1)" and st1: "stages s1 ! a = []"
      using sa None a by (auto simp: keeps_def)
    obtain s1' i where g: "scm_get_free_seg (al_reloc (alltrs s1 ! a)) s1 = (s1', Some i)"
      using free q by (auto simp: scm_get_free_seg_def neq_Nil_conv split: if_splits)
    obtain s2 dev2 rc where al: "allocator_allocate_segment env a dev s1 = (s2, dev2, rc)" by (metis prod_cases3)
    note ns = allocate_segment_stage [OF inv1 a1 g al]
    have k: "salsa_inv env s2" "length (alltrs s2) = length (alltrs s1)"
      using allocate_segment_ok [OF inv1 a1 al] by (auto simp: keeps_def)
    have a2: "a < length (alltrs s2)" using a1 k by simp
    have st2: "stages s2 ! a = [i]" using ns(5) st1 a1 by (simp add: stages_def)
    have cur: "unat (nr3s s2 ! i) = unat (se_reserved env)"
      using ns(2,4) unat_reserved32 [OF inv1] by (simp add: nr3s_def)
    obtain s3 g3 where sc2: "alloc_scan env a len [i] s2 = (s3, Some (i, g3))"
      using alloc_scan_new [OF k(1) a2 st2 cur len fit] by blast
    have fr: "fresh_range env s2 s3 i g3 len" using alloc_scan_ok [OF k(1) a2 st2 len sc2] by simp
    have f2: "stage_fifo (alltrs s2 ! a) = [i]" "stage_fifo (alltrs s1 ! a) = []"
      using st2 st1 stages_nth [OF a2] stages_nth [OF a1] by simp_all
    have "snd (snd (allocator_allocate_grains env a len dev2 s2)) \<noteq> SALSA_INVAL_GRAIN"
      using fresh_range_grain(1) [OF k(1) fr] sc2
      by (simp add: allocator_allocate_grains.simps [of env a len dev2 s2] f2 del: alloc_scan.simps)
    then show ?thesis
      using sc None al ns(1) by (simp add: allocator_allocate_grains.simps [of env a len dev s] f2)
  qed
qed

definition space_for :: "salsa_env \<Rightarrow> u64 \<Rightarrow> salsa \<Rightarrow> bool" where
  "space_for env len s \<longleftrightarrow> unat len + unat (se_reserved env) \<le> unat (se_seg_size env) \<and> \<not> se_critical env (sa_ev s)
     \<and> unat (used_capacity s) + unat len \<le> unat (se_max_capacity env) \<and> q_segs s \<noteq> []
     \<and> (\<forall>a < length (alltrs s). a < unat (se_stream_nr env) \<longrightarrow> \<not> al_reloc (alltrs s ! a))"

lemma allocate_succeeds:
  assumes inv: "salsa_inv env s" and sp: "space_for env len s"
  shows "fst (snd (snd (allocate_grains env len st False dev s))) = E_OK"
proof -
  let ?a = "stream_to_alltr env st False"
  have fit: "unat (se_reserved env) + unat len \<le> unat (se_seg_size env)" using sp by (simp add: space_for_def add.commute)
  then have len: "unat len < 2 ^ 63" using salsa_cfgD [OF inv] by simp
  have "unat (len + se_reserved env) = unat len + unat (se_reserved env)"
    using fit salsa_cfgD [OF inv] by (intro unat_add_no_wrap) simp
  then have size: "\<not> se_seg_size env < len + se_reserved env" using fit by (simp add: word_less_nat_alt)
  have "unat (used_capacity s) + unat len < 2 ^ 64"
    using sp unat_lt_two_p [of "se_max_capacity env"] by (simp add: space_for_def)
  then have "unat (used_capacity s + len) = unat (used_capacity s) + unat len" by (intro unat_add_no_wrap) simp
  then obtain s1 where pv: "provision_grains env len False s = (s1, E_OK)"
    and s1: "q_segs s1 = q_segs s" "alltrs s1 = alltrs s"
    using sp by (auto simp: space_for_def provision_grains_def Let_def word_less_nat_alt sa_tick_def)
  have inv1: "salsa_inv env s1"
    using keeps_same_core [OF inv same_core_steps(4) [of s env len False]] pv by (simp add: keeps_def)
  have a: "?a < length (alltrs s1)" by (rule stream_to_alltr_less [OF inv1])
  have "?a < unat (se_stream_nr env)"
    using salsa_invD(1) [OF inv] by (auto simp: salsa_cfg_ok_def stream_to_alltr_def unat_mod)
  then have "\<not> al_reloc (alltrs s1 ! ?a)" using sp a s1 by (simp add: space_for_def)
  then have "snd (snd (allocator_allocate_grains env ?a len dev s1)) \<noteq> SALSA_INVAL_GRAIN"
    using sp s1 by (intro allocator_succeeds [OF inv1 a len fit]) (simp add: space_for_def)
  then show ?thesis by (simp add: allocate_grains_def allocate_grains_no_wait_def size pv case_prod_unfold)
qed

end
