(* ===== verification/KV_Salsa.thy ===== *)
theory KV_Salsa
  imports KV_Ops Salsa_Grains
begin

section \<open>The key-value store on the log-structured allocator\<close>

text \<open>
  uDepotSalsa is a client of its SalsaCtlr base class: it allocates, drains, releases
  and invalidates grains through it, the operations in the normal streams and the
  garbage collection in the relocation streams.
\<close>

definition salsa_op_env :: "bool \<Rightarrow> salsa_env \<Rightarrow> salsa kv_env \<Rightarrow> salsa kv_env" where
  "salsa_op_env is_reloc se env = env\<lparr>
     ev_allocate := (\<lambda>s dev len stream. allocate_grains se len stream is_reloc dev s),
     ev_drain := (\<lambda>s stream. fst (drain_remaining_grains se stream is_reloc s)),
     ev_invalidate := (\<lambda>s grain len. invalidate_grains se grain len s),
     ev_release := (\<lambda>s grain len stream. release_grains se grain len stream is_reloc s),
     ev_seg_ts := (\<lambda>s seg_idx. get_seg_ts (sa_md s) seg_idx)\<rparr>"

definition salsa_kv_env :: "salsa_env \<Rightarrow> salsa kv_env \<Rightarrow> salsa kv_env" where
  "salsa_kv_env se env = salsa_op_env False se env"

definition salsa_gc_env :: "salsa_env \<Rightarrow> salsa kv_env \<Rightarrow> salsa kv_env" where
  "salsa_gc_env se env = salsa_op_env True se env"

definition salsa_kv_inv :: "salsa_env \<Rightarrow> salsa kv_env \<Rightarrow> salsa \<Rightarrow> bool" where
  "salsa_kv_inv se env s \<longleftrightarrow> salsa_inv se s \<and> grain_size_m (sa_md s) = gsize env"

lemma salsa_op_env_simps [simp]:
  "ev_allocate (salsa_op_env rl se env) s dev len st = allocate_grains se len st rl dev s"
  "ev_drain (salsa_op_env rl se env) s st = fst (drain_remaining_grains se st rl s)"
  "ev_invalidate (salsa_op_env rl se env) s g len = invalidate_grains se g len s"
  "ev_release (salsa_op_env rl se env) s g len st = release_grains se g len st rl s"
  "gsize (salsa_op_env rl se env) = gsize env"
  by (simp_all add: salsa_op_env_def gsize_def)

lemma salsa_kv_env_simps [simp]:
  "ev_allocate (salsa_kv_env se env) s dev len st = allocate_grains se len st False dev s"
  "ev_drain (salsa_kv_env se env) s st = fst (drain_remaining_grains se st False s)"
  "ev_invalidate (salsa_kv_env se env) s g len = invalidate_grains se g len s"
  "ev_release (salsa_kv_env se env) s g len st = release_grains se g len st False s"
  "gsize (salsa_kv_env se env) = gsize env"
  by (simp_all add: salsa_kv_env_def)

text \<open>
  A segment being collected is in no queue and in no stage, so no allocation can
  reach it; \<open>salsa_kv_out X\<close> adds that to the invariant for the segments of X.
\<close>

definition salsa_kv_out :: "nat set \<Rightarrow> salsa_env \<Rightarrow> salsa kv_env \<Rightarrow> salsa \<Rightarrow> bool" where
  "salsa_kv_out X se env s \<longleftrightarrow> salsa_kv_inv se env s \<and> X \<inter> set_mset (places s) = {}"

lemma salsa_kv_out_inv: "salsa_kv_out X se env s \<Longrightarrow> salsa_kv_inv se env s \<and> salsa_inv se s \<and> grain_size_m (sa_md s) = gsize env"
  by (simp add: salsa_kv_out_def salsa_kv_inv_def)

lemma salsa_kv_out_empty: "salsa_kv_out {} se env = salsa_kv_inv se env"
  by (simp add: salsa_kv_out_def fun_eq_iff)

lemma salsa_kv_keeps:
  "salsa_kv_out X se env s \<Longrightarrow> keeps se s s' \<Longrightarrow> salsa_kv_out X se env s' \<and> owned_grains se s \<subseteq> owned_grains se s'"
  by (auto simp: salsa_kv_inv_def salsa_kv_out_def keeps_def)

lemma owned_grains_small:
  assumes inv: "salsa_inv se s" and g: "g \<in> owned_grains se s"
  shows "g < 2 ^ 39 - 1" "g * unat (grain_size_m (sa_md s)) < 2 ^ 64"
proof -
  let ?S = "unat (se_seg_size se)" and ?n = "length (segs s)" and ?gs = "unat (grain_size_m (sa_md s))"
  have c: "?n * ?S < 2 ^ 39" "?n * ?S * ?gs \<le> 2 ^ 64" "0 < ?gs"
    using salsa_invD(1) [OF inv] unfolding salsa_cfg_ok_def by blast+
  have "Suc (g div ?S) * ?S \<le> ?n * ?S" using owned_data(2) [OF inv g] by (intro mult_le_mono1) simp
  moreover have "g mod ?S < ?S" using salsa_cfgD [OF inv] by simp
  ultimately have b: "g < ?n * ?S" using div_mult_mod_eq [of g ?S] unfolding mult_Suc by linarith
  have "Suc g \<noteq> ?n * ?S"
  proof
    assume e: "Suc g = ?n * ?S"
    have "Suc g mod ?S = 0" by (simp add: e)
    then have "Suc (g mod ?S) = ?S" by (simp add: mod_Suc split: if_splits)
    then show False using owned_data(1) [OF inv g] salsa_invD(1) [OF inv] by (auto simp: salsa_cfg_ok_def)
  qed
  then have "Suc g < 2 ^ 39" using b c(1) by linarith
  then show "g < 2 ^ 39 - 1" by simp
  show "g * ?gs < 2 ^ 64" using mult_less_mono1 [OF b c(3)] c(2) by linarith
qed

lemma salsa_grain_alloc: "grain_alloc (salsa_op_env rl se env) (salsa_kv_out X se env) (owned_grains se)"
proof unfold_locales
  fix seg dev nr st seg' dev' err grain
  assume inv: "salsa_kv_out X se env seg" and nr: "unat nr < 2 ^ 63"
    and al: "ev_allocate (salsa_op_env rl se env) seg dev nr st = (seg', dev', err, grain)"
  have ok: "alloc_ok se nr dev seg dev' seg' \<and> (err = E_OK \<longrightarrow> granted se seg seg' grain nr)"
    using salsa_kv_out_inv [OF inv] nr al by (intro salsa_allocate_ok) auto
  show "salsa_kv_out X se env seg' \<and> owned_grains se seg \<subseteq> owned_grains se seg'"
    using ok salsa_kv_keeps [OF inv] by (simp add: alloc_ok_def)
  show "dev' b = dev b" if "b \<in> grain_bytes (salsa_op_env rl se env) (owned_grains se seg)" for b
    using ok that salsa_kv_out_inv [OF inv] by (simp add: alloc_ok_def dev_kept_def grain_bytes_def)
next
  fix seg dev nr st seg' dev' grain
  assume inv: "salsa_kv_out X se env seg" and nr: "unat nr < 2 ^ 63"
    and al: "ev_allocate (salsa_op_env rl se env) seg dev nr st = (seg', dev', E_OK, grain)"
  show "{unat grain..<unat grain + unat nr} \<subseteq> owned_grains se seg' - owned_grains se seg"
    using salsa_allocate_ok [of se seg nr st rl dev seg' dev' E_OK grain] salsa_kv_out_inv [OF inv] nr al
    by (simp add: granted_def)
next
  fix seg g
  assume inv: "salsa_kv_out X se env seg" "g \<in> owned_grains se seg"
  then show "g < 2 ^ 39 - 1 \<and> g * unat (gsize (salsa_op_env rl se env)) < 2 ^ 64"
    using owned_grains_small [of se seg g] salsa_kv_out_inv [OF inv(1)] by simp
next
  fix seg st
  assume inv: "salsa_kv_out X se env seg"
  show "salsa_kv_out X se env (ev_drain (salsa_op_env rl se env) seg st) \<and> owned_grains se seg \<subseteq> owned_grains se (ev_drain (salsa_op_env rl se env) seg st)"
    using salsa_kv_keeps [OF inv drain_keeps] salsa_kv_out_inv [OF inv] by simp
next
  fix seg grain nr
  assume inv: "salsa_kv_out X se env seg"
  show "salsa_kv_out X se env (ev_invalidate (salsa_op_env rl se env) seg grain nr)
      \<and> owned_grains se seg \<subseteq> owned_grains se (ev_invalidate (salsa_op_env rl se env) seg grain nr)"
    using salsa_kv_keeps [OF inv keeps_same_core [OF _ same_core_steps(5)]] salsa_kv_out_inv [OF inv] by simp
next
  fix seg grain nr st
  assume inv: "salsa_kv_out X se env seg"
  show "salsa_kv_out X se env (ev_release (salsa_op_env rl se env) seg grain nr st)
      \<and> owned_grains se seg \<subseteq> owned_grains se (ev_release (salsa_op_env rl se env) seg grain nr st)"
    using salsa_kv_keeps [OF inv keeps_same_core [OF _ same_core_steps(6)]] salsa_kv_out_inv [OF inv] by simp
qed

interpretation kvs: grain_alloc "salsa_kv_env se env" "salsa_kv_inv se env" "owned_grains se"
  for se env
  unfolding salsa_kv_env_def by (rule salsa_grain_alloc [of _ _ _ "{}", unfolded salsa_kv_out_empty])

subsection \<open>The store invariant\<close>

definition salsa_kv_safe :: "salsa_env \<Rightarrow> salsa kv_env \<Rightarrow> salsa kv \<Rightarrow> bool" where
  "salsa_kv_safe se env s \<longleftrightarrow> kv_inv (salsa_kv_env se env) s \<and> counts_ok (salsa_kv_env se env) s
     \<and> salsa_kv_inv se env (kv_seg s)
     \<and> (\<forall>x \<in># kv_content s. rec_range (salsa_kv_env se env) (kv_dev s) (info_pba x) \<subseteq> owned_grains se (kv_seg s))"

lemma salsa_kv_safe_eq: "salsa_kv_safe se env s = kvs.kv_safe se env s"
  unfolding salsa_kv_safe_def kvs.kv_safe_def ..

lemma ev_hash_salsa [simp]: "ev_hash (salsa_kv_env se env) = ev_hash env"
  by (simp add: salsa_kv_env_def salsa_op_env_def)

lemma io_outcomes_salsa [simp]:
  "ev_mem_ok (salsa_kv_env se env) = ev_mem_ok env" "ev_room_ok (salsa_kv_env se env) = ev_room_ok env"
  "ev_wr_err (salsa_kv_env se env) = ev_wr_err env" "ev_rd_err (salsa_kv_env se env) = ev_rd_err env"
  "io_failure (salsa_kv_env se env) = io_failure env"
  by (simp_all add: salsa_kv_env_def salsa_op_env_def io_failure_def fun_eq_iff)

lemma kv_put_step:
  assumes "salsa_kv_safe se env s" "length key < 2 ^ 16" "length key + length val < 2 ^ 32"
    "put_room (kv_map s) (ev_hash env key) op" "kv_put (salsa_kv_env se env) key val op s = Some (s', rc)"
  shows "salsa_kv_safe se env s'
    \<and> (if rc = E_OK then op_allows op (kv_abs (salsa_kv_env se env) s key \<noteq> None)
           \<and> kv_abs (salsa_kv_env se env) s' = (kv_abs (salsa_kv_env se env) s)(key \<mapsto> val)
       else kv_abs (salsa_kv_env se env) s' = kv_abs (salsa_kv_env se env) s)"
  using kvs.put_loop_ok [of se env s key val op s' rc] assms
  by (simp add: salsa_kv_safe_eq kv_put_def kvs.put_result_def del: not_None_eq)

lemma kv_del_step:
  assumes "salsa_kv_safe se env s" "length key < 2 ^ 16" "kv_del (salsa_kv_env se env) key s = Some (s', rc)"
  shows "salsa_kv_safe se env s'
    \<and> (if rc = E_OK then kv_abs (salsa_kv_env se env) s key \<noteq> None
           \<and> kv_abs (salsa_kv_env se env) s' = (kv_abs (salsa_kv_env se env) s)(key := None)
       else kv_abs (salsa_kv_env se env) s' = kv_abs (salsa_kv_env se env) s)"
  using kvs.del_loop_ok [of se env s key s' rc] assms
  by (simp add: salsa_kv_safe_eq kv_del_def kvs.del_result_def del: not_None_eq)

lemma salsa_kv_safe_same_store:
  assumes "same_store s s'" "salsa_kv_safe se env s"
  shows "salsa_kv_safe se env s'" "kv_abs (salsa_kv_env se env) s' = kv_abs (salsa_kv_env se env) s"
  using kvs.kv_safe_same_store [OF assms(1)] assms(2) by (simp_all add: salsa_kv_safe_eq)

lemma kv_get_step:
  assumes "salsa_kv_safe se env s" "kv_get (salsa_kv_env se env) key s = Some (s', rc, val)"
  shows "salsa_kv_safe se env s' \<and> kv_abs (salsa_kv_env se env) s' = kv_abs (salsa_kv_env se env) s
    \<and> (rc = E_OK \<and> kv_abs (salsa_kv_env se env) s key = Some val
        \<or> rc \<in> {ENODATA, ENOSPC} \<and> kv_abs (salsa_kv_env se env) s key = None \<or> io_failure env rc)"
  using kv_get_ok [of "salsa_kv_env se env" s key] salsa_kv_safe_same_store [of s s' se env] assms
  by (auto simp: salsa_kv_safe_def)

lemma kv_exists_step:
  assumes "salsa_kv_safe se env s" "length key < 2 ^ 32" "kv_exists (salsa_kv_env se env) key s = Some (s', rc, vs)"
  shows "salsa_kv_safe se env s' \<and> kv_abs (salsa_kv_env se env) s' = kv_abs (salsa_kv_env se env) s
    \<and> (rc = E_OK \<and> (\<exists>val. kv_abs (salsa_kv_env se env) s key = Some val \<and> length val = unat vs)
        \<or> rc \<in> {ENODATA, ENOSPC} \<and> kv_abs (salsa_kv_env se env) s key = None \<or> io_failure env rc)"
  using kv_exists_ok [of "salsa_kv_env se env" s key] salsa_kv_safe_same_store [of s s' se env] assms
  by (auto simp: salsa_kv_safe_def)

subsection \<open>A put returns\<close>

definition io_ok :: "salsa kv_env \<Rightarrow> bool" where
  "io_ok env \<longleftrightarrow> (\<forall>n. ev_mem_ok env n \<and> ev_room_ok env n \<and> ev_wr_err env n = E_OK \<and> ev_rd_err env n = E_OK)"

lemma io_ok_failure [simp]: "io_ok env \<Longrightarrow> \<not> io_failure env rc"
  by (auto simp: io_ok_def io_failure_def)

definition record_grains_nr :: "salsa kv_env \<Rightarrow> bytes \<Rightarrow> bytes \<Rightarrow> u64" where
  "record_grains_nr env key val = udiv_round_up (of_nat (length key + length val + PREFIX_SIZE + SUFFIX_SIZE)) (gsize env)"

lemma put_io_succeeds:
  assumes inv: "salsa_inv se (kv_seg s)" and io: "io_ok env" and sp: "space_for se (record_grains_nr env key val) (kv_seg s)"
  shows "fst (snd (local_put_mbuff_io (salsa_kv_env se env) h key val s)) = E_OK"
  using allocate_succeeds [OF inv sp, of "salsa_stream_get_id (salsa_kv_env se env) h" "kv_dev s"] io
  by (auto simp: local_put_mbuff_io_def Let_def case_prod_unfold record_grains_nr_def io_ok_def tick_def)

lemma put_new_key:
  assumes safe: "salsa_kv_safe se env s" and key: "length key < 2 ^ 16" and sz: "length key + length val < 2 ^ 32"
    and room: "put_room (kv_map s) (ev_hash env key) op" and op: "op \<noteq> REPLACE"
    and io: "io_ok env" and sp: "space_for se (record_grains_nr env key val) (kv_seg s)"
    and none: "kv_abs (salsa_kv_env se env) s key = None"
  shows "\<exists>s'. kv_put (salsa_kv_env se env) key val op s = Some (s', E_OK)"
proof -
  let ?e = "salsa_kv_env se env"
  have safe': "kvs.kv_safe se env s" using safe by (simp add: salsa_kv_safe_eq)
  obtain s1 rc1 grain where l: "local_put_mbuff_io ?e (ev_hash env key) key val s = (s1, rc1, grain)" by (metis prod_cases3)
  have "salsa_inv se (kv_seg s)" using safe by (simp add: salsa_kv_safe_def salsa_kv_inv_def)
  then have rc1: "rc1 = E_OK" using put_io_succeeds [OF _ io sp, of "ev_hash env key"] l by simp
  note ok = kvs.local_put_mbuff_io_ok [OF safe' key sz l]
  have "kv_inv ?e s1" "kv_abs ?e s1 key = None" using ok none kvs.kv_safeD(1) by auto
  then have "\<not> key_slot ?e s1 (ev_hash env key) key i" for i
    using no_key_slot_abs [of ?e s1 key] by simp
  then obtain s' rc where "put_loop ?e (ev_hash env key) key val op s = Some (s', rc)"
    "op_allows op (kv_abs ?e s key \<noteq> None) \<and> \<not> io_failure env rc \<longrightarrow> rc = E_OK"
    using kvs.put_loop_returns [OF safe' key sz, of op s1 rc1 grain] room l rc1 by auto
  then show ?thesis using none op io by (simp add: kv_put_def op_allows_def)
qed

end
