(* ===== verification/KV_Run.thy ===== *)
theory KV_Run
  imports KV_Salsa
begin

section \<open>The key-value store against its specification\<close>

text \<open>
  The store against its specification, a partial function from keys to values.  A run is
  a sequence of operations that returned, each with its result; the results of a run
  are those of the specification, whatever the hash function, the device, the segments
  that are allocated and the I/O errors on the way.
\<close>

datatype kv_op = Put bytes bytes PutOp | Get bytes | Del bytes | Exists bytes
datatype kv_res = Rc errno | Val errno bytes | Size errno u32

fun kv_exec :: "'s kv_env \<Rightarrow> kv_op \<Rightarrow> 's kv \<Rightarrow> ('s kv \<times> kv_res) option" where
  "kv_exec env (Put key val op) s = map_option (\<lambda>(s', rc). (s', Rc rc)) (kv_put env key val op s)"
| "kv_exec env (Get key) s = map_option (\<lambda>(s', rc, val). (s', Val rc val)) (kv_get env key s)"
| "kv_exec env (Del key) s = map_option (\<lambda>(s', rc). (s', Rc rc)) (kv_del env key s)"
| "kv_exec env (Exists key) s = map_option (\<lambda>(s', rc, n). (s', Size rc n)) (kv_exists env key s)"

text \<open>
  The operations that the program supports: a key is not empty (comparing empty keys
  dereferences an invalid iterator, see \<open>mem_compare_nothing\<close>) and its size fits the header.
\<close>

fun op_ok :: "salsa kv_env \<Rightarrow> kv_op \<Rightarrow> salsa kv \<Rightarrow> bool" where
  "op_ok env (Put key val op) s \<longleftrightarrow> key \<noteq> [] \<and> length key < 2 ^ 16 \<and> length key + length val < 2 ^ 32
     \<and> put_room (kv_map s) (ev_hash env key) op"
| "op_ok env (Get key) s \<longleftrightarrow> key \<noteq> []"
| "op_ok env (Del key) s \<longleftrightarrow> key \<noteq> [] \<and> length key < 2 ^ 16"
| "op_ok env (Exists key) s \<longleftrightarrow> key \<noteq> [] \<and> length key < 2 ^ 32"

fun spec_result :: "salsa kv_env \<Rightarrow> (bytes \<rightharpoonup> bytes) \<Rightarrow> kv_op \<Rightarrow> kv_res \<Rightarrow> bool" where
  "spec_result env m (Put key val op) (Rc rc) \<longleftrightarrow> (rc = E_OK \<longrightarrow> op_allows op (m key \<noteq> None))"
| "spec_result env m (Get key) (Val rc val) \<longleftrightarrow>
     rc = E_OK \<and> m key = Some val \<or> rc \<in> {ENODATA, ENOSPC} \<and> m key = None \<or> io_failure env rc"
| "spec_result env m (Del key) (Rc rc) \<longleftrightarrow> (rc = E_OK \<longrightarrow> m key \<noteq> None)"
| "spec_result env m (Exists key) (Size rc n) \<longleftrightarrow>
     rc = E_OK \<and> (\<exists>val. m key = Some val \<and> length val = unat n)
     \<or> rc \<in> {ENODATA, ENOSPC} \<and> m key = None \<or> io_failure env rc"
| "spec_result env m _ _ \<longleftrightarrow> False"

fun spec_next :: "(bytes \<rightharpoonup> bytes) \<Rightarrow> kv_op \<Rightarrow> kv_res \<Rightarrow> (bytes \<rightharpoonup> bytes)" where
  "spec_next m (Put key val op) (Rc E_OK) = m(key \<mapsto> val)"
| "spec_next m (Del key) (Rc E_OK) = m(key := None)"
| "spec_next m _ _ = m"

fun spec_run :: "salsa kv_env \<Rightarrow> (bytes \<rightharpoonup> bytes) \<Rightarrow> (kv_op \<times> kv_res) list \<Rightarrow> (bytes \<rightharpoonup> bytes) \<Rightarrow> bool" where
  "spec_run env m [] m' \<longleftrightarrow> m' = m"
| "spec_run env m ((op, r) # tr) m' \<longleftrightarrow> spec_result env m op r \<and> spec_run env (spec_next m op r) tr m'"

inductive kv_run :: "salsa_env \<Rightarrow> salsa kv_env \<Rightarrow> salsa kv \<Rightarrow> (kv_op \<times> kv_res) list \<Rightarrow> salsa kv \<Rightarrow> bool"
  for se env where
  kv_run_Nil: "kv_run se env s [] s"
| kv_run_Cons: "op_ok env op s \<Longrightarrow> kv_exec (salsa_kv_env se env) op s = Some (s1, r) \<Longrightarrow> kv_run se env s1 tr s'
    \<Longrightarrow> kv_run se env s ((op, r) # tr) s'"

inductive_cases kv_run_ConsE: "kv_run se env s ((op, r) # tr) s'"
inductive_simps kv_run_Nil_iff: "kv_run se env s [] s'"

text \<open>A store with an empty index.\<close>

definition kv_fresh :: "salsa_env \<Rightarrow> salsa kv_env \<Rightarrow> salsa kv \<Rightarrow> bool" where
  "kv_fresh se env s \<longleftrightarrow> env_wf env \<and> dm_inv (kv_map s) \<and> dm_content (kv_map s) = {#} \<and> salsa_kv_inv se env (kv_seg s)
     \<and> key_nr_m s = 0 \<and> used_bytes_m s = 0 \<and> total_bytes_m s = 0"

lemma spec_next_fail:
  "rc \<noteq> E_OK \<Longrightarrow> spec_next m (Put key val op) (Rc rc) = m" "rc \<noteq> E_OK \<Longrightarrow> spec_next m (Del key) (Rc rc) = m"
  by (cases rc; simp)+

lemma kv_exec_refines:
  assumes "salsa_kv_safe se env s" "op_ok env op s" "kv_exec (salsa_kv_env se env) op s = Some (s', r)"
  shows "salsa_kv_safe se env s' \<and> spec_result env (kv_abs (salsa_kv_env se env) s) op r
    \<and> kv_abs (salsa_kv_env se env) s' = spec_next (kv_abs (salsa_kv_env se env) s) op r"
proof (cases op)
  case (Put key val po)
  then obtain rc where "kv_put (salsa_kv_env se env) key val po s = Some (s', rc)" "r = Rc rc" using assms(3) by auto
  then show ?thesis
    using kv_put_step [OF assms(1), of key val po s' rc] assms(2) Put spec_next_fail(1) by (cases "rc = E_OK") simp_all
next
  case (Get key)
  then obtain rc val where "kv_get (salsa_kv_env se env) key s = Some (s', rc, val)" "r = Val rc val" using assms(3) by auto
  then show ?thesis using kv_get_step [OF assms(1), of key s' rc val] Get by simp
next
  case (Del key)
  then obtain rc where "kv_del (salsa_kv_env se env) key s = Some (s', rc)" "r = Rc rc" using assms(3) by auto
  then show ?thesis
    using kv_del_step [OF assms(1), of key s' rc] assms(2) Del spec_next_fail(2) by (cases "rc = E_OK") simp_all
next
  case (Exists key)
  then obtain rc n where "kv_exists (salsa_kv_env se env) key s = Some (s', rc, n)" "r = Size rc n" using assms(3) by auto
  then show ?thesis using kv_exists_step [OF assms(1), of key s' rc n] assms(2) Exists by simp
qed

lemma kv_run_safe:
  assumes "kv_run se env s tr s'" "salsa_kv_safe se env s"
  shows "salsa_kv_safe se env s' \<and> spec_run env (kv_abs (salsa_kv_env se env) s) tr (kv_abs (salsa_kv_env se env) s')"
  using assms
proof (induction rule: kv_run.induct)
  case (kv_run_Cons op s s1 r tr s')
  then show ?case using kv_exec_refines [OF kv_run_Cons.prems kv_run_Cons.hyps(1,2)] by simp
qed simp

lemma kv_fresh_safe:
  assumes "kv_fresh se env s"
  shows "salsa_kv_safe se env s" "kv_abs (salsa_kv_env se env) s = Map.empty"
proof -
  have c: "kv_content s = {#}" using assms by (simp add: kv_fresh_def kv_content_def)
  have "env_wf (salsa_kv_env se env)" using assms by (simp add: kv_fresh_def env_wf_def)
  then show safe: "salsa_kv_safe se env s"
    using assms c by (simp add: salsa_kv_safe_def kv_fresh_def kv_inv_def counts_ok_def raw_bytes_def tot_bytes_def)
  have "set (dm_entries (kv_map s)) = {}" using assms by (simp add: set_dm_entries kv_fresh_def)
  then show "kv_abs (salsa_kv_env se env) s = Map.empty" by (simp add: kv_abs_def)
qed

text \<open>The counters in terms of the abstract map.\<close>

lemma count_le_image: "count M x \<le> count (image_mset f M) (f x)"
proof -
  have "image_mset f (replicate_mset (count M x) x) \<subseteq># image_mset f M"
    by (intro image_mset_subseteq_mono) (simp flip: count_le_replicate_mset_subset_eq)
  then show ?thesis by (simp add: count_le_replicate_mset_subset_eq)
qed

lemma kv_content_set:
  assumes "kv_inv env s"
  shows "kv_content s = mset_set (set_mset (kv_content s))"
proof (rule multiset_eqI)
  fix x
  let ?K = "entry_key env (kv_dev s)"
  have "count (kv_content s) x \<le> 1" if "x \<in># kv_content s"
    using assms that count_le_image [of "kv_content s" x ?K] by (auto simp: kv_inv_def)
  then show "count (kv_content s) x = count (mset_set (set_mset (kv_content s))) x"
    by (cases "x \<in># kv_content s") (auto simp: count_eq_zero_iff intro: le_antisym)
qed

lemma dom_kv_abs:
  assumes inv: "kv_inv env s"
  shows "dom (kv_abs env s) = entry_key env (kv_dev s) ` set_mset (kv_content s)"
    "inj_on (entry_key env (kv_dev s)) (set_mset (kv_content s))"
    "x \<in># kv_content s \<Longrightarrow> kv_abs env s (entry_key env (kv_dev s) x) = Some (entry_val env (kv_dev s) x)"
proof -
  show "dom (kv_abs env s) = entry_key env (kv_dev s) ` set_mset (kv_content s)"
    using kv_abs_Some [OF inv] by (fastforce simp: dom_def image_iff)
  show "inj_on (entry_key env (kv_dev s)) (set_mset (kv_content s))"
    using kv_invD(4) [OF inv] by (auto simp: inj_on_def)
  show "kv_abs env s (entry_key env (kv_dev s) x) = Some (entry_val env (kv_dev s) x)" if "x \<in># kv_content s"
    using that kv_abs_Some [OF inv] by blast
qed

lemma counters_abs:
  assumes inv: "kv_inv env s" and c: "counts_ok env s"
  shows "key_nr_m s = of_nat (card (dom (kv_abs env s)))"
    "used_bytes_m s = of_nat (\<Sum>k \<in> dom (kv_abs env s). length k + length (the (kv_abs env s k)))"
proof -
  note d = dom_kv_abs [OF inv]
  have "size (kv_content s) = card (set_mset (kv_content s))"
    using arg_cong [OF kv_content_set [OF inv], of size] by simp
  then show "key_nr_m s = of_nat (card (dom (kv_abs env s)))"
    using c d(1,2) by (simp add: counts_ok_def card_image)
  have "raw_bytes env (kv_dev s) (kv_content s)
      = (\<Sum>x \<in> set_mset (kv_content s). rec_ks env (kv_dev s) (info_pba x) + rec_vs env (kv_dev s) (info_pba x))"
    unfolding raw_bytes_def by (subst kv_content_set [OF inv]) (simp add: sum_unfold_sum_mset)
  also have "\<dots> = (\<Sum>k \<in> dom (kv_abs env s). length k + length (the (kv_abs env s k)))"
    unfolding d(1) sum.reindex [OF d(2)] using d(3)
    by (intro sum.cong) (simp_all add: entry_val_def, simp add: entry_key_def rec_key_def)
  finally show "used_bytes_m s = of_nat (\<Sum>k \<in> dom (kv_abs env s). length k + length (the (kv_abs env s k)))"
    using c by (simp add: counts_ok_def)
qed

lemma get_value_iff:
  assumes safe: "salsa_kv_safe se env s" and io: "io_ok env"
  shows "(\<exists>t. kv_get (salsa_kv_env se env) k s = Some (t, E_OK, v)) \<longleftrightarrow> kv_abs (salsa_kv_env se env) s k = Some v"
proof -
  have "kv_inv (salsa_kv_env se env) s" using safe by (simp add: salsa_kv_safe_def)
  then obtain t rc w where g: "kv_get (salsa_kv_env se env) k s = Some (t, rc, w)" using kv_get_ok by blast
  then show ?thesis using kv_get_step [OF safe g] io_ok_failure [OF io] by auto
qed

lemma get_some_iff:
  assumes "salsa_kv_safe se env s" "io_ok env"
  shows "(\<exists>t v. kv_get (salsa_kv_env se env) k s = Some (t, E_OK, v) \<and> P v) \<longleftrightarrow> (\<exists>v. kv_abs (salsa_kv_env se env) s k = Some v \<and> P v)"
  unfolding get_value_iff [OF assms, symmetric] by blast

end
