(* ===== verification/KV_Example.thy ===== *)
theory KV_Example
  imports KV_Run Hop_Props
begin

section \<open>A small store\<close>

text \<open>
  A concrete store on which the operations are evaluated and the properties applied.
\<close>

text \<open>Two segments of eight 64-byte grains, one stream, and an index with one bucket pair.\<close>

definition ex_se :: salsa_env where
  "ex_se = \<lparr>se_seg_size = 8, se_reserved = 1, se_ctlr_id = 0, se_stream_nr = 1, se_rel_stream_nr = 0,
     se_max_capacity = 14, se_max_capacity_reloc = 14, se_critical = (\<lambda>_. False), se_type = KV,
     se_md = \<lparr>me_crc32 = (\<lambda>_ _. 0), me_pad = (\<lambda>_. 0)\<rparr>, se_md_io = (\<lambda>_. True)\<rparr>"

definition ex_seg :: segment where
  "ex_seg = \<lparr>sgm_state = SEG_FREE, nr3 = 0, nr4 = 0, valid_nr = 8, sgm_ctlr_id = 0\<rparr>"

definition ex_md :: md where
  "ex_md = md_init (default_dev_md 64 8 (md_new 64 1088 1)) (md_new 64 1088 1)"

definition ex_salsa :: salsa where
  "ex_salsa = \<lparr>segs = [ex_seg, ex_seg], q_segs = [0, 1], q_rel_segs = [],
     alltrs = [\<lparr>stage_fifo = [], done_fifo = [], al_reloc = False\<rparr>], used_capacity = 0, seg_alloc_nr = 0,
     sa_md = ex_md, sa_bug = False, sa_ev = 0\<rparr>"

definition ex_kv_env :: "salsa kv_env" where
  "ex_kv_env = \<lparr>ev_hash = (\<lambda>_. 5), ev_crc32 = (\<lambda>_ _. 0), ev_seed = 0,
     ev_geom = \<lparr>g_seg_size = 8, g_seg_md_size = 1, g_grain_size = 64\<rparr>, ev_streams = 1,
     ev_allocate = (\<lambda>s dev nr st. (s, dev, EINVAL, 0)), ev_drain = (\<lambda>s st. s), ev_invalidate = (\<lambda>s g nr. s),
     ev_release = (\<lambda>s g nr st. s), ev_seg_ts = (\<lambda>s i. 0),
     ev_grow = (\<lambda>_. \<lparr>ge_raced = False, ge_alloc = (\<lambda>_. (ENOSPC, 0)), ge_mmap_huge = (\<lambda>_. False), ge_mmap = (\<lambda>_. False),
        ge_region = (\<lambda>_. []), ge_protect_ro = E_OK, ge_protect_none = E_OK, ge_munmap = (\<lambda>_. E_OK), ge_ts = (\<lambda>_. 0), ge_csum32 = (\<lambda>_ _. 0)\<rparr>),
     ev_mem_ok = (\<lambda>_. True), ev_room_ok = (\<lambda>_. True), ev_rd_err = (\<lambda>_. E_OK), ev_wr_err = (\<lambda>_. E_OK)\<rparr>"

definition ex_dm :: dmap where
  "ex_dm = \<lparr>directory = [\<lparr>dme_map = ex_empty, grain_offset = 0, size_b = 272, huge = False, dme_hdr = zero_hdr, dme_ftr = zero_ftr\<rparr>],
     grow_nr_m = 0, map_entry_nr_bits_m = 1\<rparr>"

definition ex_kv :: "salsa kv" where
  "ex_kv = \<lparr>kv_map = ex_dm, kv_dev = (\<lambda>_. 0), kv_seg = ex_salsa, key_nr_m = 0, used_bytes_m = 0, total_bytes_m = 0, kv_ev = 0\<rparr>"

lemma ex_empty_content: "content ex_empty = {#}"
proof -
  have "live_slots ex_empty = []"
    by (auto simp: live_slots_def filter_empty_conv live_def ex_empty_def um_new_def erased_entry_free)
  then show ?thesis by (simp add: content_def)
qed

lemma ex_dm_ok: "dm_inv ex_dm" "dm_content ex_dm = {#}"
proof -
  have b: "dir_idx_bits (directory ex_dm) = 0"
    using dir_idx_bits_pow2 [of "directory ex_dm" 0] by (simp add: ex_dm_def)
  have t: "tables ex_dm = [ex_empty]" "map_entry_nr_bits_m ex_dm = 1" by (simp_all add: tables_def ex_dm_def)
  have "table_ok 1 ex_empty" using ex_empty_inv by (simp add: table_ok_def ex_empty_def)
  then show "dm_inv ex_dm" by (simp add: dm_inv_def tables_ok_def placed_def b t ex_empty_content)
  show "dm_content ex_dm = {#}" by (simp add: dm_content_def tables_content_def t ex_empty_content)
qed

lemma ex_salsa_inv: "salsa_kv_inv ex_se ex_kv_env ex_salsa"
proof -
  have "get_seg_md_size ex_md = 1" by code_simp
  moreover have "grain_size_m ex_md = 64" by code_simp
  ultimately have c: "salsa_cfg_ok ex_se ex_salsa" by (simp add: salsa_cfg_ok_def ex_se_def ex_salsa_def)
  have "staged (stages ex_salsa) = {#}" by (simp add: staged_def stages_def ex_salsa_def)
  then show ?thesis
    using c \<open>grain_size_m ex_md = 64\<close>
    by (auto simp: salsa_kv_inv_def salsa_inv_def places_def ex_salsa_def gsize_def ex_kv_env_def)
qed

lemma ex_kv_fresh: "kv_fresh ex_se ex_kv_env ex_kv"
  using ex_dm_ok ex_salsa_inv by (simp add: kv_fresh_def ex_kv_def env_wf_def gsize_def ex_kv_env_def)

lemma ex_kv_put_room: "put_room (kv_map ex_kv) (ev_hash ex_kv_env key) op"
proof -
  have "table_of (kv_map ex_kv) h = ex_empty" for h
  proof -
    have "hash_to_map ex_dm h < 1" using hash_to_map_less [OF ex_dm_ok(1), of h] by (simp add: ex_dm_def)
    then show ?thesis by (simp add: table_of_def ex_kv_def) (simp add: ex_dm_def)
  qed
  moreover have "free_slot ex_empty 1" "bucket_of ex_empty 5 = 1"
    by (simp_all add: bucket_of_def ex_empty_def um_new_def free_slot_def erased_entry_free)
  ultimately show ?thesis by (auto simp: put_room_def bucket_full_def ex_kv_env_def)
qed

lemma ex_kv_space: "space_for ex_se (record_grains_nr ex_kv_env [1, 2] [3]) (kv_seg ex_kv)"
proof -
  have "record_grains_nr ex_kv_env [1, 2] [3] = 1" by code_simp
  then show ?thesis by (simp add: space_for_def ex_se_def ex_kv_def ex_salsa_def)
qed

fun kv_exec_all :: "'s kv_env \<Rightarrow> kv_op list \<Rightarrow> 's kv \<Rightarrow> ('s kv \<times> kv_res list) option" where
  "kv_exec_all env [] s = Some (s, [])"
| "kv_exec_all env (op # ops) s =
     (case kv_exec env op s of None \<Rightarrow> None
      | Some (s1, r) \<Rightarrow> map_option (\<lambda>(s', rs). (s', r # rs)) (kv_exec_all env ops s1))"

definition ex_ops :: "kv_op list" where
  "ex_ops = [Put [1, 2] [3] NORMAL, Get [1, 2], Exists [1, 2], Del [1, 2], Get [1, 2]]"

lemma ex_kv_results:
  "map_option snd (kv_exec_all (salsa_kv_env ex_se ex_kv_env) ex_ops ex_kv)
     = Some [Rc E_OK, Val E_OK [3], Size E_OK 1, Rc E_OK, Val ENODATA []]"
  by code_simp

lemma ex_kv_steps:
  obtains s1 s2 s3 s4 s5 where
    "kv_put (salsa_kv_env ex_se ex_kv_env) [1, 2] [3] NORMAL ex_kv = Some (s1, E_OK)"
    "kv_get (salsa_kv_env ex_se ex_kv_env) [1, 2] s1 = Some (s2, E_OK, [3])"
    "kv_exists (salsa_kv_env ex_se ex_kv_env) [1, 2] s2 = Some (s3, E_OK, 1)"
    "kv_del (salsa_kv_env ex_se ex_kv_env) [1, 2] s3 = Some (s4, E_OK)"
    "kv_get (salsa_kv_env ex_se ex_kv_env) [1, 2] s4 = Some (s5, ENODATA, [])"
  using ex_kv_results by (auto simp: ex_ops_def split: option.splits)

lemma ex_kv_run:
  "\<exists>s'. kv_run ex_se ex_kv_env ex_kv
     [(Put [1, 2] [3] NORMAL, Rc E_OK), (Get [1, 2], Val E_OK [3]), (Exists [1, 2], Size E_OK 1), (Del [1, 2], Rc E_OK)] s'"
proof -
  obtain s1 s2 s3 s4 s5 where
    "kv_put (salsa_kv_env ex_se ex_kv_env) [1, 2] [3] NORMAL ex_kv = Some (s1, E_OK)"
    "kv_get (salsa_kv_env ex_se ex_kv_env) [1, 2] s1 = Some (s2, E_OK, [3])"
    "kv_exists (salsa_kv_env ex_se ex_kv_env) [1, 2] s2 = Some (s3, E_OK, 1)"
    "kv_del (salsa_kv_env ex_se ex_kv_env) [1, 2] s3 = Some (s4, E_OK)"
    by (rule ex_kv_steps)
  then show ?thesis using ex_kv_put_room by (fastforce intro!: kv_run_Cons kv_run_Nil)
qed

lemma ex_kv_safe: "salsa_kv_safe ex_se ex_kv_env ex_kv"
  by (rule kv_fresh_safe(1) [OF ex_kv_fresh])

lemma ex_kv_io_ok: "io_ok ex_kv_env" by (simp add: io_ok_def ex_kv_env_def)

end
