(* ===== verification/KV_Props.thy ===== *)
theory KV_Props
  imports KV_Example
begin

section \<open>Properties of the key-value store\<close>

text \<open>
  What put, get, del and exists guarantee to their callers, on the store of \<open>KV_Salsa\<close>:
  the operations of \<open>uDepotSalsa\<close> on the allocator of \<open>SalsaCtlr\<close>.
\<close>







text \<open>
  C4: a put of a new key succeeds while there is room.  If the key is absent, the bucket of
  its hash has room, the collector is not in its critical state, the capacity is not used
  up, a free segment is left and no I/O fails, then put returns, it returns 0, and the
  key has the value afterwards.
\<close>

theorem put_new_key_succeeds:
  assumes "salsa_kv_safe se env s" "key \<noteq> []" "length key < 2 ^ 16" "length key + length val < 2 ^ 32"
    "put_room (kv_map s) (ev_hash env key) op" "op \<noteq> REPLACE" "io_ok env"
    "space_for se (record_grains_nr env key val) (kv_seg s)"
    "kv_abs (salsa_kv_env se env) s key = None"
  shows "\<exists>s'. kv_put (salsa_kv_env se env) key val op s = Some (s', E_OK) \<and> salsa_kv_safe se env s'
    \<and> kv_abs (salsa_kv_env se env) s' = (kv_abs (salsa_kv_env se env) s)(key \<mapsto> val)"
  using put_new_key [OF assms(1,3-9)] kv_put_step [OF assms(1,3-5)] by fastforce

theorem put_new_key_succeeds_witness:
  "\<exists>s'. kv_put (salsa_kv_env ex_se ex_kv_env) [1, 2] [3] NORMAL ex_kv = Some (s', E_OK)
     \<and> kv_abs (salsa_kv_env ex_se ex_kv_env) s' = [[1, 2] \<mapsto> [3]]"
  using put_new_key_succeeds [OF ex_kv_safe _ _ _ ex_kv_put_room _ ex_kv_io_ok ex_kv_space] kv_fresh_safe(2) [OF ex_kv_fresh] by auto





text \<open>
  Exists and get agree.  When no I/O fails, exists returns 0 for a key exactly when get
  does, and the size it reports is the length of the value that get returns.
\<close>

lemma exists_agrees_with_get:
  assumes "salsa_kv_safe se env s" "io_ok env" "key \<noteq> []" "length key < 2 ^ 32"
  shows "(\<exists>t n. kv_exists (salsa_kv_env se env) key s = Some (t, E_OK, n) \<and> unat n = L)
    = (\<exists>t v. kv_get (salsa_kv_env se env) key s = Some (t, E_OK, v) \<and> length v = L)"
proof -
  have inv: "kv_inv (salsa_kv_env se env) s" using assms(1) by (simp add: salsa_kv_safe_def)
  then obtain t rc n where e: "kv_exists (salsa_kv_env se env) key s = Some (t, rc, n)" using kv_exists_ok [OF inv assms(4)] by blast
  have "(\<exists>v. kv_abs (salsa_kv_env se env) s key = Some v \<and> length v = L) \<longleftrightarrow> rc = E_OK \<and> unat n = L"
    using kv_exists_step [OF assms(1,4) e] io_ok_failure [OF assms(2)] by auto
  then show ?thesis unfolding e get_some_iff [OF assms(1,2)] by auto
qed

lemma exists_agrees_with_get_witness:
  "\<not> (\<exists>t n. kv_exists (salsa_kv_env ex_se ex_kv_env) [7] ex_kv = Some (t, E_OK, n) \<and> unat n = 1)"
  using exists_agrees_with_get [OF ex_kv_safe ex_kv_io_ok, of "[7]" 1] kv_fresh_safe(2) [OF ex_kv_fresh]
  by (simp add: get_some_iff [OF ex_kv_safe ex_kv_io_ok])

end
