(* ===== verification/Salsa_Props.thy ===== *)
theory Salsa_Props
  imports KV_Example
begin

section \<open>Properties of the segment metadata and of the grain allocator\<close>

text \<open>
  A run of the allocator is a sequence of calls of the controller: allocations in normal
  and relocation streams, drains, releases and invalidations.  It records the ranges
  that were handed out.
\<close>

type_synonym grain_range = "u64 \<times> u64"

definition range_grains :: "grain_range \<Rightarrow> nat set" where
  "range_grains r = {unat (fst r)..<unat (fst r) + unat (snd r)}"

definition in_one_segment :: "salsa_env \<Rightarrow> grain_range \<Rightarrow> bool" where
  "in_one_segment env r \<longleftrightarrow>
     unat (fst r) mod unat (se_seg_size env) + unat (snd r) + unat (se_reserved env) \<le> unat (se_seg_size env)"

inductive salsa_run :: "salsa_env \<Rightarrow> device \<Rightarrow> salsa \<Rightarrow> grain_range list \<Rightarrow> device \<Rightarrow> salsa \<Rightarrow> bool" for env where
  run_Nil: "salsa_run env dev s [] dev s"
| run_alloc: "unat len < 2 ^ 63 \<Longrightarrow> allocate_grains env len st b dev s = (s1, dev1, E_OK, grain)
    \<Longrightarrow> salsa_run env dev1 s1 rs dev' s' \<Longrightarrow> salsa_run env dev s ((grain, len) # rs) dev' s'"
| run_refused: "unat len < 2 ^ 63 \<Longrightarrow> allocate_grains env len st b dev s = (s1, dev1, rc, grain) \<Longrightarrow> rc \<noteq> E_OK
    \<Longrightarrow> salsa_run env dev1 s1 rs dev' s' \<Longrightarrow> salsa_run env dev s rs dev' s'"
| run_drain: "salsa_run env dev (fst (drain_remaining_grains env st b s)) rs dev' s' \<Longrightarrow> salsa_run env dev s rs dev' s'"
| run_release: "salsa_run env dev (release_grains env g len st b s) rs dev' s' \<Longrightarrow> salsa_run env dev s rs dev' s'"
| run_invalidate: "salsa_run env dev (invalidate_grains env g len s) rs dev' s' \<Longrightarrow> salsa_run env dev s rs dev' s'"

definition run_ok :: "salsa_env \<Rightarrow> device \<Rightarrow> salsa \<Rightarrow> grain_range list \<Rightarrow> device \<Rightarrow> salsa \<Rightarrow> bool" where
  "run_ok env dev s rs dev' s' \<longleftrightarrow> keeps env s s' \<and> dev_kept env s dev dev'
     \<and> sorted_wrt (\<lambda>x y. range_grains x \<inter> range_grains y = {}) rs
     \<and> (\<forall>r \<in> set rs. range_grains r \<subseteq> owned_grains env s' - owned_grains env s \<and> in_one_segment env r)"

lemma run_ok_step:
  assumes "keeps env s s1" "dev_kept env s dev dev1" "run_ok env dev1 s1 rs dev' s'"
  shows "run_ok env dev s rs dev' s'"
proof -
  have "owned_grains env s \<subseteq> owned_grains env s1" using assms(1) by (simp add: keeps_def)
  then show ?thesis
    using assms(3) keeps_trans [OF assms(1)] dev_kept_trans [OF assms(2) _ assms(1)] unfolding run_ok_def by blast
qed

lemma salsa_run_ok:
  assumes "salsa_run env dev s rs dev' s'" "salsa_inv env s"
  shows "run_ok env dev s rs dev' s'"
  using assms
proof (induction rule: salsa_run.induct)
  case (run_Nil dev s)
  then show ?case by (simp add: run_ok_def keeps_def dev_kept_def)
next
  case (run_alloc len st b dev s s1 dev1 grain rs dev' s')
  note al = salsa_allocate_ok [OF run_alloc.prems run_alloc.hyps(1,2)]
  have k: "keeps env s s1" "dev_kept env s dev dev1" and g: "granted env s s1 grain len" using al by (simp_all add: alloc_ok_def)
  have ih: "run_ok env dev1 s1 rs dev' s'" using run_alloc.IH k by (simp add: keeps_def)
  have up: "owned_grains env s1 \<subseteq> owned_grains env s'" using ih by (simp add: run_ok_def keeps_def)
  have "range_grains (grain, len) \<subseteq> owned_grains env s1 - owned_grains env s" "in_one_segment env (grain, len)"
    using g by (simp_all add: granted_def range_grains_def in_one_segment_def)
  then show ?case using run_ok_step [OF k ih] ih up unfolding run_ok_def by (auto 0 3)
next
  case (run_refused len st b dev s s1 dev1 rc grain rs dev' s')
  have k: "keeps env s s1" "dev_kept env s dev dev1"
    using salsa_allocate_ok [OF run_refused.prems run_refused.hyps(1,2)] by (simp_all add: alloc_ok_def)
  then show ?case using run_refused.IH by (intro run_ok_step [OF k]) (simp add: keeps_def)
next
  case (run_drain dev st b s rs dev' s')
  note k = drain_keeps [OF run_drain.prems, of st b]
  show ?case using run_drain.IH k by (intro run_ok_step [OF k]) (auto simp: keeps_def dev_kept_def)
next
  case (run_release dev g len st b s rs dev' s')
  note k = keeps_same_core [OF run_release.prems same_core_steps(6) [of s env g len st b]]
  show ?case using run_release.IH k by (intro run_ok_step [OF k]) (auto simp: keeps_def dev_kept_def)
next
  case (run_invalidate dev g len s rs dev' s')
  note k = keeps_same_core [OF run_invalidate.prems same_core_steps(5) [of s env g len]]
  show ?case using run_invalidate.IH k by (intro run_ok_step [OF k]) (auto simp: keeps_def dev_kept_def)
qed

subsection \<open>The properties\<close>

text \<open>
  C5: grains are handed out once.  In any run of the allocator, whatever streams, sizes,
  drains, releases and invalidations it has, the ranges handed out are pairwise disjoint,
  none of them was in use when the run began, and each lies in the data part of one
  segment, clear of the grains that hold the segment's metadata.
\<close>

theorem grains_handed_out_once:
  assumes "salsa_inv env s" "salsa_run env dev s rs dev' s'"
  shows "salsa_inv env s' \<and> sorted_wrt (\<lambda>x y. range_grains x \<inter> range_grains y = {}) rs
    \<and> (\<forall>r \<in> set rs. range_grains r \<inter> owned_grains env s = {} \<and> in_one_segment env r)"
  using salsa_run_ok [OF assms(2,1)] by (auto simp: run_ok_def keeps_def)

lemma ex_salsa_core: "salsa_inv ex_se ex_salsa" using ex_salsa_inv by (simp add: salsa_kv_inv_def)

lemma ex_salsa_space: "space_for ex_se 3 ex_salsa"
  by (simp add: space_for_def ex_se_def ex_salsa_def)

lemma ex_salsa_allocs:
  obtains s1 d1 s2 d2 where "allocate_grains ex_se 3 0 False (\<lambda>_. 0) ex_salsa = (s1, d1, E_OK, 0)"
    "allocate_grains ex_se 2 0 False d1 s1 = (s2, d2, E_OK, 3)"
proof -
  let ?a1 = "allocate_grains ex_se 3 0 False (\<lambda>_. 0) ex_salsa"
  let ?a2 = "allocate_grains ex_se 2 0 False (fst (snd ?a1)) (fst ?a1)"
  have a1: "snd (snd ?a1) = (E_OK, 0)" by code_simp
  have a2: "snd (snd ?a2) = (E_OK, 3)" by code_simp
  obtain s1 d1 where "?a1 = (s1, d1, E_OK, 0)" using a1 by (metis surjective_pairing)
  moreover from this obtain s2 d2 where "allocate_grains ex_se 2 0 False d1 s1 = (s2, d2, E_OK, 3)"
    using a2 by (metis surjective_pairing fst_conv snd_conv)
  ultimately show ?thesis by (rule that)
qed

lemma ex_salsa_run: "\<exists>dev' s'. salsa_run ex_se (\<lambda>_. 0) ex_salsa [(0, 3), (3, 2)] dev' s'"
proof -
  obtain s1 d1 s2 d2 where a: "allocate_grains ex_se 3 0 False (\<lambda>_. 0) ex_salsa = (s1, d1, E_OK, 0)"
    "allocate_grains ex_se 2 0 False d1 s1 = (s2, d2, E_OK, 3)" by (rule ex_salsa_allocs)
  have "salsa_run ex_se (\<lambda>_. 0) ex_salsa [(0, 3), (3, 2)] d2 s2"
    by (rule run_alloc [OF _ a(1) run_alloc [OF _ a(2) run_Nil]]) simp_all
  then show ?thesis by blast
qed

theorem grains_handed_out_once_witness:
  "\<exists>dev' s'. salsa_run ex_se (\<lambda>_. 0) ex_salsa [(0, 3), (3, 2)] dev' s' \<and> salsa_inv ex_se s'
     \<and> range_grains (0, 3) \<inter> range_grains (3, 2) = {}"
  using ex_salsa_run grains_handed_out_once [OF ex_salsa_core] by fastforce



text \<open>
  C37: an allocation succeeds while there is room.  With a free segment in the queue, unused
  capacity and a collector that is not in its critical state, a request that fits into a
  segment is served at the first attempt.
\<close>

theorem allocation_succeeds:
  assumes "salsa_inv env s" "space_for env len s"
  shows "\<exists>s' dev' grain. allocate_grains env len st False dev s = (s', dev', E_OK, grain) \<and> granted env s s' grain len"
proof -
  obtain s' dev' rc grain where a: "allocate_grains env len st False dev s = (s', dev', rc, grain)" by (metis prod_cases4)
  have "unat len < 2 ^ 63" using assms(2) salsa_cfgD [OF assms(1)] by (simp add: space_for_def)
  then show ?thesis using allocate_succeeds [OF assms, of st dev] salsa_allocate_ok [OF assms(1) _ a] a by simp
qed

theorem allocation_succeeds_witness:
  "\<exists>s' dev' grain. allocate_grains ex_se 3 0 False (\<lambda>_. 0) ex_salsa = (s', dev', E_OK, grain) \<and> granted ex_se ex_salsa s' grain 3"
  by (rule allocation_succeeds [OF ex_salsa_core ex_salsa_space])

text \<open>
  Segment metadata survive a restart.  Metadata written for a segment are read back with
  the timestamp they were written with and pass the validation that a restart applies,
  for the same controller type, provided the segment template agrees with the device
  header (as it does after init).
\<close>

lemma segment_metadata_round_trip:
  assumes "persist_seg_md env True grain ts ty dev (md_init d m) = (dev', m', rc)"
  shows "rc = E_OK \<and> validate_seg_md_at env True dev' m' grain ty
    \<and> (\<exists>g. read_seg_md True dev' m' grain = Some g \<and> sg_timestamp g = ts)"
  using persist_seg_md_reads(1,2,3) [OF assms md_init_synced] by blast

lemma segment_metadata_round_trip_witness:
  "\<exists>dev' m'. persist_seg_md \<lparr>me_crc32 = (\<lambda>_ _. 7), me_pad = (\<lambda>_. 0)\<rparr> True 2 5 KV (\<lambda>_. 0)
       (md_init (default_dev_md 64 8 (md_new 64 1088 1)) (md_new 64 1088 1)) = (dev', m', E_OK)
     \<and> validate_seg_md_at \<lparr>me_crc32 = (\<lambda>_ _. 7), me_pad = (\<lambda>_. 0)\<rparr> True dev' m' 2 KV"
  using segment_metadata_round_trip [of "\<lparr>me_crc32 = (\<lambda>_ _. 7), me_pad = (\<lambda>_. 0)\<rparr>" 2 5 KV "\<lambda>_. 0"
      "default_dev_md 64 8 (md_new 64 1088 1)" "md_new 64 1088 1"] by (metis prod_cases3)

text \<open>
  The device header is behind the data.  When the size check of the metadata accepts a
  device, the header starts at or after the end of every whole segment that the device
  holds, and it ends on the device.
\<close>

lemma device_header_behind_segments:
  assumes "check_dev_size segment_size m = E_OK" "grain_size_m m \<noteq> 0" "unat (grain_size_m m) < 2 ^ 32"
    "segment_size * grain_size_m m \<noteq> 0"
    "Suc i * unat (segment_size * grain_size_m m) \<le> unat (md_io_size m)"
  shows "Suc i * unat (segment_size * grain_size_m m) \<le> unat (dev_md_grain_offset m)
    \<and> unat (dev_md_grain_offset m) + unat (align_up DEV_MD_SIZE (grain_size_m m)) \<le> unat (md_io_size m)"
  using check_dev_size_ok [OF assms(1-3)] assms(4,5) by blast

lemma device_header_behind_segments_witness:
  "Suc 1 * unat (8 * grain_size_m ex_md) \<le> unat (dev_md_grain_offset ex_md) \<and> check_dev_size 8 ex_md = E_OK"
proof -
  have c: "check_dev_size 8 ex_md = E_OK" by code_simp
  have g: "grain_size_m ex_md = 64" "md_io_size ex_md = 1088" by code_simp+
  show ?thesis using device_header_behind_segments [OF c, of 1] c by (simp add: g)
qed

end
