(* ===== verification/Mbuff.thy ===== *)
theory Mbuff
  imports UD_Prelude
begin

section \<open>Chained buffers (\<^verbatim>\<open>uDepot/mbuff\<close>)\<close>

text \<open>
  An Mbuff is a list of buffers.  Each node holds a buffer and the part of it that is
  valid; the valid data of an Mbuff are the valid parts of its nodes, from head to tail.
  The linked lists of the program are lists here, the head first; a null pointer is the
  empty list, and a chunk is the part of a buffer that is lent out, as bytes.  Sizes are
  natural numbers, with the wrap-around of \<open>size_t\<close> written out in the two places where
  the program adds an offset and a length that it has not checked.  A result \<open>None\<close> is
  the dereference of a null pointer or, for a callback, a length outside its chunk.
\<close>

record node =
  mb_buff :: bytes
  mb_off :: nat
  mb_len :: nat

record mbuff =
  mb_valid_size :: nat
  mb_nodes :: "node list"
  mb_free :: "node list"
  mb_free_size :: nat
  mb_free_nodes :: nat

definition node_new :: "bytes \<Rightarrow> node" where
  "node_new buff = \<lparr>mb_buff = buff, mb_off = 0, mb_len = 0\<rparr>"

definition mb_new :: mbuff where
  "mb_new = \<lparr>mb_valid_size = 0, mb_nodes = [], mb_free = [], mb_free_size = 0, mb_free_nodes = 0\<rparr>"

definition sz_add :: "nat \<Rightarrow> nat \<Rightarrow> nat" where
  "sz_add a b = (a + b) mod 2 ^ 64"

subsection \<open>Nodes\<close>

definition node_reset :: "node \<Rightarrow> node" where
  "node_reset n = n\<lparr>mb_off := 0, mb_len := 0\<rparr>"

definition append_space :: "node \<Rightarrow> nat" where
  "append_space n = length (mb_buff n) - (mb_off n + mb_len n)"

definition prepend_space :: "node \<Rightarrow> nat" where
  "prepend_space n = (if mb_len n = 0 then length (mb_buff n) else mb_off n)"

definition get_valid_chunk :: "node \<Rightarrow> nat \<Rightarrow> nat \<Rightarrow> bytes" where
  "get_valid_chunk n off len = take len (drop (mb_off n + off) (mb_buff n))"

definition get_append_chunk :: "node \<Rightarrow> bytes" where
  "get_append_chunk n = drop (mb_off n + mb_len n) (mb_buff n)"

definition put_append_chunk :: "bytes \<Rightarrow> nat \<Rightarrow> node \<Rightarrow> node" where
  "put_append_chunk c append_len n =
     n\<lparr>mb_buff := take (mb_off n + mb_len n) (mb_buff n) @ c, mb_len := mb_len n + append_len\<rparr>"

definition get_prepend_chunk :: "node \<Rightarrow> bytes" where
  "get_prepend_chunk n = take (prepend_space n) (mb_buff n)"

definition put_prepend_chunk :: "bytes \<Rightarrow> nat \<Rightarrow> node \<Rightarrow> node" where
  "put_prepend_chunk c prepend_len n =
     (let n1 = n\<lparr>mb_buff := c @ drop (length c) (mb_buff n)\<rparr> in
      if mb_off n = 0 \<and> mb_len n = 0
      then n1\<lparr>mb_off := length (mb_buff n1) - prepend_len, mb_len := prepend_len\<rparr>
      else n1\<lparr>mb_off := mb_off n - prepend_len, mb_len := mb_len n + prepend_len\<rparr>)"

subsection \<open>Free nodes\<close>

definition get_free_node :: "mbuff \<Rightarrow> mbuff \<times> node option" where
  "get_free_node m =
     (case mb_free m of
        [] \<Rightarrow> (m, None)
      | n # ns \<Rightarrow> (m\<lparr>mb_free := ns, mb_free_size := mb_free_size m - length (mb_buff n),
                    mb_free_nodes := mb_free_nodes m - 1\<rparr>, Some n))"

definition put_free_node :: "node \<Rightarrow> mbuff \<Rightarrow> mbuff" where
  "put_free_node n m = m\<lparr>mb_free := n # mb_free m, mb_free_size := mb_free_size m + length (mb_buff n),
     mb_free_nodes := mb_free_nodes m + 1\<rparr>"

definition add_buff :: "bytes \<Rightarrow> mbuff \<Rightarrow> mbuff" where
  "add_buff buf m = put_free_node (node_new buf) m"

definition get_free_buff :: "mbuff \<Rightarrow> mbuff \<times> bytes option" where
  "get_free_buff m = (case get_free_node m of (m1, n) \<Rightarrow> (m1, map_option mb_buff n))"

lemma get_free_node_less [termination_simp]: "get_free_node m = (m1, Some n) \<Longrightarrow> length (mb_free m1) < length (mb_free m)"
  by (auto simp: get_free_node_def split: list.splits)

function move_free_buffs :: "mbuff \<Rightarrow> mbuff \<Rightarrow> nat \<Rightarrow> nat \<Rightarrow> mbuff \<times> mbuff \<times> nat" where
  "move_free_buffs src dst max_size moved =
     (case get_free_buff src of
        (src1, None) \<Rightarrow> (src1, dst, moved)
      | (src1, Some buff) \<Rightarrow>
          let moved1 = moved + length buff; dst1 = add_buff buff dst in
          if moved1 < max_size then move_free_buffs src1 dst1 max_size moved1 else (src1, dst1, moved1))"
  by pat_completeness auto
termination
  by (relation "measure (\<lambda>(src, _). length (mb_free src))")
    (auto simp: get_free_buff_def get_free_node_def split: list.splits)

declare move_free_buffs.simps [simp del]

definition move_free_buffs_to :: "mbuff \<Rightarrow> mbuff \<Rightarrow> nat \<Rightarrow> mbuff \<times> mbuff \<times> nat" where
  "move_free_buffs_to src dst max_size = move_free_buffs src dst max_size 0"

definition append_avail_size :: "mbuff \<Rightarrow> nat" where
  "append_avail_size m = mb_free_size m + (if mb_nodes m \<noteq> [] then append_space (last (mb_nodes m)) else 0)"

definition append_avail_nchunks :: "mbuff \<Rightarrow> nat" where
  "append_avail_nchunks m =
     mb_free_nodes m + (if mb_nodes m \<noteq> [] \<and> 0 < append_space (last (mb_nodes m)) then 1 else 0)"

definition get_total_size :: "mbuff \<Rightarrow> nat" where
  "get_total_size m = mb_free_size m + mb_valid_size m
     + (if mb_nodes m \<noteq> [] then length (mb_buff (hd (mb_nodes m))) - mb_len (hd (mb_nodes m)) else 0)
     + (if 1 < length (mb_nodes m) then length (mb_buff (last (mb_nodes m))) - mb_len (last (mb_nodes m)) else 0)"

subsection \<open>Appending\<close>

text \<open>A callback sees its captured state and the chunk; it returns both and a length.\<close>

type_synonym 'c chunk_fn = "'c \<Rightarrow> bytes \<Rightarrow> 'c \<times> bytes \<times> nat"

definition tail_space :: "mbuff \<Rightarrow> bool" where
  "tail_space m \<longleftrightarrow> mb_nodes m \<noteq> [] \<and> 0 < append_space (last (mb_nodes m))"

definition append_prepare_inline :: "mbuff \<Rightarrow> bytes option" where
  "append_prepare_inline m = (if tail_space m then Some (get_append_chunk (last (mb_nodes m))) else None)"

definition append_prepare :: "mbuff \<Rightarrow> mbuff \<times> bytes option" where
  "append_prepare m =
     (if tail_space m then (m, Some (get_append_chunk (last (mb_nodes m))))
      else case get_free_node m of
             (m1, None) \<Rightarrow> (m1, None)
           | (m1, Some n) \<Rightarrow> (m1\<lparr>mb_nodes := mb_nodes m1 @ [n]\<rparr>, Some (get_append_chunk n)))"

definition append_finalize :: "bytes \<Rightarrow> nat \<Rightarrow> mbuff \<Rightarrow> mbuff" where
  "append_finalize c append_len m =
     m\<lparr>mb_nodes := butlast (mb_nodes m) @ [put_append_chunk c append_len (last (mb_nodes m))],
       mb_valid_size := mb_valid_size m + append_len\<rparr>"

definition chunk_ok :: "bytes \<Rightarrow> bytes \<Rightarrow> nat \<Rightarrow> bool" where
  "chunk_ok c c' n \<longleftrightarrow> length c' = length c \<and> n \<le> length c"

lemma append_prepare_measure:
  assumes "append_prepare m = (m1, Some c)" "chunk_ok c c' (length c)"
  shows "2 * length (mb_free (append_finalize c' (length c) m1)) + (if tail_space (append_finalize c' (length c) m1) then 1 else 0)
     < 2 * length (mb_free m) + (if tail_space m then 1 else 0)"
proof -
  have "\<not> tail_space (append_finalize c' (length c) m1)"
    using assms by (auto simp: append_prepare_def append_finalize_def tail_space_def append_space_def put_append_chunk_def
        get_append_chunk_def chunk_ok_def split: if_splits option.splits prod.splits)
  moreover have "length (mb_free (append_finalize c' (length c) m1)) = length (mb_free m1)" by (simp add: append_finalize_def)
  moreover have "tail_space m \<and> mb_free m1 = mb_free m \<or> length (mb_free m1) < length (mb_free m)"
    using assms by (auto simp: append_prepare_def get_free_node_def split: if_splits list.splits)
  ultimately show ?thesis by auto
qed

function mb_append :: "'c chunk_fn \<Rightarrow> 'c \<Rightarrow> mbuff \<Rightarrow> ('c \<times> mbuff) option" where
  "mb_append f s m =
     (case append_prepare m of
        (m1, None) \<Rightarrow> Some (s, m1)
      | (m1, Some c) \<Rightarrow>
          (case f s c of (s', c', appended) \<Rightarrow>
             if \<not> chunk_ok c c' appended then None
             else let m2 = append_finalize c' appended m1 in
                  if appended = 0 \<or> appended < length c then Some (s', m2) else mb_append f s' m2))"
  by pat_completeness auto
termination
proof (relation "measure (\<lambda>(f, s, m). 2 * length (mb_free m) + (if tail_space m then 1 else 0))", simp)
  fix f :: "'a chunk_fn" and s m m1 c' m2 s' appended and c :: bytes and r :: "bytes option" and z
  assume "(m1, r) = append_prepare m" "r = Some c" "(s', z) = f s c" "(c', appended) = z" "\<not> \<not> chunk_ok c c' appended"
    "m2 = append_finalize c' appended m1" "\<not> (appended = 0 \<or> appended < length c)"
  then show "((f, s', m2), f, s, m) \<in> measure (\<lambda>(f, s, m). 2 * length (mb_free m) + (if tail_space m then 1 else 0))"
    using append_prepare_measure [of m m1 c c'] by (auto simp: chunk_ok_def)
qed

declare mb_append.simps [simp del]

definition append_inline :: "'c chunk_fn \<Rightarrow> 'c \<Rightarrow> mbuff \<Rightarrow> ('c \<times> mbuff) option" where
  "append_inline f s m =
     (case append_prepare_inline m of
        None \<Rightarrow> Some (s, m)
      | Some c \<Rightarrow> (case f s c of (s', c', appended) \<Rightarrow>
          if \<not> chunk_ok c c' appended then None else Some (s', append_finalize c' appended m)))"

subsection \<open>Prepending\<close>

definition head_space :: "mbuff \<Rightarrow> bool" where
  "head_space m \<longleftrightarrow> mb_nodes m \<noteq> [] \<and> 0 < prepend_space (hd (mb_nodes m))"

definition prepend_prepare_inline :: "mbuff \<Rightarrow> bytes option" where
  "prepend_prepare_inline m = (if head_space m then Some (get_prepend_chunk (hd (mb_nodes m))) else None)"

definition prepend_prepare :: "mbuff \<Rightarrow> mbuff \<times> bytes option" where
  "prepend_prepare m =
     (if head_space m then (m, Some (get_prepend_chunk (hd (mb_nodes m))))
      else case get_free_node m of
             (m1, None) \<Rightarrow> (m1, None)
           | (m1, Some n) \<Rightarrow> (m1\<lparr>mb_nodes := n # mb_nodes m1\<rparr>, Some (get_prepend_chunk n)))"

definition prepend_finalize :: "bytes \<Rightarrow> nat \<Rightarrow> mbuff \<Rightarrow> mbuff" where
  "prepend_finalize c prepend_len m =
     m\<lparr>mb_nodes := put_prepend_chunk c prepend_len (hd (mb_nodes m)) # tl (mb_nodes m),
       mb_valid_size := mb_valid_size m + prepend_len\<rparr>"

definition head_measure :: "mbuff \<Rightarrow> nat" where
  "head_measure m =
     (if head_space m then (if mb_len (hd (mb_nodes m)) = 0 then 2 else 1) + mb_off (hd (mb_nodes m)) else 0)"

lemma prepend_prepare_measure:
  assumes "prepend_prepare m = (m1, Some c)" "chunk_ok c c' (length c)" "c \<noteq> []"
  shows "length (mb_free (prepend_finalize c' (length c) m1)) < length (mb_free m)
    \<or> length (mb_free (prepend_finalize c' (length c) m1)) = length (mb_free m)
      \<and> head_measure (prepend_finalize c' (length c) m1) < head_measure m"
proof (cases "head_space m")
  case False
  then show ?thesis using assms by (auto simp: prepend_prepare_def get_free_node_def prepend_finalize_def split: list.splits)
next
  case True
  then obtain n ns where n: "mb_nodes m = n # ns" by (auto simp: head_space_def neq_Nil_conv)
  have m1: "m1 = m" and c: "c = take (prepend_space n) (mb_buff n)"
    using assms(1) True n by (auto simp: prepend_prepare_def get_prepend_chunk_def)
  have k: "0 < length c" using assms(3) by simp
  have "head_measure (prepend_finalize c' (length c) m) < head_measure m"
    using True n k assms(2) c
    by (auto simp: head_measure_def prepend_finalize_def put_prepend_chunk_def Let_def head_space_def prepend_space_def chunk_ok_def)
  then show ?thesis by (simp add: m1 prepend_finalize_def)
qed

function mb_prepend :: "'c chunk_fn \<Rightarrow> 'c \<Rightarrow> mbuff \<Rightarrow> ('c \<times> mbuff) option" where
  "mb_prepend f s m =
     (case prepend_prepare m of
        (m1, None) \<Rightarrow> Some (s, m1)
      | (m1, Some c) \<Rightarrow>
          (case f s c of (s', c', prepended) \<Rightarrow>
             if \<not> chunk_ok c c' prepended then None
             else let m2 = prepend_finalize c' prepended m1 in
                  if prepended = 0 \<or> prepended < length c then Some (s', m2) else mb_prepend f s' m2))"
  by pat_completeness auto
termination
proof (relation "measures [\<lambda>(f, s, m). length (mb_free m), \<lambda>(f, s, m). head_measure m]", simp)
  fix f :: "'a chunk_fn" and s m m1 c' m2 s' prepended and c :: bytes and r :: "bytes option" and z
  assume "(m1, r) = prepend_prepare m" "r = Some c" "(s', z) = f s c" "(c', prepended) = z" "\<not> \<not> chunk_ok c c' prepended"
    "m2 = prepend_finalize c' prepended m1" "\<not> (prepended = 0 \<or> prepended < length c)"
  then show "((f, s', m2), f, s, m) \<in> measures [\<lambda>(f, s, m). length (mb_free m), \<lambda>(f, s, m). head_measure m]"
    using prepend_prepare_measure [of m m1 c c'] by (fastforce simp: chunk_ok_def)
qed

declare mb_prepend.simps [simp del]

definition prepend_inline :: "'c chunk_fn \<Rightarrow> 'c \<Rightarrow> mbuff \<Rightarrow> ('c \<times> mbuff) option" where
  "prepend_inline f s m =
     (case prepend_prepare_inline m of
        None \<Rightarrow> Some (s, m)
      | Some c \<Rightarrow> (case f s c of (s', c', prepended) \<Rightarrow>
          if \<not> chunk_ok c c' prepended then None else Some (s', prepend_finalize c' prepended m)))"

subsection \<open>Changing the valid part\<close>

definition free_nodes :: "node list \<Rightarrow> mbuff \<Rightarrow> mbuff" where
  "free_nodes ns m = fold (\<lambda>n. put_free_node (node_reset n)) ns m"

text \<open>The first loop of \<open>reslice\<close>: the nodes that leave the front, and those that stay.\<close>

fun drop_front :: "nat \<Rightarrow> node list \<Rightarrow> (node list \<times> node list) option" where
  "drop_front off [] = (if 0 < off then None else Some ([], []))"
| "drop_front off (n # ns) =
     (if off = 0 then Some ([], n # ns)
      else if off < mb_len n then Some ([], n\<lparr>mb_off := mb_off n + off, mb_len := mb_len n - off\<rparr> # ns)
      else map_option (\<lambda>(fs, ks). (n # fs, ks)) (drop_front (off - mb_len n) ns))"

text \<open>The second loop and the truncation: the nodes that stay, and those that leave the back.\<close>

fun cut_back :: "nat \<Rightarrow> node list \<Rightarrow> (node list \<times> node list) option" where
  "cut_back len [] = None"
| "cut_back len (n # ns) =
     (if len = 0 \<or> len \<le> mb_len n then Some ([n\<lparr>mb_len := len\<rparr>], ns)
      else map_option (\<lambda>(ks, fs). (n # ks, fs)) (cut_back (len - mb_len n) ns))"

definition reslice :: "nat \<Rightarrow> nat \<Rightarrow> mbuff \<Rightarrow> (mbuff \<times> int) option" where
  "reslice len off m =
     (if mb_valid_size m < sz_add off len then Some (m, - 1)
      else if len = 0 then Some ((free_nodes (mb_nodes m) m)\<lparr>mb_nodes := [], mb_valid_size := 0\<rparr>, 0)
      else if mb_nodes m = [] then Some (m, 0)
      else case drop_front off (mb_nodes m) of
             None \<Rightarrow> None
           | Some (fs, ks) \<Rightarrow>
               (case cut_back len ks of
                  None \<Rightarrow> None
                | Some (ks', fs') \<Rightarrow>
                    Some ((free_nodes fs' (free_nodes fs m))\<lparr>mb_nodes := ks', mb_valid_size := len\<rparr>, 0)))"

text \<open>\<open>reset\<close> releases the buffers; the size of the valid part keeps its value.\<close>

definition mb_reset :: "mbuff \<Rightarrow> mbuff" where
  "mb_reset m = m\<lparr>mb_nodes := [], mb_free := [], mb_free_size := 0, mb_free_nodes := 0\<rparr>"

subsection \<open>Iterators\<close>

text \<open>The current node is the head of \<open>i_nodes\<close>; an iterator without nodes is invalid.\<close>

record iter =
  i_nodes :: "node list"
  i_len :: nat
  i_chunk :: bytes

definition iter_none :: iter where
  "iter_none = \<lparr>i_nodes = [], i_len = 0, i_chunk = []\<rparr>"

definition iter_valid :: "iter \<Rightarrow> bool" where "iter_valid it \<longleftrightarrow> i_nodes it \<noteq> []"

definition is_next_valid :: "iter \<Rightarrow> bool" where "is_next_valid it \<longleftrightarrow> length (i_chunk it) < i_len it"

fun find_node :: "nat \<Rightarrow> node list \<Rightarrow> (node list \<times> nat) option" where
  "find_node off [] = None"
| "find_node off (n # ns) = (if off < mb_len n then Some (n # ns, off) else find_node (off - mb_len n) ns)"

definition do_initialize_iterator :: "nat \<Rightarrow> nat \<Rightarrow> mbuff \<Rightarrow> iter option" where
  "do_initialize_iterator off len m =
     (case find_node off (mb_nodes m) of
        Some (n # ns, node_off) \<Rightarrow>
          Some \<lparr>i_nodes = n # ns, i_len = len, i_chunk = get_valid_chunk n node_off (min len (mb_len n - node_off))\<rparr>
      | _ \<Rightarrow> None)"

definition iterate_valid_init :: "nat \<Rightarrow> nat \<Rightarrow> mbuff \<Rightarrow> (errno \<times> iter) option" where
  "iterate_valid_init off len m =
     (if len = 0 then Some (E_OK, iter_none)
      else if mb_valid_size m < sz_add off len then Some (EINVAL, iter_none)
      else map_option (Pair E_OK) (do_initialize_iterator off len m))"

definition iterate_valid_partial_init :: "nat \<Rightarrow> nat \<Rightarrow> mbuff \<Rightarrow> (errno \<times> iter) option" where
  "iterate_valid_partial_init off len m =
     (if mb_valid_size m < off then Some (EINVAL, iter_none)
      else let len1 = min len (mb_valid_size m - off) in
           if len1 = 0 then Some (E_OK, iter_none)
           else map_option (Pair E_OK) (do_initialize_iterator off len1 m))"

definition iter_next :: "iter \<Rightarrow> iter option" where
  "iter_next it =
     (case i_nodes it of
        [] \<Rightarrow> None
      | n # ns \<Rightarrow>
          let len = i_len it - length (i_chunk it) in
          if len = 0 then Some \<lparr>i_nodes = [], i_len = 0, i_chunk = []\<rparr>
          else (case ns of
                  [] \<Rightarrow> Some \<lparr>i_nodes = [], i_len = len, i_chunk = []\<rparr>
                | n' # _ \<Rightarrow> Some \<lparr>i_nodes = ns, i_len = len, i_chunk = get_valid_chunk n' 0 (min len (mb_len n'))\<rparr>))"

lemma iter_next_less: "iter_next it = Some it' \<Longrightarrow> length (i_nodes it') < length (i_nodes it)"
  by (auto simp: iter_next_def Let_def split: list.splits if_splits)

subsection \<open>Copying in\<close>

definition append_fn :: "bytes \<Rightarrow> (nat \<times> nat) chunk_fn" where
  "append_fn src s c =
     (case s of (remaining, copied) \<Rightarrow>
        let cp_len = min remaining (length c) in
        if cp_len = 0 then (s, c, 0)
        else ((remaining - cp_len, copied + cp_len), take cp_len (drop copied src) @ drop cp_len c, cp_len))"

definition append_from_buffer :: "bytes \<Rightarrow> mbuff \<Rightarrow> (mbuff \<times> nat) option" where
  "append_from_buffer src m =
     map_option (\<lambda>((_, copied), m'). (m', copied)) (mb_append (append_fn src) (length src, 0) m)"

definition prepend_fn :: "bytes \<Rightarrow> (nat \<times> nat) chunk_fn" where
  "prepend_fn src s c =
     (case s of (remaining, copied) \<Rightarrow>
        let cp_len = min remaining (length c) in
        if cp_len = 0 then (s, c, 0)
        else ((remaining - cp_len, copied + cp_len),
              take (length c - cp_len) c @ take cp_len (drop (remaining - cp_len) src), cp_len))"

definition prepend_from_buffer :: "bytes \<Rightarrow> mbuff \<Rightarrow> (mbuff \<times> nat) option" where
  "prepend_from_buffer src m =
     map_option (\<lambda>((_, copied), m'). (m', copied)) (mb_prepend (prepend_fn src) (length src, 0) m)"

text \<open>Copying from another Mbuff; prepending takes the first chunk only.\<close>

definition prepend_from_mbuff :: "mbuff \<Rightarrow> nat \<Rightarrow> nat \<Rightarrow> mbuff \<Rightarrow> (mbuff \<times> nat) option" where
  "prepend_from_mbuff mbuff_in mbuff_off len m =
     (case iterate_valid_init mbuff_off len mbuff_in of
        None \<Rightarrow> None
      | Some (err, it) \<Rightarrow>
          if err \<noteq> E_OK then Some (m, 0)
          else if \<not> iter_valid it then Some (m, 0)
          else prepend_from_buffer (take (min len (length (i_chunk it))) (i_chunk it)) m)"

function append_iter :: "iter \<Rightarrow> nat \<Rightarrow> nat \<Rightarrow> mbuff \<Rightarrow> (mbuff \<times> nat) option" where
  "append_iter it len copied m =
     (if \<not> iter_valid it then Some (m, copied)
      else case append_from_buffer (take (min (len - copied) (length (i_chunk it))) (i_chunk it)) m of
             None \<Rightarrow> None
           | Some (m1, n) \<Rightarrow>
               (case iter_next it of None \<Rightarrow> None | Some it1 \<Rightarrow> append_iter it1 len (copied + n) m1))"
  by pat_completeness auto
termination by (relation "measure (\<lambda>(it, _). length (i_nodes it))") (auto dest: iter_next_less)

declare append_iter.simps [simp del]

definition append_from_mbuff :: "mbuff \<Rightarrow> nat \<Rightarrow> nat \<Rightarrow> mbuff \<Rightarrow> (mbuff \<times> nat) option" where
  "append_from_mbuff mbuff_in mbuff_off len m =
     (case iterate_valid_init mbuff_off len mbuff_in of
        None \<Rightarrow> None
      | Some (err, it) \<Rightarrow> if err \<noteq> E_OK then Some (m, 0) else append_iter it len 0 m)"

definition skip_fn :: "nat chunk_fn" where
  "skip_fn rem c = (let x = min (length c) rem in (rem - x, c, x))"

definition append_uninitialized :: "nat \<Rightarrow> mbuff \<Rightarrow> mbuff option" where
  "append_uninitialized sz m = map_option snd (mb_append skip_fn sz m)"

text \<open>The whole chunk is set, also behind the bytes that become valid.\<close>

definition fill_fn :: "u8 \<Rightarrow> nat chunk_fn" where
  "fill_fn val rem c = (let x = min (length c) rem in (rem - x, replicate (length c) val, x))"

definition append_val :: "nat \<Rightarrow> u8 \<Rightarrow> mbuff \<Rightarrow> mbuff option" where
  "append_val sz val m = map_option snd (mb_append (fill_fn val) sz m)"

definition append_zero :: "nat \<Rightarrow> mbuff \<Rightarrow> mbuff option" where
  "append_zero sz m = append_val sz 0 m"

text \<open>An I/O vector for appending: the lengths of the chunks that become valid.\<close>

definition iovec_fn :: "nat \<Rightarrow> (nat \<times> nat list) chunk_fn" where
  "iovec_fn iov_len s c =
     (case s of (rem, iov) \<Rightarrow>
        if length iov = iov_len then (s, c, 0)
        else let len = min (length c) rem in
             if len = 0 then (s, c, 0) else ((rem - len, iov @ [len]), c, len))"

definition fill_iovec_append :: "nat \<Rightarrow> nat \<Rightarrow> mbuff \<Rightarrow> (mbuff \<times> nat list \<times> nat) option" where
  "fill_iovec_append len iov_len m =
     map_option (\<lambda>((rem, iov), m'). (m', iov, len - rem)) (mb_append (iovec_fn iov_len) (len, []) m)"

subsection \<open>Reading and comparing\<close>

function copy_iter :: "iter \<Rightarrow> nat \<Rightarrow> bytes \<Rightarrow> bytes option" where
  "copy_iter it len buff =
     (if \<not> iter_valid it then Some buff
      else let cp_len = min (len - length buff) (length (i_chunk it)) in
           case iter_next it of None \<Rightarrow> None | Some it1 \<Rightarrow> copy_iter it1 len (buff @ take cp_len (i_chunk it)))"
  by pat_completeness auto
termination by (relation "measure (\<lambda>(it, _). length (i_nodes it))") (auto dest: iter_next_less)

declare copy_iter.simps [simp del]

text \<open>The bytes that reach the buffer; their number is the value returned.\<close>

definition copy_to_buffer :: "nat \<Rightarrow> nat \<Rightarrow> mbuff \<Rightarrow> bytes option" where
  "copy_to_buffer mbuff_off len m =
     (case iterate_valid_partial_init mbuff_off len m of
        None \<Rightarrow> None
      | Some (err, it) \<Rightarrow> if err \<noteq> E_OK then Some [] else copy_iter it (i_len it) [])"

text \<open>A comparison returns an error, or whether the bytes are equal (the value 0).\<close>

function compare_iter :: "iter \<Rightarrow> bytes \<Rightarrow> nat \<Rightarrow> nat \<Rightarrow> (errno + bool) option" where
  "compare_iter it buff remaining buff_off =
     (if remaining = 0 \<or> \<not> iter_valid it then Some (Inr True)
      else let comp_len = min remaining (length (i_chunk it)) in
           if take comp_len (i_chunk it) \<noteq> take comp_len (drop buff_off buff) then Some (Inr False)
           else case iter_next it of
                  None \<Rightarrow> None | Some it1 \<Rightarrow> compare_iter it1 buff (remaining - comp_len) (buff_off + comp_len))"
  by pat_completeness auto
termination by (relation "measure (\<lambda>(it, _). length (i_nodes it))") (auto dest: iter_next_less)

declare compare_iter.simps [simp del]

definition mem_compare_buffer :: "nat \<Rightarrow> bytes \<Rightarrow> nat \<Rightarrow> mbuff \<Rightarrow> (errno + bool) option" where
  "mem_compare_buffer mbuff_off buff len m =
     (case iterate_valid_init mbuff_off len m of
        None \<Rightarrow> None
      | Some (err, it) \<Rightarrow> if err \<noteq> E_OK then Some (Inl err) else compare_iter it buff len 0)"

definition iter_advance :: "iter \<Rightarrow> nat \<Rightarrow> (iter \<times> nat) option" where
  "iter_advance it off = (if off = length (i_chunk it) then map_option (\<lambda>it'. (it', 0)) (iter_next it) else Some (it, off))"

lemma iter_advance_le:
  "iter_advance it off = Some (it', off') \<Longrightarrow> length (i_nodes it') \<le> length (i_nodes it)"
  "iter_advance it (length (i_chunk it)) = Some (it', off') \<Longrightarrow> length (i_nodes it') < length (i_nodes it)"
  by (auto simp: iter_advance_def split: if_splits dest: iter_next_less)

function compare_iters :: "iter \<Rightarrow> nat \<Rightarrow> iter \<Rightarrow> nat \<Rightarrow> nat \<Rightarrow> nat \<Rightarrow> (errno + bool) option" where
  "compare_iters it1 c1_off it2 c2_off total_compared len =
     (let cmp_len = min (length (i_chunk it1) - c1_off) (length (i_chunk it2) - c2_off) in
      if take cmp_len (drop c1_off (i_chunk it1)) \<noteq> take cmp_len (drop c2_off (i_chunk it2)) then Some (Inr False)
      else
        case iter_advance it1 (c1_off + cmp_len) of
          None \<Rightarrow> None
        | Some (it1', o1) \<Rightarrow>
            (case iter_advance it2 (c2_off + cmp_len) of
               None \<Rightarrow> None
             | Some (it2', o2) \<Rightarrow>
                 if total_compared + cmp_len = len then Some (Inr True)
                 else if length (i_chunk it1) < c1_off \<or> length (i_chunk it2) < c2_off then None
                 else compare_iters it1' o1 it2' o2 (total_compared + cmp_len) len))"
  by pat_completeness auto
termination
proof (relation "measure (\<lambda>(it1, _, it2, _). length (i_nodes it1) + length (i_nodes it2))", simp)
  fix it1 it2 it1' it2' :: iter and c1_off c2_off total len cmp_len o1 o2 :: nat and a b :: "(iter \<times> nat)"
  assume c: "cmp_len = min (length (i_chunk it1) - c1_off) (length (i_chunk it2) - c2_off)"
    and a: "iter_advance it1 (c1_off + cmp_len) = Some a" "(it1', o1) = a"
    and b: "iter_advance it2 (c2_off + cmp_len) = Some b" "(it2', o2) = b"
    and le: "\<not> (length (i_chunk it1) < c1_off \<or> length (i_chunk it2) < c2_off)"
  have "c1_off + cmp_len = length (i_chunk it1) \<or> c2_off + cmp_len = length (i_chunk it2)" using c le by auto
  then show "((it1', o1, it2', o2, total + cmp_len, len), it1, c1_off, it2, c2_off, total, len)
      \<in> measure (\<lambda>(it1, _, it2, _). length (i_nodes it1) + length (i_nodes it2))"
    using a b iter_advance_le(1) [of it1 "c1_off + cmp_len"] iter_advance_le(1) [of it2 "c2_off + cmp_len"]
      iter_advance_le(2) [of it1] iter_advance_le(2) [of it2] by fastforce
qed

declare compare_iters.simps [simp del]

definition mem_compare :: "mbuff \<Rightarrow> nat \<Rightarrow> mbuff \<Rightarrow> nat \<Rightarrow> nat \<Rightarrow> (errno + bool) option" where
  "mem_compare mb1 mb1_off mb2 mb2_off len =
     (case iterate_valid_init mb1_off len mb1 of
        None \<Rightarrow> None
      | Some (err, it1) \<Rightarrow>
          if err \<noteq> E_OK then Some (Inl err)
          else case iterate_valid_init mb2_off len mb2 of
                 None \<Rightarrow> None
               | Some (err, it2) \<Rightarrow>
                   if err \<noteq> E_OK then Some (Inl err) else compare_iters it1 0 it2 0 0 len)"

text \<open>The chunks of a range, as \<open>fill_iovec_valid\<close> lists them, at most \<open>iov_size\<close> of them.\<close>

fun iovec_iter :: "nat \<Rightarrow> iter \<Rightarrow> bytes list option" where
  "iovec_iter 0 it = Some []"
| "iovec_iter (Suc k) it =
     (if \<not> iter_valid it then Some []
      else case iter_next it of None \<Rightarrow> None | Some it1 \<Rightarrow> map_option (\<lambda>cs. i_chunk it # cs) (iovec_iter k it1))"

definition fill_iovec_valid :: "nat \<Rightarrow> nat \<Rightarrow> nat \<Rightarrow> mbuff \<Rightarrow> (errno + bytes list) option" where
  "fill_iovec_valid mbuff_off len iov_size m =
     (case iterate_valid_init mbuff_off len m of
        None \<Rightarrow> None
      | Some (err, it) \<Rightarrow> if err \<noteq> E_OK then Some (Inl err) else map_option Inr (iovec_iter iov_size it))"

end
