(* ===== verification/Mbuff_Inv.thy ===== *)
theory Mbuff_Inv
  imports Mbuff
begin

section \<open>Chained buffers as byte strings\<close>

text \<open>
  The abstraction of an Mbuff is the byte string of its valid data.  Appending and
  prepending add to that string at either end, \<open>reslice\<close> takes a part of it, and the
  iterators, copies and comparisons read it, however it is split over the nodes.
\<close>

definition valid_bytes :: "node \<Rightarrow> bytes" where
  "valid_bytes n = get_valid_chunk n 0 (mb_len n)"

definition mb_data :: "mbuff \<Rightarrow> bytes" where
  "mb_data m = concat (map valid_bytes (mb_nodes m))"

definition node_ok :: "node \<Rightarrow> bool" where
  "node_ok n \<longleftrightarrow> mb_buff n \<noteq> [] \<and> mb_off n + mb_len n \<le> length (mb_buff n)
     \<and> (mb_len n = 0 \<longrightarrow> mb_off n = 0 \<or> mb_off n = length (mb_buff n))"

definition node_free :: "node \<Rightarrow> bool" where
  "node_free n \<longleftrightarrow> mb_buff n \<noteq> [] \<and> mb_off n = 0 \<and> mb_len n = 0"

definition mb_inv :: "mbuff \<Rightarrow> bool" where
  "mb_inv m \<longleftrightarrow> (\<forall>n \<in> set (mb_nodes m). node_ok n) \<and> (\<forall>n \<in> set (mb_free m). node_free n)
     \<and> mb_valid_size m = sum_list (map mb_len (mb_nodes m))
     \<and> mb_free_size m = sum_list (map (length \<circ> mb_buff) (mb_free m)) \<and> mb_free_nodes m = length (mb_free m)"

definition prepend_avail :: "mbuff \<Rightarrow> nat" where
  "prepend_avail m = mb_free_size m + (if mb_nodes m \<noteq> [] then prepend_space (hd (mb_nodes m)) else 0)"

lemma length_valid_bytes [simp]: "node_ok n \<Longrightarrow> length (valid_bytes n) = mb_len n"
  by (auto simp: valid_bytes_def get_valid_chunk_def node_ok_def min_def)

lemma length_concat_valid: "\<forall>n \<in> set ns. node_ok n \<Longrightarrow> length (concat (map valid_bytes ns)) = sum_list (map mb_len ns)"
  by (induction ns) auto

lemma length_mb_data: "mb_inv m \<Longrightarrow> length (mb_data m) = mb_valid_size m"
  by (simp add: mb_inv_def mb_data_def length_concat_valid)

lemma node_free_ok [simp]: "node_free n \<Longrightarrow> node_ok n"
  by (simp add: node_free_def node_ok_def)

lemma node_free_valid [simp]: "node_free n \<Longrightarrow> valid_bytes n = []"
  by (simp add: node_free_def valid_bytes_def get_valid_chunk_def)

lemma mb_new_inv: "mb_inv mb_new" "mb_data mb_new = []"
  by (simp_all add: mb_inv_def mb_new_def mb_data_def)

lemma put_free_node_ok:
  assumes "mb_inv m" "node_free n"
  shows "mb_inv (put_free_node n m)" "mb_data (put_free_node n m) = mb_data m"
    "mb_free_size (put_free_node n m) = mb_free_size m + length (mb_buff n)"
  using assms by (simp_all add: put_free_node_def mb_inv_def mb_data_def)

lemma add_buff_ok:
  assumes "mb_inv m" "buf \<noteq> []"
  shows "mb_inv (add_buff buf m)" "mb_data (add_buff buf m) = mb_data m"
    "append_avail_size (add_buff buf m) = append_avail_size m + length buf"
    "prepend_avail (add_buff buf m) = prepend_avail m + length buf"
proof -
  have "node_free (node_new buf)" using assms(2) by (simp add: node_free_def node_new_def)
  note ok = put_free_node_ok [OF assms(1) this]
  show "mb_inv (add_buff buf m)" "mb_data (add_buff buf m) = mb_data m"
    "append_avail_size (add_buff buf m) = append_avail_size m + length buf"
    "prepend_avail (add_buff buf m) = prepend_avail m + length buf"
    using ok by (simp_all add: add_buff_def append_avail_size_def prepend_avail_def)
      (simp_all add: put_free_node_def node_new_def)
qed

lemma get_free_node_ok:
  assumes "mb_inv m" "get_free_node m = (m1, r)"
  shows "mb_inv m1" "mb_nodes m1 = mb_nodes m" "mb_valid_size m1 = mb_valid_size m"
    "r = None \<Longrightarrow> m1 = m \<and> mb_free_size m = 0"
    "r = Some n \<Longrightarrow> node_free n \<and> mb_free_size m = mb_free_size m1 + length (mb_buff n)"
  using assms by (auto simp: get_free_node_def mb_inv_def split: list.splits)

subsection \<open>Appending\<close>

lemma append_prepare_ok:
  assumes inv: "mb_inv m" and p: "append_prepare m = (m1, r)"
  shows "mb_inv m1" "mb_data m1 = mb_data m" "append_avail_size m1 = append_avail_size m"
    "r = None \<Longrightarrow> append_avail_size m = 0"
    "r = Some c \<Longrightarrow> mb_nodes m1 \<noteq> [] \<and> c = get_append_chunk (last (mb_nodes m1)) \<and> c \<noteq> []"
proof -
  have all: "mb_inv m1 \<and> mb_data m1 = mb_data m \<and> append_avail_size m1 = append_avail_size m
    \<and> (r = None \<longrightarrow> append_avail_size m = 0)
    \<and> (\<forall>c. r = Some c \<longrightarrow> mb_nodes m1 \<noteq> [] \<and> c = get_append_chunk (last (mb_nodes m1)) \<and> c \<noteq> [])"
  proof (cases "tail_space m")
    case True
    then show ?thesis using p inv
      by (auto simp: append_prepare_def tail_space_def get_append_chunk_def append_space_def)
  next
    case False
    have sp: "(if mb_nodes m \<noteq> [] then append_space (last (mb_nodes m)) else 0) = 0" using False by (auto simp: tail_space_def)
    obtain m2 fn where g: "get_free_node m = (m2, fn)" by force
    note f = get_free_node_ok [OF inv g]
    show ?thesis
    proof (cases fn)
      case None
      then show ?thesis using p False g f(1,4) inv sp by (auto simp: append_prepare_def append_avail_size_def)
    next
      case (Some n)
      have r: "m1 = m2\<lparr>mb_nodes := mb_nodes m2 @ [n]\<rparr>" "r = Some (get_append_chunk n)"
        using p False g Some by (auto simp: append_prepare_def)
      have n: "node_free n" "mb_free_size m = mb_free_size m2 + length (mb_buff n)" using f(5) Some by auto
      have "mb_inv m1" using f(1) n(1) by (simp add: mb_inv_def r) (simp add: node_free_def)
      moreover have "get_append_chunk n \<noteq> []" "append_space n = length (mb_buff n)"
        using n(1) by (simp_all add: node_free_def get_append_chunk_def append_space_def)
      ultimately show ?thesis using f(2) n sp by (simp add: r mb_data_def append_avail_size_def)
    qed
  qed
  then show "mb_inv m1" "mb_data m1 = mb_data m" "append_avail_size m1 = append_avail_size m"
    "r = None \<Longrightarrow> append_avail_size m = 0"
    "r = Some c \<Longrightarrow> mb_nodes m1 \<noteq> [] \<and> c = get_append_chunk (last (mb_nodes m1)) \<and> c \<noteq> []" by auto
qed

lemma put_append_chunk_ok:
  assumes ok: "node_ok n" and c: "length c = append_space n" "k \<le> length c"
  shows "node_ok (put_append_chunk c k n)" "valid_bytes (put_append_chunk c k n) = valid_bytes n @ take k c"
    "append_space (put_append_chunk c k n) = append_space n - k" "mb_len (put_append_chunk c k n) = mb_len n + k"
proof -
  have le: "mb_off n + mb_len n \<le> length (mb_buff n)" using ok by (simp add: node_ok_def)
  have len: "length (take (mb_off n + mb_len n) (mb_buff n) @ c) = length (mb_buff n)"
    using le c(1) by (simp add: append_space_def)
  show "node_ok (put_append_chunk c k n)" using ok c len by (auto simp: node_ok_def put_append_chunk_def append_space_def)
  show "append_space (put_append_chunk c k n) = append_space n - k" "mb_len (put_append_chunk c k n) = mb_len n + k"
    using len by (auto simp: append_space_def put_append_chunk_def)
  have "take (mb_len n + k) (drop (mb_off n) (take (mb_off n + mb_len n) (mb_buff n) @ c))
      = take (mb_len n) (drop (mb_off n) (mb_buff n)) @ take k c"
    using le by (simp add: drop_take)
  then show "valid_bytes (put_append_chunk c k n) = valid_bytes n @ take k c"
    by (simp add: valid_bytes_def get_valid_chunk_def put_append_chunk_def)
qed

lemma append_finalize_ok:
  assumes inv: "mb_inv m" and ne: "mb_nodes m \<noteq> []" and c: "length c = length (get_append_chunk (last (mb_nodes m)))" "k \<le> length c"
  shows "mb_inv (append_finalize c k m)" "mb_data (append_finalize c k m) = mb_data m @ take k c"
    "append_avail_size (append_finalize c k m) = append_avail_size m - k" "k \<le> append_avail_size m"
proof -
  obtain ns n where ns: "mb_nodes m = ns @ [n]" using ne by (metis append_butlast_last_id)
  have n: "node_ok n" using inv by (simp add: mb_inv_def ns)
  have "length c = append_space n" using c(1) by (simp add: get_append_chunk_def append_space_def ns)
  note put = put_append_chunk_ok [OF n this c(2)]
  show "mb_inv (append_finalize c k m)" using inv put(1,4) by (simp add: mb_inv_def append_finalize_def ns)
  show "mb_data (append_finalize c k m) = mb_data m @ take k c" using put(2) by (simp add: mb_data_def append_finalize_def ns)
  show "append_avail_size (append_finalize c k m) = append_avail_size m - k" "k \<le> append_avail_size m"
    using put(3) c(2) \<open>length c = append_space n\<close> by (simp_all add: append_avail_size_def append_finalize_def ns)
qed

text \<open>
  A callback that writes a given string: at each chunk it writes as much as fits of what
  is pending.  All the appending helpers of the program have this form.
\<close>

locale chunk_writer =
  fixes f :: "'c chunk_fn" and pending :: "'c \<Rightarrow> bytes" and ok :: "'c \<Rightarrow> bool"
  assumes step_ok: "ok s \<Longrightarrow> f s c = (s', c', n) \<Longrightarrow> ok s' \<and> chunk_ok c c' n \<and> n = min (length (pending s)) (length c)"
    and step_write: "ok s \<Longrightarrow> f s c = (s', c', n) \<Longrightarrow> take n c' = take n (pending s) \<and> pending s' = drop n (pending s)"
begin

lemma append_writes:
  assumes "mb_inv m" "ok s"
  shows "\<exists>s' m'. mb_append f s m = Some (s', m') \<and> mb_inv m' \<and> ok s'
    \<and> mb_data m' = mb_data m @ take (append_avail_size m) (pending s)
    \<and> pending s' = drop (append_avail_size m) (pending s)
    \<and> append_avail_size m' = append_avail_size m - length (pending s)"
  using assms
proof (induction "2 * length (mb_free m) + (if tail_space m then 1 else 0)" arbitrary: s m rule: less_induct)
  case less
  obtain m1 r where p: "append_prepare m = (m1, r)" by force
  note pr = append_prepare_ok [OF less.prems(1) p]
  show ?case
  proof (cases r)
    case None
    then show ?thesis using p pr(1-4) less.prems(2) by (simp add: mb_append.simps [of f s m])
  next
    case (Some c)
    obtain s' c' n where fs: "f s c = (s', c', n)" by (metis prod_cases3)
    note so = step_ok [OF less.prems(2) fs] and sw = step_write [OF less.prems(2) fs]
    have c: "mb_nodes m1 \<noteq> []" "c = get_append_chunk (last (mb_nodes m1))" "c \<noteq> []" using pr(5) Some by auto
    have ck: "length c' = length c" "n \<le> length c" using so by (auto simp: chunk_ok_def)
    let ?m2 = "append_finalize c' n m1"
    note fin = append_finalize_ok [OF pr(1) c(1), of c' n, unfolded ck(1), OF arg_cong [OF c(2), of length] ck(2)]
    have avail: "append_avail_size ?m2 = append_avail_size m - n" "n \<le> append_avail_size m" using fin(3,4) pr(3) by simp_all
    have data: "mb_data ?m2 = mb_data m @ take n (pending s)" using fin(2) pr(2) sw by simp
    have ck2: "chunk_ok c c' n" using so by blast
    have nn: "n = min (length (pending s)) (length c)" "ok s'" "pending s' = drop n (pending s)" using so sw by simp_all
    have unf: "mb_append f s m = (if n = 0 \<or> n < length c then Some (s', ?m2) else mb_append f s' ?m2)"
      using mb_append.simps [of f s m, unfolded p prod.case Some option.case fs Let_def] ck2 by simp
    show ?thesis
    proof (cases "n = 0 \<or> n < length c")
      case True
      then have n: "n = length (pending s)" using so c(3) by (auto simp: min_def split: if_splits)
      have "take (append_avail_size m) (pending s) = take n (pending s)" "drop (append_avail_size m) (pending s) = []"
        using n avail(2) by simp_all
      then show ?thesis using unf True nn(2,3) n fin(1) avail data by auto
    next
      case False
      then have n: "n = length c" using ck(2) by simp
      have "2 * length (mb_free ?m2) + (if tail_space ?m2 then 1 else 0) < 2 * length (mb_free m) + (if tail_space m then 1 else 0)"
        using append_prepare_measure [OF p [unfolded Some], of c'] so n by simp
      from less.hyps [OF this fin(1), of s'] so obtain s'' m' where ih: "mb_append f s' ?m2 = Some (s'', m')" "mb_inv m'" "ok s''"
        "mb_data m' = mb_data ?m2 @ take (append_avail_size ?m2) (pending s')"
        "pending s'' = drop (append_avail_size ?m2) (pending s')" "append_avail_size m' = append_avail_size ?m2 - length (pending s')"
        by auto
      have "take n (pending s) @ take (append_avail_size m - n) (drop n (pending s)) = take (append_avail_size m) (pending s)"
        using avail(2) take_add [of n "append_avail_size m - n" "pending s"] by simp
      moreover have "n \<le> length (pending s)" using nn(1) by simp
      ultimately show ?thesis using unf False ih avail data by (simp add: nn(3))
    qed
  qed
qed

end

end
