(* ===== verification/Mbuff_Write.thy ===== *)
theory Mbuff_Write
  imports Mbuff_Inv
begin

section \<open>What appending and prepending write\<close>

subsection \<open>The callbacks of the appending helpers\<close>

interpretation abuf: chunk_writer "append_fn src" "\<lambda>(remaining, copied). take remaining (drop copied src)"
    "\<lambda>(remaining, copied). remaining + copied = length src"
  by unfold_locales (auto simp: append_fn_def chunk_ok_def Let_def min_def take_drop add.commute split: if_splits prod.splits)

interpretation aval: chunk_writer "fill_fn val" "\<lambda>rem. replicate rem val" "\<lambda>_. True"
  by unfold_locales (auto simp: fill_fn_def chunk_ok_def Let_def min_def split: if_splits)

lemma append_from_buffer_ok:
  assumes "mb_inv m"
  shows "\<exists>m'. append_from_buffer src m = Some (m', min (length src) (append_avail_size m)) \<and> mb_inv m'
    \<and> mb_data m' = mb_data m @ take (append_avail_size m) src \<and> append_avail_size m' = append_avail_size m - length src"
proof -
  obtain remaining copied m' where *: "mb_append (append_fn src) (length src, 0) m = Some ((remaining, copied), m')" "mb_inv m'"
      "remaining + copied = length src" "mb_data m' = mb_data m @ take (append_avail_size m) src"
      "take remaining (drop copied src) = drop (append_avail_size m) src" "append_avail_size m' = append_avail_size m - length src"
    using abuf.append_writes [OF assms, of src "(length src, 0)"] by auto
  have "remaining = length src - append_avail_size m" using arg_cong [OF *(5), of length] *(3) by auto
  then show ?thesis using * by (auto simp: append_from_buffer_def min_def)
qed

lemma append_val_ok:
  assumes "mb_inv m" "sz \<le> append_avail_size m"
  shows "\<exists>m'. append_val sz val m = Some m' \<and> mb_inv m' \<and> mb_data m' = mb_data m @ replicate sz val
    \<and> append_avail_size m' = append_avail_size m - sz"
  using aval.append_writes [OF assms(1), of val sz] assms(2) by (auto simp: append_val_def min_def)

subsection \<open>Prepending\<close>

lemma prepend_space_le: "node_ok n \<Longrightarrow> prepend_space n \<le> length (mb_buff n)"
  by (auto simp: node_ok_def prepend_space_def)

lemma prepend_prepare_ok:
  assumes inv: "mb_inv m" and p: "prepend_prepare m = (m1, r)"
  shows "mb_inv m1" "mb_data m1 = mb_data m" "prepend_avail m1 = prepend_avail m"
    "r = None \<Longrightarrow> prepend_avail m = 0"
    "r = Some c \<Longrightarrow> mb_nodes m1 \<noteq> [] \<and> c = get_prepend_chunk (hd (mb_nodes m1)) \<and> c \<noteq> []"
proof -
  have all: "mb_inv m1 \<and> mb_data m1 = mb_data m \<and> prepend_avail m1 = prepend_avail m
    \<and> (r = None \<longrightarrow> prepend_avail m = 0)
    \<and> (\<forall>c. r = Some c \<longrightarrow> mb_nodes m1 \<noteq> [] \<and> c = get_prepend_chunk (hd (mb_nodes m1)) \<and> c \<noteq> [])"
  proof (cases "head_space m")
    case True
    then have "mb_buff (hd (mb_nodes m)) \<noteq> []" using inv by (auto simp: head_space_def mb_inv_def node_ok_def)
    then show ?thesis using p inv True by (auto simp: prepend_prepare_def head_space_def get_prepend_chunk_def)
  next
    case False
    have sp: "(if mb_nodes m \<noteq> [] then prepend_space (hd (mb_nodes m)) else 0) = 0" using False by (auto simp: head_space_def)
    obtain m2 fn where g: "get_free_node m = (m2, fn)" by force
    note f = get_free_node_ok [OF inv g]
    show ?thesis
    proof (cases fn)
      case None
      then show ?thesis using p False g f(1,4) inv sp by (auto simp: prepend_prepare_def prepend_avail_def)
    next
      case (Some n)
      have r: "m1 = m2\<lparr>mb_nodes := n # mb_nodes m2\<rparr>" "r = Some (get_prepend_chunk n)"
        using p False g Some by (auto simp: prepend_prepare_def)
      have n: "node_free n" "mb_free_size m = mb_free_size m2 + length (mb_buff n)" using f(5) Some by auto
      have "mb_inv m1" using f(1) n(1) by (simp add: mb_inv_def r) (simp add: node_free_def)
      moreover have "get_prepend_chunk n \<noteq> []" "prepend_space n = length (mb_buff n)"
        using n(1) by (simp_all add: node_free_def get_prepend_chunk_def prepend_space_def)
      ultimately show ?thesis using f(2) n sp by (simp add: r mb_data_def prepend_avail_def)
    qed
  qed
  then show "mb_inv m1" "mb_data m1 = mb_data m" "prepend_avail m1 = prepend_avail m"
    "r = None \<Longrightarrow> prepend_avail m = 0"
    "r = Some c \<Longrightarrow> mb_nodes m1 \<noteq> [] \<and> c = get_prepend_chunk (hd (mb_nodes m1)) \<and> c \<noteq> []" by auto
qed

lemma put_prepend_chunk_ok:
  assumes ok: "node_ok n" and c: "length c = prepend_space n" "k \<le> length c"
  shows "node_ok (put_prepend_chunk c k n)"
    "valid_bytes (put_prepend_chunk c k n) = drop (length c - k) c @ valid_bytes n"
    "mb_len (put_prepend_chunk c k n) = mb_len n + k"
    "prepend_space (put_prepend_chunk c k n) = prepend_space n - k"
proof -
  let ?b = "c @ drop (length c) (mb_buff n)"
  have le: "length c \<le> length (mb_buff n)" using prepend_space_le [OF ok] c(1) by simp
  have n: "put_prepend_chunk c k n = n\<lparr>mb_buff := ?b, mb_off := length c - k, mb_len := mb_len n + k\<rparr>"
    using ok c(1) le by (cases "mb_len n = 0") (auto simp: put_prepend_chunk_def Let_def node_ok_def prepend_space_def)
  show "mb_len (put_prepend_chunk c k n) = mb_len n + k" by (simp add: n)
  show "node_ok (put_prepend_chunk c k n)"
    using ok c le by (cases "mb_len n = 0") (auto simp: n node_ok_def prepend_space_def)
  show "prepend_space (put_prepend_chunk c k n) = prepend_space n - k" using c le by (auto simp: n prepend_space_def)
  have "take (mb_len n + k) (drop (length c - k) ?b) = drop (length c - k) c @ take (mb_len n) (drop (length c) (mb_buff n))"
    using c(2) by simp
  moreover have "take (mb_len n) (drop (length c) (mb_buff n)) = valid_bytes n"
    using c(1) by (auto simp: valid_bytes_def get_valid_chunk_def prepend_space_def split: if_splits)
  ultimately show "valid_bytes (put_prepend_chunk c k n) = drop (length c - k) c @ valid_bytes n"
    by (simp add: n valid_bytes_def get_valid_chunk_def)
qed

lemma prepend_finalize_ok:
  assumes inv: "mb_inv m" and ne: "mb_nodes m \<noteq> []" and c: "length c = length (get_prepend_chunk (hd (mb_nodes m)))" "k \<le> length c"
  shows "mb_inv (prepend_finalize c k m)" "mb_data (prepend_finalize c k m) = drop (length c - k) c @ mb_data m"
    "k \<le> prepend_avail m" "prepend_avail (prepend_finalize c k m) = prepend_avail m - k"
proof -
  obtain n ns where ns: "mb_nodes m = n # ns" using ne by (cases "mb_nodes m") auto
  have n: "node_ok n" using inv by (simp add: mb_inv_def ns)
  have len: "length c = prepend_space n" using c(1) prepend_space_le [OF n] by (simp add: get_prepend_chunk_def ns)
  note put = put_prepend_chunk_ok [OF n len c(2)]
  show "mb_inv (prepend_finalize c k m)" using inv put(1,3) by (simp add: mb_inv_def prepend_finalize_def ns)
  show "mb_data (prepend_finalize c k m) = drop (length c - k) c @ mb_data m"
    using put(2) by (simp add: mb_data_def prepend_finalize_def ns)
  show "k \<le> prepend_avail m" using c(2) len by (simp add: prepend_avail_def ns)
  show "prepend_avail (prepend_finalize c k m) = prepend_avail m - k"
    using put(4) c(2) len by (simp add: prepend_avail_def prepend_finalize_def ns)
qed

text \<open>A callback that prepends a given string: at each chunk it writes the last bytes of what is pending.\<close>

locale chunk_prepender =
  fixes f :: "'c chunk_fn" and pending :: "'c \<Rightarrow> bytes" and ok :: "'c \<Rightarrow> bool"
  assumes step_ok: "ok s \<Longrightarrow> f s c = (s', c', n) \<Longrightarrow> ok s' \<and> chunk_ok c c' n \<and> n = min (length (pending s)) (length c)"
    and step_write: "ok s \<Longrightarrow> f s c = (s', c', n) \<Longrightarrow>
      drop (length c - n) c' = drop (length (pending s) - n) (pending s) \<and> pending s' = take (length (pending s) - n) (pending s)"
begin

lemma prepend_writes:
  assumes "mb_inv m" "ok s"
  shows "\<exists>s' m'. mb_prepend f s m = Some (s', m') \<and> mb_inv m' \<and> ok s'
    \<and> mb_data m' = drop (length (pending s) - prepend_avail m) (pending s) @ mb_data m
    \<and> pending s' = take (length (pending s) - prepend_avail m) (pending s)
    \<and> prepend_avail m' = prepend_avail m - length (pending s)"
  using assms
proof (induction "prepend_avail m" arbitrary: s m rule: less_induct)
  case less
  obtain m1 r where p: "prepend_prepare m = (m1, r)" by force
  note pr = prepend_prepare_ok [OF less.prems(1) p]
  show ?case
  proof (cases r)
    case None
    then show ?thesis using p pr(1-4) less.prems(2) by (simp add: mb_prepend.simps [of f s m])
  next
    case (Some c)
    obtain s' c' n where fs: "f s c = (s', c', n)" by (metis prod_cases3)
    note so = step_ok [OF less.prems(2) fs] and sw = step_write [OF less.prems(2) fs]
    have c: "mb_nodes m1 \<noteq> []" "c = get_prepend_chunk (hd (mb_nodes m1))" "c \<noteq> []" using pr(5) Some by auto
    have ck: "length c' = length c" "n \<le> length c" "chunk_ok c c' n" using so by (auto simp: chunk_ok_def)
    let ?p = "pending s" and ?m2 = "prepend_finalize c' n m1"
    note fin = prepend_finalize_ok [OF pr(1) c(1), of c' n, unfolded ck(1), OF arg_cong [OF c(2), of length] ck(2)]
    have avail: "prepend_avail ?m2 = prepend_avail m - n" "n \<le> prepend_avail m" using fin(3,4) pr(3) by simp_all
    have data: "mb_data ?m2 = drop (length ?p - n) ?p @ mb_data m" using fin(2) pr(2) sw by simp
    have nn: "n = min (length ?p) (length c)" "ok s'" "pending s' = take (length ?p - n) ?p" using so sw by simp_all
    have unf: "mb_prepend f s m = (if n = 0 \<or> n < length c then Some (s', ?m2) else mb_prepend f s' ?m2)"
      using mb_prepend.simps [of f s m, unfolded p prod.case Some option.case fs Let_def] ck(3) by simp
    show ?thesis
    proof (cases "n = 0 \<or> n < length c")
      case True
      then have n: "n = length ?p" using so c(3) by (auto simp: min_def split: if_splits)
      then have "length ?p - prepend_avail m = 0" using avail(2) by simp
      then show ?thesis using unf True nn(2,3) n fin(1) avail(1) data by auto
    next
      case False
      then have n: "n = length c" "0 < n" "n \<le> length ?p" using ck(2) nn(1) by auto
      have "prepend_avail ?m2 < prepend_avail m" using avail n(2) by simp
      from less.hyps [OF this fin(1) nn(2)] obtain s'' m' where ih: "mb_prepend f s' ?m2 = Some (s'', m')" "mb_inv m'" "ok s''"
        "mb_data m' = drop (length (pending s') - prepend_avail ?m2) (pending s') @ mb_data ?m2"
        "pending s'' = take (length (pending s') - prepend_avail ?m2) (pending s')"
        "prepend_avail m' = prepend_avail ?m2 - length (pending s')" by auto
      have len: "length (pending s') - prepend_avail ?m2 = length ?p - prepend_avail m" "length (pending s') = length ?p - n"
        using avail n(3) nn(3) by simp_all
      have "drop (length ?p - prepend_avail m) (pending s') @ drop (length ?p - n) ?p = drop (length ?p - prepend_avail m) ?p"
        using drop_append [of "length ?p - prepend_avail m" "pending s'" "drop (length ?p - n) ?p"] avail(2) n(3)
        by (simp add: nn(3))
      moreover have "take (length ?p - prepend_avail m) (pending s') = take (length ?p - prepend_avail m) ?p"
        using avail(2) by (simp add: nn(3) min_absorb1)
      ultimately show ?thesis using unf False ih avail data len n(3) by simp
    qed
  qed
qed

end

interpretation pbuf: chunk_prepender "prepend_fn src" "\<lambda>(remaining, copied). take remaining src"
    "\<lambda>(remaining, copied). remaining + copied = length src"
proof unfold_locales
  fix s s' c c' n
  assume ok: "case s of (remaining, copied) \<Rightarrow> remaining + copied = length src" and f: "prepend_fn src s c = (s', c', n)"
  obtain remaining copied where s: "s = (remaining, copied)" by force
  let ?n = "min remaining (length c)"
  have le: "remaining \<le> length src" using ok s by simp
  have r: "n = ?n" "s' = (remaining - ?n, copied + ?n)" "c' = take (length c - ?n) c @ take ?n (drop (remaining - ?n) src)"
    using f by (auto simp: s prepend_fn_def Let_def split: if_splits)
  then show "(case s' of (remaining, copied) \<Rightarrow> remaining + copied = length src) \<and> chunk_ok c c' n
      \<and> n = min (length (case s of (remaining, copied) \<Rightarrow> take remaining src)) (length c)"
    using ok le by (simp add: s chunk_ok_def)
  have "take ?n (drop (remaining - ?n) src) = drop (remaining - ?n) (take remaining src)" by (simp add: take_drop)
  then show "drop (length c - n) c' = drop (length (case s of (remaining, copied) \<Rightarrow> take remaining src) - n) (case s of (remaining, copied) \<Rightarrow> take remaining src)
      \<and> (case s' of (remaining, copied) \<Rightarrow> take remaining src)
        = take (length (case s of (remaining, copied) \<Rightarrow> take remaining src) - n) (case s of (remaining, copied) \<Rightarrow> take remaining src)"
    using r le by (simp add: s)
qed

lemma prepend_from_buffer_ok:
  assumes "mb_inv m"
  shows "\<exists>m'. prepend_from_buffer src m = Some (m', min (length src) (prepend_avail m)) \<and> mb_inv m'
    \<and> mb_data m' = drop (length src - prepend_avail m) src @ mb_data m \<and> prepend_avail m' = prepend_avail m - length src"
proof -
  obtain remaining copied m' where *: "mb_prepend (prepend_fn src) (length src, 0) m = Some ((remaining, copied), m')" "mb_inv m'"
      "remaining + copied = length src" "mb_data m' = drop (length src - prepend_avail m) src @ mb_data m"
      "take remaining src = take (length src - prepend_avail m) src" "prepend_avail m' = prepend_avail m - length src"
    using pbuf.prepend_writes [OF assms, of src "(length src, 0)"] by auto
  have "remaining = length src - prepend_avail m" using arg_cong [OF *(5), of length] *(3) by auto
  then show ?thesis using * by (auto simp: prepend_from_buffer_def min_def)
qed

end
