(* ===== verification/Mbuff_Read.thy ===== *)
theory Mbuff_Read
  imports Mbuff_Write
begin

section \<open>Slicing, iterating and comparing\<close>

subsection \<open>Slicing\<close>

lemma free_nodes_ok:
  assumes "mb_inv m" "\<forall>n \<in> set fs. mb_buff n \<noteq> []"
  shows "mb_inv (free_nodes fs m)" "mb_nodes (free_nodes fs m) = mb_nodes m" "mb_valid_size (free_nodes fs m) = mb_valid_size m"
  using assms by (induction fs arbitrary: m)
    (simp_all add: free_nodes_def put_free_node_ok node_free_def node_reset_def, simp_all add: put_free_node_def)

lemma drop_front_ok:
  assumes "\<forall>n \<in> set ns. node_ok n" "off \<le> sum_list (map mb_len ns)"
  shows "\<exists>fs ks. drop_front off ns = Some (fs, ks) \<and> (\<forall>n \<in> set fs. node_ok n) \<and> (\<forall>n \<in> set ks. node_ok n)
    \<and> concat (map valid_bytes ks) = drop off (concat (map valid_bytes ns))
    \<and> sum_list (map mb_len ks) = sum_list (map mb_len ns) - off"
  using assms
proof (induction off ns rule: drop_front.induct)
  case (2 off n ns)
  have n: "node_ok n" using "2.prems" by simp
  consider "off = 0" | "0 < off" "off < mb_len n" | "0 < off" "mb_len n \<le> off" by linarith
  then show ?case
  proof cases
    case 2
    have "node_ok (n\<lparr>mb_off := mb_off n + off, mb_len := mb_len n - off\<rparr>)" using n 2 by (auto simp: node_ok_def)
    moreover have "valid_bytes (n\<lparr>mb_off := mb_off n + off, mb_len := mb_len n - off\<rparr>) = drop off (valid_bytes n)"
      using 2 by (simp add: valid_bytes_def get_valid_chunk_def drop_take add.commute)
    ultimately show ?thesis using 2 "2.prems"(1) n by simp
  next
    case 3
    then show ?thesis using "2.IH" "2.prems" n by fastforce
  qed (use "2.prems" in simp)
qed simp

lemma cut_back_ok:
  assumes "\<forall>n \<in> set ns. node_ok n" "0 < len" "len \<le> sum_list (map mb_len ns)"
  shows "\<exists>ks fs. cut_back len ns = Some (ks, fs) \<and> (\<forall>n \<in> set fs. node_ok n) \<and> (\<forall>n \<in> set ks. node_ok n)
    \<and> concat (map valid_bytes ks) = take len (concat (map valid_bytes ns)) \<and> sum_list (map mb_len ks) = len"
  using assms
proof (induction len ns rule: cut_back.induct)
  case (2 len n ns)
  have n: "node_ok n" using "2.prems" by simp
  show ?case
  proof (cases "len \<le> mb_len n")
    case True
    then show ?thesis using "2.prems" n by (auto simp: node_ok_def valid_bytes_def get_valid_chunk_def min_def)
  next
    case False
    then show ?thesis using "2.IH" "2.prems" n by fastforce
  qed
qed simp

lemma reslice_ok:
  assumes inv: "mb_inv m" and fits: "off + len \<le> mb_valid_size m" and small: "mb_valid_size m < 2 ^ 64"
  shows "\<exists>m'. reslice len off m = Some (m', 0) \<and> mb_inv m' \<and> mb_data m' = take len (drop off (mb_data m))"
proof -
  have nodes: "\<forall>n \<in> set (mb_nodes m). node_ok n" and sum: "mb_valid_size m = sum_list (map mb_len (mb_nodes m))"
    using inv by (simp_all add: mb_inv_def)
  have buff: "node_ok n \<Longrightarrow> mb_buff n \<noteq> []" for n by (simp add: node_ok_def)
  have sz: "sz_add off len = off + len" using fits small by (simp add: sz_add_def)
  show ?thesis
  proof (cases "len = 0")
    case True
    have "mb_inv (free_nodes (mb_nodes m) m)" by (rule free_nodes_ok [OF inv]) (use nodes buff in blast)
    then show ?thesis using True sz fits by (simp add: reslice_def) (simp add: mb_inv_def mb_data_def)
  next
    case False
    obtain fs ks where d: "drop_front off (mb_nodes m) = Some (fs, ks)" "\<forall>n \<in> set fs. node_ok n" "\<forall>n \<in> set ks. node_ok n"
      "concat (map valid_bytes ks) = drop off (mb_data m)" "sum_list (map mb_len ks) = mb_valid_size m - off"
      using drop_front_ok [OF nodes, of off] fits sum by (auto simp: mb_data_def)
    obtain ks' fs' where c: "cut_back len ks = Some (ks', fs')" "\<forall>n \<in> set fs'. node_ok n" "\<forall>n \<in> set ks'. node_ok n"
      "concat (map valid_bytes ks') = take len (drop off (mb_data m))" "sum_list (map mb_len ks') = len"
      using cut_back_ok [OF d(3), of len] False fits d(4,5) add_le_imp_le_diff [of len off] by (auto simp: add.commute)
    have f1: "mb_inv (free_nodes fs m)" by (rule free_nodes_ok [OF inv]) (use d(2) buff in blast)
    have f2: "mb_inv (free_nodes fs' (free_nodes fs m))" by (rule free_nodes_ok [OF f1]) (use c(2) buff in blast)
    have ne: "mb_nodes m \<noteq> []" using False fits sum by auto
    have "reslice len off m = Some ((free_nodes fs' (free_nodes fs m))\<lparr>mb_nodes := ks', mb_valid_size := len\<rparr>, 0)"
      using False fits sz ne d(1) c(1) by (simp add: reslice_def)
    then show ?thesis using f2 c(3-5) by (simp add: mb_inv_def mb_data_def)
  qed
qed

lemma reslice_rejects:
  assumes "mb_valid_size m < off + len" "off + len < 2 ^ 64"
  shows "reslice len off m = Some (m, - 1)"
  using assms by (simp add: reslice_def sz_add_def)

subsection \<open>Iterators\<close>

text \<open>An iterator stands for the bytes that are still to be visited.\<close>

definition iter_rest :: "iter \<Rightarrow> bytes" where
  "iter_rest it = take (i_len it) (i_chunk it @ concat (map valid_bytes (tl (i_nodes it))))"

definition iter_ok :: "iter \<Rightarrow> bool" where
  "iter_ok it \<longleftrightarrow> (\<forall>n \<in> set (i_nodes it). node_ok n) \<and> length (iter_rest it) = i_len it
     \<and> length (i_chunk it) \<le> i_len it \<and> (i_nodes it = [] \<longrightarrow> i_len it = 0)
     \<and> (i_nodes it \<noteq> [] \<longrightarrow> 0 < i_len it)"

lemma iter_none_ok: "iter_ok iter_none" "iter_rest iter_none = []"
  by (simp_all add: iter_ok_def iter_none_def iter_rest_def)

lemma find_node_ok:
  assumes "\<forall>n \<in> set ns. node_ok n" "off < sum_list (map mb_len ns)"
  shows "\<exists>n ns' o1. find_node off ns = Some (n # ns', o1) \<and> (\<forall>n' \<in> set (n # ns'). node_ok n') \<and> o1 < mb_len n
    \<and> drop off (concat (map valid_bytes ns)) = drop o1 (valid_bytes n) @ concat (map valid_bytes ns')"
  using assms
proof (induction off ns rule: find_node.induct)
  case (2 off n ns)
  have n: "node_ok n" using "2.prems" by simp
  show ?case
  proof (cases "off < mb_len n")
    case True
    then show ?thesis using "2.prems" n by simp
  next
    case False
    then show ?thesis using "2.IH" "2.prems" n by fastforce
  qed
qed simp

lemma get_valid_chunk_eq: "o1 + k \<le> mb_len n \<Longrightarrow> get_valid_chunk n o1 k = take k (drop o1 (valid_bytes n))"
  by (simp add: valid_bytes_def get_valid_chunk_def drop_take add.commute min_def)

lemma do_initialize_iterator_ok:
  assumes inv: "mb_inv m" and len: "0 < len" "off + len \<le> mb_valid_size m"
  shows "\<exists>it. do_initialize_iterator off len m = Some it \<and> iter_ok it \<and> iter_valid it \<and> i_len it = len
    \<and> iter_rest it = take len (drop off (mb_data m))"
proof -
  have "off < sum_list (map mb_len (mb_nodes m))" "\<forall>n \<in> set (mb_nodes m). node_ok n" using inv len by (simp_all add: mb_inv_def)
  then obtain n ns o1 where f: "find_node off (mb_nodes m) = Some (n # ns, o1)" "\<forall>n' \<in> set (n # ns). node_ok n'" "o1 < mb_len n"
    "drop off (mb_data m) = drop o1 (valid_bytes n) @ concat (map valid_bytes ns)"
    using find_node_ok [of "mb_nodes m" off] by (auto simp: mb_data_def)
  let ?it = "\<lparr>i_nodes = n # ns, i_len = len, i_chunk = get_valid_chunk n o1 (min len (mb_len n - o1))\<rparr>"
  have chunk: "i_chunk ?it = take len (drop o1 (valid_bytes n))" using f(2,3) by (simp add: get_valid_chunk_eq min_def)
  have rest: "iter_rest ?it = take len (drop off (mb_data m))"
    using chunk by (simp add: iter_rest_def f(4) min_def)
  have "length (take len (drop off (mb_data m))) = len" using len length_mb_data [OF inv] by simp
  then have "iter_ok ?it" using f(2) len(1) chunk rest by (simp add: iter_ok_def)
  then show ?thesis using f(1) rest by (auto simp: do_initialize_iterator_def iter_valid_def)
qed

lemma iter_next_ok:
  assumes ok: "iter_ok it" and v: "iter_valid it"
  shows "\<exists>it'. iter_next it = Some it' \<and> iter_ok it' \<and> iter_rest it = i_chunk it @ iter_rest it'"
proof -
  obtain n ns where ns: "i_nodes it = n # ns" using v by (auto simp: iter_valid_def neq_Nil_conv)
  let ?len = "i_len it - length (i_chunk it)"
  have le: "length (i_chunk it) \<le> i_len it" using ok by (simp add: iter_ok_def)
  have lenr: "length (iter_rest it) = i_len it" using ok by (simp add: iter_ok_def)
  have rest: "iter_rest it = i_chunk it @ take ?len (concat (map valid_bytes ns))" using le by (simp add: iter_rest_def ns)
  have len: "length (take ?len (concat (map valid_bytes ns))) = ?len"
    using lenr le unfolding rest length_append by linarith
  show ?thesis
  proof (cases "?len = 0")
    case True
    then show ?thesis using rest by (simp add: iter_next_def ns Let_def iter_ok_def) (simp add: iter_rest_def)
  next
    case False
    then obtain n' ns' where ns': "ns = n' # ns'" using len by (cases ns) auto
    let ?it = "\<lparr>i_nodes = ns, i_len = ?len, i_chunk = get_valid_chunk n' 0 (min ?len (mb_len n'))\<rparr>"
    have "i_chunk ?it = take ?len (valid_bytes n')" by (simp add: get_valid_chunk_eq) (simp add: valid_bytes_def get_valid_chunk_def min_def)
    then have r: "iter_rest ?it = take ?len (concat (map valid_bytes ns))" "length (i_chunk ?it) \<le> ?len"
      by (simp_all add: iter_rest_def ns' min_def)
    have "length (iter_rest ?it) = ?len" using len by (simp only: r(1))
    moreover have "\<forall>n \<in> set ns. node_ok n" using ok by (simp add: iter_ok_def ns)
    ultimately have "iter_ok ?it" using r(2) False by (simp add: iter_ok_def ns' del: length_concat)
    moreover have "iter_next it = Some ?it" using False by (simp add: iter_next_def ns ns' Let_def)
    ultimately show ?thesis using rest r(1) by auto
  qed
qed

lemma iterate_valid_init_ok:
  assumes inv: "mb_inv m" and fits: "off + len \<le> mb_valid_size m" and small: "mb_valid_size m < 2 ^ 64"
  shows "\<exists>it. iterate_valid_init off len m = Some (E_OK, it) \<and> iter_ok it \<and> iter_valid it = (0 < len) \<and> i_len it = len
    \<and> iter_rest it = take len (drop off (mb_data m))"
proof (cases "len = 0")
  case True
  then show ?thesis by (simp add: iterate_valid_init_def iter_none_ok) (simp add: iter_valid_def iter_none_def)
next
  case False
  have "sz_add off len = off + len" using fits small by (simp add: sz_add_def)
  then show ?thesis using do_initialize_iterator_ok [OF inv, of len off] False fits by (auto simp: iterate_valid_init_def)
qed

lemma iterate_valid_init_rejects:
  assumes "0 < len" "mb_valid_size m < off + len" "off + len < 2 ^ 64"
  shows "iterate_valid_init off len m = Some (EINVAL, iter_none)"
  using assms by (simp add: iterate_valid_init_def sz_add_def)

lemma copy_iter_ok:
  assumes "iter_ok it" "len = length buff + i_len it"
  shows "copy_iter it len buff = Some (buff @ iter_rest it)"
  using assms
proof (induction it len buff rule: copy_iter.induct)
  case (1 it len buff)
  show ?case
  proof (cases "iter_valid it")
    case False
    then show ?thesis using "1.prems" by (simp add: copy_iter.simps [of it] iter_valid_def iter_ok_def iter_rest_def)
  next
    case True
    obtain it' where n: "iter_next it = Some it'" "iter_ok it'" "iter_rest it = i_chunk it @ iter_rest it'"
      using iter_next_ok [OF "1.prems"(1) True] by auto
    have l: "length (iter_rest it) = i_len it" "length (iter_rest it') = i_len it'" using "1.prems" n(2) by (simp_all add: iter_ok_def)
    have "length (i_chunk it) + i_len it' = i_len it" using l n(3) by simp
    then show ?thesis using "1.IH" [OF _ refl n(1) n(2)] True n(1,3) "1.prems"(2) by (simp add: copy_iter.simps [of it] Let_def)
  qed
qed

lemma copy_to_buffer_ok:
  assumes inv: "mb_inv m"
  shows "copy_to_buffer off len m = Some (take len (drop off (mb_data m)))"
proof -
  let ?len = "min len (mb_valid_size m - off)"
  consider "mb_valid_size m < off" | "off \<le> mb_valid_size m" "?len = 0" | "off \<le> mb_valid_size m" "0 < ?len" by linarith
  then show ?thesis
  proof cases
    case 1
    then show ?thesis using length_mb_data [OF inv] by (simp add: copy_to_buffer_def iterate_valid_partial_init_def)
  next
    case 2
    then have "take len (drop off (mb_data m)) = []" using length_mb_data [OF inv] by (auto simp: min_def split: if_splits)
    then show ?thesis using 2 copy_iter_ok [OF iter_none_ok(1), of 0 "[]"]
      by (simp add: copy_to_buffer_def iterate_valid_partial_init_def iter_none_ok) (simp add: iter_none_def)
  next
    case 3
    have fits: "off + ?len \<le> mb_valid_size m" using 3(1) by simp
    obtain it where i: "do_initialize_iterator off ?len m = Some it" "iter_ok it" "i_len it = ?len"
      "iter_rest it = take ?len (drop off (mb_data m))" using do_initialize_iterator_ok [OF inv 3(2), of off] fits by blast
    have "take ?len (drop off (mb_data m)) = take len (drop off (mb_data m))" using length_mb_data [OF inv] by (simp add: min_def)
    moreover have "?len \<noteq> 0" "\<not> mb_valid_size m < off" using 3 by linarith+
    ultimately show ?thesis using i copy_iter_ok [OF i(2), of ?len "[]"]
      by (simp only: copy_to_buffer_def iterate_valid_partial_init_def Let_def) simp
  qed
qed

subsection \<open>Comparing\<close>

lemma compare_iter_ok:
  assumes "iter_ok it" "remaining = i_len it" "off + remaining \<le> length buff"
  shows "compare_iter it buff remaining off = Some (Inr (iter_rest it = take remaining (drop off buff)))"
  using assms
proof (induction it buff remaining off rule: compare_iter.induct)
  case (1 it buff remaining off)
  show ?case
  proof (cases "iter_valid it")
    case False
    then show ?thesis using "1.prems" by (simp add: compare_iter.simps [of it] iter_valid_def iter_ok_def iter_rest_def)
  next
    case True
    obtain it' where n: "iter_next it = Some it'" "iter_ok it'" "iter_rest it = i_chunk it @ iter_rest it'"
      using iter_next_ok [OF "1.prems"(1) True] by auto
    have l: "length (iter_rest it) = i_len it" "length (iter_rest it') = i_len it'" using "1.prems" n(2) by (simp_all add: iter_ok_def)
    let ?k = "length (i_chunk it)"
    have k: "?k + i_len it' = remaining" using l n(3) "1.prems"(2) by simp
    have pos: "0 < remaining" using True "1.prems" by (simp add: iter_ok_def iter_valid_def)
    have "take remaining (drop off buff) = take ?k (drop off buff) @ take (i_len it') (drop (off + ?k) buff)"
      using k take_add [of ?k "i_len it'" "drop off buff"] by (simp add: add.commute)
    moreover have "length (take ?k (drop off buff)) = ?k" using k "1.prems"(3) by simp
    ultimately have eq: "iter_rest it = take remaining (drop off buff) \<longleftrightarrow>
        i_chunk it = take ?k (drop off buff) \<and> iter_rest it' = take (i_len it') (drop (off + ?k) buff)"
      by (simp only: n(3)) (rule append_eq_append_conv, simp)
    have ih: "compare_iter it' buff (i_len it') (off + ?k) = Some (Inr (iter_rest it' = take (i_len it') (drop (off + ?k) buff)))"
      if "i_chunk it = take ?k (drop off buff)"
      using "1.IH" [of ?k it'] that True pos n(1,2) k "1.prems"(3) by (simp add: add.commute)
    have m: "min remaining ?k = ?k" "remaining - ?k = i_len it'" using k by simp_all
    show ?thesis unfolding eq using pos
      by (simp add: compare_iter.simps [of it] Let_def m True n(1) ih)
  qed
qed

lemma mem_compare_buffer_ok:
  assumes "mb_inv m" "off + len \<le> mb_valid_size m" "mb_valid_size m < 2 ^ 64" "len \<le> length buff"
  shows "mem_compare_buffer off buff len m = Some (Inr (take len (drop off (mb_data m)) = take len buff))"
  using iterate_valid_init_ok [OF assms(1-3)] compare_iter_ok [of _ len 0 buff] assms(4)
  by (auto simp: mem_compare_buffer_def)

lemma iter_rest_split: "iter_ok it \<Longrightarrow> \<exists>r. iter_rest it = i_chunk it @ r"
  by (auto simp: iter_ok_def iter_rest_def)

lemma iter_advance_ok:
  assumes "iter_ok it" "iter_valid it" "off \<le> length (i_chunk it)"
  shows "\<exists>it' off'. iter_advance it off = Some (it', off') \<and> iter_ok it' \<and> off' \<le> length (i_chunk it')
    \<and> drop off' (iter_rest it') = drop off (iter_rest it)"
proof (cases "off = length (i_chunk it)")
  case True
  then show ?thesis using iter_next_ok [OF assms(1,2)] by (auto simp: iter_advance_def)
qed (use assms in \<open>simp add: iter_advance_def\<close>)

lemma iter_valid_rest: "iter_ok it \<Longrightarrow> iter_valid it = (iter_rest it \<noteq> [])"
  by (auto simp: iter_ok_def iter_valid_def)

lemma drop_in_chunk: "off + k \<le> length c \<Longrightarrow> drop off (c @ r) = take k (drop off c) @ drop (off + k) (c @ r)"
  using append_take_drop_id [of k "drop off c"] by (simp add: add.commute)

lemma compare_iters_ok:
  assumes "iter_ok it1" "iter_ok it2" "o1 \<le> length (i_chunk it1)" "o2 \<le> length (i_chunk it2)" "tc < len"
    "length (drop o1 (iter_rest it1)) = len - tc" "length (drop o2 (iter_rest it2)) = len - tc"
  shows "compare_iters it1 o1 it2 o2 tc len = Some (Inr (drop o1 (iter_rest it1) = drop o2 (iter_rest it2)))"
  using assms
proof (induction it1 o1 it2 o2 tc len rule: compare_iters.induct)
  case (1 it1 o1 it2 o2 tc len)
  note p = "1.prems"
  define k where "k = min (length (i_chunk it1) - o1) (length (i_chunk it2) - o2)"
  have v: "iter_valid it1" "iter_valid it2" using p by (auto simp: iter_valid_rest)
  have kl: "o1 + k \<le> length (i_chunk it1)" "o2 + k \<le> length (i_chunk it2)" using p(3,4) by (auto simp: k_def)
  obtain r1 r2 where r: "iter_rest it1 = i_chunk it1 @ r1" "iter_rest it2 = i_chunk it2 @ r2"
    using iter_rest_split p(1,2) by blast
  have d: "drop o1 (iter_rest it1) = take k (drop o1 (i_chunk it1)) @ drop (o1 + k) (iter_rest it1)"
    "drop o2 (iter_rest it2) = take k (drop o2 (i_chunk it2)) @ drop (o2 + k) (iter_rest it2)"
    unfolding r by (rule drop_in_chunk [OF kl(1)], rule drop_in_chunk [OF kl(2)])
  obtain it1' o1' where a1: "iter_advance it1 (o1 + k) = Some (it1', o1')" "iter_ok it1'" "o1' \<le> length (i_chunk it1')"
    "drop o1' (iter_rest it1') = drop (o1 + k) (iter_rest it1)" using iter_advance_ok [OF p(1) v(1) kl(1)] by auto
  obtain it2' o2' where a2: "iter_advance it2 (o2 + k) = Some (it2', o2')" "iter_ok it2'" "o2' \<le> length (i_chunk it2')"
    "drop o2' (iter_rest it2') = drop (o2 + k) (iter_rest it2)" using iter_advance_ok [OF p(2) v(2) kl(2)] by auto
  have len: "length (drop o1' (iter_rest it1')) = len - (tc + k)" "length (drop o2' (iter_rest it2')) = len - (tc + k)"
    "k \<le> len - tc"
    unfolding a1(4) a2(4) using arg_cong [OF d(1), of length] arg_cong [OF d(2), of length] kl p(6,7) by (simp_all, linarith+)
  note unf = compare_iters.simps [of it1 o1 it2 o2 tc len, unfolded Let_def k_def [symmetric] a1(1) a2(1) option.case prod.case]
  show ?case
  proof (cases "take k (drop o1 (i_chunk it1)) = take k (drop o2 (i_chunk it2))")
    case False
    have "length (take k (drop o1 (i_chunk it1))) = length (take k (drop o2 (i_chunk it2)))" using kl by simp
    from append_eq_append_conv [OF disjI1 [OF this]]
    have "drop o1 (iter_rest it1) \<noteq> drop o2 (iter_rest it2)" unfolding d using False by blast
    then show ?thesis using False unf by simp
  next
    case True
    have eq: "drop o1 (iter_rest it1) = drop o2 (iter_rest it2) \<longleftrightarrow> drop o1' (iter_rest it1') = drop o2' (iter_rest it2')"
      unfolding d a1(4) a2(4) True by simp
    show ?thesis
    proof (cases "tc + k = len")
      case True
      then have "drop o1' (iter_rest it1') = drop o2' (iter_rest it2')" using len(1,2) by simp
      then show ?thesis unfolding unf eq using True \<open>take k (drop o1 (i_chunk it1)) = take k (drop o2 (i_chunk it2))\<close> by simp
    next
      case False
      then have "tc + k < len" using len(3) p(5) by linarith
      note ih = "1.IH" [OF k_def _ a1(1) refl a2(1) refl False _ a1(2) a2(2) a1(3) a2(3) this len(1,2)]
      show ?thesis unfolding unf eq using True False ih p(3,4) by simp
    qed
  qed
qed

lemma mem_compare_ok:
  assumes "mb_inv m1" "off1 + len \<le> mb_valid_size m1" "mb_valid_size m1 < 2 ^ 64"
    and "mb_inv m2" "off2 + len \<le> mb_valid_size m2" "mb_valid_size m2 < 2 ^ 64" and "0 < len"
  shows "mem_compare m1 off1 m2 off2 len
    = Some (Inr (take len (drop off1 (mb_data m1)) = take len (drop off2 (mb_data m2))))"
proof -
  obtain it1 where i1: "iterate_valid_init off1 len m1 = Some (E_OK, it1)" "iter_ok it1" "i_len it1 = len"
    "iter_rest it1 = take len (drop off1 (mb_data m1))" using iterate_valid_init_ok [OF assms(1-3)] by auto
  obtain it2 where i2: "iterate_valid_init off2 len m2 = Some (E_OK, it2)" "iter_ok it2" "i_len it2 = len"
    "iter_rest it2 = take len (drop off2 (mb_data m2))" using iterate_valid_init_ok [OF assms(4-6)] by auto
  have "length (iter_rest it1) = len" "length (iter_rest it2) = len" using i1(2,3) i2(2,3) by (simp_all add: iter_ok_def)
  then have "compare_iters it1 0 it2 0 0 len = Some (Inr (iter_rest it1 = iter_rest it2))"
    using compare_iters_ok [OF i1(2) i2(2), of 0 0 0 len] assms(7) by simp
  then show ?thesis using i1(1,4) i2(1,4) by (simp add: mem_compare_def)
qed

text \<open>Comparing no bytes goes through iterators that are not valid.\<close>

lemma mem_compare_nothing: "mem_compare m1 off1 m2 off2 0 = None"
proof -
  have "iter_advance iter_none 0 = None" by (simp add: iter_advance_def iter_none_def iter_next_def)
  then have "compare_iters iter_none 0 iter_none 0 0 0 = None"
    by (subst compare_iters.simps) (simp add: iter_none_def)
  moreover have "iterate_valid_init off 0 m = Some (E_OK, iter_none)" for off m by (simp add: iterate_valid_init_def)
  ultimately show ?thesis by (simp add: mem_compare_def)
qed

end
