(* ===== verification/KV_Mbuff.thy ===== *)
theory KV_Mbuff
  imports Mbuff_Read KV_Store
begin

section \<open>Records and hashes over chained buffers\<close>

text \<open>
  The functions of \<^verbatim>\<open>mbuff-alloc.hh\<close>, \<^verbatim>\<open>hash-function.hh\<close> and \<^verbatim>\<open>udepot-lsa.cc\<close> that work on
  an Mbuff: adding buffers, hashing a key, and turning the Mbuff of a key and a value into
  the record that is written.  The allocator of I/O buffers, the hash of a plain buffer
  and the 16-bit checksum are parameters.
\<close>

subsection \<open>Allocation\<close>

type_synonym buf_alloc = "u64 \<Rightarrow> bytes option"

definition mbuff_add_buffers :: "buf_alloc \<Rightarrow> u64 \<Rightarrow> mbuff \<Rightarrow> mbuff" where
  "mbuff_add_buffers alloc_iobuff new_free_size mb =
     (let free_size = of_nat (mb_free_size mb) in
      if new_free_size \<le> free_size then mb
      else let b_len = align_up (new_free_size - free_size) 4096 in
           case alloc_iobuff b_len of None \<Rightarrow> mb | Some buf \<Rightarrow> add_buff buf mb)"

definition mbuff_alloc :: "buf_alloc \<Rightarrow> u64 \<Rightarrow> mbuff" where
  "mbuff_alloc alloc_iobuff sz = mbuff_add_buffers alloc_iobuff sz mb_new"

subsection \<open>Hashing\<close>

definition hash_copy :: "(bytes \<Rightarrow> u64) \<Rightarrow> bool \<Rightarrow> mbuff \<Rightarrow> nat \<Rightarrow> nat \<Rightarrow> (errno + u64) option" where
  "hash_copy cityhash malloc_ok mb off len =
     (if \<not> malloc_ok then Some (Inl ENOMEM)
      else case copy_to_buffer off len mb of
             None \<Rightarrow> None
           | Some buff \<Rightarrow> Some (if length buff \<noteq> len then Inl EINVAL else Inr (cityhash buff)))"

definition hash_mbuff :: "(bytes \<Rightarrow> u64) \<Rightarrow> bool \<Rightarrow> mbuff \<Rightarrow> nat \<Rightarrow> nat \<Rightarrow> (errno + u64) option" where
  "hash_mbuff cityhash malloc_ok mb off len =
     (case iterate_valid_init off len mb of
        None \<Rightarrow> None
      | Some (_, it) \<Rightarrow>
          if \<not> iter_valid it then Some (Inr (cityhash []))
          else if is_next_valid it then hash_copy cityhash malloc_ok mb off len
          else Some (Inr (cityhash (i_chunk it))))"

subsection \<open>Comparing keys\<close>

text \<open>The comparison of the lookups: the header's key size first, then the bytes.\<close>

definition mbuff_key_matches :: "store_hdr \<Rightarrow> mbuff \<Rightarrow> mbuff \<Rightarrow> bool option" where
  "mbuff_key_matches md mb_key mb_dst =
     (if unat (sh_key_size md) = mb_valid_size mb_key
      then map_option (\<lambda>r. r = Inr True) (mem_compare mb_key 0 mb_dst PREFIX_SIZE (mb_valid_size mb_key))
      else Some False)"

subsection \<open>Building a record\<close>

definition hdr_fn :: "store_hdr \<Rightarrow> bool chunk_fn" where
  "hdr_fn md ok hdr = (if length hdr \<noteq> PREFIX_SIZE then (ok, hdr, 0) else (True, enc_hdr md, PREFIX_SIZE))"

definition suffix_fn :: "u16 \<Rightarrow> bool chunk_fn" where
  "suffix_fn crc ok ftr =
     (if length ftr < SUFFIX_SIZE then (ok, ftr, 0) else (True, le16 crc @ drop SUFFIX_SIZE ftr, SUFFIX_SIZE))"

definition mbuff_prepend_append_md :: "store_hdr \<Rightarrow> u16 \<Rightarrow> mbuff \<Rightarrow> (mbuff \<times> errno) option" where
  "mbuff_prepend_append_md md crc keyval =
     (case prepend_inline (hdr_fn md) False keyval of
        None \<Rightarrow> None
      | Some (prepend_ok, kv1) \<Rightarrow>
          (case append_inline (suffix_fn crc) False kv1 of
             None \<Rightarrow> None
           | Some (append_ok, kv2) \<Rightarrow> Some (kv2, if prepend_ok \<and> append_ok then E_OK else EINVAL)))"

definition pad_fn :: "nat chunk_fn" where
  "pad_fn remaining c =
     (let pad_len = min (length c) remaining in
      if pad_len = 0 then (remaining, c, 0)
      else (remaining - pad_len, replicate pad_len 0 @ drop pad_len c, pad_len))"

definition mbuff_append_padding :: "buf_alloc \<Rightarrow> u64 \<Rightarrow> mbuff \<Rightarrow> (mbuff \<times> errno) option" where
  "mbuff_append_padding alloc_iobuff padding keyval =
     (let kv1 = (if append_avail_size keyval < unat padding
                 then mbuff_add_buffers alloc_iobuff (padding - of_nat (mb_free_size keyval)) keyval else keyval)
      in if append_avail_size kv1 < unat padding then Some (kv1, ENOMEM)
         else case mb_append pad_fn (unat padding) kv1 of
                None \<Rightarrow> None
              | Some (remaining, kv2) \<Rightarrow> Some (kv2, if 0 < remaining then ENOMEM else E_OK))"

text \<open>The Mbuff part of \<open>local_put_mbuff_io\<close>, between the allocation and the write.\<close>

definition build_record :: "buf_alloc \<Rightarrow> u64 \<Rightarrow> store_hdr \<Rightarrow> u16 \<Rightarrow> mbuff \<Rightarrow> (mbuff \<times> errno) option" where
  "build_record alloc_iobuff grain_size md crc keyval =
     (let io_size = of_nat (mb_valid_size keyval + PREFIX_SIZE + SUFFIX_SIZE);
          io_size_grains = udiv_round_up io_size grain_size
      in case mbuff_prepend_append_md md crc keyval of
           None \<Rightarrow> None
         | Some (kv1, err) \<Rightarrow>
             if err \<noteq> E_OK then Some (kv1, err)
             else (case mbuff_append_padding alloc_iobuff (io_size_grains * grain_size - io_size) kv1 of
                     None \<Rightarrow> None
                   | Some (kv2, err) \<Rightarrow> Some (kv2, if err \<noteq> E_OK then ENOMEM else E_OK)))"

subsection \<open>The hash depends on the bytes only\<close>

lemma hash_mbuff_ok:
  assumes "mb_inv m" "off + len \<le> mb_valid_size m" "mb_valid_size m < 2 ^ 64"
  shows "hash_mbuff cityhash True m off len = Some (Inr (cityhash (take len (drop off (mb_data m)))))"
proof -
  obtain it where i: "iterate_valid_init off len m = Some (E_OK, it)" "iter_ok it" "iter_valid it = (0 < len)" "i_len it = len"
    "iter_rest it = take len (drop off (mb_data m))" using iterate_valid_init_ok [OF assms] by auto
  consider "len = 0" | "0 < len" "is_next_valid it" | "0 < len" "\<not> is_next_valid it" by blast
  then show ?thesis
  proof cases
    case 1
    then show ?thesis using i by (simp add: hash_mbuff_def)
  next
    case 2
    have "length (take len (drop off (mb_data m))) = len" using assms(2) length_mb_data [OF assms(1)] by simp
    then show ?thesis using 2 i by (simp add: hash_mbuff_def hash_copy_def copy_to_buffer_ok [OF assms(1)])
  next
    case 3
    then have "iter_rest it = i_chunk it" using i(2) by (simp add: is_next_valid_def iter_rest_def iter_ok_def)
    then show ?thesis using 3 i by (simp add: hash_mbuff_def)
  qed
qed

lemma mbuff_key_matches_ok:
  assumes key: "mb_inv mb_key" "mb_data mb_key \<noteq> []" "mb_valid_size mb_key < 2 ^ 64"
    and dst: "mb_inv mb_dst" "mb_valid_size mb_dst < 2 ^ 64" "PREFIX_SIZE + mb_valid_size mb_key \<le> mb_valid_size mb_dst"
  shows "mbuff_key_matches md mb_key mb_dst = Some (key_matches md (mb_data mb_key) (mb_data mb_dst))"
proof -
  have len: "length (mb_data mb_key) = mb_valid_size mb_key" using length_mb_data [OF key(1)] .
  then have pos: "0 < mb_valid_size mb_key" using key(2) by (cases "mb_data mb_key") auto
  have cmp: "mem_compare mb_key 0 mb_dst PREFIX_SIZE (mb_valid_size mb_key)
      = Some (Inr (mb_data mb_key = take (mb_valid_size mb_key) (drop PREFIX_SIZE (mb_data mb_dst))))"
    using mem_compare_ok [OF key(1) _ key(3) dst(1) dst(3) dst(2) pos, of 0] len by simp
  show ?thesis unfolding mbuff_key_matches_def cmp key_matches_def len by auto
qed

subsection \<open>The record that is built\<close>

interpretation apad: chunk_writer pad_fn "\<lambda>remaining. replicate remaining 0" "\<lambda>_. True"
  by unfold_locales (auto simp: pad_fn_def chunk_ok_def Let_def min_def split: if_splits)

text \<open>
  What the caller of \<open>put\<close> provides: the header fits exactly in front of the key, and
  the suffix fits behind the value.
\<close>

definition mb_room :: "mbuff \<Rightarrow> bool" where
  "mb_room keyval \<longleftrightarrow> mb_nodes keyval \<noteq> [] \<and> mb_off (hd (mb_nodes keyval)) = PREFIX_SIZE
     \<and> 0 < mb_len (hd (mb_nodes keyval)) \<and> SUFFIX_SIZE \<le> append_space (last (mb_nodes keyval))"

lemma append_space_prepend_finalize:
  assumes "mb_nodes m \<noteq> []" "0 < mb_len (hd (mb_nodes m))" "k \<le> mb_off (hd (mb_nodes m))"
    "length c \<le> length (mb_buff (hd (mb_nodes m)))"
  shows "append_space (last (mb_nodes (prepend_finalize c k m))) = append_space (last (mb_nodes m))"
    "mb_free_size (prepend_finalize c k m) = mb_free_size m"
  using assms by (cases "mb_nodes m"; auto simp: prepend_finalize_def put_prepend_chunk_def append_space_def Let_def)+

lemma mbuff_prepend_append_md_ok:
  assumes inv: "mb_inv kv" and room: "mb_room kv"
  shows "\<exists>kv'. mbuff_prepend_append_md md crc kv = Some (kv', E_OK) \<and> mb_inv kv'
    \<and> mb_data kv' = enc_hdr md @ mb_data kv @ le16 crc \<and> append_avail_size kv' = append_avail_size kv - 2
    \<and> mb_free_size kv' = mb_free_size kv"
proof -
  let ?n = "hd (mb_nodes kv)" and ?h = "get_prepend_chunk (hd (mb_nodes kv))"
  have n: "mb_nodes kv \<noteq> []" "mb_off ?n = 14" "0 < mb_len ?n" "2 \<le> append_space (last (mb_nodes kv))"
    using room by (simp_all add: mb_room_def)
  have ok: "node_ok ?n" using inv n(1) by (simp add: mb_inv_def)
  have h: "length ?h = 14" "14 \<le> length (mb_buff ?n)" using ok n by (simp_all add: get_prepend_chunk_def prepend_space_def node_ok_def)
  let ?k1 = "prepend_finalize (enc_hdr md) 14 kv"
  have p: "prepend_inline (hdr_fn md) False kv = Some (True, ?k1)"
    using n h by (simp add: prepend_inline_def prepend_prepare_inline_def head_space_def prepend_space_def hdr_fn_def chunk_ok_def)
  note f1 = prepend_finalize_ok [OF inv n(1), of "enc_hdr md" 14, unfolded h(1) length_enc_hdr, OF refl order_refl]
  have sp: "append_space (last (mb_nodes ?k1)) = append_space (last (mb_nodes kv))" "mb_free_size ?k1 = mb_free_size kv"
    using append_space_prepend_finalize [OF n(1,3), of 14 "enc_hdr md"] n(2) h(2) by simp_all
  have ne: "mb_nodes ?k1 \<noteq> []" by (simp add: prepend_finalize_def)
  let ?f = "get_append_chunk (last (mb_nodes ?k1))"
  have fl: "2 \<le> length ?f" using sp(1) n(4) by (simp add: get_append_chunk_def append_space_def)
  let ?c = "le16 crc @ drop 2 ?f" and ?k2 = "append_finalize (le16 crc @ drop 2 ?f) 2 ?k1"
  have a: "append_inline (suffix_fn crc) False ?k1 = Some (True, ?k2)"
    using ne sp(1) n(4) fl by (simp add: append_inline_def append_prepare_inline_def tail_space_def suffix_fn_def chunk_ok_def)
  have len: "length ?c = length ?f" "2 \<le> length ?c" using fl by simp_all
  note f2 = append_finalize_ok [OF f1(1) ne len]
  have "append_avail_size ?k1 = append_avail_size kv" using sp ne n(1) by (simp add: append_avail_size_def)
  moreover have "mb_free_size ?k2 = mb_free_size kv" using sp(2) by (simp add: append_finalize_def)
  ultimately show ?thesis using p a f2 f1(2) by (simp add: mbuff_prepend_append_md_def)
qed

text \<open>The buffer that an allocation returns has the requested size.\<close>

definition alloc_sized :: "buf_alloc \<Rightarrow> bool" where
  "alloc_sized alloc \<longleftrightarrow> (\<forall>n b. alloc n = Some b \<longrightarrow> length b = unat n)"

lemma mbuff_add_buffers_ok:
  assumes inv: "mb_inv kv" and al: "alloc_sized alloc"
    and sz: "mb_free_size kv < unat need" "unat need \<le> 2 ^ 63"
  shows "mb_inv (mbuff_add_buffers alloc need kv)" "mb_data (mbuff_add_buffers alloc need kv) = mb_data kv"
    "alloc (align_up (need - of_nat (mb_free_size kv)) 4096) = Some b \<Longrightarrow>
      append_avail_size kv - mb_free_size kv + unat need \<le> append_avail_size (mbuff_add_buffers alloc need kv)"
proof -
  let ?free = "of_nat (mb_free_size kv) :: u64"
  have f: "unat ?free = mb_free_size kv" using sz by (intro unat_of_nat_small) simp
  have le: "\<not> need \<le> ?free" using sz(1) f by (simp add: word_le_nat_alt)
  have d: "unat (need - ?free) = unat need - mb_free_size kv" using f sz(1) by (simp add: unat_sub_no_wrap)
  have up: "unat need - mb_free_size kv \<le> unat (align_up (need - ?free) 4096)"
    using align_up_bounds(1) [of 4096 "need - ?free"] d sz(2) by simp
  have pos: "0 < unat (align_up (need - ?free) 4096)" using up sz(1) by linarith
  have unf: "mbuff_add_buffers alloc need kv
      = (case alloc (align_up (need - ?free) 4096) of None \<Rightarrow> kv | Some buf \<Rightarrow> add_buff buf kv)"
    using le by (simp add: mbuff_add_buffers_def Let_def)
  have b: "length b = unat (align_up (need - ?free) 4096)" "b \<noteq> []"
    if "alloc (align_up (need - ?free) 4096) = Some b" for b
    using al that pos unfolding alloc_sized_def by (blast, metis gr_implies_not0 list.size(3))
  show "mb_inv (mbuff_add_buffers alloc need kv)" "mb_data (mbuff_add_buffers alloc need kv) = mb_data kv"
    using inv b(2) add_buff_ok(1,2) [OF inv] by (auto simp: unf split: option.splits)
  show "append_avail_size kv - mb_free_size kv + unat need \<le> append_avail_size (mbuff_add_buffers alloc need kv)"
    if "alloc (align_up (need - ?free) 4096) = Some b"
    using add_buff_ok(3) [OF inv b(2) [OF that]] b(1) [OF that] up that by (simp add: unf append_avail_size_def)
qed

lemma mbuff_append_padding_ok:
  assumes inv: "mb_inv kv" and al: "alloc_sized alloc" and sz: "unat padding \<le> 2 ^ 63"
    and room: "unat padding \<le> append_avail_size kv \<or> mb_free_size kv = 0 \<and> (\<forall>n. alloc n \<noteq> None)"
  shows "\<exists>kv'. mbuff_append_padding alloc padding kv = Some (kv', E_OK) \<and> mb_inv kv'
    \<and> mb_data kv' = mb_data kv @ replicate (unat padding) 0"
proof -
  define kv1 where "kv1 = (if append_avail_size kv < unat padding
    then mbuff_add_buffers alloc (padding - of_nat (mb_free_size kv)) kv else kv)"
  have k: "mb_inv kv1 \<and> mb_data kv1 = mb_data kv \<and> unat padding \<le> append_avail_size kv1"
  proof (cases "append_avail_size kv < unat padding")
    case True
    then have f: "mb_free_size kv = 0" "0 < unat padding" and a: "\<forall>n. alloc n \<noteq> None" using room by auto
    obtain b where "alloc (align_up (padding - of_nat (mb_free_size kv)) 4096) = Some b" using a by blast
    then show ?thesis using mbuff_add_buffers_ok(1,2) [OF inv al, of padding] mbuff_add_buffers_ok(3) [OF inv al, of padding b] f sz True by (simp add: kv1_def)
  qed (use inv in \<open>simp add: kv1_def\<close>)
  then obtain remaining kv2 where w: "mb_append pad_fn (unat padding) kv1 = Some (remaining, kv2)" "mb_inv kv2"
    "mb_data kv2 = mb_data kv1 @ replicate (unat padding) 0" "replicate remaining (0 :: u8) = []"
    using apad.append_writes [of kv1 "unat padding"] by auto
  then show ?thesis using k by (simp add: mbuff_append_padding_def Let_def kv1_def [symmetric])
qed

text \<open>
  The number of bytes asked for is what is missing on top of the free buffers, while
  \<open>mbuff_add_buffers\<close> takes the free size that is wanted in total.  With free buffers
  for at least half of the padding nothing is added, whatever the allocator could give.
\<close>

lemma mbuff_append_padding_stuck:
  assumes "append_avail_size kv < unat padding" "unat padding \<le> 2 * mb_free_size kv"
  shows "mbuff_append_padding alloc padding kv = Some (kv, ENOMEM)"
proof -
  let ?free = "of_nat (mb_free_size kv) :: u64"
  have lt: "mb_free_size kv < unat padding" using assms(1) by (simp add: append_avail_size_def)
  then have f: "unat ?free = mb_free_size kv" using unat_lt_two_p [of padding] by (intro unat_of_nat_small) simp
  have "unat (padding - ?free) = unat padding - mb_free_size kv" using f lt by (simp add: unat_sub_no_wrap)
  then have "padding - ?free \<le> ?free" using assms(2) f by (simp add: word_le_nat_alt)
  then have "mbuff_add_buffers alloc (padding - ?free) kv = kv" by (simp add: mbuff_add_buffers_def Let_def)
  then show ?thesis using assms(1) by (simp add: mbuff_append_padding_def Let_def)
qed

lemma build_record_ok:
  assumes inv: "mb_inv kv" and room: "mb_room kv" and al: "alloc_sized alloc"
    and data: "mb_data kv = key @ val" and gs: "gs \<noteq> 0" "unat gs \<le> 2 ^ 32" "mb_valid_size kv \<le> 2 ^ 62"
    and space: "unat gs + SUFFIX_SIZE \<le> append_avail_size kv \<or> mb_free_size kv = 0 \<and> (\<forall>n. alloc n \<noteq> None)"
  shows "\<exists>kv'. build_record alloc gs md crc kv = Some (kv', E_OK) \<and> mb_inv kv' \<and> mb_data kv' = record_bytes gs md key val crc
    \<and> mb_valid_size kv' < 2 ^ 64"
proof -
  let ?n = "mb_valid_size kv + PREFIX_SIZE + SUFFIX_SIZE"
  let ?io = "of_nat ?n :: u64"
  let ?pad = "udiv_round_up ?io gs * gs - ?io"
  have n: "unat ?io = ?n" using gs(3) by (intro unat_of_nat_small) simp
  have le: "?io \<le> uceil_up ?io gs" "unat (uceil_up ?io gs) < ?n + unat gs"
    using align_up_bounds [OF gs(1), of ?io] n gs(2,3) by (simp_all add: align_up_def word_le_nat_alt)
  have ceil: "udiv_round_up ?io gs * gs = uceil_up ?io gs" by (simp add: uceil_up_def mult.commute)
  have pad: "unat ?pad = unat (udiv_round_up ?io gs * gs) - ?n" "unat ?pad < unat gs"
    using le n unfolding ceil by (simp_all add: unat_sub_no_wrap word_le_nat_alt)
  obtain k1 where k1: "mbuff_prepend_append_md md crc kv = Some (k1, E_OK)" "mb_inv k1"
    "mb_data k1 = enc_hdr md @ key @ val @ le16 crc" "append_avail_size k1 = append_avail_size kv - 2" "mb_free_size k1 = mb_free_size kv"
    using mbuff_prepend_append_md_ok [OF inv room, of md crc] data by auto
  have "unat ?pad \<le> append_avail_size k1 \<or> mb_free_size k1 = 0 \<and> (\<forall>n. alloc n \<noteq> None)"
    using space pad(2) k1(4,5) by auto
  from mbuff_append_padding_ok [OF k1(2) al _ this] obtain k2 where k2: "mbuff_append_padding alloc ?pad k1 = Some (k2, E_OK)" "mb_inv k2"
    "mb_data k2 = mb_data k1 @ replicate (unat ?pad) 0" using pad(2) gs(2) by auto
  have "length (mb_data k1) = ?n" using k1(3) length_mb_data [OF inv] data by simp
  then have "mb_data k2 = record_bytes gs md key val crc"
    using k2(3) k1(3) pad(1) by (simp add: record_bytes_def Let_def)
  moreover have "mb_valid_size k2 < 2 ^ 64"
    using length_mb_data [OF k2(2)] k2(3) \<open>length (mb_data k1) = ?n\<close> pad(2) gs(2,3) by simp
  ultimately show ?thesis using k1(1) k2(1,2) by (simp add: build_record_def Let_def)
qed

text \<open>After a failed attempt \<open>put\<close> cuts the record back to the key and the value.\<close>

lemma build_record_undo:
  assumes "mb_inv kv'" "mb_data kv' = record_bytes gs md key val crc" "mb_valid_size kv' < 2 ^ 64"
  shows "\<exists>kv''. reslice (length key + length val) PREFIX_SIZE kv' = Some (kv'', 0) \<and> mb_inv kv'' \<and> mb_data kv'' = key @ val"
proof -
  have len: "PREFIX_SIZE + (length key + length val) \<le> mb_valid_size kv'"
    using length_mb_data [OF assms(1)] assms(2) by (simp add: record_bytes_def Let_def)
  have "take (length key + length val) (drop PREFIX_SIZE (mb_data kv')) = key @ val" by (simp add: assms(2) record_bytes_def Let_def)
  then show ?thesis using reslice_ok [OF assms(1) len assms(3)] by simp
qed

end
