(* ===== verification/Mbuff_Props.thy ===== *)
theory Mbuff_Props
  imports KV_Mbuff
begin

section \<open>Properties of the chained buffers\<close>

text \<open>
  A key and a value as a caller of \<open>put\<close> provides them: five bytes in two nodes, with
  the space of the header in front; and the same bytes in one node.
\<close>

definition ex_keyval :: mbuff where
  "ex_keyval = \<lparr>mb_valid_size = 5,
     mb_nodes = [\<lparr>mb_buff = replicate 14 0 @ [7, 8], mb_off = 14, mb_len = 2\<rparr>,
                 \<lparr>mb_buff = [1, 2, 3, 0, 0, 0, 0, 0], mb_off = 0, mb_len = 3\<rparr>],
     mb_free = [], mb_free_size = 0, mb_free_nodes = 0\<rparr>"

definition ex_flat :: mbuff where
  "ex_flat = \<lparr>mb_valid_size = 5, mb_nodes = [\<lparr>mb_buff = [9, 7, 8, 1, 2, 3], mb_off = 1, mb_len = 5\<rparr>],
     mb_free = [\<lparr>mb_buff = [0, 0, 0, 0], mb_off = 0, mb_len = 0\<rparr>], mb_free_size = 4, mb_free_nodes = 1\<rparr>"

lemma ex_mbuffs:
  "mb_inv ex_keyval" "mb_inv ex_flat" "mb_data ex_keyval = [7, 8] @ [1, 2, 3]" "mb_data ex_flat = [7, 8, 1, 2, 3]"
  "mb_valid_size ex_keyval = 5" "mb_valid_size ex_flat = 5" "mb_room ex_keyval" "mb_free_size ex_keyval = 0"
  "append_avail_size ex_flat = 4" "prepend_avail ex_flat = 5" "mb_free_size ex_flat = 4"
  by code_simp+

definition ex_key :: mbuff where
  "ex_key = \<lparr>mb_valid_size = 2, mb_nodes = [\<lparr>mb_buff = [7], mb_off = 0, mb_len = 1\<rparr>, \<lparr>mb_buff = [0, 8], mb_off = 1, mb_len = 1\<rparr>],
     mb_free = [], mb_free_size = 0, mb_free_nodes = 0\<rparr>"

definition ex_record :: mbuff where
  "ex_record = \<lparr>mb_valid_size = 16, mb_nodes = [\<lparr>mb_buff = enc_hdr zero_md @ [7, 8], mb_off = 0, mb_len = 16\<rparr>],
     mb_free = [], mb_free_size = 0, mb_free_nodes = 0\<rparr>"

lemma ex_key_record:
  "mb_inv ex_key" "mb_inv ex_record" "mb_data ex_key = [7, 8]" "mb_valid_size ex_key = 2" "mb_valid_size ex_record = 16"
  by code_simp+

text \<open>
  Appending a buffer that fits and copying the same range out again gives the buffer
  back; the bytes that were there stay, and the Mbuff stays well formed.
\<close>

theorem append_copy_round_trip:
  assumes "mb_inv m" "length src \<le> append_avail_size m"
  shows "\<exists>m'. append_from_buffer src m = Some (m', length src) \<and> mb_inv m' \<and> mb_data m' = mb_data m @ src
    \<and> copy_to_buffer (mb_valid_size m) (length src) m' = Some src
    \<and> copy_to_buffer 0 (mb_valid_size m) m' = Some (mb_data m)"
proof -
  obtain m' where m': "append_from_buffer src m = Some (m', length src)" "mb_inv m'" "mb_data m' = mb_data m @ src"
    using append_from_buffer_ok [OF assms(1), of src] assms(2) by (auto simp: min_def)
  then show ?thesis by (simp add: copy_to_buffer_ok length_mb_data [OF assms(1), symmetric])
qed

theorem append_copy_round_trip_witness:
  "\<exists>m'. append_from_buffer [4, 5] ex_flat = Some (m', 2) \<and> mb_inv m' \<and> mb_data m' = [7, 8, 1, 2, 3, 4, 5]
    \<and> copy_to_buffer 5 2 m' = Some [4, 5] \<and> copy_to_buffer 0 5 m' = Some [7, 8, 1, 2, 3]"
  using append_copy_round_trip [OF ex_mbuffs(2), of "[4, 5]"] by (simp add: ex_mbuffs eval_nat_numeral)

text \<open>
  Prepending a buffer puts its last bytes in front of the data, as many as there is
  room for, and reports how many.
\<close>

theorem prepend_puts_in_front:
  assumes "mb_inv m"
  shows "\<exists>m'. prepend_from_buffer src m = Some (m', min (length src) (prepend_avail m)) \<and> mb_inv m'
    \<and> mb_data m' = drop (length src - prepend_avail m) src @ mb_data m
    \<and> prepend_avail m' = prepend_avail m - length src"
  using prepend_from_buffer_ok [OF assms] .

theorem prepend_puts_in_front_witness:
  "\<exists>m'. prepend_from_buffer [10, 11, 12, 13, 14, 15] ex_flat = Some (m', 5) \<and> mb_inv m'
    \<and> mb_data m' = [11, 12, 13, 14, 15, 7, 8, 1, 2, 3] \<and> prepend_avail m' = 0"
  using prepend_puts_in_front [OF ex_mbuffs(2), of "[10, 11, 12, 13, 14, 15]"] by (simp add: ex_mbuffs eval_nat_numeral)

text \<open>
  Reslice leaves exactly the requested part of the data, however it is split over the
  nodes, and refuses a part that reaches behind the end without changing anything.
\<close>

theorem reslice_takes_part:
  assumes "mb_inv m" "mb_valid_size m < 2 ^ 64" "off + len < 2 ^ 64"
  shows "if off + len \<le> mb_valid_size m
    then \<exists>m'. reslice len off m = Some (m', 0) \<and> mb_inv m' \<and> mb_data m' = take len (drop off (mb_data m))
    else reslice len off m = Some (m, - 1)"
  using reslice_ok [OF assms(1) _ assms(2)] reslice_rejects [OF _ assms(3)] by auto

theorem reslice_takes_part_witness:
  "(\<exists>m'. reslice 3 1 ex_keyval = Some (m', 0) \<and> mb_inv m' \<and> mb_data m' = [8, 1, 2])
    \<and> reslice 3 3 ex_keyval = Some (ex_keyval, - 1)"
  using reslice_takes_part [OF ex_mbuffs(1), of 1 3] reslice_takes_part [OF ex_mbuffs(1), of 3 3] by (simp add: ex_mbuffs)

text \<open>
  Comparing a non-empty range of two Mbuffs decides whether the bytes are equal, also
  when the two are split differently.
\<close>

theorem mem_compare_decides_equality:
  assumes "mb_inv m1" "off1 + len \<le> mb_valid_size m1" "mb_valid_size m1 < 2 ^ 64"
    and "mb_inv m2" "off2 + len \<le> mb_valid_size m2" "mb_valid_size m2 < 2 ^ 64" and "0 < len"
  shows "mem_compare m1 off1 m2 off2 len
    = Some (Inr (take len (drop off1 (mb_data m1)) = take len (drop off2 (mb_data m2))))"
  using mem_compare_ok [OF assms] .

theorem mem_compare_decides_equality_witness:
  "mem_compare ex_keyval 0 ex_flat 0 5 = Some (Inr True) \<and> mem_compare ex_keyval 1 ex_flat 0 4 = Some (Inr False)"
  using mem_compare_decides_equality [OF ex_mbuffs(1) _ _ ex_mbuffs(2), of 0 5 0]
    mem_compare_decides_equality [OF ex_mbuffs(1) _ _ ex_mbuffs(2), of 1 4 0] by (simp add: ex_mbuffs)

text \<open>
  The comparison of a non-empty key with a record in the lookups says whether the record
  starts with a header of the key's size and with the key, for every split of the
  two buffers.
\<close>

lemma key_comparison_on_buffers:
  assumes "mb_inv mb_key" "mb_data mb_key \<noteq> []" "mb_valid_size mb_key < 2 ^ 64"
    and "mb_inv mb_dst" "mb_valid_size mb_dst < 2 ^ 64" "PREFIX_SIZE + mb_valid_size mb_key \<le> mb_valid_size mb_dst"
  shows "mbuff_key_matches md mb_key mb_dst = Some (key_matches md (mb_data mb_key) (mb_data mb_dst))"
  using mbuff_key_matches_ok [OF assms] .

lemma key_comparison_on_buffers_witness:
  "mbuff_key_matches (zero_md\<lparr>sh_key_size := 2\<rparr>) ex_key ex_record = Some True"
proof -
  have "key_matches (zero_md\<lparr>sh_key_size := 2\<rparr>) (mb_data ex_key) (mb_data ex_record)" by code_simp
  then show ?thesis using key_comparison_on_buffers [of ex_key ex_record] by (simp add: ex_key_record)
qed

text \<open>
  Comparing an empty range of two Mbuffs dereferences an iterator that is not valid,
  whatever the Mbuffs hold.
\<close>

lemma mem_compare_empty_range_fails: "mem_compare m1 off1 m2 off2 0 = None"
  using mem_compare_nothing .

text \<open>
  The hash of a key in an Mbuff is the hash of its bytes: it does not depend on how the
  key is split over the nodes, although only a key in one piece is hashed in place.
\<close>

theorem hash_ignores_layout:
  assumes "mb_inv m" "off + len \<le> mb_valid_size m" "mb_valid_size m < 2 ^ 64"
  shows "hash_mbuff cityhash True m off len = Some (Inr (cityhash (take len (drop off (mb_data m)))))"
  using hash_mbuff_ok [OF assms] .

theorem hash_ignores_layout_witness:
  "hash_mbuff (\<lambda>bs. of_nat (length bs) + ucast (hd bs)) True ex_keyval 0 3 = Some (Inr 10)
    \<and> hash_mbuff (\<lambda>bs. of_nat (length bs) + ucast (hd bs)) True ex_flat 0 3 = Some (Inr 10)"
  using hash_ignores_layout [OF ex_mbuffs(1), of 0 3 "\<lambda>bs. of_nat (length bs) + ucast (hd bs)"]
    hash_ignores_layout [OF ex_mbuffs(2), of 0 3 "\<lambda>bs. of_nat (length bs) + ucast (hd bs)"] by (simp add: ex_mbuffs)

text \<open>
  C38: The Mbuff that put writes holds the record of the key and the value: header, key,
  value, checksum and zeros up to a whole number of grains.  Cutting it back gives the key
  and the value again, as a retry needs them.
\<close>

theorem put_builds_record:
  assumes "mb_inv kv" "mb_room kv" "alloc_sized alloc" "mb_data kv = key @ val"
    and "gs \<noteq> 0" "unat gs \<le> 2 ^ 32" "mb_valid_size kv \<le> 2 ^ 62"
    and "unat gs + SUFFIX_SIZE \<le> append_avail_size kv \<or> mb_free_size kv = 0 \<and> (\<forall>n. alloc n \<noteq> None)"
  shows "\<exists>kv'. build_record alloc gs md crc kv = Some (kv', E_OK) \<and> mb_inv kv'
    \<and> mb_data kv' = record_bytes gs md key val crc
    \<and> (\<exists>kv''. reslice (length key + length val) PREFIX_SIZE kv' = Some (kv'', 0) \<and> mb_inv kv'' \<and> mb_data kv'' = key @ val)"
  using build_record_ok [OF assms, of md crc] build_record_undo by blast

theorem put_builds_record_witness:
  "\<exists>kv'. build_record (\<lambda>n. Some (replicate (unat n) 0)) 32 zero_md 0xBEEF ex_keyval = Some (kv', E_OK)
    \<and> mb_data kv' = record_bytes 32 zero_md [7, 8] [1, 2, 3] 0xBEEF"
  using put_builds_record [OF ex_mbuffs(1,7) _ ex_mbuffs(3), where alloc = "\<lambda>n. Some (replicate (unat n) 0)"
      and gs = 32 and md = zero_md and crc = "0xBEEF"]
  by (auto simp: ex_mbuffs alloc_sized_def)

text \<open>
  Padding fails with ENOMEM when the free buffers hold at least half of the padding but
  not all of it, even if every allocation would succeed: the size that is asked for
  is what is missing, while \<open>mbuff_add_buffers\<close> expects the total.
\<close>

lemma padding_fails_with_free_buffers:
  assumes "append_avail_size kv < unat padding" "unat padding \<le> 2 * mb_free_size kv"
  shows "mbuff_append_padding alloc padding kv = Some (kv, ENOMEM)"
  using mbuff_append_padding_stuck [OF assms] .

lemma padding_fails_with_free_buffers_witness:
  "mbuff_append_padding (\<lambda>n. Some (replicate (unat n) 0)) 6 ex_flat = Some (ex_flat, ENOMEM)"
  using padding_fails_with_free_buffers [of ex_flat 6] by (simp add: ex_mbuffs)

end
