(* ===== verification/KV_GC.thy ===== *)
theory KV_GC
  imports KV_Ops
begin

section \<open>Garbage collection of a segment (\<^verbatim>\<open>udepot-lsa.cc\<close>)\<close>

text \<open>
  The collector of the segment manager calls \<open>gc_callback\<close> with the grains of a segment;
  when it returns 0 the segment is freed.  The callback walks over the records of the
  segment and relocates those that the index still refers to.  In this theory the fields
  of \<open>kv_env\<close> for the segment manager stand for its operations with the relocation flag.
  The rest of the surroundings are the fields of \<open>gc_env\<close>: whether the segment can be
  mapped, the flag that asks the collector to stop, which stays set once it is set, and
  the memory behind the unit that the fallback reads a header into.
\<close>

record gc_env =
  gc_mmap :: bool
  gc_exit :: "nat \<Rightarrow> bool"
  gc_exit_late :: bool
  gc_mem :: "nat \<Rightarrow> bytes"

definition gc_payload :: "store_hdr \<Rightarrow> u64" where
  "gc_payload md = ucast (sh_val_size md + ucast (sh_key_size md)) + of_nat SUFFIX_SIZE"

definition md_grains :: "'s kv_env \<Rightarrow> store_hdr \<Rightarrow> u64" where
  "md_grains env md = kv_tot_grains_get (gsize env) (ucast (sh_key_size md)) (sh_val_size md)"

definition md_bytes :: "'s kv_env \<Rightarrow> store_hdr \<Rightarrow> u64" where
  "md_bytes env md = kv_tot_bytes_get (gsize env) (ucast (sh_key_size md)) (sh_val_size md)"

text \<open>The new copy of a record: the bytes of the old one with a new suffix.\<close>

definition gc_copy :: "'s kv_env \<Rightarrow> store_hdr \<Rightarrow> bool \<Rightarrow> nat \<Rightarrow> bytes \<Rightarrow> device \<Rightarrow> u16 \<Rightarrow> bytes" where
  "gc_copy env md mmap startb val dev crc =
     (let n = unat (gc_payload md) - SUFFIX_SIZE in
      if mmap then dev_read dev startb (PREFIX_SIZE + n) @ le16 crc else enc_hdr md @ take n val @ le16 crc)"

definition local_gc_callback :: "'s kv_env \<Rightarrow> u64 \<Rightarrow> u64 \<Rightarrow> store_hdr \<Rightarrow> bool \<Rightarrow> u64 \<Rightarrow> 's kv \<Rightarrow> 's kv \<times> errno \<times> u64" where
  "local_gc_callback env h start md mmap relocb s =
     (case dm_lookup_pba (kv_map s) h start of
        None \<Rightarrow> (s, E_OK, relocb)
      | Some i \<Rightarrow>
          let e = entry_at (kv_map s) h i; size_grains = md_grains env md; startb = unat (start * gsize env) in
          if deleted e
          then (s\<lparr>kv_seg := ev_invalidate env (kv_seg s) (ucast (pba e)) size_grains, kv_map := dm_purge (kv_map s) h i\<rparr>,
                E_OK, relocb + size_grains * gsize env)
          else if \<not> mmap \<and> ev_rd_err env (kv_ev s) \<noteq> E_OK then (tick s, EIO, relocb)
          else
            let val = dev_read (kv_dev s) (startb + PREFIX_SIZE) (unat (gc_payload md));
                s0 = (if mmap then s else tick s)
            in case ev_allocate env (kv_seg s0) (kv_dev s0) size_grains 0 of (seg, dev, rc, grain) \<Rightarrow>
                 let s1 = s0\<lparr>kv_seg := seg, kv_dev := dev\<rparr> in
                 if rc \<noteq> E_OK then (s1, rc, relocb)
                 else
                   let timestamp = ev_seg_ts env seg (grain_to_seg_idx env grain);
                       crc = checksum16 env (ucast timestamp) (enc_hdr md);
                       s2 = tick s1
                   in if ev_wr_err env (kv_ev s1) \<noteq> E_OK
                      then (s2\<lparr>kv_seg := ev_release env (ev_invalidate env seg grain size_grains) grain size_grains 0\<rparr>, EIO, relocb)
                      else (s2\<lparr>kv_dev := dev_write dev (unat (grain * gsize env)) (gc_copy env md mmap startb val dev crc),
                               kv_map := dm_update_inplace (kv_map s2) h i size_grains grain,
                               kv_seg := ev_invalidate env (ev_release env seg grain size_grains 0) (ucast (pba e)) size_grains\<rparr>,
                            E_OK, relocb + size_grains * gsize env))"

text \<open>The walk over the mapped segment; \<open>p\<close> is the position in the mapping.\<close>

partial_function (option) gc_loop :: "'s kv_env \<Rightarrow> gc_env \<Rightarrow> nat \<Rightarrow> nat \<Rightarrow> nat \<Rightarrow> u64 \<Rightarrow> errno \<Rightarrow> u64 \<Rightarrow> 's kv
    \<Rightarrow> ('s kv \<times> errno \<times> u64 \<times> nat) option" where
  "gc_loop env gce gc_startb end_off p grain_start rc relocb s =
     (if p < end_off \<and> rc = E_OK \<and> \<not> gc_exit gce p then
        let md = dec_hdr (dev_read (kv_dev s) (gc_startb + p) PREFIX_SIZE) in
        if sh_key_size md = 0 \<and> sh_val_size md = 0 then Some (s, rc, relocb, p)
        else if end_off < p + unat (sh_val_size md) + unat (sh_key_size md) then Some (s, rc, relocb, p)
        else
          let h = ev_hash env (dev_read (kv_dev s) (gc_startb + p + PREFIX_SIZE) (unat (sh_key_size md)))
          in case local_gc_callback env h grain_start md True relocb s of (s1, rc1, relocb1) \<Rightarrow>
               gc_loop env gce gc_startb end_off (p + unat (md_bytes env md)) (grain_start + md_grains env md) rc1 relocb1 s1
      else Some (s, rc, relocb, p))"

text \<open>
  The fallback.  It reads only the header of a record into a unit of \<open>PREFIX_SIZE\<close> bytes, and
  hashes the memory behind the unit as the key.
\<close>

partial_function (option) gc_base_loop :: "'s kv_env \<Rightarrow> gc_env \<Rightarrow> u64 \<Rightarrow> u64 \<Rightarrow> bytes \<Rightarrow> errno \<Rightarrow> u64 \<Rightarrow> 's kv
    \<Rightarrow> ('s kv \<times> errno \<times> u64 \<times> nat) option" where
  "gc_base_loop env gce end_grain start gcu rc relocb s =
     (if rc = E_OK \<and> start < end_grain \<and> \<not> gc_exit gce (unat start) then
        let endb = end_grain * gsize env; startb = start * gsize env;
            sizeb = (if startb + of_nat PREFIX_SIZE \<le> endb then of_nat PREFIX_SIZE else endb - startb)
        in if ev_rd_err env (kv_ev s) \<noteq> E_OK then Some (tick s, EIO, relocb, unat start)
           else
             let gcu1 = dev_read (kv_dev s) (unat startb) (unat sizeb) @ drop (unat sizeb) gcu;
                 md = dec_hdr gcu1; s0 = tick s
             in if sh_key_size md = 0 \<and> sh_val_size md = 0 then Some (s0, rc, relocb, unat start)
                else if endb < startb + ucast (sh_val_size md) + ucast (sh_key_size md) then Some (s0, rc, relocb, unat start)
                else
                  let h = ev_hash env (take (unat (sh_key_size md)) (gc_mem gce (unat start)))
                  in case local_gc_callback env h start md False relocb s0 of (s1, rc1, relocb1) \<Rightarrow>
                       gc_base_loop env gce end_grain (start + md_grains env md) gcu1 rc1 relocb1 s1
      else Some (s, rc, relocb, unat start))"

definition gc_result :: "gc_env \<Rightarrow> 's kv \<times> errno \<times> u64 \<times> nat \<Rightarrow> 's kv \<times> errno" where
  "gc_result gce r = (case r of (s, rc, relocb, p) \<Rightarrow> (s, if rc = E_OK \<and> (gc_exit gce p \<or> gc_exit_late gce) then EAGAIN else rc))"

definition gc_callback_base :: "'s kv_env \<Rightarrow> gc_env \<Rightarrow> u64 \<Rightarrow> u64 \<Rightarrow> 's kv \<Rightarrow> ('s kv \<times> errno) option" where
  "gc_callback_base env gce grain_start grain_nr s =
     map_option (gc_result gce) (gc_base_loop env gce (grain_start + grain_nr) grain_start (gc_mem gce 0) E_OK 0 s)"

definition gc_callback :: "'s kv_env \<Rightarrow> gc_env \<Rightarrow> u64 \<Rightarrow> u64 \<Rightarrow> 's kv \<Rightarrow> ('s kv \<times> errno) option" where
  "gc_callback env gce grain_start grain_nr s =
     (if \<not> gc_mmap gce then gc_callback_base env gce grain_start grain_nr s
      else map_option (gc_result gce)
             (gc_loop env gce (unat (grain_start * gsize env)) (unat (grain_nr * gsize env) - PREFIX_SIZE) 0 grain_start E_OK 0 s))"

text \<open>The variant for memory caches drops the records instead of relocating them.\<close>

definition local_gc_callback_mc :: "'s kv_env \<Rightarrow> u64 \<Rightarrow> u64 \<Rightarrow> store_hdr \<Rightarrow> u64 \<Rightarrow> 's kv \<Rightarrow> 's kv \<times> errno \<times> u64" where
  "local_gc_callback_mc env h start md relocb s =
     (case dm_lookup_pba (kv_map s) h start of
        None \<Rightarrow> (s, E_OK, relocb)
      | Some i \<Rightarrow>
          let gs = gsize env; size_grains = md_grains env md; ks = ucast (sh_key_size md); vs = sh_val_size md;
              e = entry_at (kv_map s) h i;
              s1 = (if \<not> deleted e
                    then (kv_removed (kv_raw_bytes_get ks vs) (kv_tot_bytes_get gs ks vs) s)
                           \<lparr>kv_map := dm_remove (kv_map s) h i (ucast (pba e))\<rparr>
                    else s)
          in (s1\<lparr>kv_seg := ev_invalidate env (kv_seg s1) (ucast (pba (entry_at (kv_map s1) h i))) size_grains,
                kv_map := dm_purge (kv_map s1) h i\<rparr>, E_OK, relocb + size_grains * gs))"

end
