(* ===== verification/KV_GC_Inv.thy ===== *)
theory KV_GC_Inv
  imports KV_GC
begin

section \<open>Garbage collection keeps the contents\<close>

subsection \<open>Looking up a record by its grain\<close>

lemma dm_lookup_pba_Some:
  assumes inv: "kv_inv env s" and l: "dm_lookup_pba (kv_map s) h a = Some i"
  shows "i < unat (entry_nr_m (table_of (kv_map s) h))" "used (entry_at (kv_map s) h i)" "slot_pba (table_of (kv_map s) h) i = a"
proof -
  let ?t = "table_of (kv_map s) h"
  note tf = dm_table_facts [OF kv_invD(2) [OF inv], of h]
  have "bucket_of ?t h \<le> i \<and> i < bucket_of ?t h + 32 \<and> used (ht_m ?t ! i) \<and> a = ucast (pba (ht_m ?t ! i))"
    using l unat_hash_to_hb [of ?t h] um_invD(1) [OF tf(1)]
    by (simp add: dm_lookup_pba_def um_lookup_pba_def lookup_pba_loop_find find_from_Some_iff)
  then show "i < unat (entry_nr_m ?t)" "used (entry_at (kv_map s) h i)" "slot_pba ?t i = a"
    using bucket_in_table(1) [OF um_invD(1) [OF tf(1)], of i h] by (simp_all add: entry_at_def slot_pba_def)
qed

lemma dm_lookup_pba_None:
  assumes inv: "kv_inv env s" and l: "dm_lookup_pba (kv_map s) h a = None" and i: "matches (table_of (kv_map s) h) h i"
  shows "slot_pba (table_of (kv_map s) h) i \<noteq> a"
proof -
  let ?t = "table_of (kv_map s) h"
  note tf = dm_table_facts [OF kv_invD(2) [OF inv], of h]
  show ?thesis
    using l unat_hash_to_hb [of ?t h] um_invD(1) [OF tf(1)] matches_bucket [OF tf(1) i] i
    by (auto simp: dm_lookup_pba_def um_lookup_pba_def lookup_pba_loop_find find_from_None_iff matches_def live_def slot_pba_def)
qed

text \<open>The grains that tombstones of the index refer to.\<close>

definition tombstone_at :: "dmap \<Rightarrow> nat \<Rightarrow> bool" where
  "tombstone_at d g \<longleftrightarrow> (\<exists>t \<in> set (tables d). \<exists>i < length (ht_m t). used (ht_m t ! i) \<and> deleted (ht_m t ! i) \<and> unat (pba (ht_m t ! i)) = g)"

lemma lookup_pba_tombstone:
  assumes inv: "kv_inv env s" and l: "dm_lookup_pba (kv_map s) h a = Some i" "deleted (entry_at (kv_map s) h i)"
  shows "tombstone_at (kv_map s) (unat a)"
proof -
  let ?t = "table_of (kv_map s) h"
  note e = dm_lookup_pba_Some [OF inv l(1)] and dm = kv_invD(2) [OF inv]
  have "?t \<in> set (tables (kv_map s))" using table_of_ok(2) [OF dm, of h] hash_to_map_less [OF dm, of h] by (simp add: tables_def)
  moreover have "i < length (ht_m ?t)" using e(1) um_invD(1) [OF dm_table_facts(1) [OF dm, of h]] by (simp add: um_wf_def)
  moreover have "unat (pba (ht_m ?t ! i)) = unat a" using e(3) by (auto simp: slot_pba_def unat_ucast_up)
  ultimately show ?thesis using e(2) l(2) by (auto simp: tombstone_at_def entry_at_def)
qed

lemma tombstone_update_inplace:
  assumes inv: "dm_inv d" and i: "matches (table_of d h) h i" and n: "n \<noteq> 0" and t: "tombstone_at (dm_update_inplace d h i n a) g"
  shows "tombstone_at d g"
proof -
  let ?t = "table_of d h" and ?k = "hash_to_map d h"
  obtain t j where t: "t \<in> set ((tables d)[?k := um_update_inplace ?t i h n a])" "j < length (ht_m t)"
    "used (ht_m t ! j)" "deleted (ht_m t ! j)" "unat (pba (ht_m t ! j)) = g"
    using t by (auto simp: tombstone_at_def dm_update_inplace_def tables_set_table)
  have m: "?t \<in> set (tables d)" using table_of_ok(2) [OF inv, of h] hash_to_map_less [OF inv, of h] by (simp add: tables_def)
  show ?thesis
  proof (cases "t \<in> set (tables d)")
    case True
    then show ?thesis using t by (auto simp: tombstone_at_def)
  next
    case False
    then have tt: "t = um_update_inplace ?t i h n a" using t(1) set_update_subset_insert [of "tables d" ?k] by blast
    have "\<not> deleted (ht_m t ! j)" if "j = i"
      using that t(2) n by (simp add: tt um_update_inplace_def deleted_iff min_MAX_KV_SIZE_0)
    then have "j \<noteq> i" using t(4) by blast
    then have "ht_m t ! j = ht_m ?t ! j" by (simp add: tt um_update_inplace_def)
    then show ?thesis using t m by (auto simp: tombstone_at_def tt um_update_inplace_def)
  qed
qed

lemma lookup_pba_key_slot:
  assumes inv: "kv_inv env s" and l: "dm_lookup_pba (kv_map s) h a = Some i" "\<not> deleted (entry_at (kv_map s) h i)"
    and h: "h = ev_hash env (rec_key env (kv_dev s) a)"
  shows "key_slot env s h (rec_key env (kv_dev s) a) i"
proof -
  let ?t = "table_of (kv_map s) h"
  note e = dm_lookup_pba_Some [OF inv l(1)] and tf = dm_table_facts [OF kv_invD(2) [OF inv], of h]
  have live: "live ?t i" using e(1,2) l(2) by (simp add: live_def entry_at_def)
  have "info_matches (map_entry_nr_bits_m (kv_map s)) h (slot_info ?t i)"
    using slot_rec_ok(1) [OF inv live] e(3) h by (simp add: rec_ok_def Let_def)
  then have "matches ?t h i" using matches_info [OF tf(1) live, of h] tf(2) by simp
  then show ?thesis using e(3) by (simp add: key_slot_def)
qed

text \<open>What \<open>local_gc_callback\<close> writes is a copy of the record.\<close>

lemma dev_read_append: "dev_read dev off (m + n) = dev_read dev off m @ dev_read dev (off + m) n"
proof -
  have "[off..<off + (m + n)] = [off..<off + m] @ [off + m..<off + m + n]"
    using upt_add_eq_append [of off "off + m" n] by (simp add: add.assoc)
  then show ?thesis by (simp add: dev_read_def del: upt.simps)
qed

lemma gc_copy_record:
  assumes ok: "rec_ks env dev a + rec_vs env dev a < 2 ^ 32" and off: "startb = rec_off env a"
    and same: "dev_read dev1 startb (rec_len env dev a) = dev_read dev startb (rec_len env dev a)"
    and md: "md = rec_md env dev a" and val: "val = dev_read dev (startb + PREFIX_SIZE) (unat (gc_payload md))"
  shows "gc_copy env md mmap startb val dev1 crc = enc_hdr md @ rec_key env dev a @ rec_val env dev a @ le16 crc"
proof -
  let ?ks = "rec_ks env dev a" and ?vs = "rec_vs env dev a"
  have s: "unat (ucast (sh_key_size md) :: u32) = ?ks" "unat (sh_val_size md) = ?vs" by (simp_all add: md rec_ks_def rec_vs_def unat_ucast_up)
  then have "unat (sh_val_size md + ucast (sh_key_size md)) = ?vs + ?ks" using ok by (subst unat_add_no_wrap) simp_all
  then have "unat (ucast (sh_val_size md + ucast (sh_key_size md)) :: u64) = ?vs + ?ks" by (simp add: unat_ucast_up)
  then have p: "unat (gc_payload md) = ?vs + ?ks + 2"
    using unat_add_no_wrap [of "ucast (sh_val_size md + ucast (sh_key_size md)) :: u64" 2] ok by (simp add: gc_payload_def)
  have hdr: "enc_hdr md = dev_read dev startb 14" by (simp add: md rec_md_def off enc_dec_hdr)
  have kv: "rec_key env dev a @ rec_val env dev a = dev_read dev (startb + 14) (?ks + ?vs)"
    using dev_read_append [of dev "startb + 14" ?ks ?vs] by (simp add: rec_key_def rec_val_def off)
  have all: "dev_read dev startb (14 + (?ks + ?vs)) = dev_read dev startb 14 @ dev_read dev (startb + 14) (?ks + ?vs)"
    by (rule dev_read_append)
  have "take (?vs + ?ks) val = dev_read dev (startb + 14) (?ks + ?vs)" by (simp add: val p take_dev_read add.commute)
  moreover have "dev_read dev1 startb (14 + (?vs + ?ks)) = dev_read dev startb (14 + (?ks + ?vs))"
    using same by (simp add: rec_len_def add.assoc add.commute add.left_commute)
  ultimately show ?thesis using all hdr kv by (simp add: gc_copy_def Let_def p)
qed

lemma md_grains_rec:
  assumes "env_wf env" "rec_ks env dev a + rec_vs env dev a < 2 ^ 32"
  shows "unat (md_grains env (rec_md env dev a)) = rec_grains env dev a"
  using kv_tot_grains_rec [OF assms] by (simp add: md_grains_def)

subsection \<open>One record\<close>

context grain_alloc
begin

definition gc_keeps :: "'s kv \<Rightarrow> 's kv \<Rightarrow> bool" where
  "gc_keeps s s' \<longleftrightarrow> kv_safe s' \<and> kv_abs env s' = kv_abs env s \<and> owned (kv_seg s) \<subseteq> owned (kv_seg s')
     \<and> (\<forall>b \<in> grain_bytes env (owned (kv_seg s)). kv_dev s' b = kv_dev s b)
     \<and> (\<forall>g. tombstone_at (kv_map s') g \<longrightarrow> tombstone_at (kv_map s) g)
     \<and> (\<forall>y \<in># kv_content s'. y \<in># kv_content s \<or> unat (info_pba y) \<notin> owned (kv_seg s))"

lemma gc_keeps_trans:
  assumes "gc_keeps s s1" "gc_keeps s1 s2"
  shows "gc_keeps s s2"
proof -
  have o: "owned (kv_seg s) \<subseteq> owned (kv_seg s1)" using assms(1) by (simp add: gc_keeps_def)
  then have "grain_bytes env (owned (kv_seg s)) \<subseteq> grain_bytes env (owned (kv_seg s1))" by (auto simp: grain_bytes_def)
  then show ?thesis using assms o unfolding gc_keeps_def by (intro conjI ballI allI impI) (simp | blast | metis subset_iff)+
qed

lemma gc_keeps_same_map:
  assumes "kv_safe s" "kv_map s' = kv_map s" "\<And>b. b \<in> grain_bytes env (owned (kv_seg s)) \<Longrightarrow> kv_dev s' b = kv_dev s b"
    "seg_inv (kv_seg s')" "owned (kv_seg s) \<subseteq> owned (kv_seg s')"
    "key_nr_m s' = key_nr_m s" "used_bytes_m s' = used_bytes_m s" "total_bytes_m s' = total_bytes_m s"
  shows "gc_keeps s s'"
  using kv_safe_dev [OF assms] assms kv_content_same [OF assms(2)] by (simp add: gc_keeps_def)

text \<open>Relocating a record is an update of its key by the same value.\<close>

lemma gc_move_eq:
  assumes "sh_key_size md = of_nat kl" "sh_val_size md = of_nat vl" "kl < 2 ^ 16"
  shows "s\<lparr>kv_map := dm_update_inplace (kv_map s) h i (md_grains env md) grain,
      kv_seg := ev_invalidate env (kv_seg s) (ucast (pba (entry_at (kv_map s) h i))) (md_grains env md)\<rparr>
    = set_mapping env h i True kl vl grain md s"
proof -
  have "(ucast (of_nat kl :: u16) :: u32) = of_nat kl"
    using assms(3) by (simp add: word_unat_eq_iff unat_ucast_up unat_of_nat_small)
  then show ?thesis by (simp add: set_mapping_def Let_def kv_added_def kv_removed_def md_grains_def assms(1,2))
qed

lemma gc_move_ok:
  assumes safe: "kv_safe s" and i: "key_slot env s h key i" and key: "key = rec_key env (kv_dev s) start" and h: "h = ev_hash env key"
    and start: "slot_pba (table_of (kv_map s) h) i = start" and md: "md = rec_md env (kv_dev s) start"
    and al: "ev_allocate env (kv_seg s) (kv_dev s) (md_grains env md) 0 = (seg, dev, E_OK, grain)"
    and bs: "bs = enc_hdr md @ key @ rec_val env (kv_dev s) start @ le16 crc"
    and s': "kv_map s' = kv_map s" "kv_dev s' = dev_write dev (unat (grain * gsize env)) bs" "kv_seg s' = ev_release env seg grain (md_grains env md) 0"
      "key_nr_m s' = key_nr_m s" "used_bytes_m s' = used_bytes_m s" "total_bytes_m s' = total_bytes_m s"
    and t: "t = set_mapping env h i True (rec_ks env (kv_dev s) start) (rec_vs env (kv_dev s) start) grain md s'"
  shows "gc_keeps s t \<and> (\<forall>y \<in># kv_content t. info_pba y \<noteq> start)"
proof -
  let ?d = "kv_map s" and ?ks = "rec_ks env (kv_dev s) start" and ?vs = "rec_vs env (kv_dev s) start"
  let ?val = "rec_val env (kv_dev s) start" and ?n = "md_grains env md"
  let ?x = "slot_info (table_of ?d h) i"
  note inv = kv_safeD(1) [OF safe] and ewf = kv_safeD(4) [OF safe]
  have xc: "?x \<in># kv_content s" using key_slotD(2) [OF inv i] .
  have ro: "?ks + ?vs < 2 ^ 32" using kv_invD(3) [OF inv xc] start by (simp add: rec_ok_def Let_def)
  have len: "length key = ?ks" "length ?val = ?vs" by (simp_all add: key rec_key_def)
  have ks: "?ks < 2 ^ 16" by (rule rec_ks_small)
  have msz: "sh_key_size md = of_nat ?ks" "sh_val_size md = of_nat ?vs" by (simp_all add: md rec_ks_def rec_vs_def)
  have n: "unat ?n = (?ks + ?vs + 16 + unat (gsize env) - 1) div unat (gsize env)"
    using md_grains_rec [OF ewf ro] by (simp add: md rec_grains_def)
  define s1 where "s1 = s'\<lparr>kv_seg := seg\<rparr>"
  have bl: "length bs \<le> unat ?n * unat (gsize env)"
    using rec_grains_bounds(1) [OF ewf, of "kv_dev s" start] md_grains_rec [OF ewf ro] by (simp add: bs len md)
  note w = write_fresh_ok [OF safe, of ?n key ?val 0 seg dev grain md bs "le16 crc" s1, unfolded len, OF n ks ro al msz bs bl]
  then have w: "kv_safe s1" "kv_abs env s1 = kv_abs env s" "same_heads env s s1" "placed_record s1 grain key ?val"
    "{unat grain..<unat grain + unat ?n} \<inter> owned (kv_seg s) = {}" "owned (kv_seg s) \<subseteq> owned seg"
    "\<forall>b \<in> grain_bytes env (owned (kv_seg s)). kv_dev s1 b = kv_dev s b" using s' by (simp_all add: s1_def)
  have rel: "seg_inv (kv_seg s')" "owned seg \<subseteq> owned (kv_seg s')"
    using release_inv [of seg grain ?n 0] kv_safeD(2) [OF w(1)] s'(3) by (simp_all add: s1_def)
  have se: "s' = s1\<lparr>kv_seg := kv_seg s'\<rparr>" by (simp add: s1_def)
  have o1: "kv_seg s1 = seg" by (simp add: s1_def)
  have safe': "kv_safe s'" "kv_abs env s' = kv_abs env s" using kv_safe_seg [OF w(1), of "kv_seg s'"] rel w(2) o1 se by simp_all
  have pl: "placed_record s' grain key ?val" using placed_same [OF w(4), of s'] rel(2) by (simp add: s1_def)
  have hd: "rec_md env (kv_dev s') start = md" "rec_key env (kv_dev s') start = key"
    using w(3) xc start md key unfolding same_heads_def by (auto simp: s1_def)
  have i': "key_slot env s' h key i" using i hd(2) start by (simp add: key_slot_def s')
  have "kv_safe t \<and> kv_abs env t = (kv_abs env s')(key \<mapsto> ?val)"
    using set_mapping_update [OF safe'(1) pl _ h i', of md] ro len hd(1) start by (simp add: t s')
  moreover have "kv_abs env s key = Some ?val" using key_slot_abs [OF inv i] start by simp
  ultimately have safe_t: "kv_safe t" "kv_abs env t = kv_abs env s" using safe'(2) by (auto simp: fun_upd_idem)
  have te: "t = s'\<lparr>kv_map := dm_update_inplace (kv_map s') h i ?n grain,
      kv_seg := ev_invalidate env (kv_seg s') (ucast (pba (entry_at (kv_map s') h i))) ?n\<rparr>"
    using gc_move_eq [OF msz ks, of s' h i grain] by (simp add: t)
  have inval: "owned (kv_seg s') \<subseteq> owned (kv_seg t)" using invalidate_inv [OF rel(1)] by (simp add: te)
  have mt: "matches (table_of ?d h) h i" using i by (simp add: key_slot_def)
  have n0: "?n \<noteq> 0" using md_grains_rec [OF ewf ro] rec_grains_bounds(3) [OF ewf, of "kv_dev s" start] md by (metis unat_0 less_irrefl)
  have vp: "valid_pba grain" using pl by (simp add: placed_record_def written_def)
  have ad: "add_mset ?x (kv_content t) = add_mset (info_new (map_entry_nr_bits_m ?d) h ?n grain) (kv_content s)"
    using dm_update_inplace_ok(2) [OF kv_invD(2) [OF inv] mt vp n0] by (simp add: kv_content_def te s')
  let ?x' = "info_new (map_entry_nr_bits_m ?d) h ?n grain"
  have pg: "info_pba ?x' = grain"
    using written_entry(1) [OF ewf, of "kv_dev s'" grain key ?val "map_entry_nr_bits_m ?d"] pl ro len
    by (simp add: placed_record_def info_pba_def info_new_def)
  obtain M where M: "kv_content s = add_mset ?x M" using xc by (metis insert_DiffM)
  have ct: "kv_content t = add_mset ?x' M" using ad unfolding M by (simp add: add_mset_commute)
  have fresh: "unat grain \<notin> owned (kv_seg s)" using w(5) n0 by (auto simp: disjoint_iff unat_gt_0)
  have "unat start \<in> owned (kv_seg s)"
    using kv_safeD(5) [OF safe xc] rec_grains_bounds(3) [OF ewf, of "kv_dev s" start] start by (auto simp: rec_range_def)
  moreover have "info_pba y \<noteq> start" if "y \<in># M" for y
    using key_alone [OF inv M that] key_slotD(3) [OF inv i] key by (auto simp: entry_key_def)
  ultimately have moved: "\<forall>y \<in># kv_content t. info_pba y \<noteq> start" using fresh pg by (auto simp: ct)
  have "\<forall>y \<in># kv_content t. y \<in># kv_content s \<or> unat (info_pba y) \<notin> owned (kv_seg s)" using fresh pg by (auto simp: ct M)
  moreover have "tombstone_at ?d g" if "tombstone_at (kv_map t) g" for g
    using tombstone_update_inplace [OF kv_invD(2) [OF inv] mt n0, of grain g] that by (simp add: te s')
  moreover have "kv_dev t = kv_dev s1" by (simp add: te s1_def)
  ultimately have "gc_keeps s t" using safe_t w(6,7) rel(2) inval by (auto simp: gc_keeps_def)
  then show ?thesis using moved by blast
qed

lemma gc_step_ok:
  assumes safe: "kv_safe s" and md: "md = rec_md env (kv_dev s) start" and h: "h = ev_hash env (rec_key env (kv_dev s) start)"
    and tomb: "\<not> tombstone_at (kv_map s) (unat start)" and off: "rec_off env start < 2 ^ 64"
    and r: "local_gc_callback env h start md mmap relocb s = (s', rc, relocb')"
  shows "gc_keeps s s' \<and> (rc = E_OK \<longrightarrow> (\<forall>y \<in># kv_content s'. info_pba y \<noteq> start))"
proof (cases "dm_lookup_pba (kv_map s) h start")
  case None
  note inv = kv_safeD(1) [OF safe]
  have "info_pba y \<noteq> start" if y: "y \<in># kv_content s" for y
  proof
    assume e: "info_pba y = start"
    then obtain i where "key_slot env s h (rec_key env (kv_dev s) start) i" "slot_info (table_of (kv_map s) h) i = y"
      using key_slot_entry [OF inv y, of "rec_key env (kv_dev s) start"] h by (auto simp: entry_key_def)
    then show False using dm_lookup_pba_None [OF inv None, of i] e by (auto simp: key_slot_def)
  qed
  then show ?thesis using None r gc_keeps_same_map [OF safe, of s] kv_safeD(2) [OF safe] by (simp add: local_gc_callback_def)
next
  case (Some i)
  note inv = kv_safeD(1) [OF safe] and ewf = kv_safeD(4) [OF safe] and sinv = kv_safeD(2) [OF safe]
  have nd: "\<not> deleted (entry_at (kv_map s) h i)" using lookup_pba_tombstone [OF inv Some] tomb by blast
  note i = lookup_pba_key_slot [OF inv Some nd h] and pb = dm_lookup_pba_Some(3) [OF inv Some]
  let ?n = "md_grains env md" and ?startb = "unat (start * gsize env)"
  let ?val = "dev_read (kv_dev s) (?startb + PREFIX_SIZE) (unat (gc_payload md))"
  define s0 where "s0 = (if mmap then s else tick s)"
  have s0: "kv_map s0 = kv_map s" "kv_dev s0 = kv_dev s" "kv_seg s0 = kv_seg s" "key_nr_m s0 = key_nr_m s"
    "used_bytes_m s0 = used_bytes_m s" "total_bytes_m s0 = total_bytes_m s" by (simp_all add: s0_def tick_def)
  obtain seg dev err grain where al: "ev_allocate env (kv_seg s) (kv_dev s) ?n 0 = (seg, dev, err, grain)" by (metis prod_cases4)
  have xc: "slot_info (table_of (kv_map s) h) i \<in># kv_content s" using key_slotD(2) [OF inv i] .
  have ro: "rec_ks env (kv_dev s) start + rec_vs env (kv_dev s) start < 2 ^ 32"
    using kv_invD(3) [OF inv xc] pb by (simp add: rec_ok_def Let_def)
  have rg: "unat ?n = rec_grains env (kv_dev s) start" using md_grains_rec [OF ewf ro] by (simp add: md)
  have "unat ?n \<le> rec_ks env (kv_dev s) start + rec_vs env (kv_dev s) start + 16 + unat (gsize env) - 1"
    unfolding rg rec_grains_def by (rule div_le_dividend)
  moreover have "unat (gsize env) < 2 ^ 32" using ewf by (simp add: env_wf_def)
  ultimately have small: "unat ?n < 2 ^ 63" using ro by simp
  note ai = allocate_inv [OF sinv small al] and ad = allocate_dev [OF sinv small al]
  note keep = gc_keeps_same_map [OF safe]
  define s1 where "s1 = s0\<lparr>kv_seg := seg, kv_dev := dev\<rparr>"
  define crc where "crc = checksum16 env (ucast (ev_seg_ts env seg (grain_to_seg_idx env grain))) (enc_hdr md)"
  define bs where "bs = gc_copy env md mmap ?startb ?val dev crc"
  define s3 where "s3 = (tick s1)\<lparr>kv_dev := dev_write dev (unat (grain * gsize env)) bs, kv_seg := ev_release env seg grain ?n 0\<rparr>"
  consider "s' = tick s" "rc = EIO" | "s' = s1" "rc = err" "err \<noteq> E_OK"
    | "s' = (tick s1)\<lparr>kv_seg := ev_release env (ev_invalidate env seg grain ?n) grain ?n 0\<rparr>" "rc = EIO"
    | "err = E_OK" "s' = s3\<lparr>kv_map := dm_update_inplace (kv_map s3) h i ?n grain,
         kv_seg := ev_invalidate env (kv_seg s3) (ucast (pba (entry_at (kv_map s3) h i))) ?n\<rparr>"
    using r nd al
    by (cases mmap; auto simp: local_gc_callback_def Some Let_def s0_def s1_def crc_def bs_def s3_def tick_def split: if_splits)
  then show ?thesis
  proof cases
    case 1
    then show ?thesis using keep [of s'] sinv by (simp add: tick_def)
  next
    case 2
    then show ?thesis using keep [of s'] ai ad s0 by (simp add: s1_def)
  next
    case 3
    have "seg_inv (ev_invalidate env seg grain ?n) \<and> owned seg \<subseteq> owned (ev_invalidate env seg grain ?n)"
      using invalidate_inv ai by blast
    then show ?thesis using 3 keep [of s'] release_inv [of "ev_invalidate env seg grain ?n" grain ?n 0] ai ad s0
      by (auto simp: s1_def tick_def)
  next
    case 4
    have so: "?startb = rec_off env start" by (rule rec_offset_word [OF off])
    have "dev_read dev ?startb (rec_len env (kv_dev s) start) = dev_read (kv_dev s) ?startb (rec_len env (kv_dev s) start)"
      unfolding so using owned_same_read [OF ewf, of "kv_dev s" start "owned (kv_seg s)" dev] kv_safeD(5) [OF safe xc] ad pb by simp
    note copy = gc_copy_record [OF ro so this md refl, of mmap crc, folded bs_def]
    have msz: "sh_key_size md = of_nat (rec_ks env (kv_dev s) start)" "sh_val_size md = of_nat (rec_vs env (kv_dev s) start)"
      by (simp_all add: md rec_ks_def rec_vs_def)
    have "s' = set_mapping env h i True (rec_ks env (kv_dev s) start) (rec_vs env (kv_dev s) start) grain md s3"
      using gc_move_eq [OF msz rec_ks_small, of s3 h i grain] 4(2) by simp
    from gc_move_ok [OF safe i refl h pb md al [unfolded 4(1)] copy _ _ _ _ _ _ this] s0
    show ?thesis by (simp add: s3_def s1_def tick_def)
  qed
qed

end

end
