(* ===== verification/KV_GC_Walk.thy ===== *)
theory KV_GC_Walk
  imports KV_GC_Inv
begin

section \<open>The walk over a segment\<close>

text \<open>
  The positions at which the walk finds a record, with the header in front and the record
  inside of the first \<open>dend\<close> bytes of the segment.
\<close>

definition hdr_at :: "device \<Rightarrow> nat \<Rightarrow> nat \<Rightarrow> store_hdr" where
  "hdr_at dev startb p = dec_hdr (dev_read dev (startb + p) PREFIX_SIZE)"

definition gc_record :: "device \<Rightarrow> nat \<Rightarrow> nat \<Rightarrow> nat \<Rightarrow> bool" where
  "gc_record dev startb dend p \<longleftrightarrow>
     (let md = hdr_at dev startb p in
      (sh_key_size md \<noteq> 0 \<or> sh_val_size md \<noteq> 0) \<and> p + PREFIX_SIZE + unat (sh_key_size md) + unat (sh_val_size md) \<le> dend)"

inductive gc_walk :: "'s kv_env \<Rightarrow> device \<Rightarrow> nat \<Rightarrow> nat \<Rightarrow> nat \<Rightarrow> nat \<Rightarrow> bool" for env dev startb dend where
  walk_here: "gc_walk env dev startb dend p p"
| walk_on: "gc_record dev startb dend p \<Longrightarrow> gc_walk env dev startb dend (p + unat (md_bytes env (hdr_at dev startb p))) q
    \<Longrightarrow> gc_walk env dev startb dend p q"

text \<open>Every live record in the first \<open>dn\<close> grains of the segment is met by the walk.\<close>

definition seg_walkable :: "'s kv_env \<Rightarrow> u64 \<Rightarrow> nat \<Rightarrow> 's kv \<Rightarrow> bool" where
  "seg_walkable env g0 dn s \<longleftrightarrow>
     (\<forall>y \<in># kv_content s. unat (info_pba y) \<in> {unat g0..<unat g0 + dn} \<longrightarrow>
        (\<exists>q. gc_walk env (kv_dev s) (rec_off env g0) (dn * unat (gsize env)) 0 q
           \<and> gc_record (kv_dev s) (rec_off env g0) (dn * unat (gsize env)) q
           \<and> unat (info_pba y) = unat g0 + q div unat (gsize env)))"

lemma md_bytes_grains:
  assumes "env_wf env"
  shows "unat (md_bytes env md) = unat (md_grains env md) * unat (gsize env)" "0 < unat (md_grains env md)"
    "unat (md_grains env md) < 2 ^ 33"
proof -
  let ?w = "sh_val_size md + ucast (sh_key_size md)" and ?g = "unat (gsize env)"
  have g: "0 < ?g" "?g < 2 ^ 32" "gsize env \<noteq> 0" using gsize_pos [OF assms] assms by (auto simp: env_wf_def)
  have e: "md_grains env md = kv_tot_grains_get (gsize env) 0 ?w" by (simp add: md_grains_def kv_tot_grains_get_def)
  have w: "unat (0 :: u32) + unat ?w < 2 ^ 32" using unat_lt_two_p [of ?w] by simp
  note b = kv_tot_grains_bounds [OF w g(3,2)]
  show pos: "0 < unat (md_grains env md)" using b(4) by (simp add: e)
  have lt: "unat (md_grains env md) * ?g < 2 ^ 32 + 16 + ?g" using b(3) w by (simp add: e)
  then have "?g * unat (md_grains env md) < 2 ^ 64" using g(2) by (simp add: mult.commute)
  then show "unat (md_bytes env md) = unat (md_grains env md) * ?g"
    unfolding md_bytes_def kv_tot_bytes_get_def md_grains_def by (subst unat_mult_no_wrap) (simp_all add: mult.commute)
  show "unat (md_grains env md) < 2 ^ 33"
  proof (rule ccontr)
    assume "\<not> unat (md_grains env md) < 2 ^ 33"
    then have "2 ^ 33 * ?g \<le> unat (md_grains env md) * ?g" by simp
    then have "2 ^ 33 * ?g < 2 ^ 32 + 16 + ?g" using lt by linarith
    then show False using g(1) by simp
  qed
qed

text \<open>The walk depends only on the bytes of its records.\<close>

lemma hdr_at_cong:
  assumes "\<And>b. startb \<le> b \<Longrightarrow> b < startb + dend \<Longrightarrow> dev' b = dev b" "p + PREFIX_SIZE \<le> dend"
  shows "hdr_at dev' startb p = hdr_at dev startb p"
  unfolding hdr_at_def using assms by (intro arg_cong [of _ _ dec_hdr] dev_read_cong) auto

lemma gc_record_cong:
  assumes "\<And>b. startb \<le> b \<Longrightarrow> b < startb + dend \<Longrightarrow> dev' b = dev b"
  shows "gc_record dev' startb dend p = gc_record dev startb dend p"
proof (cases "p + PREFIX_SIZE \<le> dend")
  case True
  then show ?thesis using hdr_at_cong [of startb dend dev' dev p, OF assms] by (simp add: gc_record_def)
next
  case False
  then show ?thesis by (auto simp: gc_record_def Let_def)
qed

lemma gc_walk_cong:
  assumes same: "\<And>b. startb \<le> b \<Longrightarrow> b < startb + dend \<Longrightarrow> dev' b = dev b" and w: "gc_walk env dev startb dend p q"
  shows "gc_walk env dev' startb dend p q"
  using w
proof induction
  case (walk_on p q)
  have "p + PREFIX_SIZE \<le> dend" using walk_on.hyps(1) by (simp add: gc_record_def Let_def)
  then have "hdr_at dev' startb p = hdr_at dev startb p" using hdr_at_cong [of startb dend dev' dev p] same by blast
  then show ?case using walk_on gc_record_cong [of startb dend dev' dev p, OF same] gc_walk.walk_on [of dev' startb dend p env q] by simp
qed (rule walk_here)

subsection \<open>The loop\<close>

lemma gc_loop_unfold:
  "gc_loop env gce gc_startb end_off p grain_start rc relocb s =
     (if p < end_off \<and> rc = E_OK \<and> \<not> gc_exit gce p then
        let md = hdr_at (kv_dev s) gc_startb p in
        if sh_key_size md = 0 \<and> sh_val_size md = 0 then Some (s, rc, relocb, p)
        else if end_off < p + unat (sh_val_size md) + unat (sh_key_size md) then Some (s, rc, relocb, p)
        else
          let h = ev_hash env (dev_read (kv_dev s) (gc_startb + p + PREFIX_SIZE) (unat (sh_key_size md)))
          in case local_gc_callback env h grain_start md True relocb s of (s1, rc1, relocb1) \<Rightarrow>
               gc_loop env gce gc_startb end_off (p + unat (md_bytes env md)) (grain_start + md_grains env md) rc1 relocb1 s1
      else Some (s, rc, relocb, p))"
  unfolding hdr_at_def by (rule gc_loop.simps)

lemma gc_loop_step:
  assumes "p < end_off" "\<not> gc_exit gce p" "hdr_at (kv_dev s) startb p = md" "\<not> (sh_key_size md = 0 \<and> sh_val_size md = 0)"
    "\<not> end_off < p + unat (sh_val_size md) + unat (sh_key_size md)"
    "local_gc_callback env (ev_hash env (dev_read (kv_dev s) (startb + p + PREFIX_SIZE) (unat (sh_key_size md)))) grain md True relocb s
       = (s1, rc1, relocb1)"
  shows "gc_loop env gce startb end_off p grain E_OK relocb s =
    gc_loop env gce startb end_off (p + unat (md_bytes env md)) (grain + md_grains env md) rc1 relocb1 s1"
proof -
  have c: "p < end_off \<and> E_OK = E_OK \<and> \<not> gc_exit gce p" using assms(1,2) by simp
  show ?thesis
    unfolding gc_loop_unfold [of env gce startb end_off p grain E_OK relocb s] if_P [OF c] assms(3) Let_def
      if_not_P [OF assms(4)] if_not_P [OF assms(5)] assms(6) prod.case by (rule refl)
qed

context grain_alloc
begin

text \<open>
  The position \<open>k\<close> (in grains) of the loop in the segment that starts at grain \<open>g0\<close>.
  The first \<open>dn\<close> grains of the segment are in use; the loop covers \<open>end_off\<close> bytes.
\<close>

definition gc_at :: "u64 \<Rightarrow> nat \<Rightarrow> nat \<Rightarrow> nat \<Rightarrow> u64 \<Rightarrow> 's kv \<Rightarrow> bool" where
  "gc_at g0 nn dn k grain s \<longleftrightarrow> kv_safe s \<and> unat grain = unat g0 + k \<and> dn \<le> nn
     \<and> (unat g0 + nn) * unat (gsize env) \<le> 2 ^ 64 \<and> unat g0 + nn < 2 ^ 40 \<and> k < 2 ^ 42
     \<and> (\<forall>g \<in> {unat g0..<unat g0 + nn}. \<not> tombstone_at (kv_map s) g) \<and> {unat g0..<unat g0 + dn} \<subseteq> owned (kv_seg s)"

definition gc_cleared :: "u64 \<Rightarrow> nat \<Rightarrow> device \<Rightarrow> nat \<Rightarrow> 's kv \<Rightarrow> bool" where
  "gc_cleared g0 dn dev p s \<longleftrightarrow>
     (\<forall>q. gc_walk env dev (rec_off env g0) (dn * unat (gsize env)) p q \<and> gc_record dev (rec_off env g0) (dn * unat (gsize env)) q
        \<longrightarrow> (\<forall>y \<in># kv_content s. unat (info_pba y) \<noteq> unat g0 + q div unat (gsize env)))"

lemma gc_at_bytes:
  assumes "gc_at g0 nn dn k grain s" "gc_keeps s s1" "rec_off env g0 \<le> b" "b < rec_off env g0 + dn * unat (gsize env)"
  shows "kv_dev s1 b = kv_dev s b"
proof -
  have ewf: "env_wf env" using assms(1) kv_safeD(4) by (auto simp: gc_at_def)
  have "b div unat (gsize env) \<in> {unat g0..<unat g0 + dn}"
    using assms(3,4) gsize_pos(1) [OF ewf] less_mult_imp_div_less [of b "unat g0 + dn" "unat (gsize env)"]
    by (simp add: rec_off_def less_eq_div_iff_mult_less_eq algebra_simps)
  then show ?thesis using assms(1,2) by (auto simp: gc_at_def gc_keeps_def grain_bytes_def)
qed

lemma gc_at_step:
  assumes "gc_at g0 nn dn k grain s" "gc_keeps s s1" "k < nn"
  shows "gc_at g0 nn dn (k + unat (md_grains env md)) (grain + md_grains env md) s1"
proof -
  have ewf: "env_wf env" using assms(1) kv_safeD(4) by (auto simp: gc_at_def)
  note m = md_bytes_grains(3) [OF ewf, of md]
  have "unat (grain + md_grains env md) = unat grain + unat (md_grains env md)"
    using assms(1,3) m by (intro unat_add_no_wrap) (auto simp: gc_at_def)
  moreover have "{unat g0..<unat g0 + dn} \<subseteq> owned (kv_seg s1)" using assms(1,2) unfolding gc_at_def gc_keeps_def by blast
  moreover have "\<forall>g \<in> {unat g0..<unat g0 + nn}. \<not> tombstone_at (kv_map s1) g" using assms(1,2) unfolding gc_at_def gc_keeps_def by blast
  ultimately show ?thesis using assms m by (auto simp: gc_at_def gc_keeps_def)
qed

lemma gc_stopped:
  assumes "dn \<le> nn" "end_off = nn * unat (gsize env) - PREFIX_SIZE"
    and "\<not> p < end_off \<or> sh_key_size (hdr_at dev (rec_off env g0) p) = 0 \<and> sh_val_size (hdr_at dev (rec_off env g0) p) = 0
      \<or> end_off < p + unat (sh_val_size (hdr_at dev (rec_off env g0) p)) + unat (sh_key_size (hdr_at dev (rec_off env g0) p))"
  shows "gc_cleared g0 dn dev p s"
proof -
  let ?g = "unat (gsize env)" and ?md = "hdr_at dev (rec_off env g0) p"
  have "\<not> gc_record dev (rec_off env g0) (dn * ?g) p"
  proof
    assume "gc_record dev (rec_off env g0) (dn * ?g) p"
    then have r: "sh_key_size ?md \<noteq> 0 \<or> sh_val_size ?md \<noteq> 0" "p + 14 + unat (sh_key_size ?md) + unat (sh_val_size ?md) \<le> dn * ?g"
      by (simp_all add: gc_record_def Let_def)
    have le: "dn * ?g \<le> nn * ?g" using assms(1) by (rule mult_le_mono1)
    have "0 < unat (sh_key_size ?md) + unat (sh_val_size ?md)" using r(1) by (auto simp: unat_gt_0)
    then have "p < nn * ?g - 14" "\<not> nn * ?g - 14 < p + unat (sh_val_size ?md) + unat (sh_key_size ?md)" using r(2) le by linarith+
    then show False using assms(2,3) r(1) by auto
  qed
  then show ?thesis unfolding gc_cleared_def by (metis gc_walk.cases)
qed

lemma gc_cleared_step:
  assumes at: "gc_at g0 nn dn k grain s" and keep: "gc_keeps s s1" "gc_keeps s1 s'"
    and here: "\<forall>y \<in># kv_content s1. info_pba y \<noteq> grain"
    and rest: "gc_cleared g0 dn (kv_dev s1) (k * unat (gsize env) + unat (md_bytes env (hdr_at (kv_dev s) (rec_off env g0) (k * unat (gsize env))))) s'"
  shows "gc_cleared g0 dn (kv_dev s) (k * unat (gsize env)) s'"
proof -
  let ?g = "unat (gsize env)" and ?b = "rec_off env g0"
  let ?p = "k * ?g" and ?dend = "dn * ?g"
  have ewf: "env_wf env" and grain: "unat grain = unat g0 + k" using at kv_safeD(4) by (auto simp: gc_at_def)
  note same = gc_at_bytes [OF at keep(1)]
  have "unat (info_pba y) \<noteq> unat g0 + q div ?g"
    if w: "gc_walk env (kv_dev s) ?b ?dend ?p q" "gc_record (kv_dev s) ?b ?dend q" and y: "y \<in># kv_content s'" for q y
    using w(1)
  proof (cases rule: gc_walk.cases)
    case walk_here
    have "?p + 14 \<le> ?dend" using w(2) walk_here by (simp add: gc_record_def Let_def)
    then have "k * ?g < dn * ?g" by linarith
    then have "unat g0 + k \<in> {unat g0..<unat g0 + dn}" by simp
    then have "unat g0 + k \<in> owned (kv_seg s1)" using at keep(1) unfolding gc_at_def gc_keeps_def by blast
    moreover have "y \<in># kv_content s1 \<or> unat (info_pba y) \<notin> owned (kv_seg s1)" using keep(2) y unfolding gc_keeps_def by blast
    ultimately have "unat (info_pba y) \<noteq> unat g0 + k" using here grain by (metis word_unat_eq_iff)
    then show ?thesis using walk_here gsize_pos(1) [OF ewf] by simp
  next
    case walk_on
    then have "gc_walk env (kv_dev s1) ?b ?dend (?p + unat (md_bytes env (hdr_at (kv_dev s) ?b ?p))) q"
      using gc_walk_cong [of ?b ?dend "kv_dev s1" "kv_dev s", OF same] by blast
    moreover have "gc_record (kv_dev s1) ?b ?dend q" using w(2) gc_record_cong [of ?b ?dend "kv_dev s1" "kv_dev s", OF same] by blast
    ultimately show ?thesis using rest y unfolding gc_cleared_def by blast
  qed
  then show ?thesis unfolding gc_cleared_def by blast
qed

lemma gc_loop_ok:
  assumes "gc_at g0 nn dn k grain s" "rc = E_OK" "end_off = nn * unat (gsize env) - PREFIX_SIZE"
  shows "\<exists>s' rc' relocb' p'. gc_loop env gce (rec_off env g0) end_off (k * unat (gsize env)) grain rc relocb s = Some (s', rc', relocb', p')
    \<and> gc_keeps s s' \<and> (rc' = E_OK \<and> \<not> gc_exit gce p' \<longrightarrow> gc_cleared g0 dn (kv_dev s) (k * unat (gsize env)) s')"
  using assms
proof (induction "end_off - k * unat (gsize env)" arbitrary: k grain s rc relocb rule: less_induct)
  case less
  let ?g = "unat (gsize env)"
  let ?p = "k * ?g" and ?startb = "rec_off env g0"
  note at = less.prems(1)
  have safe: "kv_safe s" using at by (simp add: gc_at_def)
  note ewf = kv_safeD(4) [OF safe]
  have rf: "gc_keeps s s" using gc_keeps_same_map [OF safe, of s] kv_safeD(2) [OF safe] by simp
  let ?md = "hdr_at (kv_dev s) ?startb ?p"
  let ?stop = "\<not> (?p < end_off \<and> \<not> gc_exit gce ?p) \<or> sh_key_size ?md = 0 \<and> sh_val_size ?md = 0
    \<or> end_off < ?p + unat (sh_val_size ?md) + unat (sh_key_size ?md)"
  show ?case
  proof (cases ?stop)
    case True
    then have ret: "gc_loop env gce ?startb end_off ?p grain rc relocb s = Some (s, rc, relocb, ?p)"
      by (auto simp: gc_loop_unfold [of env gce ?startb end_off ?p] Let_def)
    have "gc_cleared g0 dn (kv_dev s) ?p s" if "\<not> gc_exit gce ?p"
      using gc_stopped [of dn nn end_off ?p "kv_dev s" g0 s] less.prems(3) at True that by (auto simp: gc_at_def)
    then show ?thesis using ret rf by blast
  next
    case False
    have "k * ?g < nn * ?g" using False less.prems(3) by linarith
    then have k: "k < nn" by simp
    have off: "rec_off env grain = ?startb + ?p" using at by (simp add: gc_at_def rec_off_def algebra_simps)
    have "(unat g0 + k) * ?g < (unat g0 + nn) * ?g" using k gsize_pos(1) [OF ewf] by simp
    also have "\<dots> \<le> 2 ^ 64" using at by (simp add: gc_at_def)
    finally have small: "rec_off env grain < 2 ^ 64" using at by (simp add: rec_off_def gc_at_def)
    have tomb: "\<not> tombstone_at (kv_map s) (unat grain)" using at k by (simp add: gc_at_def)
    have md: "?md = rec_md env (kv_dev s) grain" by (simp add: hdr_at_def rec_md_def off)
    let ?h = "ev_hash env (rec_key env (kv_dev s) grain)"
    obtain s1 rc1 relocb1 where r: "local_gc_callback env ?h grain ?md True relocb s = (s1, rc1, relocb1)" by (metis prod_cases3)
    note st = gc_step_ok [OF safe md refl tomb small r]
    note mg = md_bytes_grains [OF ewf, of ?md]
    let ?k = "k + unat (md_grains env ?md)"
    have next_p: "?p + unat (md_bytes env ?md) = ?k * ?g" using mg(1) by (simp add: algebra_simps)
    have key: "dev_read (kv_dev s) (?startb + ?p + 14) (unat (sh_key_size ?md)) = rec_key env (kv_dev s) grain"
      by (simp add: rec_key_def off rec_ks_def md)
    have ret: "gc_loop env gce ?startb end_off ?p grain rc relocb s
        = gc_loop env gce ?startb end_off (?k * ?g) (grain + md_grains env ?md) rc1 relocb1 s1"
      unfolding next_p [symmetric] less.prems(2) using False r key by (intro gc_loop_step) simp_all
    show ?thesis
    proof (cases "rc1 = E_OK")
      case rc1: False
      then have "gc_loop env gce ?startb end_off (?k * ?g) (grain + md_grains env ?md) rc1 relocb1 s1 = Some (s1, rc1, relocb1, ?k * ?g)"
        by (subst gc_loop.simps) simp
      then show ?thesis using ret st rc1 by auto
    next
      case True
      have "k * ?g < ?k * ?g" using mg(2) gsize_pos(1) [OF ewf] by simp
      then have dec: "end_off - ?k * ?g < end_off - ?p" using False by linarith
      have at1: "gc_at g0 nn dn ?k (grain + md_grains env ?md) s1" using gc_at_step [OF at _ k] st by blast
      obtain s' rc' relocb' p' where ih: "gc_loop env gce ?startb end_off (?k * ?g) (grain + md_grains env ?md) rc1 relocb1 s1 = Some (s', rc', relocb', p')"
        "gc_keeps s1 s'" "rc' = E_OK \<and> \<not> gc_exit gce p' \<longrightarrow> gc_cleared g0 dn (kv_dev s1) (?k * ?g) s'"
        using less.hyps [OF dec at1 True less.prems(3)] by blast
      have "gc_cleared g0 dn (kv_dev s) ?p s'" if "rc' = E_OK \<and> \<not> gc_exit gce p'"
        using gc_cleared_step [OF at _ ih(2), of] st True ih(3) that next_p by auto
      then show ?thesis using ret ih(1) gc_keeps_trans [OF _ ih(2)] st by auto
    qed
  qed
qed

lemma gc_callback_ok:
  assumes at: "gc_at g0 (unat nr) dn 0 g0 s" and m: "gc_mmap gce" and sz: "unat nr * unat (gsize env) < 2 ^ 64" "rec_off env g0 < 2 ^ 64"
  shows "\<exists>s' rc. gc_callback env gce g0 nr s = Some (s', rc) \<and> gc_keeps s s'
    \<and> (rc = E_OK \<longrightarrow> gc_cleared g0 dn (kv_dev s) 0 s')"
proof -
  have nb: "unat (nr * gsize env) = unat nr * unat (gsize env)" using sz(1) by (simp add: unat_mult_no_wrap)
  obtain s' rc relocb p where l: "gc_loop env gce (rec_off env g0) (unat nr * unat (gsize env) - PREFIX_SIZE) 0 g0 E_OK 0 s = Some (s', rc, relocb, p)"
    "gc_keeps s s'" "rc = E_OK \<and> \<not> gc_exit gce p \<longrightarrow> gc_cleared g0 dn (kv_dev s) 0 s'"
    using gc_loop_ok [OF at refl refl, of gce 0] by auto
  then show ?thesis using m rec_offset_word [OF sz(2)] nb by (auto simp: gc_callback_def gc_result_def)
qed

text \<open>If the walk meets every live record of the segment, none is left in it.\<close>

lemma gc_cleared_segment:
  assumes "gc_at g0 nn dn 0 g0 s" "gc_keeps s s'" "gc_cleared g0 dn (kv_dev s) 0 s'" "seg_walkable env g0 dn s" "y \<in># kv_content s'"
  shows "unat (info_pba y) \<notin> {unat g0..<unat g0 + dn}"
proof
  assume y: "unat (info_pba y) \<in> {unat g0..<unat g0 + dn}"
  then have "unat (info_pba y) \<in> owned (kv_seg s)" using assms(1) unfolding gc_at_def by blast
  then have "y \<in># kv_content s" using assms(2,5) unfolding gc_keeps_def by blast
  then show False using assms(3-5) y unfolding seg_walkable_def gc_cleared_def by blast
qed

end

subsection \<open>The fallback\<close>

text \<open>
  The fallback does not see the keys: when the memory behind its unit does not happen to
  hash to the bucket of the record, the record is passed over, and the walk still succeeds.
\<close>

lemma gc_base_loop_skips:
  assumes ewf: "env_wf env" and io: "\<And>n. ev_rd_err env n = E_OK" and ex: "\<And>n. \<not> gc_exit gce n" and small: "unat end_grain < 2 ^ 63"
    and miss: "\<And>a n. dm_lookup_pba (kv_map s) (ev_hash env (take n (gc_mem gce (unat a)))) a = None"
  shows "\<exists>t relocb' p. gc_base_loop env gce end_grain start gcu E_OK relocb s = Some (t, E_OK, relocb', p)
    \<and> kv_map t = kv_map s \<and> kv_seg t = kv_seg s \<and> kv_dev t = kv_dev s"
  using miss
proof (induction "unat end_grain - unat start" arbitrary: start gcu relocb s rule: less_induct)
  case less
  note unf = gc_base_loop.simps [of env gce end_grain start gcu E_OK relocb s]
  show ?case
  proof (cases "start < end_grain")
    case False
    then show ?thesis by (simp add: unf)
  next
    case True
    define sizeb where "sizeb = (if start * gsize env + of_nat PREFIX_SIZE \<le> end_grain * gsize env then of_nat PREFIX_SIZE
      else end_grain * gsize env - start * gsize env)"
    define gcu1 where "gcu1 = dev_read (kv_dev s) (unat (start * gsize env)) (unat sizeb) @ drop (unat sizeb) gcu"
    define md where "md = dec_hdr gcu1"
    note m = md_bytes_grains(2,3) [OF ewf, of md]
    have "unat (start + md_grains env md) = unat start + unat (md_grains env md)"
      using True m(2) small by (intro unat_add_no_wrap) (simp add: word_less_nat_alt)
    then have dec: "unat end_grain - unat (start + md_grains env md) < unat end_grain - unat start"
      using True m(1) by (simp add: word_less_nat_alt)
    have cb: "local_gc_callback env (ev_hash env (take n (gc_mem gce (unat start)))) start md False relocb (tick s) = (tick s, E_OK, relocb)" for n
      using less.prems [of n start] by (simp add: local_gc_callback_def)
    have "gc_base_loop env gce end_grain start gcu E_OK relocb s = Some (tick s, E_OK, relocb, unat start)
      \<or> gc_base_loop env gce end_grain start gcu E_OK relocb s
          = gc_base_loop env gce end_grain (start + md_grains env md) gcu1 E_OK relocb (tick s)"
      unfolding unf Let_def sizeb_def [symmetric] gcu1_def [symmetric] md_def [symmetric] using True io ex cb by simp
    moreover have "\<exists>t relocb' p. gc_base_loop env gce end_grain (start + md_grains env md) gcu1 E_OK relocb (tick s) = Some (t, E_OK, relocb', p)
      \<and> kv_map t = kv_map (tick s) \<and> kv_seg t = kv_seg (tick s) \<and> kv_dev t = kv_dev (tick s)"
      using less.prems by (intro less.hyps [OF dec]) (simp add: tick_def)
    ultimately show ?thesis by (auto simp: tick_def)
  qed
qed

lemma gc_callback_base_skips:
  assumes "env_wf env" "\<And>n. ev_rd_err env n = E_OK" "\<And>n. \<not> gc_exit gce n" "\<not> gc_exit_late gce"
    "unat (grain_start + grain_nr) < 2 ^ 63"
    "\<And>a n. dm_lookup_pba (kv_map s) (ev_hash env (take n (gc_mem gce (unat a)))) a = None"
  shows "\<exists>t. gc_callback_base env gce grain_start grain_nr s = Some (t, E_OK) \<and> kv_map t = kv_map s \<and> kv_seg t = kv_seg s \<and> kv_dev t = kv_dev s"
  using gc_base_loop_skips [OF assms(1,2,3,5,6), of grain_start "gc_mem gce 0" 0] assms(3,4)
  by (auto simp: gc_callback_base_def gc_result_def)

end
