(* ===== verification/Salsa_GC.thy ===== *)
theory Salsa_GC
  imports KV_Salsa KV_GC_Walk
begin

section \<open>The garbage collector of the segment manager (\<^verbatim>\<open>gc-base.c\<close>)\<close>

text \<open>
  The circular and the greedy collector keep the segments that left their allocator in a
  fifo.  An iteration takes one out, has the controller relocate its live grains and
  returns it to the free segments, or puts it back if the relocation failed.  The list
  heads of a segment share memory with its cursors, so that resetting the segment stores
  an address in them; \<open>addr\<close> is the address of the list head of a segment.
\<close>

definition SALSA_INVALID_CTLR_ID :: u8 where "SALSA_INVALID_CTLR_ID = 255"
definition SALSA_MIN_REL_SEGMENTS :: nat where "SALSA_MIN_REL_SEGMENTS = 1"
definition LSA_MAX_GC_WINDOW :: u32 where "LSA_MAX_GC_WINDOW = 1024"

definition segment_reset :: "u64 \<Rightarrow> u32 \<Rightarrow> segment \<Rightarrow> segment" where
  "segment_reset addr page_nr g = g\<lparr>sgm_ctlr_id := SALSA_INVALID_CTLR_ID, sgm_state := SEG_INVALID, valid_nr := page_nr,
     nr3 := ucast addr, nr4 := ucast (drop_bit 32 addr)\<rparr>"

definition scm_put_free_seg :: "salsa_env \<Rightarrow> u64 \<Rightarrow> nat \<Rightarrow> salsa \<Rightarrow> salsa" where
  "scm_put_free_seg env addr i s =
     (let s0 = s\<lparr>sa_bug := (sa_bug s \<or> valid_nr (segs s ! i) \<noteq> 0)\<rparr>;
          s1 = upd_seg i (segment_reset addr (ucast (se_seg_size env))) s0
      in if length (q_rel_segs s1) < SALSA_MIN_REL_SEGMENTS
         then (upd_seg i (\<lambda>g. g\<lparr>sgm_state := SEG_FREE_REL\<rparr>) s1)\<lparr>q_rel_segs := q_rel_segs s1 @ [i]\<rparr>
         else (upd_seg i (\<lambda>g. g\<lparr>sgm_state := SEG_FREE\<rparr>) s1)\<lparr>q_segs := q_segs s1 @ [i]\<rparr>)"

text \<open>The relocation function registered by the controller, with the grains of the whole segment.\<close>

definition sc_reloc_fn :: "salsa_env \<Rightarrow> salsa kv_env \<Rightarrow> gc_env \<Rightarrow> nat \<Rightarrow> salsa kv \<Rightarrow> (salsa kv \<times> errno) option" where
  "sc_reloc_fn se env gce i s = gc_callback (salsa_gc_env se env) gce (scm_seg_to_grain se i) (se_seg_size se) s"

definition gc_circular_step :: "salsa_env \<Rightarrow> salsa kv_env \<Rightarrow> gc_env \<Rightarrow> (nat \<Rightarrow> u64) \<Rightarrow> nat list \<times> salsa kv \<Rightarrow> (nat list \<times> salsa kv) option" where
  "gc_circular_step se env gce addr g =
     (case g of
        ([], s) \<Rightarrow> Some ([], s)
      | (i # q, s) \<Rightarrow>
          (case sc_reloc_fn se env gce i s of
             None \<Rightarrow> None
           | Some (s1, rc) \<Rightarrow>
               if rc \<noteq> E_OK then Some (q @ [i], s1)
               else Some (q, s1\<lparr>kv_seg := scm_put_free_seg se (addr i) i (kv_seg s1)\<rparr>)))"

text \<open>The greedy collector takes the segment with the fewest valid grains in its window.\<close>

fun gc_greedy_scan :: "salsa \<Rightarrow> nat list \<Rightarrow> u32 \<Rightarrow> u32 \<Rightarrow> nat option \<Rightarrow> nat option" where
  "gc_greedy_scan s [] i min_nr best_seg = best_seg"
| "gc_greedy_scan s (seg # q) i min_nr best_seg =
     (let cur = valid_nr (segs s ! seg);
          best = (if cur < min_nr then Some seg else best_seg);
          min1 = (if cur < min_nr then cur else min_nr)
      in if i = LSA_MAX_GC_WINDOW then best else gc_greedy_scan s q (i + 1) min1 best)"

definition gc_greedy_pick :: "salsa_env \<Rightarrow> salsa \<Rightarrow> nat list \<Rightarrow> nat option" where
  "gc_greedy_pick se s q = gc_greedy_scan s q 0 (ucast (se_seg_size se) + 1) None"

definition gc_greedy_step :: "salsa_env \<Rightarrow> salsa kv_env \<Rightarrow> gc_env \<Rightarrow> (nat \<Rightarrow> u64) \<Rightarrow> nat list \<times> salsa kv \<Rightarrow> (nat list \<times> salsa kv) option" where
  "gc_greedy_step se env gce addr g =
     (case g of (fifo, s) \<Rightarrow>
        (case gc_greedy_pick se (kv_seg s) fifo of
           None \<Rightarrow> Some (fifo, s)
         | Some i \<Rightarrow>
             let q = remove1 i fifo in
             (case sc_reloc_fn se env gce i s of
                None \<Rightarrow> None
              | Some (s1, rc) \<Rightarrow>
                  if rc \<noteq> E_OK then Some (i # q, s1)
                  else Some (q, s1\<lparr>kv_seg := scm_put_free_seg se (addr i) i (kv_seg s1)\<rparr>))))"

subsection \<open>Freeing a segment\<close>

lemma put_free_simps:
  "stages (scm_put_free_seg se addr i s) = stages s" "sa_md (scm_put_free_seg se addr i s) = sa_md s"
  "length (segs (scm_put_free_seg se addr i s)) = length (segs s)" "alltrs (scm_put_free_seg se addr i s) = alltrs s"
  by (simp_all add: scm_put_free_seg_def Let_def upd_seg_def stages_def)

lemma put_free_queues:
  "mset (q_segs (scm_put_free_seg se addr i s)) + mset (q_rel_segs (scm_put_free_seg se addr i s))
     = add_mset i (mset (q_segs s) + mset (q_rel_segs s))"
  by (simp add: scm_put_free_seg_def Let_def upd_seg_def)

lemma put_free_nr3s: "p \<noteq> i \<Longrightarrow> nr3s (scm_put_free_seg se addr i s) ! p = nr3s s ! p"
  by (simp add: scm_put_free_seg_def Let_def nr3s_upd_seg)

lemma put_free_places: "places (scm_put_free_seg se addr i s) = add_mset i (places s)"
  unfolding places_def put_free_queues put_free_simps by simp

lemma put_free_inv:
  assumes inv: "salsa_inv se s" and i: "i < length (segs s)" "i \<notin># places s"
  shows "salsa_inv se (scm_put_free_seg se addr i s)"
proof -
  let ?s = "scm_put_free_seg se addr i s"
  have "salsa_cfg_ok se ?s" using salsa_invD(1) [OF inv] unfolding salsa_cfg_ok_def put_free_simps .
  moreover have "count (places ?s) j \<le> 1" for j
    using salsa_invD(2) [OF inv, of j] i(2) by (auto simp: put_free_places not_in_iff)
  moreover have "unat (se_reserved se) \<le> unat (nr3s ?s ! p) \<and> unat (nr3s ?s ! p) \<le> unat (se_seg_size se)" if "p \<in># staged (stages s)" for p
  proof -
    have "p \<noteq> i" using that i(2) by (auto simp: places_def)
    then show ?thesis using salsa_invD(4) [OF inv that] put_free_nr3s by simp
  qed
  ultimately show ?thesis using salsa_invD(3) [OF inv] i(1) by (auto simp: salsa_inv_def put_free_places put_free_simps)
qed

lemma put_free_owned:
  assumes "g \<in> owned_grains se s" "g div unat (se_seg_size se) \<noteq> i"
  shows "g \<in> owned_grains se (scm_put_free_seg se addr i s)"
proof -
  let ?j = "g div unat (se_seg_size se)"
  have "nr3s (scm_put_free_seg se addr i s) ! ?j = nr3s s ! ?j" by (rule put_free_nr3s [OF assms(2)])
  then show ?thesis using assms by (auto simp: owned_grains_def owned_grain_def Let_def put_free_queues put_free_simps split: if_splits)
qed

text \<open>The last grain of a segment holds metadata, so a range of grains in use stays in one segment.\<close>

lemma owned_range_segment:
  assumes inv: "salsa_inv se s" and r: "{a..<b} \<subseteq> owned_grains se s" "g \<in> {a..<b}"
  shows "g div unat (se_seg_size se) = a div unat (se_seg_size se)"
proof (rule ccontr)
  let ?S = "unat (se_seg_size se)"
  assume ne: "g div ?S \<noteq> a div ?S"
  have S: "0 < ?S" using salsa_cfgD [OF inv] by simp
  have "a div ?S < g div ?S" using ne r(2) div_le_mono [of a g ?S] by simp
  then have "Suc (a div ?S) * ?S \<le> g div ?S * ?S" by (intro mult_le_mono1) simp
  then have le: "Suc (a div ?S) * ?S \<le> g" using div_mult_mod_eq [of g ?S] by linarith
  define e where "e = a div ?S * ?S + (?S - 1)"
  have "a \<le> e" "e < g" using le S div_mult_mod_eq [of a ?S] mod_less_divisor [OF S, of a] unfolding e_def mult_Suc by linarith+
  then have o: "e \<in> owned_grains se s" using r by auto
  have "e mod ?S = (?S - 1) mod ?S" unfolding e_def by (rule mod_mult_self3)
  then have "e mod ?S = ?S - 1" using S by simp
  moreover have "0 < unat (se_reserved se)" using salsa_invD(1) [OF inv] unfolding salsa_cfg_ok_def by blast
  ultimately show False using owned_data(1) [OF inv o] by linarith
qed

subsection \<open>One iteration of the collector\<close>

interpretation kgc: grain_alloc "salsa_gc_env se env" "salsa_kv_out X se env" "owned_grains se"
  for se env X
  unfolding salsa_gc_env_def by (rule salsa_grain_alloc)

text \<open>The invariant and the contents of the store do not depend on the stream an operation allocates in.\<close>

lemma ev_hash_op [simp]: "ev_hash (salsa_op_env rl se env) = ev_hash env" "ev_rd_err (salsa_op_env rl se env) = ev_rd_err env"
  by (simp_all add: salsa_op_env_def)

lemma rec_op_env [simp]:
  "rec_off (salsa_op_env rl se env) = rec_off env" "rec_md (salsa_op_env rl se env) = rec_md env"
  "rec_ks (salsa_op_env rl se env) = rec_ks env" "rec_vs (salsa_op_env rl se env) = rec_vs env"
  "rec_key (salsa_op_env rl se env) = rec_key env" "rec_val (salsa_op_env rl se env) = rec_val env"
  "rec_grains (salsa_op_env rl se env) = rec_grains env" "rec_range (salsa_op_env rl se env) = rec_range env"
  by (simp_all add: fun_eq_iff rec_off_def rec_md_def rec_ks_def rec_vs_def rec_key_def rec_val_def rec_grains_def rec_range_def)

lemma kv_op_env:
  "kv_inv (salsa_op_env rl se env) = kv_inv env" "kv_abs (salsa_op_env rl se env) = kv_abs env"
  "counts_ok (salsa_op_env rl se env) = counts_ok env"
  by (simp_all add: fun_eq_iff kv_inv_def env_wf_def rec_ok_def entry_key_def [abs_def] entry_val_def kv_abs_def counts_ok_def
      raw_bytes_def tot_bytes_def)

lemma gc_safe_iff: "kgc.kv_safe se env X s \<longleftrightarrow> salsa_kv_safe se env s \<and> X \<inter> set_mset (places (kv_seg s)) = {}"
  unfolding kgc.kv_safe_def
  unfolding salsa_kv_safe_def salsa_kv_env_def salsa_gc_env_def kv_op_env rec_op_env salsa_kv_out_def by blast

text \<open>The segments in the fifo of the collector are in no other place.\<close>

definition gc_fifo_ok :: "nat list \<Rightarrow> salsa \<Rightarrow> bool" where
  "gc_fifo_ok fifo s \<longleftrightarrow> distinct fifo \<and> (\<forall>j \<in> set fifo. j < length (segs s)) \<and> set fifo \<inter> set_mset (places s) = {}"

text \<open>The data grains of a segment.\<close>

definition seg_data :: "salsa_env \<Rightarrow> nat \<Rightarrow> nat set" where
  "seg_data se i = {i * unat (se_seg_size se)..<i * unat (se_seg_size se) + (unat (se_seg_size se) - unat (se_reserved se))}"

lemma seg_data_owned:
  assumes inv: "salsa_inv se s" and i: "i < length (segs s)" "i \<notin># places s"
  shows "seg_data se i \<subseteq> owned_grains se s"
proof
  fix g
  let ?S = "unat (se_seg_size se)"
  assume g: "g \<in> seg_data se i"
  have "g div ?S = i"
    using g by (intro div_nat_eqI) (auto simp: seg_data_def algebra_simps)
  moreover have "g mod ?S = g - i * ?S" using calculation by (simp add: minus_div_mult_eq_mod [symmetric])
  moreover have "unat (se_reserved se) < ?S" using salsa_invD(1) [OF inv] unfolding salsa_cfg_ok_def by blast
  ultimately show "g \<in> owned_grains se s"
    using g i by (auto simp: seg_data_def owned_grains_def owned_grain_def Let_def places_def)
qed

lemma seg_data_div:
  assumes "salsa_inv se s" "g \<in> owned_grains se s" "g div unat (se_seg_size se) = i"
  shows "g \<in> seg_data se i"
  using owned_data(1) [OF assms(1,2)] assms(3) div_mult_mod_eq [of g "unat (se_seg_size se)"]
  by (auto simp: seg_data_def)

lemma unat_seg_to_grain:
  assumes inv: "salsa_inv se s" and i: "i < length (segs s)"
  shows "unat (scm_seg_to_grain se i) = i * unat (se_seg_size se)"
    "i * unat (se_seg_size se) + unat (se_seg_size se) < 2 ^ 39"
    "(i * unat (se_seg_size se) + unat (se_seg_size se)) * unat (grain_size_m (sa_md s)) \<le> 2 ^ 64"
proof -
  let ?S = "unat (se_seg_size se)" and ?n = "length (segs s)" and ?gs = "unat (grain_size_m (sa_md s))"
  have c: "?n * ?S < 2 ^ 39" "?n * ?S * ?gs \<le> 2 ^ 64" "?S < 2 ^ 31" "0 < ?S"
    using salsa_invD(1) [OF inv] unfolding salsa_cfg_ok_def by linarith+
  have "Suc i * ?S \<le> ?n * ?S" using i by (intro mult_le_mono1) simp
  then have le: "i * ?S + ?S \<le> ?n * ?S" by simp
  show lt: "i * ?S + ?S < 2 ^ 39" using le c(1) by linarith
  show "(i * ?S + ?S) * ?gs \<le> 2 ^ 64" using mult_le_mono1 [OF le, of ?gs] c(2) by linarith
  have "i * 1 \<le> i * ?S" using c(4) by (intro mult_le_mono2) simp
  then have "i < 2 ^ 39" using lt by linarith
  then have "unat (of_nat i :: u64) = i" by (intro unat_of_nat_small) simp
  then show "unat (scm_seg_to_grain se i) = i * ?S"
    using lt unfolding scm_seg_to_grain_def by (subst unat_mult_no_wrap) simp_all
qed

text \<open>
  The records of a segment can be collected if the index holds no tombstone in it and the walk
  from the first grain of the segment meets every live record.
\<close>

definition seg_collectable :: "salsa_env \<Rightarrow> salsa kv_env \<Rightarrow> nat \<Rightarrow> salsa kv \<Rightarrow> bool" where
  "seg_collectable se env i s \<longleftrightarrow>
     (\<forall>g \<in> {i * unat (se_seg_size se)..<i * unat (se_seg_size se) + unat (se_seg_size se)}. \<not> tombstone_at (kv_map s) g)
     \<and> seg_walkable (salsa_gc_env se env) (scm_seg_to_grain se i) (unat (se_seg_size se) - unat (se_reserved se)) s"

lemma gc_start:
  assumes safe: "salsa_kv_safe se env s" and f: "gc_fifo_ok fifo (kv_seg s)" "i \<in> set fifo" and c: "seg_collectable se env i s"
  shows "kgc.gc_at se env (set fifo) (scm_seg_to_grain se i) (unat (se_seg_size se)) (unat (se_seg_size se) - unat (se_reserved se)) 0
    (scm_seg_to_grain se i) s"
proof -
  let ?S = "unat (se_seg_size se)"
  have inv: "salsa_inv se (kv_seg s)" and gs: "grain_size_m (sa_md (kv_seg s)) = gsize env"
    using safe by (auto simp: salsa_kv_safe_def salsa_kv_inv_def)
  have i: "i < length (segs (kv_seg s))" "i \<notin># places (kv_seg s)" using f by (auto simp: gc_fifo_ok_def)
  note g = unat_seg_to_grain [OF inv i(1)]
  have "seg_data se i \<subseteq> owned_grains se (kv_seg s)" by (rule seg_data_owned [OF inv i])
  moreover have "kgc.kv_safe se env (set fifo) s" using safe f(1) by (simp add: gc_safe_iff gc_fifo_ok_def)
  moreover have "gsize (salsa_gc_env se env) = gsize env" by (simp add: salsa_gc_env_def)
  ultimately show ?thesis using c g gs unfolding kgc.gc_at_def seg_collectable_def seg_data_def by simp
qed

lemma sc_reloc_ok:
  assumes safe: "salsa_kv_safe se env s" and f: "gc_fifo_ok fifo (kv_seg s)" "i \<in> set fifo" and c: "seg_collectable se env i s"
    and m: "gc_mmap gce"
  shows "\<exists>s' rc. sc_reloc_fn se env gce i s = Some (s', rc) \<and> salsa_kv_safe se env s' \<and> kv_abs env s' = kv_abs env s
    \<and> gc_fifo_ok fifo (kv_seg s') \<and> (rc = E_OK \<longrightarrow> (\<forall>y \<in># kv_content s'. unat (info_pba y) \<notin> seg_data se i))"
proof -
  let ?S = "unat (se_seg_size se)" and ?g = "scm_seg_to_grain se i"
  have inv: "salsa_inv se (kv_seg s)" and gs: "grain_size_m (sa_md (kv_seg s)) = gsize env" "gsize (salsa_gc_env se env) = gsize env"
    using safe by (auto simp: salsa_kv_safe_def salsa_kv_inv_def salsa_gc_env_def)
  have i: "i < length (segs (kv_seg s))" using f by (simp add: gc_fifo_ok_def)
  note g = unat_seg_to_grain [OF inv i]
  have cfg: "?S < 2 ^ 31" "0 < ?S" "0 < unat (gsize env)" "unat (gsize env) < 2 ^ 32"
    using salsa_invD(1) [OF inv] gs unfolding salsa_cfg_ok_def by auto
  have "?S * unat (gsize env) < 2 ^ 31 * 2 ^ 32" using cfg by (intro mult_strict_mono) simp_all
  then have sz: "?S * unat (gsize (salsa_gc_env se env)) < 2 ^ 64" using gs(2) by simp
  have "i * ?S * unat (gsize env) < (i * ?S + ?S) * unat (gsize env)" using cfg by simp
  also have "\<dots> \<le> 2 ^ 64" using g(3) gs(1) by simp
  finally have off: "rec_off (salsa_gc_env se env) ?g < 2 ^ 64" by (simp add: rec_off_def gs(2) g(1))
  note at = gc_start [OF safe f c]
  obtain s' rc where r: "sc_reloc_fn se env gce i s = Some (s', rc)" and k: "kgc.gc_keeps se env (set fifo) s s'"
    and cl: "rc = E_OK \<longrightarrow> kgc.gc_cleared se env ?g (?S - unat (se_reserved se)) (kv_dev s) 0 s'"
    using kgc.gc_callback_ok [OF at m sz off] unfolding sc_reloc_fn_def by blast
  have s': "salsa_kv_safe se env s'" "set fifo \<inter> set_mset (places (kv_seg s')) = {}" "kv_abs env s' = kv_abs env s"
    "owned_grains se (kv_seg s) \<subseteq> owned_grains se (kv_seg s')"
    using k unfolding kgc.gc_keeps_def gc_safe_iff unfolding salsa_gc_env_def kv_op_env by blast+
  have "j < length (segs (kv_seg s'))" if j: "j \<in> set fifo" for j
  proof -
    have "seg_data se j \<subseteq> owned_grains se (kv_seg s)"
      using f(1) j by (intro seg_data_owned [OF inv]) (auto simp: gc_fifo_ok_def)
    moreover have "unat (se_reserved se) < ?S" using salsa_invD(1) [OF inv] unfolding salsa_cfg_ok_def by blast
    then have "j * ?S \<in> seg_data se j" by (simp add: seg_data_def)
    ultimately have "j * ?S \<in> owned_grains se (kv_seg s')" using s'(4) by blast
    moreover have "salsa_inv se (kv_seg s')" using s'(1) by (simp add: salsa_kv_safe_def salsa_kv_inv_def)
    ultimately show ?thesis using owned_data(2) cfg(2) by fastforce
  qed
  then have "gc_fifo_ok fifo (kv_seg s')" using f(1) s'(2) by (simp add: gc_fifo_ok_def)
  moreover have "unat (info_pba y) \<notin> seg_data se i" if "rc = E_OK" "y \<in># kv_content s'" for y
    using kgc.gc_cleared_segment [OF at k _ _ that(2)] cl that(1) c g(1) by (simp add: seg_collectable_def seg_data_def)
  ultimately show ?thesis using r s' by blast
qed

lemma put_free_safe:
  assumes safe: "salsa_kv_safe se env s" and f: "gc_fifo_ok fifo (kv_seg s)" "i \<in> set fifo"
    and out: "\<forall>y \<in># kv_content s. unat (info_pba y) \<notin> seg_data se i" and s': "s' = s\<lparr>kv_seg := scm_put_free_seg se addr i (kv_seg s)\<rparr>"
  shows "salsa_kv_safe se env s'" "kv_abs env s' = kv_abs env s" "gc_fifo_ok (remove1 i fifo) (kv_seg s')"
    "i \<in> set (q_segs (kv_seg s')) \<union> set (q_rel_segs (kv_seg s'))"
proof -
  let ?S = "unat (se_seg_size se)"
  have inv: "salsa_inv se (kv_seg s)" using safe by (simp add: salsa_kv_safe_def salsa_kv_inv_def)
  have i: "i < length (segs (kv_seg s))" "i \<notin># places (kv_seg s)" using f by (auto simp: gc_fifo_ok_def)
  have c: "kv_content s' = kv_content s" by (simp add: s' kv_content_def)
  show "kv_abs env s' = kv_abs env s" by (simp add: s' kv_abs_def)
  have "rec_range env (kv_dev s) (info_pba y) \<subseteq> owned_grains se (kv_seg s')" if y: "y \<in># kv_content s" for y
  proof
    fix g assume g: "g \<in> rec_range env (kv_dev s) (info_pba y)"
    have r: "rec_range env (kv_dev s) (info_pba y) \<subseteq> owned_grains se (kv_seg s)"
      using safe y by (simp add: salsa_kv_safe_def salsa_kv_env_def)
    have "unat (info_pba y) \<in> owned_grains se (kv_seg s)" using r g by (auto simp: rec_range_def)
    then have "unat (info_pba y) div ?S \<noteq> i" using seg_data_div [OF inv] out y by blast
    moreover have "g div ?S = unat (info_pba y) div ?S" using r g unfolding rec_range_def by (rule owned_range_segment [OF inv])
    ultimately show "g \<in> owned_grains se (kv_seg s')" using r g put_free_owned by (auto simp: s')
  qed
  moreover have "salsa_inv se (kv_seg s')" "sa_md (kv_seg s') = sa_md (kv_seg s)" using put_free_inv [OF inv i] by (simp_all add: s' put_free_simps)
  moreover have "kv_inv env s'" "counts_ok env s'"
    using safe unfolding salsa_kv_safe_def salsa_kv_env_def kv_op_env by (simp_all add: kv_inv_def counts_ok_def c) (simp_all add: s')
  ultimately show "salsa_kv_safe se env s'"
    using safe unfolding salsa_kv_safe_def salsa_kv_env_def kv_op_env rec_op_env salsa_kv_inv_def c by (simp add: s')
  show "gc_fifo_ok (remove1 i fifo) (kv_seg s')"
    using f by (auto simp: gc_fifo_ok_def s' put_free_simps put_free_places dest: notin_set_remove1)
  have "i \<in># mset (q_segs (kv_seg s')) + mset (q_rel_segs (kv_seg s'))" by (simp add: s' put_free_queues)
  then show "i \<in> set (q_segs (kv_seg s')) \<union> set (q_rel_segs (kv_seg s'))" by simp
qed

text \<open>
  After an iteration the store has the same contents, and the segment is free, or it is at the place
  \<open>fifo'\<close> of the collector's fifo.
\<close>

definition gc_iterated :: "salsa_env \<Rightarrow> salsa kv_env \<Rightarrow> nat \<Rightarrow> nat list \<Rightarrow> nat list \<Rightarrow> nat list \<times> salsa kv \<Rightarrow> salsa kv \<Rightarrow> bool" where
  "gc_iterated se env i q fifo' g s \<longleftrightarrow> (case g of (fifo, s') \<Rightarrow>
     salsa_kv_safe se env s' \<and> kv_abs env s' = kv_abs env s \<and> gc_fifo_ok fifo (kv_seg s')
     \<and> (fifo = q \<and> i \<in> set (q_segs (kv_seg s')) \<union> set (q_rel_segs (kv_seg s')) \<or> fifo = fifo'))"

lemma gc_iteration:
  assumes safe: "salsa_kv_safe se env s" and f: "gc_fifo_ok fifo (kv_seg s)" "i \<in> set fifo" and c: "seg_collectable se env i s"
    and m: "gc_mmap gce" and f': "mset fifo' = mset fifo"
  shows "\<exists>s1 rc. sc_reloc_fn se env gce i s = Some (s1, rc)
    \<and> gc_iterated se env i (remove1 i fifo) fifo'
        (if rc \<noteq> E_OK then (fifo', s1) else (remove1 i fifo, s1\<lparr>kv_seg := scm_put_free_seg se addr i (kv_seg s1)\<rparr>)) s"
proof -
  obtain s1 rc where r: "sc_reloc_fn se env gce i s = Some (s1, rc)" "salsa_kv_safe se env s1" "kv_abs env s1 = kv_abs env s"
    "gc_fifo_ok fifo (kv_seg s1)" "rc = E_OK \<longrightarrow> (\<forall>y \<in># kv_content s1. unat (info_pba y) \<notin> seg_data se i)"
    using sc_reloc_ok [OF safe f c m] by blast
  have "gc_fifo_ok fifo' (kv_seg s1)" using r(4) f' unfolding gc_fifo_ok_def by (metis mset_eq_setD mset_eq_imp_distinct_iff)
  then show ?thesis using r put_free_safe [OF r(2,4) f(2) _ refl, of addr] by (auto simp: gc_iterated_def)
qed

lemma gc_circular_ok:
  assumes "salsa_kv_safe se env s" "gc_fifo_ok (i # q) (kv_seg s)" "seg_collectable se env i s" "gc_mmap gce"
  shows "\<exists>g. gc_circular_step se env gce addr (i # q, s) = Some g \<and> gc_iterated se env i q (q @ [i]) g s"
proof -
  have "mset (q @ [i]) = mset (i # q)" by simp
  from gc_iteration [OF assms(1,2) _ assms(3,4) this, of "addr i"] show ?thesis
    by (auto simp: gc_circular_step_def)
qed

subsection \<open>The choice of the greedy collector\<close>

text \<open>The segments that the scan looks at: it stops after the one with index \<open>LSA_MAX_GC_WINDOW\<close>.\<close>

definition gc_window :: "nat list \<Rightarrow> nat set" where
  "gc_window q = set (take (Suc (unat LSA_MAX_GC_WINDOW)) q)"

lemma gc_greedy_scan_min:
  assumes "unat i \<le> 1024" "\<forall>j \<in> seen. m \<le> valid_nr (segs s ! j)" "\<And>p. best = Some p \<Longrightarrow> p \<in> seen \<and> valid_nr (segs s ! p) = m"
  shows "case gc_greedy_scan s q i m best of
      None \<Rightarrow> best = None \<and> (\<forall>j \<in> set (take (1025 - unat i) q). m \<le> valid_nr (segs s ! j))
    | Some p \<Rightarrow> p \<in> seen \<union> set (take (1025 - unat i) q)
        \<and> (\<forall>j \<in> seen \<union> set (take (1025 - unat i) q). valid_nr (segs s ! p) \<le> valid_nr (segs s ! j))"
  using assms
proof (induction q arbitrary: i m best seen)
  case Nil
  then show ?case by (auto split: option.splits)
next
  case (Cons a q)
  define b where "b = (if valid_nr (segs s ! a) < m then Some a else best)"
  define m1 where "m1 = (if valid_nr (segs s ! a) < m then valid_nr (segs s ! a) else m)"
  have k: "m1 \<le> m" "m1 \<le> valid_nr (segs s ! a)" "\<forall>j \<in> insert a seen. m1 \<le> valid_nr (segs s ! j)"
    "\<And>p. b = Some p \<Longrightarrow> p \<in> insert a seen \<and> valid_nr (segs s ! p) = m1" "b = None \<Longrightarrow> best = None \<and> m1 = m"
    using Cons.prems(2,3) by (auto simp: b_def m1_def split: if_splits)
  show ?case
  proof (cases "i = LSA_MAX_GC_WINDOW")
    case True
    then have "gc_greedy_scan s (a # q) i m best = b" "1025 - unat i = Suc 0" by (simp_all add: b_def LSA_MAX_GC_WINDOW_def)
    then show ?thesis using k by (auto split: option.splits)
  next
    case False
    then have "unat i \<noteq> unat LSA_MAX_GC_WINDOW" by (simp only: word_unat_eq_iff not_False_eq_True)
    then have "unat i \<noteq> 1024" by (simp add: LSA_MAX_GC_WINDOW_def)
    then have i: "unat (i + 1) = Suc (unat i)" "Suc (unat i) \<le> 1024" using Cons.prems(1) by (simp_all add: unat_add_no_wrap)
    then have t: "1025 - unat i = Suc (1025 - unat (i + 1))" by simp
    have e: "gc_greedy_scan s (a # q) i m best = gc_greedy_scan s q (i + 1) m1 b" using False by (simp add: b_def m1_def Let_def)
    have "unat (i + 1) \<le> 1024" using i by simp
    from Cons.IH [of "i + 1" "insert a seen" m1 b, OF this k(3,4)]
    have ih: "case gc_greedy_scan s q (i + 1) m1 b of
        None \<Rightarrow> b = None \<and> (\<forall>j \<in> set (take (1025 - unat (i + 1)) q). m1 \<le> valid_nr (segs s ! j))
      | Some p \<Rightarrow> p \<in> insert a seen \<union> set (take (1025 - unat (i + 1)) q)
        \<and> (\<forall>j \<in> insert a seen \<union> set (take (1025 - unat (i + 1)) q). valid_nr (segs s ! p) \<le> valid_nr (segs s ! j))" by blast
    show ?thesis
    proof (cases "gc_greedy_scan s q (i + 1) m1 b")
      case None
      then show ?thesis using ih k(2,5) unfolding e t by simp
    next
      case (Some p)
      then show ?thesis using ih unfolding e t by simp
    qed
  qed
qed

lemma gc_greedy_pick_ok:
  assumes full: "\<forall>j \<in> gc_window q. unat (valid_nr (segs s ! j)) \<le> unat (se_seg_size se)" and sz: "unat (se_seg_size se) < 2 ^ 31"
  shows "case gc_greedy_pick se s q of None \<Rightarrow> q = []
    | Some p \<Rightarrow> p \<in> gc_window q \<and> (\<forall>j \<in> gc_window q. valid_nr (segs s ! p) \<le> valid_nr (segs s ! j))"
proof -
  have w: "gc_window q = set (take 1025 q)" by (simp add: gc_window_def LSA_MAX_GC_WINDOW_def)
  have "unat (ucast (se_seg_size se) + 1 :: u32) = Suc (unat (se_seg_size se))"
    using sz by (subst unat_add_no_wrap) (simp_all add: unsigned_ucast_eq take_bit_eq_mod)
  then have "\<not> ucast (se_seg_size se) + 1 \<le> valid_nr (segs s ! j)" if "j \<in> gc_window q" for j
    using full that by (fastforce simp: word_le_nat_alt)
  moreover have "q = []" if "gc_window q = {}" using that by (simp add: w)
  moreover have "case gc_greedy_pick se s q of
      None \<Rightarrow> \<forall>j \<in> gc_window q. ucast (se_seg_size se) + 1 \<le> valid_nr (segs s ! j)
    | Some p \<Rightarrow> p \<in> gc_window q \<and> (\<forall>j \<in> gc_window q. valid_nr (segs s ! p) \<le> valid_nr (segs s ! j))"
    using gc_greedy_scan_min [of 0 "{}" "ucast (se_seg_size se) + 1" s None q] by (simp add: gc_greedy_pick_def w split: option.splits)
  ultimately show ?thesis by (cases "gc_greedy_pick se s q") auto
qed

lemma gc_greedy_ok:
  assumes "salsa_kv_safe se env s" "gc_fifo_ok fifo (kv_seg s)" "\<forall>i \<in> gc_window fifo. seg_collectable se env i s" "gc_mmap gce"
    and "fifo \<noteq> []" "\<forall>j \<in> gc_window fifo. unat (valid_nr (segs (kv_seg s) ! j)) \<le> unat (se_seg_size se)"
  shows "\<exists>i g. i \<in> gc_window fifo \<and> (\<forall>j \<in> gc_window fifo. valid_nr (segs (kv_seg s) ! i) \<le> valid_nr (segs (kv_seg s) ! j))
    \<and> gc_greedy_step se env gce addr (fifo, s) = Some g \<and> gc_iterated se env i (remove1 i fifo) (i # remove1 i fifo) g s"
proof -
  have "unat (se_seg_size se) < 2 ^ 31"
    using assms(1) unfolding salsa_kv_safe_def salsa_kv_inv_def salsa_inv_def salsa_cfg_ok_def by blast
  then obtain i where i: "gc_greedy_pick se (kv_seg s) fifo = Some i" "i \<in> gc_window fifo"
    "\<forall>j \<in> gc_window fifo. valid_nr (segs (kv_seg s) ! i) \<le> valid_nr (segs (kv_seg s) ! j)"
    using gc_greedy_pick_ok [OF assms(6)] assms(5) by (auto split: option.splits)
  have mem: "i \<in> set fifo" using i(2) by (auto simp: gc_window_def dest: in_set_takeD)
  then have "mset (i # remove1 i fifo) = mset fifo" by simp
  then obtain s1 rc where it: "sc_reloc_fn se env gce i s = Some (s1, rc)"
    "gc_iterated se env i (remove1 i fifo) (i # remove1 i fifo)
       (if rc \<noteq> E_OK then (i # remove1 i fifo, s1) else (remove1 i fifo, s1\<lparr>kv_seg := scm_put_free_seg se (addr i) i (kv_seg s1)\<rparr>)) s"
    using gc_iteration [OF assms(1,2) mem _ assms(4)] assms(3) i(2) by blast
  let ?g = "if rc \<noteq> E_OK then (i # remove1 i fifo, s1) else (remove1 i fifo, s1\<lparr>kv_seg := scm_put_free_seg se (addr i) i (kv_seg s1)\<rparr>)"
  have "gc_greedy_step se env gce addr (fifo, s) = Some ?g" using i(1) it(1) by (simp add: gc_greedy_step_def Let_def)
  then show ?thesis using i(2,3) it(2) by blast
qed

end
