(* ===== verification/GC_Example.thy ===== *)
theory GC_Example
  imports Salsa_GC KV_Example
begin

section \<open>A store with a segment to collect\<close>

text \<open>
  A store with a stream for relocations.  One record is put, and the rest of its segment is
  drained, so that the segment leaves the allocator and is the first one of the collector.
\<close>

definition gx_se :: salsa_env where "gx_se = ex_se\<lparr>se_rel_stream_nr := 1\<rparr>"

definition gx_salsa :: salsa where
  "gx_salsa = ex_salsa\<lparr>q_segs := [0], q_rel_segs := [1],
     alltrs := [\<lparr>stage_fifo = [], done_fifo = [], al_reloc = False\<rparr>, \<lparr>stage_fifo = [], done_fifo = [], al_reloc = True\<rparr>]\<rparr>"

definition gx_kv_env :: "salsa kv_env" where
  "gx_kv_env = ex_kv_env\<lparr>ev_hash := (\<lambda>k. if k = [1, 2] then 4 else 5)\<rparr>"

definition gx_kv :: "salsa kv" where "gx_kv = ex_kv\<lparr>kv_seg := gx_salsa\<rparr>"

definition gx_put :: "salsa kv" where
  "gx_put = fst (the (kv_put (salsa_kv_env gx_se gx_kv_env) [1, 2] [3] NORMAL gx_kv))"

definition gx_full :: "salsa kv" where
  "gx_full = gx_put\<lparr>kv_seg := fst (drain_remaining_grains gx_se 0 False (kv_seg gx_put))\<rparr>"

definition gx_gce :: "bool \<Rightarrow> gc_env" where
  "gx_gce m = \<lparr>gc_mmap = m, gc_exit = (\<lambda>_. False), gc_exit_late = False, gc_mem = (\<lambda>_. [])\<rparr>"

lemma gx_fresh: "kv_fresh gx_se gx_kv_env gx_kv"
proof -
  have "get_seg_md_size ex_md = 1" by code_simp
  moreover have g: "grain_size_m ex_md = 64" by code_simp
  ultimately have c: "salsa_cfg_ok gx_se gx_salsa" by (simp add: salsa_cfg_ok_def gx_se_def ex_se_def gx_salsa_def ex_salsa_def)
  have "staged (stages gx_salsa) = {#}" by (simp add: staged_def stages_def gx_salsa_def)
  then have "salsa_kv_inv gx_se gx_kv_env gx_salsa"
    using c g by (auto simp: salsa_kv_inv_def salsa_inv_def places_def gx_salsa_def ex_salsa_def gsize_def gx_kv_env_def ex_kv_env_def)
  then show ?thesis
    using ex_dm_ok by (simp add: kv_fresh_def gx_kv_def ex_kv_def env_wf_def gsize_def gx_kv_env_def ex_kv_env_def)
qed

lemma gx_put_rc: "kv_put (salsa_kv_env gx_se gx_kv_env) [1, 2] [3] NORMAL gx_kv = Some (gx_put, E_OK)"
proof -
  have "map_option snd (kv_put (salsa_kv_env gx_se gx_kv_env) [1, 2] [3] NORMAL gx_kv) = Some E_OK" by code_simp
  then show ?thesis unfolding gx_put_def by (cases "kv_put (salsa_kv_env gx_se gx_kv_env) [1, 2] [3] NORMAL gx_kv") auto
qed

lemma gx_put_room: "put_room (kv_map gx_kv) (ev_hash gx_kv_env [1, 2]) NORMAL"
proof -
  have "table_of (kv_map gx_kv) h = ex_empty" for h
  proof -
    have "hash_to_map ex_dm h < 1" using hash_to_map_less [OF ex_dm_ok(1), of h] by (simp add: ex_dm_def)
    then show ?thesis by (simp add: table_of_def gx_kv_def ex_kv_def) (simp add: ex_dm_def)
  qed
  moreover have "free_slot ex_empty 0" "bucket_of ex_empty 4 = 0"
    by (simp_all add: bucket_of_def ex_empty_def um_new_def free_slot_def erased_entry_free)
  ultimately show ?thesis by (auto simp: put_room_def bucket_full_def gx_kv_env_def)
qed

lemma gx_put_ok: "salsa_kv_safe gx_se gx_kv_env gx_put" "kv_abs (salsa_kv_env gx_se gx_kv_env) gx_put = [[1, 2] \<mapsto> [3]]"
proof -
  note f = kv_fresh_safe [OF gx_fresh]
  show "salsa_kv_safe gx_se gx_kv_env gx_put" "kv_abs (salsa_kv_env gx_se gx_kv_env) gx_put = [[1, 2] \<mapsto> [3]]"
    using kv_put_step [OF f(1) _ _ gx_put_room gx_put_rc] f(2) by auto
qed

lemma gx_full_ok: "salsa_kv_safe gx_se gx_kv_env gx_full" "kv_abs gx_kv_env gx_full = [[1, 2] \<mapsto> [3]]"
proof -
  have p: "kvs.kv_safe gx_se gx_kv_env gx_put" using gx_put_ok(1) by (simp add: salsa_kv_safe_eq)
  have inv: "salsa_kv_inv gx_se gx_kv_env (kv_seg gx_put)" using gx_put_ok(1) by (simp add: salsa_kv_safe_def)
  have k: "keeps gx_se (kv_seg gx_put) (kv_seg gx_full)"
    using drain_keeps [of gx_se "kv_seg gx_put" 0 False] inv by (simp add: gx_full_def salsa_kv_inv_def)
  have "salsa_kv_inv gx_se gx_kv_env (kv_seg gx_full)" "owned_grains gx_se (kv_seg gx_put) \<subseteq> owned_grains gx_se (kv_seg gx_full)"
    using inv k by (auto simp: salsa_kv_inv_def keeps_def)
  then show "salsa_kv_safe gx_se gx_kv_env gx_full" "kv_abs gx_kv_env gx_full = [[1, 2] \<mapsto> [3]]"
    using kvs.kv_safe_dev [OF p, of gx_full] gx_put_ok(2)
    by (simp_all add: salsa_kv_safe_eq gx_full_def) (simp add: salsa_kv_env_def kv_op_env)
qed

definition gx_collecting :: "salsa kv \<Rightarrow> bool" where
  "gx_collecting s \<longleftrightarrow> q_segs (kv_seg s) = [] \<and> q_rel_segs (kv_seg s) = [1] \<and> map stage_fifo (alltrs (kv_seg s)) = [[], []]
     \<and> map valid_nr (segs (kv_seg s)) = [1, 8]
     \<and> list_all (\<lambda>t. list_all (\<lambda>e. \<not> (used e \<and> deleted e)) (ht_m t)) (tables (kv_map s))
     \<and> map info_pba (dm_entries (kv_map s)) = [0] \<and> gc_record (kv_dev s) 0 448 0
     \<and> hash_to_hb (table_of (kv_map s) 5) 5 = 1 \<and> list_all (\<lambda>i. \<not> used (ht_m (table_of (kv_map s) 5) ! i)) [1..<33]"

lemma gx_full_collecting: "gx_collecting gx_full"
  by code_simp

lemmas gx_full_state = gx_full_collecting [unfolded gx_collecting_def]

lemma gx_fifo: "gc_fifo_ok [0] (kv_seg gx_full)"
proof -
  have "length (segs (kv_seg gx_full)) = length [1, 8 :: u32]" using gx_full_state by (metis length_map)
  then show ?thesis using gx_full_state by (simp add: gc_fifo_ok_def places_def staged_def stages_def)
qed

lemma gx_collectable: "seg_collectable gx_se gx_kv_env 0 gx_full"
proof -
  have g: "unat (scm_seg_to_grain gx_se 0) = 0" "gsize (salsa_gc_env gx_se gx_kv_env) = 64"
    "rec_off (salsa_gc_env gx_se gx_kv_env) (scm_seg_to_grain gx_se 0) = 0"
    by (simp_all add: scm_seg_to_grain_def rec_off_def salsa_gc_env_def) (simp add: gsize_def gx_kv_env_def ex_kv_env_def)
  have "\<not> tombstone_at (kv_map gx_full) n" for n
    using gx_full_state by (auto simp: tombstone_at_def list_all_iff dest: nth_mem)
  moreover have "info_pba y = 0" if "y \<in># kv_content gx_full" for y
    using that gx_full_state by (auto simp: kv_content_def set_dm_entries [symmetric] map_eq_Cons_conv)
  moreover have "unat (se_seg_size gx_se) - unat (se_reserved gx_se) = 7" by (simp add: gx_se_def ex_se_def)
  ultimately show ?thesis
    unfolding seg_collectable_def seg_walkable_def g using gx_full_state walk_here by fastforce
qed

lemma gx_lookup_miss: "dm_lookup_pba (kv_map gx_full) 5 a = None"
  using gx_full_state
  by (auto simp: dm_lookup_pba_def um_lookup_pba_def lookup_pba_loop_find find_from_None_iff list_all_iff)

lemma gx_env_wf: "env_wf (salsa_gc_env gx_se gx_kv_env)" "ev_rd_err (salsa_gc_env gx_se gx_kv_env) n = E_OK"
  by (simp_all add: env_wf_def salsa_gc_env_def) (simp_all add: gsize_def gx_kv_env_def ex_kv_env_def)

end
