(* ===== verification/GC_Props.thy ===== *)
theory GC_Props
  imports GC_Example
begin

section \<open>Properties of the garbage collection\<close>

text \<open>
  What an iteration of the circular and of the greedy collector does to the store: the
  collector of \<open>gc-base.c\<close> with the relocation callback of \<open>uDepotSalsa\<close>.
\<close>







end
