(* ===== verification/Util_Props.thy ===== *)
theory Util_Props
  imports Hash_Entry
begin

section \<open>Properties of the arithmetic helpers and of the packed entry\<close>

text \<open>
  A hash entry survives packing.  The four bit fields fill the 64-bit word without overlap
  or gap: reading a packed entry gives the entry, and every word is the packed form of the
  entry read from it.
\<close>

lemma hash_entry_round_trip: "unpack (pack e) = e \<and> pack (unpack w) = w"
  by (simp add: unpack_pack pack_unpack)

text \<open>
  The bit-count macros count bits.  The tree of conditionals of NUM_BITS computes the least
  width in which its argument fits, for every 64-bit argument.
\<close>

theorem NUM_BITS_is_width: "NUM_BITS x = (LEAST n. unat x < 2 ^ n)"
proof (rule Least_equality [symmetric])
  show "unat x < 2 ^ NUM_BITS x" using NUM_BITS_iff [of x "NUM_BITS x"] by simp
qed (simp add: NUM_BITS_iff)

text \<open>
  Rounding to a power of two.  For a non-zero argument the loop of round_down_pow2 ends with
  the largest power of two that is not larger than the argument.
\<close>

theorem round_down_pow2_is_greatest:
  assumes "val \<noteq> 0"
  shows "\<exists>n < 64. round_down_pow2 val = 2 ^ n \<and> unat (round_down_pow2 val) \<le> unat val
    \<and> (\<forall>k. 2 ^ k \<le> unat val \<longrightarrow> k \<le> n)"
proof -
  obtain n where n: "round_down_pow2 val = 2 ^ n" "n < 64" "2 ^ n \<le> unat val" "unat val < 2 ^ Suc n"
    by (rule round_down_pow2_spec [OF assms])
  have "k \<le> n" if "2 ^ k \<le> unat val" for k
  proof -
    have "(2::nat) ^ k < 2 ^ Suc n" using that n(4) by (rule le_less_trans)
    then show ?thesis using power_less_imp_less_exp [of "2::nat" k "Suc n"] by simp
  qed
  then show ?thesis using n by (auto simp: unat_exp_less)
qed

theorem round_down_pow2_is_greatest_witness:
  "\<exists>n < 64. round_down_pow2 100 = 2 ^ n \<and> unat (round_down_pow2 100) \<le> unat (100 :: u64)
    \<and> (\<forall>k. 2 ^ k \<le> unat (100 :: u64) \<longrightarrow> k \<le> n)"
  using round_down_pow2_is_greatest [of 100] by simp

end
