(* ===== verification/MC_Str.thy ===== *)
theory MC_Str
  imports UD_Prelude
begin

section \<open>Strings and numbers of the memcache server\<close>

text \<open>
  The C library functions that the memcache code uses on strings (\<^verbatim>\<open>strtoul\<close> and its
  variants, \<^verbatim>\<open>strcmp\<close>, \<^verbatim>\<open>snprintf\<close>) and the checked conversions of
  \<^verbatim>\<open>src/src/uDepot/net/mc-helpers.cc\<close> on top of them.  A C string is the list of its bytes
  without the terminating zero.
\<close>

definition cstr :: "string \<Rightarrow> bytes" where "cstr s = map of_char s"

lemma of_char_inj: "(of_char c :: u8) = of_char d \<longleftrightarrow> c = d"
proof
  assume "(of_char c :: u8) = of_char d"
  then have "(of_nat (of_char c) :: u8) = of_nat (of_char d)" by (simp only: of_nat_of_char)
  then have "unat (of_nat (of_char c) :: u8) = unat (of_nat (of_char d) :: u8)" by (rule arg_cong)
  then have "(of_char c :: nat) = of_char d"
    using of_char_mod_256 [of c, where ?'a = nat] of_char_mod_256 [of d, where ?'a = nat] by (simp add: unat_of_nat)
  then show "c = d" by simp
qed simp

lemma cstr_eq [simp]: "cstr s = cstr t \<longleftrightarrow> s = t"
  unfolding cstr_def by (subst inj_map_eq_map) (auto simp: inj_on_def of_char_inj)

definition isspace :: "u8 \<Rightarrow> bool" where "isspace c \<longleftrightarrow> c = 32 \<or> 9 \<le> c \<and> c \<le> 13"
definition isdigit :: "u8 \<Rightarrow> bool" where "isdigit c \<longleftrightarrow> 48 \<le> c \<and> c \<le> 57"

definition num_of :: "bytes \<Rightarrow> nat" where
  "num_of ds = foldl (\<lambda>n d. 10 * n + unat (d - 48)) 0 ds"

text \<open>\<^verbatim>\<open>strncmp\<close> finds two strings equal when they agree up to the length or up to the end of both.\<close>

definition strncmp_eq :: "bytes \<Rightarrow> bytes \<Rightarrow> nat \<Rightarrow> bool" where
  "strncmp_eq a b n \<longleftrightarrow> take n (a @ [0]) = take n (b @ [0])"

text \<open>The common part of the conversions in base 10: sign, value and number of bytes read.\<close>

definition strto_sign :: "bytes \<Rightarrow> bool \<times> nat" where
  "strto_sign r = (case r of [] \<Rightarrow> (False, 0) | c # _ \<Rightarrow> if c = 45 then (True, 1) else if c = 43 then (False, 1) else (False, 0))"

definition strto_scan :: "bytes \<Rightarrow> (bool \<times> nat \<times> nat) option" where
  "strto_scan str =
     (let ws = length (takeWhile isspace str); r = drop ws str; (neg, sg) = strto_sign r;
          ds = takeWhile isdigit (drop sg r)
      in if ds = [] then None else Some (neg, num_of ds, ws + sg + length ds))"

text \<open>Result, whether \<^verbatim>\<open>errno\<close> is \<^verbatim>\<open>ERANGE\<close>, and the offset of \<^verbatim>\<open>endptr\<close>.\<close>

definition strtoull :: "bytes \<Rightarrow> u64 \<times> bool \<times> nat" where
  "strtoull str = (case strto_scan str of
       None \<Rightarrow> (0, False, 0)
     | Some (neg, v, n) \<Rightarrow> if 2 ^ 64 \<le> v then (- 1, True, n) else (if neg then - of_nat v else of_nat v, False, n))"

definition strtol :: "bytes \<Rightarrow> u64 \<times> bool \<times> nat" where
  "strtol str = (case strto_scan str of
       None \<Rightarrow> (0, False, 0)
     | Some (neg, v, n) \<Rightarrow>
         if neg then if 2 ^ 63 < v then (2 ^ 63, True, n) else (- of_nat v, False, n)
         else if 2 ^ 63 \<le> v then (2 ^ 63 - 1, True, n) else (of_nat v, False, n))"

text \<open>The number must be followed by white space or the end of the string.\<close>

definition num_end :: "bytes \<Rightarrow> nat \<Rightarrow> bool" where
  "num_end str n \<longleftrightarrow> (case drop n str of [] \<Rightarrow> True | c # _ \<Rightarrow> isspace c)"

definition safe_strtoull :: "bytes \<Rightarrow> u64 option" where
  "safe_strtoull str =
     (case strtoull str of (ull, erange, n) \<Rightarrow>
        if erange \<or> n = 0 then None
        else if num_end str n then (if sint ull < 0 \<and> 45 \<in> set str then None else Some ull)
        else None)"

definition safe_strtoul :: "bytes \<Rightarrow> u32 option" where
  "safe_strtoul str =
     (case strtoull str of (l, erange, n) \<Rightarrow>
        if erange \<or> n = 0 then None
        else if num_end str n then (if sint l < 0 \<and> 45 \<in> set str then None else Some (ucast l))
        else None)"

definition safe_strtol :: "bytes \<Rightarrow> u64 option" where
  "safe_strtol str =
     (case strtol str of (l, erange, n) \<Rightarrow>
        if erange \<or> n = 0 then None else if num_end str n then Some l else None)"

subsection \<open>Decimal output\<close>

fun dec_digits :: "nat \<Rightarrow> bytes" where
  "dec_digits n = (if n < 10 then [of_nat n + 48] else dec_digits (n div 10) @ [of_nat (n mod 10) + 48])"

declare dec_digits.simps [simp del]

definition print_s32 :: "u32 \<Rightarrow> bytes" where
  "print_s32 w = (if sint w < 0 then 45 # dec_digits (nat (- sint w)) else dec_digits (nat (sint w)))"

lemma digit_byte:
  assumes "n < 10"
  shows "isdigit (of_nat n + 48)" "unat ((of_nat n + 48 :: u8) - 48) = n" "\<not> isspace (of_nat n + 48)"
    "(of_nat n + 48 :: u8) \<noteq> 45" "(of_nat n + 48 :: u8) \<noteq> 43" "(of_nat n + 48 :: u8) \<noteq> 0"
proof -
  have u: "unat (of_nat n + 48 :: u8) = n + 48" using assms by (simp add: unat_word_ariths unat_of_nat)
  show "isdigit (of_nat n + 48)" using assms u by (simp add: isdigit_def word_le_nat_alt)
  show "unat ((of_nat n + 48 :: u8) - 48) = n" using assms by (simp add: unat_of_nat)
  have *: "\<not> isspace w \<and> w \<noteq> 45 \<and> w \<noteq> 43 \<and> w \<noteq> 0" if "unat w = n + 48" for w
    using that assms by (auto simp: isspace_def word_le_nat_alt)
  show "\<not> isspace (of_nat n + 48)" "(of_nat n + 48 :: u8) \<noteq> 45" "(of_nat n + 48 :: u8) \<noteq> 43" "(of_nat n + 48 :: u8) \<noteq> 0"
    using * [OF u] by blast+
qed

lemma dec_digits_bytes: "\<forall>d \<in> set (dec_digits n). isdigit d \<and> \<not> isspace d \<and> d \<noteq> 45 \<and> d \<noteq> 43 \<and> d \<noteq> 0"
proof (induction n rule: dec_digits.induct)
  case (1 n)
  then show ?case using digit_byte [of n] digit_byte [of "n mod 10"] by (subst dec_digits.simps) auto
qed

lemma num_of_snoc: "num_of (ds @ [d]) = 10 * num_of ds + unat (d - 48)"
  by (simp add: num_of_def)

lemma num_of_dec_digits [simp]: "num_of (dec_digits n) = n"
proof (induction n rule: dec_digits.induct)
  case (1 n)
  show ?case
  proof (cases "n < 10")
    case True
    then show ?thesis using digit_byte(2) [of n] by (subst dec_digits.simps) (simp add: num_of_def)
  next
    case False
    then show ?thesis using 1 digit_byte(2) [of "n mod 10"] by (subst dec_digits.simps) (simp add: num_of_snoc)
  qed
qed

lemma dec_digits_Nil [simp]: "dec_digits n \<noteq> []"
  by (subst dec_digits.simps) simp

lemma takeWhile_all: "\<forall>x \<in> set xs. P x \<Longrightarrow> (case ys of [] \<Rightarrow> True | y # _ \<Rightarrow> \<not> P y) \<Longrightarrow> takeWhile P (xs @ ys) = xs"
  by (induction xs) (auto split: list.splits)

lemma strto_scan_dec_digits:
  assumes "num_end (dec_digits n @ rest) (length (dec_digits n))"
  shows "strto_scan (dec_digits n @ rest) = Some (False, n, length (dec_digits n))"
proof -
  note d = dec_digits_bytes [of n]
  obtain x xs where e: "dec_digits n = x # xs" by (cases "dec_digits n") auto
  then have x: "\<not> isspace x" "x \<noteq> 45" "x \<noteq> 43" using d by auto
  have r: "case rest of [] \<Rightarrow> True | y # _ \<Rightarrow> \<not> isdigit y"
    using assms by (auto simp: num_end_def isspace_def isdigit_def word_le_nat_alt split: list.splits)
  have w: "takeWhile isspace (dec_digits n @ rest) = []" using x e by simp
  have "strto_sign (dec_digits n @ rest) = (False, 0)" using x e by (simp add: strto_sign_def)
  moreover have "takeWhile isdigit (dec_digits n @ rest) = dec_digits n" using d r by (intro takeWhile_all) auto
  ultimately show ?thesis unfolding strto_scan_def w by (simp add: Let_def)
qed

lemma num_end_append [simp]: "num_end (ds @ rest) (length ds) = num_end rest 0"
  by (simp add: num_end_def)

lemma num_end_Nil [simp]: "num_end [] 0"
  by (simp add: num_end_def)

text \<open>A printed number is read back.\<close>

lemma safe_strtoull_dec_digits:
  assumes "n < 2 ^ 64"
  shows "safe_strtoull (dec_digits n) = Some (of_nat n)"
proof -
  have "strtoull (dec_digits n) = (of_nat n, False, length (dec_digits n))"
    using strto_scan_dec_digits [of n "[]"] assms num_end_append [of "dec_digits n" "[]"] by (simp add: strtoull_def)
  moreover have "45 \<notin> set (dec_digits n)" using dec_digits_bytes [of n] by auto
  ultimately show ?thesis using num_end_append [of "dec_digits n" "[]"] by (simp add: safe_strtoull_def)
qed

lemma safe_strtoul_dec_digits:
  assumes "n < 2 ^ 64"
  shows "safe_strtoul (dec_digits n) = Some (of_nat n)"
proof -
  have "strtoull (dec_digits n) = (of_nat n, False, length (dec_digits n))"
    using strto_scan_dec_digits [of n "[]"] assms num_end_append [of "dec_digits n" "[]"] by (simp add: strtoull_def)
  moreover have "45 \<notin> set (dec_digits n)" using dec_digits_bytes [of n] by auto
  moreover have "(ucast (of_nat n :: u64) :: u32) = of_nat n" by (simp add: unsigned_of_nat take_bit_of_nat word_of_nat_eq_iff)
  ultimately show ?thesis using num_end_append [of "dec_digits n" "[]"] by (simp add: safe_strtoul_def)
qed

lemma safe_strtol_dec_digits:
  assumes "n < 2 ^ 63"
  shows "safe_strtol (dec_digits n) = Some (of_nat n)"
proof -
  have "strtol (dec_digits n) = (of_nat n, False, length (dec_digits n))"
    using strto_scan_dec_digits [of n "[]"] assms num_end_append [of "dec_digits n" "[]"] by (simp add: strtol_def)
  then show ?thesis using num_end_append [of "dec_digits n" "[]"] by (simp add: safe_strtol_def)
qed

end
