(* ===== verification/MC_Parse.thy ===== *)
theory MC_Parse
  imports MC_Str
begin

section \<open>The parser of the memcache server (\<^verbatim>\<open>mc-helpers.cc\<close>)\<close>

text \<open>
  The receive buffer, the tokenizer, which ends the words of a line in place with zero
  bytes, and the parser of a command line.  Memory is a function from addresses to bytes; a
  pointer into the buffer is the offset from its start.
\<close>

type_synonym mem = "nat \<Rightarrow> u8"

datatype mc_req_type = REQ_INVAL | REQ_GET | REQ_GETS | REQ_SET | REQ_ADD | REQ_REPLACE | REQ_APPEND | REQ_PREPEND
  | REQ_CAS | REQ_INCR | REQ_DECR | REQ_DEL | REQ_TOUCH | REQ_FLUSH_ALL | REQ_QUIT | REQ_WATCH | REQ_LRU_CRAWLER
  | REQ_CACHE_MEMLIMIT | REQ_VERBOSITY | REQ_SLABS | REQ_STATS | REQ_VERSION | REQ_NOT_IMPLEMENTED | REQ_LAST

datatype mc_rsp_type = RSP_INVAL | RSP_KEY_VALUE | RSP_STORED | RSP_NOT_STORED | RSP_EXISTS | RSP_NOT_FOUND | RSP_TOUCHED
  | RSP_DELETED | RSP_VERSION | RSP_CONNECTION_CLOSE | RSP_ERROR | RSP_CLIENT_ERROR_FORMAT | RSP_CLIENT_ERROR_NON_NUMERIC
  | RSP_CLIENT_ERROR_BAD_DATA_CHUNK | RSP_CLIENT_ERROR_BOUND | RSP_SERVER_ERROR | RSP_SERVER_ERROR_UNSUPPORTED_MULTIGET | RSP_LAST

record token =
  tok_value :: "nat option"
  tok_length :: u64

record msg_buff =
  bf_p :: mem
  bf_ab :: u32
  bf_rb :: u32
  bf_pos :: nat

record cmd =
  cm_buff :: msg_buff
  cm_req :: mc_req_type
  cm_rsp :: mc_rsp_type
  cm_flags :: u32
  cm_vlen :: u32
  cm_expiry :: u64
  cm_num :: u64
  cm_err :: errno
  cm_noreply :: bool
  cm_tokens :: "token list"

definition MAX_TOKENS :: nat where "MAX_TOKENS = 512"
definition max_key_length :: u64 where "max_key_length = 250"
definition read_cmd_chunk :: u32 where "read_cmd_chunk = 1048576"
definition REALTIME_MAXDELTA :: u64 where "REALTIME_MAXDELTA = 2592000"

definition new_buff :: "mem \<Rightarrow> msg_buff" where
  "new_buff mem = \<lparr>bf_p = mem, bf_ab = 0, bf_rb = 0, bf_pos = 0\<rparr>"

definition buff_reset :: "msg_buff \<Rightarrow> msg_buff" where
  "buff_reset b = b\<lparr>bf_pos := 0, bf_rb := 0\<rparr>"

text \<open>The bytes behind the old allocation have the values that the memory function gives them.\<close>

definition add_free_size :: "(u32 \<Rightarrow> bool) \<Rightarrow> u32 \<Rightarrow> msg_buff \<Rightarrow> msg_buff \<times> errno" where
  "add_free_size alloc_ok new_free b =
     (if new_free \<le> bf_ab b - bf_rb b then (b, E_OK)
      else if \<not> alloc_ok (bf_ab b + new_free) then (b, ENOMEM)
      else (b\<lparr>bf_ab := bf_ab b + new_free\<rparr>, E_OK))"

text \<open>A command starts with all fields zero; \<open>read_cmd\<close> clears the error before it uses it.\<close>

definition new_cmd :: "msg_buff \<Rightarrow> cmd" where
  "new_cmd b = \<lparr>cm_buff = b, cm_req = REQ_INVAL, cm_rsp = RSP_INVAL, cm_flags = 0, cm_vlen = 0, cm_expiry = 0, cm_num = 0,
     cm_err = E_OK, cm_noreply = False, cm_tokens = []\<rparr>"

subsection \<open>C strings in the buffer\<close>

function c_str :: "mem \<Rightarrow> nat \<Rightarrow> nat \<Rightarrow> bytes" where
  "c_str m lim p = (if p < lim \<and> m p \<noteq> 0 then m p # c_str m lim (Suc p) else [])"
  by pat_completeness auto
termination by (relation "measure (\<lambda>(m, lim, p). lim - p)") auto

declare c_str.simps [simp del]

function mem_find :: "mem \<Rightarrow> u8 \<Rightarrow> nat \<Rightarrow> nat \<Rightarrow> nat option" where
  "mem_find m c p lim = (if p < lim then if m p = c then Some p else mem_find m c (Suc p) lim else None)"
  by pat_completeness auto
termination by (relation "measure (\<lambda>(m, c, p, lim). lim - p)") auto

declare mem_find.simps [simp del]

function skip_spaces :: "mem \<Rightarrow> nat \<Rightarrow> nat \<Rightarrow> nat" where
  "skip_spaces m lim p = (if p < lim \<and> m p = 32 then skip_spaces m lim (Suc p) else p)"
  by pat_completeness auto
termination by (relation "measure (\<lambda>(m, lim, p). lim - p)") auto

declare skip_spaces.simps [simp del]

subsection \<open>Finding the end of the line\<close>

text \<open>
  \<open>try_parse_command\<close> ends the line with a zero byte and moves the position behind it.  Without a
  newline in more than 1024 bytes only a retrieval command may go on.
\<close>

definition try_parse_command :: "cmd \<Rightarrow> cmd \<times> errno" where
  "try_parse_command c =
     (let b = cm_buff c in
      case mem_find (bf_p b) 10 (bf_pos b) (bf_pos b + unat (bf_rb b)) of
        None \<Rightarrow>
          if 1024 < bf_rb b then
            let ptr = skip_spaces (bf_p b) (unat (bf_ab b)) (bf_pos b);
                str = c_str (bf_p b) (unat (bf_ab b)) ptr
            in if 100 < ptr - bf_pos b \<or> \<not> strncmp_eq str (cstr ''get '') 4 \<and> \<not> strncmp_eq str (cstr ''gets '') 5
               then (c\<lparr>cm_req := REQ_INVAL\<rparr>, EINVAL)
               else (c, EAGAIN)
          else (c, EAGAIN)
      | Some el \<Rightarrow>
          let el1 = (if 1 < el - bf_pos b \<and> bf_p b (el - 1) = 13 then el - 1 else el)
          in (c\<lparr>cm_buff := b\<lparr>bf_p := (bf_p b)(el1 := 0), bf_pos := Suc el\<rparr>\<rparr>, E_OK))"

subsection \<open>Tokens\<close>

function tokenize_loop :: "nat \<Rightarrow> nat \<Rightarrow> mem \<Rightarrow> nat \<Rightarrow> nat \<Rightarrow> nat \<Rightarrow> token list \<Rightarrow> mem \<times> nat \<times> nat \<times> token list" where
  "tokenize_loop max_tokens len m i s e toks =
     (if i < len then
        if m e = 32 then
          if s \<noteq> e then
            let toks1 = toks @ [\<lparr>tok_value = Some s, tok_length = of_nat (e - s)\<rparr>]; m1 = m(e := 0) in
            if length toks1 = max_tokens - 1 then (m1, Suc e, Suc e, toks1)
            else tokenize_loop max_tokens len m1 (Suc i) (Suc e) (Suc e) toks1
          else tokenize_loop max_tokens len m (Suc i) (Suc e) (Suc e) toks
        else tokenize_loop max_tokens len m (Suc i) s (Suc e) toks
      else (m, s, e, toks))"
  by pat_completeness auto
termination by (relation "measure (\<lambda>(mx, len, m, i, s, e, toks). len - i)") auto

declare tokenize_loop.simps [simp del]

definition tokenize_command :: "nat \<Rightarrow> nat \<Rightarrow> mem \<Rightarrow> nat \<Rightarrow> mem \<times> token list" where
  "tokenize_command max_tokens lim m command =
     (let len = length (c_str m lim command) in
      case tokenize_loop max_tokens len m 0 command command [] of (m1, s, e, toks) \<Rightarrow>
        let toks1 = (if s \<noteq> e then toks @ [\<lparr>tok_value = Some s, tok_length = of_nat (e - s)\<rparr>] else toks)
        in (m1, toks1 @ [\<lparr>tok_value = (if m1 e = 0 then None else Some e), tok_length = 0\<rparr>]))"

definition tok_str :: "cmd \<Rightarrow> nat \<Rightarrow> bytes" where
  "tok_str c i = c_str (bf_p (cm_buff c)) (unat (bf_ab (cm_buff c))) (the (tok_value (cm_tokens c ! i)))"

text \<open>The bytes of a token by its pointer and length.\<close>

definition tok_bytes :: "cmd \<Rightarrow> nat \<Rightarrow> bytes" where
  "tok_bytes c i = (let t = cm_tokens c ! i; v = the (tok_value t) in map (bf_p (cm_buff c)) [v..<v + unat (tok_length t)])"

subsection \<open>Arguments\<close>

definition sanitize_exp_time :: "u64 \<Rightarrow> u64 \<Rightarrow> u64" where
  "sanitize_exp_time cur_time expiry =
     (if sint expiry < 0 then if cur_time \<noteq> 0 then cur_time - 1 else 1
      else if expiry \<noteq> 0 \<and> sint expiry \<le> sint REALTIME_MAXDELTA then expiry + cur_time
      else expiry)"

definition verify_exp_time :: "u64 \<Rightarrow> u64 \<Rightarrow> errno" where
  "verify_exp_time cur_time expiry = (if expiry \<noteq> 0 \<and> sint expiry \<le> sint cur_time then EINVAL else E_OK)"

definition check_noreply :: "cmd \<Rightarrow> cmd" where
  "check_noreply c =
     (let i = length (cm_tokens c) - 2 in
      if strncmp_eq (tok_str c i) (cstr ''noreply'') (unat (tok_length (cm_tokens c ! i))) then c\<lparr>cm_noreply := True\<rparr> else c)"

definition parse_arithmetic_arguments :: "cmd \<Rightarrow> cmd" where
  "parse_arithmetic_arguments c =
     (let c1 = check_noreply (c\<lparr>cm_rsp := RSP_CLIENT_ERROR_FORMAT\<rparr>) in
      if max_key_length < tok_length (cm_tokens c1 ! 1) then c1\<lparr>cm_req := REQ_INVAL\<rparr>
      else case safe_strtoull (tok_str c1 2) of
             None \<Rightarrow> c1\<lparr>cm_req := REQ_INVAL\<rparr>
           | Some delta \<Rightarrow> c1\<lparr>cm_num := delta, cm_rsp := RSP_INVAL\<rparr>)"

text \<open>The length is cut to 32 bits before it is checked; a failed conversion leaves 0 in its target.\<close>

definition parse_storage_arguments :: "u64 \<Rightarrow> cmd \<Rightarrow> cmd" where
  "parse_storage_arguments cur_time c =
     (let c1 = check_noreply (c\<lparr>cm_rsp := RSP_CLIENT_ERROR_FORMAT\<rparr>) in
      if max_key_length < tok_length (cm_tokens c1 ! 1) then c1\<lparr>cm_req := REQ_INVAL\<rparr>
      else case safe_strtoul (tok_str c1 2) of
        None \<Rightarrow> c1\<lparr>cm_req := REQ_INVAL, cm_flags := 0\<rparr>
      | Some flags \<Rightarrow>
          (case safe_strtol (tok_str c1 3) of
             None \<Rightarrow> c1\<lparr>cm_req := REQ_INVAL, cm_flags := flags, cm_expiry := 0\<rparr>
           | Some expiry \<Rightarrow>
               (case safe_strtol (tok_str c1 4) of
                  None \<Rightarrow> c1\<lparr>cm_req := REQ_INVAL, cm_flags := flags, cm_expiry := expiry\<rparr>
                | Some vlen \<Rightarrow>
                    let c2 = c1\<lparr>cm_flags := flags,
                               cm_expiry := (if expiry \<noteq> 0 then sanitize_exp_time cur_time expiry else expiry),
                               cm_vlen := ucast vlen\<rparr>
                    in if sint (cm_vlen c2) < 0 \<or> 2 ^ 31 - 3 < sint (cm_vlen c2) then c2\<lparr>cm_req := REQ_INVAL\<rparr>
                       else c2\<lparr>cm_rsp := RSP_INVAL\<rparr>)))"

subsection \<open>The command line\<close>

definition parse :: "u64 \<Rightarrow> cmd \<Rightarrow> cmd" where
  "parse cur_time c0 =
     (case tokenize_command MAX_TOKENS (unat (bf_ab (cm_buff c0))) (bf_p (cm_buff c0)) 0 of (m, toks) \<Rightarrow>
      let c = c0\<lparr>cm_buff := (cm_buff c0)\<lparr>bf_p := m\<rparr>, cm_tokens := toks\<rparr>;
          n = length toks;
          is = (\<lambda>w. tok_str c 0 = cstr w)
      in if 3 \<le> n \<and> (is ''get'' \<or> is ''gets'' \<or> is ''bget'')
         then c\<lparr>cm_req := (if is ''gets'' then REQ_GETS else REQ_GET)\<rparr>
         else if (n = 6 \<or> n = 7) \<and> (is ''add'' \<or> is ''set'' \<or> is ''replace'' \<or> is ''prepend'' \<or> is ''append'')
         then parse_storage_arguments cur_time
                (c\<lparr>cm_req := (if is ''add'' then REQ_ADD else if is ''set'' then REQ_SET else if is ''replace'' then REQ_REPLACE
                              else if is ''prepend'' then REQ_PREPEND else REQ_APPEND)\<rparr>)
         else if (n = 7 \<or> n = 8) \<and> is ''cas'' then c\<lparr>cm_req := REQ_CAS\<rparr>
         else if (n = 4 \<or> n = 5) \<and> (is ''incr'' \<or> is ''decr'')
         then parse_arithmetic_arguments (c\<lparr>cm_req := (if is ''incr'' then REQ_INCR else REQ_DECR)\<rparr>)
         else if 3 \<le> n \<and> n \<le> 5 \<and> is ''delete'' then c\<lparr>cm_req := REQ_DEL\<rparr>
         else if (n = 4 \<or> n = 5) \<and> is ''touch'' then c\<lparr>cm_req := REQ_TOUCH\<rparr>
         else if 2 \<le> n \<and> is ''stats'' then c\<lparr>cm_req := REQ_STATS\<rparr>
         else if 2 \<le> n \<and> n \<le> 4 \<and> is ''flush_all'' then c\<lparr>cm_req := REQ_FLUSH_ALL\<rparr>
         else if n = 2 \<and> is ''version'' then c\<lparr>cm_req := REQ_VERSION\<rparr>
         else if n = 2 \<and> is ''quit'' then c\<lparr>cm_req := REQ_QUIT\<rparr>
         else if n = 2 \<and> is ''shutdown'' then c\<lparr>cm_req := REQ_QUIT\<rparr>
         else if 1 < n \<and> is ''slabs'' then c\<lparr>cm_req := REQ_SLABS\<rparr>
         else if 1 < n \<and> is ''lru_crawler'' then c\<lparr>cm_req := REQ_LRU_CRAWLER\<rparr>
         else if 1 < n \<and> is ''watch'' then c\<lparr>cm_req := REQ_WATCH\<rparr>
         else if (n = 3 \<or> n = 4) \<and> is ''cache_memlimit'' then c\<lparr>cm_req := REQ_CACHE_MEMLIMIT\<rparr>
         else if (n = 3 \<or> n = 4) \<and> is ''verbosity'' then c\<lparr>cm_req := REQ_VERBOSITY\<rparr>
         else c\<lparr>cm_req := REQ_INVAL, cm_rsp := RSP_ERROR\<rparr>)"

end
