(* ===== verification/MC_Tok.thy ===== *)
theory MC_Tok
  imports MC_Parse
begin

section \<open>The tokenizer splits a line into words\<close>

text \<open>The reference: the maximal pieces of a line without spaces; \<open>acc\<close> is the word in progress.\<close>

fun mc_words :: "bytes \<Rightarrow> bytes \<Rightarrow> bytes list" where
  "mc_words acc [] = (if acc = [] then [] else [acc])"
| "mc_words acc (b # bs) =
     (if b = 32 then if acc = [] then mc_words [] bs else acc # mc_words [] bs else mc_words (acc @ [b]) bs)"

text \<open>The bytes from one address up to another.\<close>

definition mem_range :: "mem \<Rightarrow> nat \<Rightarrow> nat \<Rightarrow> bytes" where
  "mem_range m a b = map m [a..<b]"

lemma mem_range_simps [simp]: "mem_range m a a = []" "length (mem_range m a b) = b - a"
  by (simp_all add: mem_range_def)

lemma mem_range_Suc: "a \<le> b \<Longrightarrow> mem_range m a (Suc b) = mem_range m a b @ [m b]"
  by (simp add: mem_range_def)

lemma mem_range_Cons: "a < b \<Longrightarrow> mem_range m a b = m a # mem_range m (Suc a) b"
  by (simp add: mem_range_def upt_conv_Cons)

lemma mem_range_cong: "(\<And>i. a \<le> i \<Longrightarrow> i < b \<Longrightarrow> m' i = m i) \<Longrightarrow> mem_range m' a b = mem_range m a b"
  by (simp add: mem_range_def)

lemma mem_range_eq_Nil [simp]: "mem_range m a b = [] \<longleftrightarrow> b \<le> a"
  by (auto simp: mem_range_def)

lemma c_str_range:
  assumes "a \<le> b" "b < lim" "m b = 0" "0 \<notin> set (mem_range m a b)"
  shows "c_str m lim a = mem_range m a b"
  using assms
proof (induction "b - a" arbitrary: a)
  case 0
  then show ?case by (subst c_str.simps) simp
next
  case (Suc n)
  then have "m a \<noteq> 0" "a < b" by (auto simp: mem_range_Cons)
  then show ?case using Suc by (subst c_str.simps) (simp add: mem_range_Cons)
qed

text \<open>The bytes of a token and the requirement that it is a C string of its length in memory.\<close>

definition token_of :: "mem \<Rightarrow> nat \<Rightarrow> token \<Rightarrow> bytes \<Rightarrow> bool" where
  "token_of m lim t w \<longleftrightarrow> (\<exists>v. tok_value t = Some v \<and> c_str m lim v = w \<and> mem_range m v (v + length w) = w \<and> tok_length t = of_nat (length w))"

lemma token_ofI:
  assumes "s < e" "e < lim" "m e = 0" "0 \<notin> set (mem_range m s e)"
  shows "token_of m lim \<lparr>tok_value = Some s, tok_length = of_nat (e - s)\<rparr> (mem_range m s e)"
  using c_str_range [of s e lim m] assms by (simp add: token_of_def)

text \<open>
  The loop at position \<open>e\<close> with the word in progress from \<open>s\<close>: the tokens it adds, with the one added
  behind the loop, are the words of the rest of the line, and it writes only at \<open>e\<close> and behind.
\<close>

lemma tokenize_loop_ok:
  assumes "tokenize_loop mx len m i s e toks = (m', s', e', toks')"
    and "i \<le> len" "s \<le> e" "fin = e + (len - i)" "fin < lim" "m fin = 0"
    and "0 \<notin> set (mem_range m s fin)" "32 \<notin> set (mem_range m s e)"
    and "length toks + length (mc_words (mem_range m s e) (mem_range m e fin)) < mx - 1"
  shows "\<exists>ts. (if s' \<noteq> e' then toks' @ [\<lparr>tok_value = Some s', tok_length = of_nat (e' - s')\<rparr>] else toks') = toks @ ts
    \<and> list_all2 (token_of m' lim) ts (mc_words (mem_range m s e) (mem_range m e fin))
    \<and> (\<forall>k. k < e \<or> fin \<le> k \<longrightarrow> m' k = m k) \<and> e' = fin"
  using assms
proof (induction mx len m i s e toks arbitrary: m' s' e' toks' rule: tokenize_loop.induct)
  case (1 mx len m i s e toks)
  note step = 1(4) [unfolded tokenize_loop.simps [of mx len m i s e toks]]
  show ?case
  proof (cases "i < len")
    case False
    then have "m' = m" "s' = s" "e' = e" "toks' = toks" "fin = e" using step "1.prems"(4) by auto
    moreover have "token_of m lim \<lparr>tok_value = Some s, tok_length = of_nat (e - s)\<rparr> (mem_range m s e)" if "s \<noteq> e"
      using that "1.prems"(3,5,6,7) calculation(5) by (intro token_ofI) auto
    ultimately show ?thesis using "1.prems"(3) by auto
  next
    case True
    have lt: "e < fin" using True "1.prems"(4) by simp
    note rest = mem_range_Cons [OF lt, of m]
    have rng: "mem_range m s fin = mem_range m s e @ mem_range m e fin"
      using upt_add_eq_append [OF "1.prems"(3), of "fin - e"] lt by (simp add: mem_range_def)
    have nz: "m e \<noteq> 0" "0 \<notin> set (mem_range m s e)" "0 \<notin> set (mem_range m (Suc e) fin)" using "1.prems"(7) rng rest by auto
    have le: "Suc i \<le> len" using True by simp
    have fin': "fin = Suc e + (len - Suc i)" using True "1.prems"(4) by simp
    show ?thesis
    proof (cases "m e = 32")
      case sp: True
      show ?thesis
      proof (cases "s = e")
        case True
        have r: "tokenize_loop mx len m (Suc i) (Suc e) (Suc e) toks = (m', s', e', toks')" using step \<open>i < len\<close> sp True by simp
        have w: "mc_words (mem_range m s e) (mem_range m e fin) = mc_words [] (mem_range m (Suc e) fin)" using rest sp True by simp
        have c: "length toks + length (mc_words (mem_range m (Suc e) (Suc e)) (mem_range m (Suc e) fin)) < mx - 1"
          using "1.prems"(9) w by simp
        obtain ts where ts: "(if s' \<noteq> e' then toks' @ [\<lparr>tok_value = Some s', tok_length = of_nat (e' - s')\<rparr>] else toks') = toks @ ts"
          "list_all2 (token_of m' lim) ts (mc_words [] (mem_range m (Suc e) fin))" "\<forall>k. k < Suc e \<or> fin \<le> k \<longrightarrow> m' k = m k" "e' = fin"
          using "1.IH"(2) [OF \<open>i < len\<close> sp _ r le order_refl fin' "1.prems"(5,6) nz(3) _ c] True by auto
        then show ?thesis unfolding w by (intro exI [of _ ts]) simp
      next
        case False
        let ?t = "\<lparr>tok_value = Some s, tok_length = of_nat (e - s)\<rparr> :: token" and ?m = "m(e := 0)"
        have same: "mem_range ?m (Suc e) fin = mem_range m (Suc e) fin" by (rule mem_range_cong) simp
        have w: "mc_words (mem_range m s e) (mem_range m e fin) = mem_range m s e # mc_words [] (mem_range m (Suc e) fin)"
          using rest sp False "1.prems"(3) by simp
        have cnt: "length (toks @ [?t]) \<noteq> mx - 1" using "1.prems"(9) w by simp
        then have r: "tokenize_loop mx len ?m (Suc i) (Suc e) (Suc e) (toks @ [?t]) = (m', s', e', toks')"
          using step \<open>i < len\<close> sp False by (simp add: Let_def)
        have z: "?m fin = 0" "0 \<notin> set (mem_range ?m (Suc e) fin)" using "1.prems"(6) nz(3) same by simp_all
        have c: "length (toks @ [?t]) + length (mc_words (mem_range ?m (Suc e) (Suc e)) (mem_range ?m (Suc e) fin)) < mx - 1"
          using "1.prems"(9) w same by simp
        obtain ts where ts: "(if s' \<noteq> e' then toks' @ [\<lparr>tok_value = Some s', tok_length = of_nat (e' - s')\<rparr>] else toks') = (toks @ [?t]) @ ts"
          "list_all2 (token_of m' lim) ts (mc_words [] (mem_range m (Suc e) fin))" "\<forall>k. k < Suc e \<or> fin \<le> k \<longrightarrow> m' k = ?m k" "e' = fin"
          using "1.IH"(1) [OF \<open>i < len\<close> sp False refl refl cnt r le order_refl fin' "1.prems"(5) z _ c] unfolding same by auto
        have s: "mem_range m' s e = mem_range m s e" using ts(3) by (intro mem_range_cong) auto
        have "m' e = 0" using ts(3) by simp
        then have "token_of m' lim ?t (mem_range m s e)"
          using token_ofI [of s e lim m'] False "1.prems"(3,5) lt nz s by simp
        moreover have "\<forall>k. k < e \<or> fin \<le> k \<longrightarrow> m' k = m k" using ts(3) lt by auto
        ultimately show ?thesis using ts w by (intro exI [of _ "?t # ts"]) auto
      qed
    next
      case False
      have r: "tokenize_loop mx len m (Suc i) s (Suc e) toks = (m', s', e', toks')" using step \<open>i < len\<close> False by simp
      have w: "mc_words (mem_range m s e) (mem_range m e fin) = mc_words (mem_range m s (Suc e)) (mem_range m (Suc e) fin)"
        using rest False mem_range_Suc [OF "1.prems"(3), of m] by simp
      have c: "length toks + length (mc_words (mem_range m s (Suc e)) (mem_range m (Suc e) fin)) < mx - 1"
        using "1.prems"(9) w by simp
      have sp: "32 \<notin> set (mem_range m s (Suc e))" using "1.prems"(8) False mem_range_Suc [OF "1.prems"(3), of m] by simp
      have s: "s \<le> Suc e" using "1.prems"(3) by simp
      show ?thesis
        using "1.IH"(3) [OF \<open>i < len\<close> False r le s fin' "1.prems"(5,6,7) sp c] unfolding w by auto
    qed
  qed
qed

lemma tokenize_command_ok:
  assumes "tokenize_command mx lim m c = (m', toks)" "mem_range m c fin = line" "c + length line = fin" "fin < lim" "m fin = 0" "0 \<notin> set line"
    and "length (mc_words [] line) < mx - 1"
  shows "\<exists>ts. toks = ts @ [\<lparr>tok_value = None, tok_length = 0\<rparr>] \<and> list_all2 (token_of m' lim) ts (mc_words [] line)
    \<and> (\<forall>k. k < c \<or> fin \<le> k \<longrightarrow> m' k = m k)"
proof -
  have c: "c_str m lim c = line" using c_str_range [of c fin lim m] assms by simp
  obtain m1 s e ts where l: "tokenize_loop mx (length line) m 0 c c [] = (m1, s, e, ts)" by (metis prod_cases4)
  have "\<exists>us. (if s \<noteq> e then ts @ [\<lparr>tok_value = Some s, tok_length = of_nat (e - s)\<rparr>] else ts) = [] @ us
    \<and> list_all2 (token_of m1 lim) us (mc_words (mem_range m c c) (mem_range m c fin)) \<and> (\<forall>k. k < c \<or> fin \<le> k \<longrightarrow> m1 k = m k) \<and> e = fin"
    using assms by (intro tokenize_loop_ok [OF l]) auto
  then show ?thesis using assms(1,2,5) l c by (auto simp: tokenize_command_def Let_def split: if_splits)
qed

end
