(* ===== verification/MC_Conn.thy ===== *)
theory MC_Conn
  imports MC_Parse
begin

section \<open>Connections (\<^verbatim>\<open>connection.cc\<close>)\<close>

text \<open>
  A connection is the list of what its next \<^verbatim>\<open>recv\<close> calls deliver (data in pieces, errors; the
  end of the list is the end of the stream), the list of what its next \<^verbatim>\<open>send\<close> calls do (\<open>None\<close> is
  an error, \<open>Some k\<close> accepts up to \<open>k\<close> bytes; with an empty list everything is accepted), and the
  bytes sent so far.
\<close>

datatype rcv = Rcv bytes | RcvErr errno

record conn =
  cn_rx :: "rcv list"
  cn_tx :: "nat option list"
  cn_out :: bytes

definition con_recv :: "nat \<Rightarrow> conn \<Rightarrow> conn \<times> (errno + bytes)" where
  "con_recv n c = (case cn_rx c of
       [] \<Rightarrow> (c, Inr [])
     | RcvErr e # r \<Rightarrow> (c\<lparr>cn_rx := r\<rparr>, Inl e)
     | Rcv d # r \<Rightarrow> if length d \<le> n then (c\<lparr>cn_rx := r\<rparr>, Inr d)
                    else (c\<lparr>cn_rx := Rcv (drop n d) # r\<rparr>, Inr (take n d)))"

definition con_send :: "bytes \<Rightarrow> conn \<Rightarrow> conn \<times> nat option" where
  "con_send msg c = (case cn_tx c of
       [] \<Rightarrow> (c\<lparr>cn_out := cn_out c @ msg\<rparr>, Some (length msg))
     | None # t \<Rightarrow> (c\<lparr>cn_tx := t\<rparr>, None)
     | Some k # t \<Rightarrow> (c\<lparr>cn_tx := t, cn_out := cn_out c @ take k msg\<rparr>, Some (min k (length msg))))"

text \<open>The amount of input that is left, for the loops that receive.\<close>

fun rcv_size :: "rcv \<Rightarrow> nat" where
  "rcv_size (Rcv d) = Suc (length d)"
| "rcv_size (RcvErr e) = 1"

definition rx_size :: "conn \<Rightarrow> nat" where "rx_size c = sum_list (map rcv_size (cn_rx c))"

lemma con_recv_size:
  assumes "con_recv n c = (c', r)" "0 < n"
  shows "cn_rx c \<noteq> [] \<Longrightarrow> rx_size c' < rx_size c" "rx_size c' \<le> rx_size c"
  using assms by (auto simp: con_recv_def rx_size_def split: list.splits rcv.splits if_splits)

lemma con_recv_data:
  assumes "con_recv n c = (c', Inr d)" "d \<noteq> []"
  shows "rx_size c' < rx_size c" "length d \<le> n"
  using assms by (auto simp: con_recv_def rx_size_def split: list.splits rcv.splits if_splits)

lemma con_recv_err:
  assumes "con_recv n c = (c', Inl e)"
  shows "rx_size c' < rx_size c"
  using assms by (auto simp: con_recv_def rx_size_def split: list.splits rcv.splits if_splits)

text \<open>\<open>recv_full\<close> repeats until the buffer is full, an error, or the end of the stream.\<close>

function recv_full :: "nat \<Rightarrow> conn \<Rightarrow> conn \<times> errno \<times> bytes" where
  "recv_full n c =
     (if n = 0 then (c, E_OK, [])
      else case con_recv n c of
        (c1, Inl e) \<Rightarrow> (c1, e, [])
      | (c1, Inr d) \<Rightarrow>
          if d = [] then (c1, ECONNRESET, [])
          else case recv_full (n - length d) c1 of (c2, rc, ds) \<Rightarrow> (c2, rc, d @ ds))"
  by pat_completeness auto
termination by (relation "measure fst") auto

declare recv_full.simps [simp del]

text \<open>
  \<open>recv_append_to_mbuff\<close> receives into the free space of an Mbuff, of which \<open>avail\<close> bytes are
  left.  It returns a variable that only a call of \<open>recv_full\<close> sets: for a size of 0 the result
  is the value \<open>uninit\<close> found there.
\<close>

definition recv_append_to_mbuff :: "errno \<Rightarrow> nat \<Rightarrow> bytes \<Rightarrow> nat \<Rightarrow> conn \<Rightarrow> conn \<times> errno \<times> bytes" where
  "recv_append_to_mbuff uninit avail mb sz c =
     (if avail < sz then (c, ENOSPC, mb)
      else if sz = 0 then (c, uninit, mb)
      else case recv_full sz c of (c1, rc, ds) \<Rightarrow> (c1, rc, mb @ ds))"

text \<open>\<open>sendv_full\<close> repeats until everything is sent; \<open>None\<close> is an error of the last call.\<close>

function sendv_full :: "bytes \<Rightarrow> conn \<Rightarrow> conn \<times> nat option" where
  "sendv_full msg c =
     (if msg = [] then (c, Some 0)
      else case cn_tx c of
        [] \<Rightarrow> (c\<lparr>cn_out := cn_out c @ msg\<rparr>, Some (length msg))
      | _ # _ \<Rightarrow>
          (case con_send msg c of
             (c1, None) \<Rightarrow> (c1, None)
           | (c1, Some k) \<Rightarrow> (case sendv_full (drop k msg) c1 of (c2, r) \<Rightarrow> (c2, map_option (\<lambda>x. k + x) r))))"
  by pat_completeness auto
termination
  by (relation "measure (\<lambda>(msg, c). length (cn_tx c))") (auto simp: con_send_def split: option.splits)

declare sendv_full.simps [simp del]

text \<open>\<open>send_full\<close> has the same loop for one buffer; it returns an error flag and the bytes sent.\<close>

function send_full :: "bytes \<Rightarrow> conn \<Rightarrow> conn \<times> bool \<times> nat" where
  "send_full msg c =
     (if msg = [] then (c, True, 0)
      else case cn_tx c of
        [] \<Rightarrow> (c\<lparr>cn_out := cn_out c @ msg\<rparr>, True, length msg)
      | _ # _ \<Rightarrow>
          (case con_send msg c of
             (c1, None) \<Rightarrow> (c1, False, 0)
           | (c1, Some k) \<Rightarrow> (case send_full (drop k msg) c1 of (c2, ok, x) \<Rightarrow> (c2, ok, k + x))))"
  by pat_completeness auto
termination
  by (relation "measure (\<lambda>(msg, c). length (cn_tx c))") (auto simp: con_send_def split: option.splits)

declare send_full.simps [simp del]

subsection \<open>Reading a command\<close>

text \<open>
  \<open>read_cmd\<close> receives until the buffer holds a line, and parses it.  A \<^verbatim>\<open>continue\<close> in its
  \<^verbatim>\<open>do\<close> loop evaluates the condition \<^verbatim>\<open>EAGAIN == rc\<close>, so that the loop ends after \<^verbatim>\<open>EINTR\<close>.
\<close>

record rd_env =
  re_alloc :: "u32 \<Rightarrow> bool"
  re_time :: u64

definition buff_store :: "bytes \<Rightarrow> msg_buff \<Rightarrow> msg_buff" where
  "buff_store d b = b\<lparr>bf_p := (\<lambda>i. if unat (bf_rb b) \<le> i \<and> i < unat (bf_rb b) + length d then d ! (i - unat (bf_rb b)) else bf_p b i),
     bf_rb := bf_rb b + of_nat (length d)\<rparr>"

function read_cmd :: "rd_env \<Rightarrow> conn \<Rightarrow> cmd \<Rightarrow> conn \<times> cmd" where
  "read_cmd env con c =
     (case add_free_size (re_alloc env) read_cmd_chunk (cm_buff c) of (b, rc) \<Rightarrow>
      let c1 = c\<lparr>cm_buff := b\<rparr> in
      if rc \<noteq> E_OK then (con, c1\<lparr>cm_err := ENOMEM\<rparr>)
      else case con_recv (unat read_cmd_chunk) con of
        (con1, Inl e) \<Rightarrow>
          if e = EINTR then (con1, c1)
          else if e = EAGAIN then read_cmd env con1 c1
          else (con1, c1\<lparr>cm_err := e\<rparr>)
      | (con1, Inr d) \<Rightarrow>
          if d = [] then (con1, c1\<lparr>cm_err := ECONNRESET\<rparr>)
          else
            (case try_parse_command (c1\<lparr>cm_buff := buff_store d b\<rparr>) of (c2, rc2) \<Rightarrow>
               if rc2 = EAGAIN then read_cmd env con1 c2
               else if rc2 \<noteq> E_OK then (con1, c2)
               else (con1, parse (re_time env) c2)))"
  by pat_completeness auto
termination
  by (relation "measure (\<lambda>(env, con, c). rx_size con)") (auto dest: con_recv_err [OF sym] con_recv_data(1) [OF sym])

declare read_cmd.simps [simp del]

end
