(* ===== verification/MC_Read.thy ===== *)
theory MC_Read
  imports MC_Tok MC_Conn
begin

section \<open>Reading a command line\<close>

subsection \<open>The buffer\<close>

text \<open>The buffer at the start of a command, with the bytes received so far.\<close>

definition buff_has :: "msg_buff \<Rightarrow> bytes \<Rightarrow> bool" where
  "buff_has b got \<longleftrightarrow> bf_pos b = 0 \<and> unat (bf_rb b) = length got \<and> mem_range (bf_p b) 0 (length got) = got
     \<and> length got \<le> unat (bf_ab b) \<and> unat (bf_ab b) < 2 ^ 31"

lemma mem_range_nth: "mem_range m 0 n = xs \<Longrightarrow> k < n \<Longrightarrow> m k = xs ! k"
  by (auto simp: mem_range_def)

lemma mem_range_eqI: "length xs = n \<Longrightarrow> (\<And>k. k < n \<Longrightarrow> m k = xs ! k) \<Longrightarrow> mem_range m 0 n = xs"
  by (simp add: mem_range_def list_eq_iff_nth_eq)

lemma buff_has_reset: "unat (bf_ab b) < 2 ^ 31 \<Longrightarrow> buff_has (buff_reset b) []"
  by (simp add: buff_has_def buff_reset_def)

lemma add_free_size_ok:
  assumes b: "buff_has b got" "length got \<le> 2 ^ 20" and al: "\<And>n. alloc n"
  obtains b' where "add_free_size alloc read_cmd_chunk b = (b', E_OK)" "buff_has b' got" "length got + 2 ^ 20 \<le> unat (bf_ab b')"
proof (cases "read_cmd_chunk \<le> bf_ab b - bf_rb b")
  case True
  have "unat (bf_ab b - bf_rb b) = unat (bf_ab b) - unat (bf_rb b)" using b(1) by (intro unat_sub_no_wrap) (simp add: buff_has_def)
  then have "length got + 2 ^ 20 \<le> unat (bf_ab b)" using True b(1) by (simp add: buff_has_def word_le_nat_alt read_cmd_chunk_def)
  then show ?thesis using that [of b] True b(1) by (simp add: add_free_size_def)
next
  case False
  let ?b = "b\<lparr>bf_ab := bf_ab b + read_cmd_chunk\<rparr>"
  have "unat (bf_ab b - bf_rb b) = unat (bf_ab b) - unat (bf_rb b)" using b(1) by (intro unat_sub_no_wrap) (simp add: buff_has_def)
  then have "unat (bf_ab b) < length got + 2 ^ 20" using False b(1) by (simp add: buff_has_def word_le_nat_alt read_cmd_chunk_def)
  then have s: "unat (bf_ab b) < 2 ^ 21" using b(2) by simp
  then have a: "unat (bf_ab b + read_cmd_chunk) = unat (bf_ab b) + 2 ^ 20"
    by (subst unat_add_no_wrap) (simp_all add: read_cmd_chunk_def)
  have "buff_has ?b got" "length got + 2 ^ 20 \<le> unat (bf_ab ?b)" using a b(1) s by (simp_all add: buff_has_def)
  then show ?thesis using that [of ?b] False al by (simp add: add_free_size_def)
qed

lemma buff_store_ok:
  assumes "buff_has b got" "length got + length d \<le> unat (bf_ab b)"
  shows "buff_has (buff_store d b) (got @ d)" "bf_ab (buff_store d b) = bf_ab b"
proof -
  have rb: "unat (bf_rb b) = length got" using assms(1) by (simp add: buff_has_def)
  have d: "length d < 2 ^ 31" "unat (bf_ab b) < 2 ^ 31" using assms by (simp_all add: buff_has_def)
  have "unat (of_nat (length d) :: u32) = length d" using d by (intro unat_of_nat_small) simp
  then have n: "unat (bf_rb b + of_nat (length d)) = length got + length d"
    using rb d assms(2) by (subst unat_add_no_wrap) simp_all
  have "mem_range (bf_p (buff_store d b)) 0 (length (got @ d)) = got @ d"
  proof (rule mem_range_eqI)
    fix k assume k: "k < length (got @ d)"
    have "mem_range (bf_p b) 0 (length got) = got" using assms(1) by (simp add: buff_has_def)
    then show "bf_p (buff_store d b) k = (got @ d) ! k"
      using mem_range_nth [of "bf_p b" "length got" got k] k rb by (simp add: buff_store_def nth_append)
  qed simp
  then show "buff_has (buff_store d b) (got @ d)" using assms n by (simp add: buff_has_def buff_store_def)
  show "bf_ab (buff_store d b) = bf_ab b" by (simp add: buff_store_def)
qed

subsection \<open>The end of the line\<close>

lemma mem_find_None: "c \<notin> set (mem_range m p lim) \<Longrightarrow> mem_find m c p lim = None"
proof (induction m c p lim rule: mem_find.induct)
  case (1 m c p lim)
  then show ?case by (subst mem_find.simps) (auto simp: mem_range_Cons)
qed

lemma mem_find_Some:
  assumes "c \<notin> set (mem_range m p q)" "p \<le> q" "q < lim" "m q = c"
  shows "mem_find m c p lim = Some q"
  using assms
proof (induction m c p lim rule: mem_find.induct)
  case (1 m c p lim)
  have lt: "p < lim" using "1.prems" by simp
  show ?case
  proof (cases "p = q")
    case True
    then show ?thesis using "1.prems" lt by (subst mem_find.simps) simp
  next
    case False
    then have "m p \<noteq> c" "c \<notin> set (mem_range m (Suc p) q)" "Suc p \<le> q" using "1.prems"(1,2) by (auto simp: mem_range_Cons)
    then show ?thesis using "1.IH" "1.prems"(3,4) lt by (subst mem_find.simps) simp
  qed
qed

lemma mem_range_append:
  assumes "mem_range m 0 n = xs @ ys" "n = length xs + length ys"
  shows "mem_range m 0 (length xs) = xs" "mem_range m (length xs) n = ys"
proof -
  have "mem_range m 0 n = mem_range m 0 (length xs) @ mem_range m (length xs) n"
    using upt_add_eq_append [of 0 "length xs" "length ys"] assms(2) by (simp add: mem_range_def)
  then have "mem_range m 0 (length xs) @ mem_range m (length xs) n = xs @ ys" using assms(1) by simp
  then show "mem_range m 0 (length xs) = xs" "mem_range m (length xs) n = ys" by (simp_all add: append_eq_append_conv)
qed

lemma try_parse_more:
  assumes "buff_has (cm_buff c) got" "10 \<notin> set got" "length got \<le> 1024"
  shows "try_parse_command c = (c, EAGAIN)"
proof -
  have "\<not> 1024 < bf_rb (cm_buff c)" using assms(1,3) by (simp add: buff_has_def word_less_nat_alt)
  moreover have "mem_find (bf_p (cm_buff c)) 10 0 (length got) = None"
    using assms(1,2) by (intro mem_find_None) (simp add: buff_has_def)
  ultimately show ?thesis using assms(1) by (simp add: try_parse_command_def buff_has_def)
qed

definition line_ended :: "msg_buff \<Rightarrow> nat \<Rightarrow> msg_buff" where
  "line_ended b n = b\<lparr>bf_p := (bf_p b)(n := 0), bf_pos := n + 2\<rparr>"

lemma try_parse_line:
  assumes b: "buff_has (cm_buff c) (line @ 13 # 10 # rest)" and l: "line \<noteq> []" "10 \<notin> set line"
  shows "try_parse_command c = (c\<lparr>cm_buff := line_ended (cm_buff c) (length line)\<rparr>, E_OK)"
proof -
  let ?m = "bf_p (cm_buff c)" and ?n = "length line"
  let ?all = "line @ 13 # 10 # rest"
  have r: "mem_range ?m 0 (length ?all) = ?all" "unat (bf_rb (cm_buff c)) = length ?all" "bf_pos (cm_buff c) = 0"
    using b by (simp_all add: buff_has_def)
  have nth: "?m k = ?all ! k" if "k < length ?all" for k
    by (rule mem_range_nth [OF r(1) that])
  have cr: "?m ?n = 13" "?m (Suc ?n) = 10" using nth [of ?n] nth [of "Suc ?n"] by (simp_all add: nth_append)
  have "mem_range ?m 0 (Suc ?n) = line @ [13]"
    using mem_range_append(1) [of ?m "length ?all" "line @ [13]" "10 # rest"] r(1) by simp
  then have "mem_find ?m 10 0 (length ?all) = Some (Suc ?n)" using l(2) cr by (intro mem_find_Some) auto
  then show ?thesis using r cr l(1) by (simp add: try_parse_command_def line_ended_def Let_def)
qed

subsection \<open>The line in pieces\<close>

text \<open>However the network splits the line, the same command is parsed.\<close>

lemma con_recv_piece:
  "cn_rx con = Rcv d # r \<Longrightarrow> length d \<le> n \<Longrightarrow> con_recv n con = (con\<lparr>cn_rx := r\<rparr>, Inr d)"
  by (simp add: con_recv_def)

lemma read_cmd_pieces:
  assumes "buff_has (cm_buff c) got" "cn_rx con = map Rcv (ds @ [d]) @ r" "\<forall>x \<in> set (ds @ [d]). x \<noteq> [] \<and> length x \<le> 2 ^ 20"
    and "10 \<notin> set (got @ concat ds)" "length (got @ concat ds) \<le> 1024"
    and "got @ concat ds @ d = line @ 13 # 10 # rest" "line \<noteq> []" "10 \<notin> set line" "\<And>n. re_alloc env n"
  shows "\<exists>b. buff_has b (line @ 13 # 10 # rest)
    \<and> read_cmd env con c = (con\<lparr>cn_rx := r\<rparr>, parse (re_time env) (c\<lparr>cm_buff := line_ended b (length line)\<rparr>))"
  using assms
proof (induction ds arbitrary: c got con)
  case Nil
  have "length got \<le> 2 ^ 20" using Nil.prems(5) by simp
  then obtain b where b: "add_free_size (re_alloc env) read_cmd_chunk (cm_buff c) = (b, E_OK)" "buff_has b got" "length got + 2 ^ 20 \<le> unat (bf_ab b)"
    using add_free_size_ok [OF Nil.prems(1)] Nil.prems(9) by blast
  have d: "length d \<le> 2 ^ 20" "d \<noteq> []" using Nil.prems(3) by auto
  have rx: "con_recv (unat read_cmd_chunk) con = (con\<lparr>cn_rx := r\<rparr>, Inr d)"
    using Nil.prems(2) d by (intro con_recv_piece) (simp_all add: read_cmd_chunk_def)
  have st: "buff_has (buff_store d b) (line @ 13 # 10 # rest)" using buff_store_ok(1) [OF b(2), of d] b(3) d Nil.prems(6) by simp
  note tp = try_parse_line [of "c\<lparr>cm_buff := buff_store d b\<rparr>" line rest] 
  have "read_cmd env con c = (con\<lparr>cn_rx := r\<rparr>, parse (re_time env) (c\<lparr>cm_buff := line_ended (buff_store d b) (length line)\<rparr>))"
    using tp st Nil.prems(7,8) d by (subst read_cmd.simps) (simp add: b(1) rx)
  then show ?case using st by blast
next
  case (Cons x ds)
  have "length got \<le> 2 ^ 20" using Cons.prems(5) by simp
  then obtain b where b: "add_free_size (re_alloc env) read_cmd_chunk (cm_buff c) = (b, E_OK)" "buff_has b got" "length got + 2 ^ 20 \<le> unat (bf_ab b)"
    using add_free_size_ok [OF Cons.prems(1)] Cons.prems(9) by blast
  have x: "length x \<le> 2 ^ 20" "x \<noteq> []" using Cons.prems(3) by auto
  let ?con = "con\<lparr>cn_rx := map Rcv (ds @ [d]) @ r\<rparr>" and ?c = "c\<lparr>cm_buff := buff_store x b\<rparr>"
  have rx: "con_recv (unat read_cmd_chunk) con = (?con, Inr x)"
    using Cons.prems(2) x by (intro con_recv_piece) (simp_all add: read_cmd_chunk_def)
  have st: "buff_has (buff_store x b) (got @ x)" using buff_store_ok(1) [OF b(2), of x] b(3) x by simp
  have "try_parse_command ?c = (?c, EAGAIN)" using try_parse_more [of ?c "got @ x"] st Cons.prems(4,5) by simp
  then have e: "read_cmd env con c = read_cmd env ?con ?c" using x by (subst read_cmd.simps) (simp add: b(1) rx)
  show ?case using Cons.IH [of ?c "got @ x" ?con] st Cons.prems unfolding e by simp
qed

end
