(* ===== verification/MC_Line.thy ===== *)
theory MC_Line
  imports MC_Read
begin

section \<open>Parsing a command line\<close>

subsection \<open>Lines of words\<close>

fun mc_join :: "bytes list \<Rightarrow> bytes" where
  "mc_join [] = []"
| "mc_join [w] = w"
| "mc_join (w # v # ws) = w @ 32 # mc_join (v # ws)"

definition word_ok :: "bytes \<Rightarrow> bool" where
  "word_ok w \<longleftrightarrow> w \<noteq> [] \<and> 32 \<notin> set w \<and> 0 \<notin> set w \<and> 10 \<notin> set w"

lemma mc_words_word: "32 \<notin> set w \<Longrightarrow> mc_words acc (w @ rest) = mc_words (acc @ w) rest"
  by (induction w arbitrary: acc) auto

lemma mc_words_join: "\<forall>w \<in> set ws. word_ok w \<Longrightarrow> mc_words [] (mc_join ws) = ws"
proof (induction ws rule: mc_join.induct)
  case (2 w)
  then show ?case using mc_words_word [of w "[]" "[]"] by (simp add: word_ok_def)
next
  case (3 w v ws)
  then show ?case by (simp add: word_ok_def mc_words_word)
qed simp

lemma set_mc_join: "set (mc_join ws) \<subseteq> insert 32 (\<Union> (set ` set ws))"
  by (induction ws rule: mc_join.induct) auto

lemma mc_join_bytes: "\<forall>w \<in> set ws. word_ok w \<Longrightarrow> 0 \<notin> set (mc_join ws) \<and> 10 \<notin> set (mc_join ws)"
  using set_mc_join [of ws] by (auto simp: word_ok_def)

lemma mc_join_Nil [simp]: "word_ok w \<Longrightarrow> mc_join (w # ws) \<noteq> []"
  by (cases ws) (auto simp: word_ok_def)

lemma word_ok_dec_digits [simp]: "word_ok (dec_digits n)"
proof -
  have "\<not> isdigit 32" "\<not> isdigit 10" by (simp_all add: isdigit_def word_le_nat_alt)
  then show ?thesis using dec_digits_bytes [of n] by (auto simp: word_ok_def)
qed

subsection \<open>The words of a command\<close>

definition cmd_words :: "cmd \<Rightarrow> bytes list \<Rightarrow> bool" where
  "cmd_words c ws \<longleftrightarrow> length (cm_tokens c) = Suc (length ws)
     \<and> (\<forall>i < length ws. token_of (bf_p (cm_buff c)) (unat (bf_ab (cm_buff c))) (cm_tokens c ! i) (ws ! i))"

lemma length_c_str: "p \<le> lim \<Longrightarrow> p + length (c_str m lim p) \<le> lim"
proof (induction m lim p rule: c_str.induct)
  case (1 m lim p)
  then show ?case by (subst c_str.simps) auto
qed

lemma c_str_beyond: "\<not> p < lim \<Longrightarrow> c_str m lim p = []"
  by (subst c_str.simps) simp

lemma cmd_words_token:
  assumes "cmd_words c ws" "i < length ws"
  shows "tok_str c i = ws ! i" "tok_length (cm_tokens c ! i) = of_nat (length (ws ! i))" "length (ws ! i) < 2 ^ 32"
    "map (bf_p (cm_buff c)) [the (tok_value (cm_tokens c ! i))..<the (tok_value (cm_tokens c ! i)) + length (ws ! i)] = ws ! i"
proof -
  obtain v where v: "tok_value (cm_tokens c ! i) = Some v" "c_str (bf_p (cm_buff c)) (unat (bf_ab (cm_buff c))) v = ws ! i"
    "mem_range (bf_p (cm_buff c)) v (v + length (ws ! i)) = ws ! i" "tok_length (cm_tokens c ! i) = of_nat (length (ws ! i))"
    using assms by (auto simp: cmd_words_def token_of_def)
  show "tok_str c i = ws ! i" "tok_length (cm_tokens c ! i) = of_nat (length (ws ! i))" using v by (simp_all add: tok_str_def)
  show "map (bf_p (cm_buff c)) [the (tok_value (cm_tokens c ! i))..<the (tok_value (cm_tokens c ! i)) + length (ws ! i)] = ws ! i"
    using v by (simp add: mem_range_def)
  have "length (ws ! i) \<le> unat (bf_ab (cm_buff c))"
    using length_c_str [of v "unat (bf_ab (cm_buff c))" "bf_p (cm_buff c)"] c_str_beyond [of v] v(2)
    by (cases "v \<le> unat (bf_ab (cm_buff c))") auto
  then show "length (ws ! i) < 2 ^ 32" using unat_lt_two_p [of "bf_ab (cm_buff c)"] by simp
qed

lemma cmd_words_bytes:
  assumes "cmd_words c ws" "i < length ws"
  shows "tok_bytes c i = ws ! i"
proof -
  note t = cmd_words_token [OF assms]
  have "unat (tok_length (cm_tokens c ! i)) = length (ws ! i)" unfolding t(2) using t(3) by (intro unat_of_nat_small) simp
  then show ?thesis using t(4) by (simp add: tok_bytes_def Let_def)
qed

text \<open>The command after the tokenizer, and what it keeps of the buffer.\<close>

definition tokenized :: "cmd \<Rightarrow> cmd" where
  "tokenized c = (case tokenize_command MAX_TOKENS (unat (bf_ab (cm_buff c))) (bf_p (cm_buff c)) 0 of
     (m, toks) \<Rightarrow> c\<lparr>cm_buff := (cm_buff c)\<lparr>bf_p := m\<rparr>, cm_tokens := toks\<rparr>)"

lemma tokenized_fields [simp]:
  "cm_req (tokenized c) = cm_req c" "cm_rsp (tokenized c) = cm_rsp c" "cm_flags (tokenized c) = cm_flags c"
  "cm_vlen (tokenized c) = cm_vlen c" "cm_expiry (tokenized c) = cm_expiry c" "cm_num (tokenized c) = cm_num c"
  "cm_err (tokenized c) = cm_err c" "cm_noreply (tokenized c) = cm_noreply c"
  "bf_rb (cm_buff (tokenized c)) = bf_rb (cm_buff c)" "bf_pos (cm_buff (tokenized c)) = bf_pos (cm_buff c)"
  "bf_ab (cm_buff (tokenized c)) = bf_ab (cm_buff c)"
  by (simp_all add: tokenized_def split: prod.split)

lemma tokenized_words:
  assumes b: "buff_has b (mc_join ws @ 13 # 10 # rest)" and ws: "\<forall>w \<in> set ws. word_ok w" "length ws < 511"
    and c: "cm_buff c = line_ended b (length (mc_join ws))"
  shows "cmd_words (tokenized c) ws"
    "map (bf_p (cm_buff (tokenized c))) [bf_pos (cm_buff c)..<unat (bf_rb (cm_buff c))] = rest"
proof -
  let ?line = "mc_join ws" and ?m = "bf_p (cm_buff c)" and ?lim = "unat (bf_ab (cm_buff c))"
  let ?n = "length ?line"
  obtain m toks where t: "tokenize_command MAX_TOKENS ?lim ?m 0 = (m, toks)" by force
  have all: "mem_range (bf_p b) 0 (length (?line @ 13 # 10 # rest)) = ?line @ 13 # 10 # rest" using b unfolding buff_has_def by blast
  have "mem_range (bf_p b) 0 ?n = ?line" using mem_range_append(1) [OF all] by simp
  then have l: "mem_range ?m 0 ?n = ?line" using mem_range_cong [of 0 ?n ?m "bf_p b"] by (simp add: c line_ended_def)
  have lim: "?n < ?lim" using b by (simp add: c line_ended_def buff_has_def)
  have z: "?m ?n = 0" by (simp add: c line_ended_def)
  obtain ts where ts: "toks = ts @ [\<lparr>tok_value = None, tok_length = 0\<rparr>]" "list_all2 (token_of m ?lim) ts ws"
    "\<forall>k. k < 0 \<or> ?n \<le> k \<longrightarrow> m k = ?m k"
    using tokenize_command_ok [OF t l _ lim z] mc_join_bytes [OF ws(1)] ws(2) mc_words_join [OF ws(1)]
    by (auto simp: MAX_TOKENS_def)
  have e: "tokenized c = c\<lparr>cm_buff := (cm_buff c)\<lparr>bf_p := m\<rparr>, cm_tokens := toks\<rparr>" by (simp add: tokenized_def t)
  show "cmd_words (tokenized c) ws"
    using ts(1,2) by (auto simp: cmd_words_def e list_all2_conv_all_nth nth_append)
  have "mem_range (bf_p b) (length (?line @ [13, 10])) (length (?line @ 13 # 10 # rest)) = rest"
    using mem_range_append(2) [of "bf_p b" _ "?line @ [13, 10]" rest] all by simp
  moreover have "mem_range m (length (?line @ [13, 10])) (length (?line @ 13 # 10 # rest))
      = mem_range (bf_p b) (length (?line @ [13, 10])) (length (?line @ 13 # 10 # rest))"
    using ts(3) by (intro mem_range_cong) (auto simp: c line_ended_def)
  ultimately show "map (bf_p (cm_buff (tokenized c))) [bf_pos (cm_buff c)..<unat (bf_rb (cm_buff c))] = rest"
    using b by (simp add: e mem_range_def c line_ended_def buff_has_def)
qed

subsection \<open>Storage commands\<close>

definition storage_req :: "string \<Rightarrow> mc_req_type" where
  "storage_req name = (if name = ''add'' then REQ_ADD else if name = ''set'' then REQ_SET else if name = ''replace'' then REQ_REPLACE
     else if name = ''prepend'' then REQ_PREPEND else REQ_APPEND)"

lemma parse_storage:
  assumes w: "cmd_words (tokenized c0) (cstr name # ws)" and n: "length ws = 4 \<or> length ws = 5"
    and name: "name \<in> {''add'', ''set'', ''replace'', ''prepend'', ''append''}"
  shows "parse t c0 = parse_storage_arguments t ((tokenized c0)\<lparr>cm_req := storage_req name\<rparr>)"
proof -
  obtain m toks where tk: "tokenize_command MAX_TOKENS (unat (bf_ab (cm_buff c0))) (bf_p (cm_buff c0)) 0 = (m, toks)" by force
  let ?c = "c0\<lparr>cm_buff := (cm_buff c0)\<lparr>bf_p := m\<rparr>, cm_tokens := toks\<rparr>"
  have e: "tokenized c0 = ?c" by (simp add: tokenized_def tk)
  have len: "length toks = 6 \<or> length toks = 7" using w n by (auto simp: e cmd_words_def)
  have s: "tok_str ?c 0 = cstr v \<longleftrightarrow> name = v" for v using cmd_words_token(1) [OF w, of 0] by (simp add: e)
  have g: "\<not> (3 \<le> length toks \<and> (name = ''get'' \<or> name = ''gets'' \<or> name = ''bget''))" using name by auto
  have a: "(length toks = 6 \<or> length toks = 7)
      \<and> (name = ''add'' \<or> name = ''set'' \<or> name = ''replace'' \<or> name = ''prepend'' \<or> name = ''append'')"
    using name len by blast
  show ?thesis unfolding parse_def tk prod.case Let_def s if_not_P [OF g] if_P [OF a] e storage_req_def ..
qed

lemma strncmp_digits: "n \<noteq> 0 \<Longrightarrow> \<not> strncmp_eq (dec_digits k) (cstr ''noreply'') n"
proof -
  assume n: "n \<noteq> 0"
  obtain x xs where e: "dec_digits k = x # xs" by (cases "dec_digits k") auto
  have "x \<noteq> 110" using dec_digits_bytes [of k] by (auto simp: e isdigit_def word_le_nat_alt)
  then show ?thesis using n by (cases n) (auto simp: strncmp_eq_def e cstr_def)
qed

text \<open>The words of a storage command after its name.\<close>

definition storage_args :: "bytes \<Rightarrow> u32 \<Rightarrow> nat \<Rightarrow> nat \<Rightarrow> bool \<Rightarrow> bytes list" where
  "storage_args key flags exptime vlen noreply =
     [key, dec_digits (unat flags), dec_digits exptime, dec_digits vlen] @ (if noreply then [cstr ''noreply''] else [])"

lemma check_noreply_storage:
  assumes w: "cmd_words c (nm # storage_args key flags exptime vlen nr)"
  shows "check_noreply c = (if nr then c\<lparr>cm_noreply := True\<rparr> else c)"
proof -
  let ?ws = "nm # storage_args key flags exptime vlen nr"
  let ?i = "length (cm_tokens c) - 2"
  have i: "?i < length ?ws" "?i = (if nr then 5 else 4)" using w by (auto simp: cmd_words_def storage_args_def)
  note t = cmd_words_token [OF w i(1)]
  have nr: "?ws ! ?i = (if nr then cstr ''noreply'' else dec_digits vlen)" using i(2) by (simp add: storage_args_def)
  have "length (?ws ! ?i) \<noteq> 0" unfolding nr by (simp add: cstr_def)
  moreover have "unat (tok_length (cm_tokens c ! ?i)) = length (?ws ! ?i)" unfolding t(2) using t(3) by (intro unat_of_nat_small) simp
  ultimately have "strncmp_eq (tok_str c ?i) (cstr ''noreply'') (unat (tok_length (cm_tokens c ! ?i))) = nr"
    unfolding t(1) using strncmp_digits [of "length (dec_digits vlen)" vlen] nr by (auto simp: strncmp_eq_def)
  then show ?thesis by (simp add: check_noreply_def Let_def)
qed

lemma cmd_words_cong:
  "cm_tokens c' = cm_tokens c \<Longrightarrow> cm_buff c' = cm_buff c \<Longrightarrow> cmd_words c' ws = cmd_words c ws"
  by (simp add: cmd_words_def)

lemma parse_storage_arguments_ok:
  assumes w: "cmd_words c (nm # storage_args key flags exptime vlen nr)"
    and key: "length key \<le> 250" and e: "exptime < 2 ^ 63" and v: "vlen \<le> 2 ^ 31 - 3"
  shows "parse_storage_arguments t c = c\<lparr>cm_rsp := RSP_INVAL, cm_noreply := (cm_noreply c \<or> nr), cm_flags := flags,
    cm_expiry := (if exptime = 0 then 0 else sanitize_exp_time t (of_nat exptime)), cm_vlen := of_nat vlen\<rparr>"
proof -
  let ?ws = "nm # storage_args key flags exptime vlen nr"
  let ?c1 = "check_noreply (c\<lparr>cm_rsp := RSP_CLIENT_ERROR_FORMAT\<rparr>)"
  have w1: "cmd_words (c\<lparr>cm_rsp := RSP_CLIENT_ERROR_FORMAT\<rparr>) ?ws" using w cmd_words_cong [of "c\<lparr>cm_rsp := RSP_CLIENT_ERROR_FORMAT\<rparr>" c] by simp
  have c1: "?c1 = c\<lparr>cm_rsp := RSP_CLIENT_ERROR_FORMAT, cm_noreply := (cm_noreply c \<or> nr)\<rparr>"
    using check_noreply_storage [OF w1] by simp
  have w2: "cmd_words ?c1 ?ws" using w cmd_words_cong [of ?c1 c] by (simp add: c1)
  have len: "5 \<le> length ?ws" by (simp add: storage_args_def)
  have i: "1 < length ?ws" "2 < length ?ws" "3 < length ?ws" "4 < length ?ws" using len by linarith+
  have toks: "tok_str ?c1 2 = dec_digits (unat flags)" "tok_str ?c1 3 = dec_digits exptime" "tok_str ?c1 4 = dec_digits vlen"
    using cmd_words_token(1) [OF w2 i(2)] cmd_words_token(1) [OF w2 i(3)] cmd_words_token(1) [OF w2 i(4)]
    by (simp_all add: storage_args_def eval_nat_numeral)
  have k: "\<not> max_key_length < tok_length (cm_tokens ?c1 ! 1)"
  proof -
    have "unat (of_nat (length key) :: u64) = length key" using key by (intro unat_of_nat_small) simp
    then show ?thesis using cmd_words_token(2) [OF w2 i(1)] key
      by (simp add: storage_args_def max_key_length_def word_less_nat_alt)
  qed
  have f: "unat flags < 2 ^ 64" using unat_lt_two_p [of flags] by simp
  have vl: "(ucast (of_nat vlen :: u64) :: u32) = of_nat vlen" by (simp add: unsigned_of_nat take_bit_of_nat word_of_nat_eq_iff)
  have si: "sint (of_nat vlen :: u32) = int vlen"
    using v by (simp add: signed_of_nat signed_take_bit_int_eq_self)
  have ex: "(of_nat exptime :: u64) = 0 \<longleftrightarrow> exptime = 0"
    using unat_of_nat_small [of exptime, where ?'a = 64] e by (auto simp: unat_eq_0 [symmetric])
  show ?thesis
    unfolding parse_storage_arguments_def Let_def if_not_P [OF k] toks safe_strtoul_dec_digits [OF f] safe_strtol_dec_digits [OF e]
    using v vl si ex by (simp add: safe_strtol_dec_digits c1)
qed

text \<open>
  A storage command as it arrives from the network: \<open>storage_cmd\<close> are the fields of the parsed command
  and \<open>rest\<close> the bytes behind the line that came with it.
\<close>

definition storage_line :: "string \<Rightarrow> bytes \<Rightarrow> u32 \<Rightarrow> nat \<Rightarrow> nat \<Rightarrow> bool \<Rightarrow> bytes" where
  "storage_line name key flags exptime vlen nr = mc_join (cstr name # storage_args key flags exptime vlen nr)"

definition buff_rest :: "cmd \<Rightarrow> bytes" where
  "buff_rest c = map (bf_p (cm_buff c)) [bf_pos (cm_buff c)..<unat (bf_rb (cm_buff c))]"

definition arrives :: "bytes \<Rightarrow> bytes \<Rightarrow> bytes list \<Rightarrow> bool" where
  "arrives line rest ds \<longleftrightarrow> ds \<noteq> [] \<and> concat ds = line @ 13 # 10 # rest \<and> (\<forall>x \<in> set ds. x \<noteq> [] \<and> length x \<le> 2 ^ 20)
     \<and> length (concat (butlast ds)) < length line + 2 \<and> length line < 1024"

lemma read_line:
  assumes a: "arrives (mc_join ws) rest ds" and ws: "\<forall>w \<in> set ws. word_ok w" "ws \<noteq> []" "length ws < 511"
    and b: "unat (bf_ab b) < 2 ^ 31" and al: "\<And>n. re_alloc env n" and rx: "cn_rx con = map Rcv ds @ r"
  shows "\<exists>c. read_cmd env con (new_cmd (buff_reset b)) = (con\<lparr>cn_rx := r\<rparr>, parse (re_time env) c)
    \<and> cmd_words (tokenized c) ws \<and> c = new_cmd (cm_buff c) \<and> buff_rest (tokenized c) = rest
    \<and> bf_pos (cm_buff c) + length rest = unat (bf_rb (cm_buff c)) \<and> unat (bf_ab (cm_buff c)) < 2 ^ 31"
proof -
  let ?line = "mc_join ws"
  obtain es d where ds: "ds = es @ [d]" using a by (cases ds rule: rev_cases) (auto simp: arrives_def)
  have l: "0 \<notin> set ?line" "10 \<notin> set ?line" using mc_join_bytes [OF ws(1)] by simp_all
  have ne: "?line \<noteq> []" using ws by (cases ws) simp_all
  have cat: "concat es @ d = ?line @ 13 # 10 # rest" "length (concat es) < length ?line + 2" "length ?line < 1024"
    using a by (auto simp: arrives_def ds)
  have "concat es = take (length (concat es)) (?line @ 13 # 10 # rest)" using cat(1) by (metis append_eq_conv_conj)
  then have "concat es = take (length (concat es)) (?line @ [13])"
    using cat(2) by (cases "length (concat es) \<le> length ?line") (auto simp: take_Cons' le_Suc_eq)
  then have "set (concat es) \<subseteq> set (?line @ [13])" by (metis set_take_subset)
  then have n: "10 \<notin> set (concat es)" using l(2) by auto
  have sz: "length ([] @ concat es) \<le> 1024" using cat by simp
  have m: "\<forall>x \<in> set (es @ [d]). x \<noteq> [] \<and> length x \<le> 2 ^ 20" using a by (simp add: arrives_def ds)
  note r = read_cmd_pieces [of "new_cmd (buff_reset b)" "[]" con es d r ?line rest env]
  obtain b' where b': "buff_has b' (?line @ 13 # 10 # rest)"
    "read_cmd env con (new_cmd (buff_reset b)) = (con\<lparr>cn_rx := r\<rparr>, parse (re_time env) ((new_cmd (buff_reset b))\<lparr>cm_buff := line_ended b' (length ?line)\<rparr>))"
    using r buff_has_reset [OF b] rx m n sz cat l ne al by (auto simp: ds new_cmd_def)
  let ?c = "(new_cmd (buff_reset b))\<lparr>cm_buff := line_ended b' (length ?line)\<rparr>"
  have t: "cmd_words (tokenized ?c) ws" "buff_rest (tokenized ?c) = rest"
    using tokenized_words [OF b'(1) ws(1,3), of ?c] by (simp_all add: buff_rest_def)
  have "bf_pos (cm_buff ?c) + length rest = unat (bf_rb (cm_buff ?c))" "unat (bf_ab (cm_buff ?c)) < 2 ^ 31"
    using b'(1) by (simp_all add: line_ended_def buff_has_def)
  then show ?thesis using b'(2) t by (intro exI [of _ ?c]) (simp add: new_cmd_def)
qed

end
