(* ===== verification/MC_Cmd.thy ===== *)
theory MC_Cmd
  imports MC_Conn KV_Store
begin

section \<open>The commands of the memcache server (\<^verbatim>\<open>mc-helpers.cc\<close>)\<close>

text \<open>
  The handlers of the commands on top of the store.  The store is the pair of operations
  \<open>me_get\<close> and \<open>me_put\<close>; \<open>None\<close> is a call that does not return, or a failed assertion.  Mbuffs are
  the bytes they hold.  The other fields of the environment are outcomes at an event: whether
  buffers, room for an assertion, iovecs and cached Mbuffs were available, the time, and
  uninitialised memory.
\<close>

record 's mc_env =
  me_get :: "bytes \<Rightarrow> 's \<Rightarrow> ('s \<times> errno \<times> bytes) option"
  me_put :: "bytes \<Rightarrow> bytes \<Rightarrow> PutOp \<Rightarrow> 's \<Rightarrow> ('s \<times> errno) option"
  me_kv_size :: "'s \<Rightarrow> u64"
  me_prefix :: nat
  me_suffix :: nat
  me_mem :: "nat \<Rightarrow> bool"
  me_room :: "nat \<Rightarrow> bool"
  me_iov :: "nat \<Rightarrow> bool"
  me_cache :: "nat \<Rightarrow> bool"
  me_time :: "nat \<Rightarrow> u64"
  me_uninit :: "nat \<Rightarrow> errno"
  me_junk :: u8

record 's mc =
  mc_kv :: 's
  mc_con :: conn
  mc_ev :: nat

definition mc_tick :: "'s mc \<Rightarrow> 's mc" where
  "mc_tick s = s\<lparr>mc_ev := Suc (mc_ev s)\<rparr>"

definition delimiter :: bytes where "delimiter = [13, 10]"
definition end_get_rsp_msg :: bytes where "end_get_rsp_msg = cstr ''END'' @ delimiter"

definition mb_reslice :: "nat \<Rightarrow> nat \<Rightarrow> bytes \<Rightarrow> bytes" where
  "mb_reslice len off d = (if off + len \<le> length d then take len (drop off d) else d)"

subsection \<open>Responses\<close>

definition send_msg :: "bytes \<Rightarrow> 's mc \<Rightarrow> 's mc \<times> bool" where
  "send_msg msg s = (case con_send msg (mc_con s) of (con, r) \<Rightarrow> (s\<lparr>mc_con := con\<rparr>, r = Some (length msg)))"

text \<open>The text of a response, and whether it closes the connection, keeps it, or leaves the error as it is.\<close>

definition rsp_text :: "mc_rsp_type \<Rightarrow> bytes \<times> errno option" where
  "rsp_text rsp =
     (case rsp of
        RSP_STORED \<Rightarrow> (cstr ''STORED'' @ delimiter, None)
      | RSP_NOT_STORED \<Rightarrow> (cstr ''NOT_STORED'' @ delimiter, None)
      | RSP_NOT_FOUND \<Rightarrow> (cstr ''NOT_FOUND'' @ delimiter, None)
      | RSP_ERROR \<Rightarrow> (cstr ''ERROR'' @ delimiter, Some E_OK)
      | RSP_CLIENT_ERROR_FORMAT \<Rightarrow> (cstr ''CLIENT_ERROR bad command line format'' @ delimiter, Some E_OK)
      | RSP_CLIENT_ERROR_NON_NUMERIC \<Rightarrow> (cstr ''CLIENT_ERROR cannot increment or decrement non-numeric value'' @ delimiter, Some E_OK)
      | RSP_CLIENT_ERROR_BOUND \<Rightarrow> (cstr ''CLIENT_ERROR bad data chunk'' @ delimiter, Some E_OK)
      | RSP_CLIENT_ERROR_BAD_DATA_CHUNK \<Rightarrow> (cstr ''CLIENT_ERROR bad data chunk'' @ delimiter, Some E_OK)
      | RSP_KEY_VALUE \<Rightarrow> (cstr ''SERVER_ERROR'' @ delimiter, Some ECONNRESET)
      | RSP_LAST \<Rightarrow> (cstr ''SERVER_ERROR'' @ delimiter, Some ECONNRESET)
      | RSP_SERVER_ERROR \<Rightarrow> (cstr ''SERVER_ERROR'' @ delimiter, Some ECONNRESET)
      | RSP_SERVER_ERROR_UNSUPPORTED_MULTIGET \<Rightarrow> (cstr ''SERVER_ERROR multiget not yet supported'' @ delimiter, Some ECONNRESET)
      | RSP_INVAL \<Rightarrow> (cstr ''SERVER_ERROR un-handled cmd'' @ delimiter, Some ECONNRESET)
      | _ \<Rightarrow> (cstr ''SERVER_ERROR command not supported '' @ delimiter, Some ECONNRESET))"

definition handle_rsp :: "cmd \<Rightarrow> 's mc \<Rightarrow> cmd \<times> 's mc" where
  "handle_rsp c s =
     (case rsp_text (cm_rsp c) of (msg, err) \<Rightarrow>
      let c1 = (case err of None \<Rightarrow> c | Some e \<Rightarrow> c\<lparr>cm_err := e\<rparr>) in
      case send_msg msg s of (s1, ok) \<Rightarrow> (if ok then c1 else c1\<lparr>cm_err := ECONNRESET\<rparr>, s1))"

subsection \<open>Retrieval\<close>

text \<open>A stored value ends with 8 bytes of expiry time and 4 bytes of flags.\<close>

definition kv_get_for_mc :: "'s mc_env \<Rightarrow> bytes \<Rightarrow> cmd \<Rightarrow> 's mc \<Rightarrow> (cmd \<times> 's mc \<times> errno \<times> bytes) option" where
  "kv_get_for_mc env key c s =
     (case me_get env key (mc_kv s) of
        None \<Rightarrow> None
      | Some (kv, rc, val) \<Rightarrow>
          let s1 = s\<lparr>mc_kv := kv\<rparr> in
          if rc \<noteq> E_OK then Some (c, s1, rc, val)
          else if length val < 12 then Some (c, s1, ENODATA, val)
          else
            let expiry = of_le (take 8 (drop (length val - 12) val)); c1 = c\<lparr>cm_expiry := expiry\<rparr> in
            if expiry \<noteq> 0 \<and> sint expiry < sint (me_time env (mc_ev s1)) then Some (c1, mc_tick s1, ENODATA, val)
            else Some (c1, mc_tick s1, E_OK, val))"

definition item_flags :: "bytes \<Rightarrow> u32" where "item_flags val = of_le (drop (length val - 4) val)"
definition item_data :: "bytes \<Rightarrow> bytes" where "item_data val = take (length val - 12) val"

definition item_mid :: "bytes \<Rightarrow> bytes" where
  "item_mid val = 32 # dec_digits (unat (item_flags val)) @ 32 # print_s32 (of_nat (length val - 12)) @ 32 # delimiter"

definition item_msg :: "bytes \<Rightarrow> bytes \<Rightarrow> bytes" where
  "item_msg key val = cstr ''VALUE '' @ key @ item_mid val @ item_data val @ delimiter"

definition handle_single_kv_get :: "'s mc_env \<Rightarrow> bytes \<Rightarrow> cmd \<Rightarrow> 's mc \<Rightarrow> (cmd \<times> 's mc \<times> errno \<times> bytes) option" where
  "handle_single_kv_get env key c s =
     (if \<not> me_mem env (mc_ev s) then Some (c, mc_tick s, ENOMEM, [])
      else case kv_get_for_mc env key c (mc_tick s) of
        None \<Rightarrow> None
      | Some (c1, s1, rc, val) \<Rightarrow>
          if rc \<noteq> E_OK then Some (c1, s1, rc, [])
          else
            let c2 = c1\<lparr>cm_flags := item_flags val\<rparr> in
            if length (item_mid val) < 7 \<or> 31 < length (item_mid val) then Some (c2, s1, EINVAL, [])
            else Some (c2, s1, E_OK, item_msg key val))"

definition send_end :: "cmd \<Rightarrow> 's mc \<Rightarrow> cmd \<times> 's mc \<times> bool" where
  "send_end c s =
     (case send_msg end_get_rsp_msg s of (s1, ok) \<Rightarrow>
        if ok then (c, s1, True)
        else case handle_rsp (c\<lparr>cm_rsp := RSP_SERVER_ERROR\<rparr>) s1 of (c2, s2) \<Rightarrow> (c2, s2, False))"

definition send_items :: "'s mc_env \<Rightarrow> bytes \<Rightarrow> 's mc \<Rightarrow> 's mc \<times> bool" where
  "send_items env items s =
     (if \<not> me_iov env (mc_ev s) then (mc_tick s, False)
      else case sendv_full (items @ end_get_rsp_msg) (mc_con s) of
        (con, r) \<Rightarrow> (mc_tick s\<lparr>mc_con := con\<rparr>, r = Some (length (items @ end_get_rsp_msg))))"

fun multiget_loop :: "'s mc_env \<Rightarrow> bytes list \<Rightarrow> bytes list \<Rightarrow> cmd \<Rightarrow> 's mc \<Rightarrow> (cmd \<times> 's mc \<times> bytes list) option" where
  "multiget_loop env [] items c s = Some (c, s, items)"
| "multiget_loop env (key # keys) items c s =
     (case handle_single_kv_get env key c s of
        None \<Rightarrow> None
      | Some (c1, s1, rc, msg) \<Rightarrow>
          if rc \<noteq> E_OK then multiget_loop env keys items c1 s1
          else if me_cache env (mc_ev s1) then multiget_loop env keys (items @ [msg]) c1 (mc_tick s1)
          else Some (c1, mc_tick s1, items @ [msg]))"

definition handle_multiget :: "'s mc_env \<Rightarrow> cmd \<Rightarrow> 's mc \<Rightarrow> (cmd \<times> 's mc) option" where
  "handle_multiget env c s =
     (case multiget_loop env (map (tok_bytes c) [1..<length (cm_tokens c) - 1]) [] (c\<lparr>cm_err := ENOENT\<rparr>) s of
        None \<Rightarrow> None
      | Some (c1, s1, items) \<Rightarrow>
          (case (if items = [] then (s1, False) else send_items env (concat items) s1) of (s2, sent) \<Rightarrow>
             if sent then Some (c1\<lparr>cm_err := E_OK\<rparr>, s2)
             else case send_end c1 s2 of (c3, s3, ok) \<Rightarrow> Some (if ok then c3\<lparr>cm_err := E_OK\<rparr> else c3, s3)))"

definition handle_get :: "'s mc_env \<Rightarrow> cmd \<Rightarrow> 's mc \<Rightarrow> (cmd \<times> 's mc) option" where
  "handle_get env c s =
     (if 3 < length (cm_tokens c) then handle_multiget env c s
      else case handle_single_kv_get env (tok_bytes c 1) c s of
        None \<Rightarrow> None
      | Some (c1, s1, rc, msg) \<Rightarrow>
          (case (if rc = E_OK then send_items env msg s1 else (s1, False)) of (s2, sent) \<Rightarrow>
             if sent then Some (c1\<lparr>cm_err := E_OK\<rparr>, s2)
             else case send_end c1 s2 of (c3, s3, ok) \<Rightarrow> Some (c3, s3)))"

subsection \<open>Storage\<close>

definition store_trailer :: "cmd \<Rightarrow> bytes" where
  "store_trailer c = le64 (cm_expiry c) @ le32 (cm_flags c)"

text \<open>
  \<open>handle_store\<close> collects the data block: first the bytes that came with the command line, then the rest
  from the connection.  When more came than the block needs, the size of the rest wraps around, and
  no buffer has that much room.
\<close>

definition store_recv :: "'s mc_env \<Rightarrow> cmd \<Rightarrow> 's mc \<Rightarrow> 's mc \<times> errno \<times> bytes" where
  "store_recv env c s =
     (let key = tok_bytes c 1;
          vlen = unat (cm_vlen c);
          msg_size = vlen + length delimiter;
          store_size = me_prefix env + length key + vlen + 12 + me_suffix env;
          b = cm_buff c;
          remaining = unat (bf_rb b) - bf_pos b;
          mb = replicate (me_prefix env) (me_junk env) @ key @ map (bf_p b) [bf_pos b..<unat (bf_rb b)];
          size = unat (of_nat msg_size - of_nat remaining :: u64)
      in case recv_append_to_mbuff (me_uninit env (mc_ev s)) (max store_size msg_size - length mb) mb size (mc_con s) of
           (con, rc, mb1) \<Rightarrow> (mc_tick s\<lparr>mc_con := con\<rparr>, rc, mb1))"

definition put_merged :: "'s mc_env \<Rightarrow> cmd \<Rightarrow> bytes \<Rightarrow> bytes \<Rightarrow> 's mc \<Rightarrow> (cmd \<times> 's mc) option" where
  "put_merged env c key val s =
     (case me_put env key val NORMAL (mc_kv s) of
        None \<Rightarrow> None
      | Some (kv, rc) \<Rightarrow> Some (if rc = E_OK then c\<lparr>cm_rsp := RSP_STORED, cm_err := E_OK\<rparr> else c\<lparr>cm_err := E_OK\<rparr>, s\<lparr>mc_kv := kv\<rparr>))"

text \<open>Append and prepend read the old value and put the merged one with the old trailer.\<close>

definition store_merge :: "'s mc_env \<Rightarrow> cmd \<Rightarrow> bytes \<Rightarrow> bytes \<Rightarrow> 's mc \<Rightarrow> (cmd \<times> 's mc) option" where
  "store_merge env c key new s =
     (if \<not> me_mem env (mc_ev s) then Some (c\<lparr>cm_err := E_OK\<rparr>, mc_tick s)
      else case kv_get_for_mc env key c (mc_tick s) of
        None \<Rightarrow> None
      | Some (c1, s1, rc, old) \<Rightarrow>
          if rc \<noteq> E_OK then Some (c1\<lparr>cm_err := E_OK\<rparr>, s1)
          else if \<not> me_mem env (mc_ev s1) then Some (c1\<lparr>cm_err := E_OK\<rparr>, mc_tick s1)
          else if cm_req c = REQ_PREPEND then put_merged env c1 key (new @ old) (mc_tick s1)
          else if \<not> me_room env (mc_ev s1) then None
          else put_merged env c1 key (item_data old @ new @ drop (length old - 12) old) (mc_tick s1))"

definition handle_store :: "'s mc_env \<Rightarrow> cmd \<Rightarrow> 's mc \<Rightarrow> (cmd \<times> 's mc) option" where
  "handle_store env c0 s =
     (let c = c0\<lparr>cm_rsp := RSP_SERVER_ERROR\<rparr>; key = tok_bytes c 1; vlen = unat (cm_vlen c); prefix_size = me_prefix env in
      if \<not> me_mem env (mc_ev s) then Some (c\<lparr>cm_err := ENOMEM\<rparr>, mc_tick s)
      else case store_recv env c (mc_tick s) of (s1, rc, mb) \<Rightarrow>
        if rc \<noteq> E_OK then Some (c\<lparr>cm_err := rc\<rparr>, s1)
        else if mb ! (prefix_size + length key + vlen) \<noteq> 13 \<or> mb ! (prefix_size + length key + vlen + 1) \<noteq> 10
        then Some (c\<lparr>cm_rsp := RSP_CLIENT_ERROR_BAD_DATA_CHUNK\<rparr>, s1)
        else
          let mb1 = mb_reslice (length key + vlen) prefix_size mb in
          if cm_req c \<in> {REQ_SET, REQ_ADD, REQ_REPLACE} then
            let mb2 = mb_reslice (prefix_size + length key + vlen + 12 + me_suffix env) 0 (mb1 @ store_trailer c);
                op = (if cm_req c = REQ_SET then NORMAL else if cm_req c = REQ_ADD then CREATE else REPLACE)
            in (case me_put env (take (length key) mb2) (drop (length key) mb2) op (mc_kv s1) of
                  None \<Rightarrow> None
                | Some (kv, rc2) \<Rightarrow>
                    Some (c\<lparr>cm_rsp := (if rc2 = E_OK then RSP_STORED else RSP_NOT_STORED), cm_err := E_OK\<rparr>, s1\<lparr>mc_kv := kv\<rparr>))
          else if cm_req c \<in> {REQ_APPEND, REQ_PREPEND} then store_merge env c key (drop (length key) mb1) s1
          else Some (c\<lparr>cm_err := E_OK\<rparr>, s1))"

subsection \<open>Increment and decrement\<close>

definition arith_result :: "mc_req_type \<Rightarrow> u64 \<Rightarrow> u64 \<Rightarrow> u64" where
  "arith_result req num oldval = (if req = REQ_INCR then num + oldval else if oldval < num then 0 else oldval - num)"

text \<open>The number is read from a zeroed buffer of 23 bytes that holds at most 22 bytes of the value.\<close>

definition arith_value :: "bytes \<Rightarrow> u64 option" where
  "arith_value val =
     (let val_size = length val - 12 in
      if val_size \<le> 2 \<or> 20 < val_size then None else safe_strtoull (takeWhile (\<lambda>b. b \<noteq> 0) (take (min 22 val_size) val)))"

definition arith_finish :: "cmd \<Rightarrow> 's mc \<Rightarrow> cmd \<times> 's mc" where
  "arith_finish c s = (if cm_noreply c then (c, s) else handle_rsp c s)"

definition handle_arithmetic_cmd :: "'s mc_env \<Rightarrow> cmd \<Rightarrow> 's mc \<Rightarrow> (cmd \<times> 's mc) option" where
  "handle_arithmetic_cmd env c0 s =
     (let c = c0\<lparr>cm_rsp := RSP_SERVER_ERROR\<rparr>; key = tok_bytes c 1 in
      if \<not> me_mem env (mc_ev s) then Some (c\<lparr>cm_err := ENOMEM\<rparr>, mc_tick s)
      else case kv_get_for_mc env key c (mc_tick s) of
        None \<Rightarrow> None
      | Some (c1, s1, rc, old) \<Rightarrow>
          if rc \<noteq> E_OK then Some (arith_finish (c1\<lparr>cm_rsp := RSP_NOT_FOUND\<rparr>) s1)
          else if length old = 12 then None
          else case arith_value old of
            None \<Rightarrow> Some (arith_finish (c1\<lparr>cm_rsp := RSP_CLIENT_ERROR_NON_NUMERIC\<rparr>) s1)
          | Some oldval \<Rightarrow>
              let num = arith_result (cm_req c) (cm_num c) oldval; c2 = c1\<lparr>cm_num := num\<rparr>; msg = dec_digits (unat num) @ delimiter
              in case me_put env key (dec_digits (unat num) @ drop (length old - 12) old) NORMAL (mc_kv s1) of
                   None \<Rightarrow> None
                 | Some (kv, rc2) \<Rightarrow>
                     let s2 = s1\<lparr>mc_kv := kv\<rparr> in
                     if rc2 \<noteq> E_OK then Some (arith_finish c2 s2)
                     else if cm_noreply c2 then Some (c2, s2)
                     else case send_msg msg s2 of (s3, ok) \<Rightarrow> Some (if ok then (c2, s3) else arith_finish c2 s3))"

subsection \<open>Dispatch\<close>

definition stats_msg :: "u64 \<Rightarrow> bytes" where
  "stats_msg n = cstr ''STAT bytes '' @ dec_digits (unat n) @ delimiter @ end_get_rsp_msg"

definition handle_stats_cmd :: "'s mc_env \<Rightarrow> cmd \<Rightarrow> 's mc \<Rightarrow> cmd \<times> 's mc" where
  "handle_stats_cmd env c s = (c, fst (send_msg (stats_msg (me_kv_size env (mc_kv s))) s))"

text \<open>Cas and delete fall through to the statistics; the assertion on the response of other commands is a failure.\<close>

definition handle :: "'s mc_env \<Rightarrow> cmd \<Rightarrow> 's mc \<Rightarrow> (cmd \<times> 's mc) option" where
  "handle env c s =
     (case cm_req c of
        REQ_GET \<Rightarrow> handle_get env c s
      | REQ_GETS \<Rightarrow> handle_get env c s
      | REQ_QUIT \<Rightarrow> Some (c\<lparr>cm_err := ECONNRESET\<rparr>, s)
      | REQ_INCR \<Rightarrow> handle_arithmetic_cmd env c s
      | REQ_DECR \<Rightarrow> handle_arithmetic_cmd env c s
      | REQ_CAS \<Rightarrow> Some (handle_stats_cmd env c s)
      | REQ_DEL \<Rightarrow> Some (handle_stats_cmd env c s)
      | REQ_STATS \<Rightarrow> Some (handle_stats_cmd env c s)
      | REQ_INVAL \<Rightarrow> Some (handle_rsp c s)
      | req \<Rightarrow>
          if req \<in> {REQ_SET, REQ_ADD, REQ_REPLACE, REQ_APPEND, REQ_PREPEND} then
            (case handle_store env c s of
               None \<Rightarrow> None
             | Some (c1, s1) \<Rightarrow> if cm_noreply c1 then Some (c1, s1) else Some (handle_rsp c1 s1))
          else if req \<in> {REQ_VERSION, REQ_FLUSH_ALL, REQ_WATCH, REQ_VERBOSITY, REQ_LRU_CRAWLER} then
            (if cm_rsp c \<in> {RSP_INVAL, RSP_KEY_VALUE, RSP_STORED, RSP_NOT_STORED, RSP_EXISTS, RSP_NOT_FOUND, RSP_TOUCHED,
                            RSP_DELETED, RSP_VERSION, RSP_CONNECTION_CLOSE}
             then None else Some (handle_rsp c s))
          else Some (handle_rsp (c\<lparr>cm_rsp := RSP_SERVER_ERROR\<rparr>) s))"

text \<open>One round of the thread that serves a connection; the flag tells whether the thread goes on.\<close>

definition serve_round :: "rd_env \<Rightarrow> 's mc_env \<Rightarrow> msg_buff \<Rightarrow> 's mc \<Rightarrow> (msg_buff \<times> 's mc \<times> bool) option" where
  "serve_round renv env b s =
     (case read_cmd renv (mc_con s) (new_cmd (buff_reset b)) of (con, c) \<Rightarrow>
      let s1 = s\<lparr>mc_con := con\<rparr> in
      case (if cm_err c = E_OK then handle env c s1 else Some (c, s1)) of
        None \<Rightarrow> None
      | Some (c2, s2) \<Rightarrow> Some (cm_buff c2, s2, cm_err c2 = E_OK \<or> cm_err c2 = ENOMEM))"

end
