(* ===== verification/MC_Serve.thy ===== *)
theory MC_Serve
  imports MC_Line MC_Cmd
begin

section \<open>Commands from the network\<close>

subsection \<open>Parsed commands\<close>

definition storage_cmd :: "mc_req_type \<Rightarrow> bytes \<Rightarrow> u32 \<Rightarrow> u64 \<Rightarrow> nat \<Rightarrow> bool \<Rightarrow> bytes \<Rightarrow> cmd \<Rightarrow> bool" where
  "storage_cmd req key flags expiry vlen nr rest c \<longleftrightarrow> cm_req c = req \<and> cm_rsp c = RSP_INVAL \<and> cm_flags c = flags \<and> cm_expiry c = expiry
     \<and> cm_vlen c = of_nat vlen \<and> cm_noreply c = nr \<and> cm_err c = E_OK \<and> tok_bytes c 1 = key
     \<and> buff_rest c = rest \<and> bf_pos (cm_buff c) + length rest = unat (bf_rb (cm_buff c)) \<and> unat (bf_ab (cm_buff c)) < 2 ^ 31"

definition stored_expiry :: "u64 \<Rightarrow> nat \<Rightarrow> u64" where
  "stored_expiry now exptime = (if exptime = 0 then 0 else sanitize_exp_time now (of_nat exptime))"

lemma word_ok_names:
  "word_ok (cstr ''add'')" "word_ok (cstr ''set'')" "word_ok (cstr ''replace'')" "word_ok (cstr ''prepend'')" "word_ok (cstr ''append'')"
  "word_ok (cstr ''noreply'')" "word_ok (cstr ''get'')"
  by (simp_all add: word_ok_def cstr_def)

lemma storage_words:
  assumes "word_ok key" "name \<in> {''add'', ''set'', ''replace'', ''prepend'', ''append''}"
  shows "\<forall>w \<in> set (cstr name # storage_args key flags exptime vlen nr). word_ok w"
  using assms by (auto simp: storage_args_def word_ok_names)

lemma tok_bytes_cong: "cm_tokens c' = cm_tokens c \<Longrightarrow> cm_buff c' = cm_buff c \<Longrightarrow> tok_bytes c' i = tok_bytes c i"
  by (simp add: tok_bytes_def)

lemma read_storage:
  assumes a: "arrives (storage_line name key flags exptime vlen nr) rest ds" and b: "unat (bf_ab b) < 2 ^ 31" and al: "\<And>n. re_alloc env n"
    and rx: "cn_rx con = map Rcv ds @ r" and key: "word_ok key" "length key \<le> 250" and e: "exptime < 2 ^ 63" and v: "vlen \<le> 2 ^ 31 - 3"
    and name: "name \<in> {''add'', ''set'', ''replace'', ''prepend'', ''append''}"
  shows "\<exists>c. read_cmd env con (new_cmd (buff_reset b)) = (con\<lparr>cn_rx := r\<rparr>, c)
    \<and> storage_cmd (storage_req name) key flags (stored_expiry (re_time env) exptime) vlen nr rest c"
proof -
  let ?args = "storage_args key flags exptime vlen nr"
  have ok: "\<forall>w \<in> set (cstr name # ?args). word_ok w" by (rule storage_words [OF key(1) name])
  have n: "length ?args = 4 \<or> length ?args = 5" by (simp add: storage_args_def)
  then have "length (cstr name # ?args) < 511" by auto
  then obtain c0 where c0: "read_cmd env con (new_cmd (buff_reset b)) = (con\<lparr>cn_rx := r\<rparr>, parse (re_time env) c0)"
    "cmd_words (tokenized c0) (cstr name # ?args)" "c0 = new_cmd (cm_buff c0)" "buff_rest (tokenized c0) = rest"
    "bf_pos (cm_buff c0) + length rest = unat (bf_rb (cm_buff c0))" "unat (bf_ab (cm_buff c0)) < 2 ^ 31"
    using read_line [OF a [unfolded storage_line_def] ok _ _ b al rx] by auto
  let ?c = "(tokenized c0)\<lparr>cm_req := storage_req name\<rparr>"
  have w: "cmd_words ?c (cstr name # ?args)" using c0(2) cmd_words_cong [of ?c "tokenized c0"] by simp
  let ?r = "?c\<lparr>cm_rsp := RSP_INVAL, cm_noreply := (cm_noreply ?c \<or> nr), cm_flags := flags,
    cm_expiry := stored_expiry (re_time env) exptime, cm_vlen := of_nat vlen\<rparr>"
  have p: "parse (re_time env) c0 = ?r"
    unfolding parse_storage [OF c0(2) n name] stored_expiry_def by (rule parse_storage_arguments_ok [OF w key(2) e v])
  have "tok_bytes ?r 1 = tok_bytes (tokenized c0) 1" by (rule tok_bytes_cong) simp_all
  also have "\<dots> = key" using cmd_words_bytes [OF c0(2), of 1] n by (auto simp: storage_args_def)
  finally have k: "tok_bytes ?r 1 = key" .
  have f: "cm_noreply c0 = False" "cm_err c0 = E_OK" by (subst c0(3), simp add: new_cmd_def)+
  have "storage_cmd (storage_req name) key flags (stored_expiry (re_time env) exptime) vlen nr rest ?r"
    using k c0(4-6) f by (simp add: storage_cmd_def buff_rest_def)
  then show ?thesis using c0(1) p by auto
qed

text \<open>A retrieval of one key.\<close>

lemma parse_get:
  assumes w: "cmd_words (tokenized c0) [cstr ''get'', key]"
  shows "parse t c0 = (tokenized c0)\<lparr>cm_req := REQ_GET\<rparr>"
proof -
  obtain m toks where tk: "tokenize_command MAX_TOKENS (unat (bf_ab (cm_buff c0))) (bf_p (cm_buff c0)) 0 = (m, toks)" by force
  let ?c = "c0\<lparr>cm_buff := (cm_buff c0)\<lparr>bf_p := m\<rparr>, cm_tokens := toks\<rparr>"
  have e: "tokenized c0 = ?c" by (simp add: tokenized_def tk)
  have s: "tok_str ?c 0 = cstr v \<longleftrightarrow> ''get'' = v" for v using cmd_words_token(1) [OF w, of 0] by (simp add: e)
  have g: "3 \<le> length toks \<and> (''get'' = ''get'' \<or> ''get'' = ''gets'' \<or> ''get'' = ''bget'')" using w by (simp add: e cmd_words_def)
  show ?thesis unfolding parse_def tk prod.case Let_def s if_P [OF g] e by simp
qed

definition get_cmd :: "bytes \<Rightarrow> cmd \<Rightarrow> bool" where
  "get_cmd key c \<longleftrightarrow> cm_req c = REQ_GET \<and> cm_err c = E_OK \<and> length (cm_tokens c) = 3 \<and> tok_bytes c 1 = key"

lemma read_get:
  assumes a: "arrives (mc_join [cstr ''get'', key]) rest ds" and b: "unat (bf_ab b) < 2 ^ 31" and al: "\<And>n. re_alloc env n"
    and rx: "cn_rx con = map Rcv ds @ r" and key: "word_ok key"
  shows "\<exists>c. read_cmd env con (new_cmd (buff_reset b)) = (con\<lparr>cn_rx := r\<rparr>, c) \<and> get_cmd key c"
proof -
  have ok: "\<forall>w \<in> set [cstr ''get'', key]. word_ok w" using key by (simp add: word_ok_names)
  obtain c0 where c0: "read_cmd env con (new_cmd (buff_reset b)) = (con\<lparr>cn_rx := r\<rparr>, parse (re_time env) c0)"
    "cmd_words (tokenized c0) [cstr ''get'', key]" "c0 = new_cmd (cm_buff c0)"
    using read_line [OF a ok _ _ b al rx] by auto
  let ?r = "(tokenized c0)\<lparr>cm_req := REQ_GET\<rparr>"
  have "tok_bytes ?r 1 = tok_bytes (tokenized c0) 1" by (rule tok_bytes_cong) simp_all
  also have "\<dots> = key" using cmd_words_bytes [OF c0(2), of 1] by simp
  finally have k: "tok_bytes ?r 1 = key" .
  have "cm_err c0 = E_OK" by (subst c0(3), simp add: new_cmd_def)
  then have "get_cmd key ?r" using k c0(2) by (simp add: get_cmd_def cmd_words_def)
  then show ?thesis using c0(1) parse_get [OF c0(2)] by auto
qed

subsection \<open>Sending and receiving\<close>

definition replied :: "bytes \<Rightarrow> 's mc \<Rightarrow> 's mc" where
  "replied msg s = s\<lparr>mc_con := (mc_con s)\<lparr>cn_out := cn_out (mc_con s) @ msg\<rparr>\<rparr>"

lemma replied_simps [simp]:
  "mc_kv (replied msg s) = mc_kv s" "cn_rx (mc_con (replied msg s)) = cn_rx (mc_con s)" "cn_tx (mc_con (replied msg s)) = cn_tx (mc_con s)"
  "cn_out (mc_con (replied msg s)) = cn_out (mc_con s) @ msg" "mc_ev (replied msg s) = mc_ev s"
  by (simp_all add: replied_def)

lemma mc_tick_simps [simp]: "mc_kv (mc_tick s) = mc_kv s" "mc_con (mc_tick s) = mc_con s" "mc_ev (mc_tick s) = Suc (mc_ev s)"
  by (simp_all add: mc_tick_def)

lemma send_msg_ok: "cn_tx (mc_con s) = [] \<Longrightarrow> send_msg msg s = (replied msg s, True)"
  by (simp add: send_msg_def con_send_def replied_def)

lemma handle_rsp_ok:
  "cn_tx (mc_con s) = [] \<Longrightarrow> handle_rsp c s = (c\<lparr>cm_err := (case snd (rsp_text (cm_rsp c)) of None \<Rightarrow> cm_err c | Some e \<Rightarrow> e)\<rparr>,
     replied (fst (rsp_text (cm_rsp c))) s)"
  by (simp add: handle_rsp_def send_msg_ok case_prod_unfold Let_def split: option.split)

lemma send_end_ok: "cn_tx (mc_con s) = [] \<Longrightarrow> send_end c s = (c, replied end_get_rsp_msg s, True)"
  by (simp add: send_end_def send_msg_ok)

lemma send_items_ok:
  "cn_tx (mc_con s) = [] \<Longrightarrow> send_items env items s
     = (if me_iov env (mc_ev s) then (mc_tick (replied (items @ end_get_rsp_msg) s), True) else (mc_tick s, False))"
  by (simp add: send_items_def sendv_full.simps replied_def end_get_rsp_msg_def delimiter_def)

lemma recv_full_pieces:
  "cn_rx con = map Rcv ds @ r \<Longrightarrow> \<forall>x \<in> set ds. x \<noteq> [] \<Longrightarrow> recv_full (length (concat ds)) con = (con\<lparr>cn_rx := r\<rparr>, E_OK, concat ds)"
proof (induction ds arbitrary: con)
  case Nil
  then show ?case by (simp add: recv_full.simps)
next
  case (Cons d ds)
  let ?c = "con\<lparr>cn_rx := map Rcv ds @ r\<rparr>"
  have "con_recv (length (concat (d # ds))) con = (?c, Inr d)" using Cons.prems(1) by (simp add: con_recv_def)
  moreover have "recv_full (length (concat ds)) ?c = (con\<lparr>cn_rx := r\<rparr>, E_OK, concat ds)" using Cons.IH [of ?c] Cons.prems(2) by simp
  ultimately show ?case using Cons.prems(2) by (subst recv_full.simps) simp
qed

text \<open>The data block of a storage command: what came with the line, and what the connection delivers.\<close>

definition block_arrives :: "bytes \<Rightarrow> bytes \<Rightarrow> bytes list \<Rightarrow> bool" where
  "block_arrives val rest ds \<longleftrightarrow> rest @ concat ds = val @ delimiter \<and> ds \<noteq> [] \<and> (\<forall>x \<in> set ds. x \<noteq> [])"

lemma store_recv_ok:
  assumes c: "storage_cmd req key flags e (length val) nr rest c" and bl: "block_arrives val rest ds" and v: "length val \<le> 2 ^ 31 - 3"
    and rx: "cn_rx (mc_con s) = map Rcv ds @ r"
  shows "store_recv env c s = (mc_tick (s\<lparr>mc_con := (mc_con s)\<lparr>cn_rx := r\<rparr>\<rparr>), E_OK,
    replicate (me_prefix env) (me_junk env) @ key @ val @ delimiter)"
proof -
  have cc: "unat (cm_vlen c) = length val" "tok_bytes c 1 = key" "unat (bf_rb (cm_buff c)) - bf_pos (cm_buff c) = length rest"
    "map (bf_p (cm_buff c)) [bf_pos (cm_buff c)..<unat (bf_rb (cm_buff c))] = rest"
    using c v by (auto simp: storage_cmd_def buff_rest_def unat_of_nat_small)
  have eq: "rest @ concat ds = val @ delimiter" "\<forall>x \<in> set ds. x \<noteq> []" "concat ds \<noteq> []"
    using bl by (auto simp: block_arrives_def)
  have len: "length rest + length (concat ds) = length val + 2" using arg_cong [OF eq(1), of length] by (simp add: delimiter_def)
  have "length (concat ds) < 2 ^ LENGTH(64)" using len v by simp
  then have "unat (of_nat (length rest + length (concat ds)) - of_nat (length rest) :: u64) = length (concat ds)"
    unfolding of_nat_add add_diff_cancel_left' by (rule unat_of_nat_small)
  then have sz: "unat (of_nat (length val + length delimiter) - of_nat (length rest) :: u64) = length (concat ds)"
    unfolding len by (simp add: delimiter_def)
  have av: "\<not> max (me_prefix env + length key + length val + 12 + me_suffix env) (length val + length delimiter)
      - length (replicate (me_prefix env) (me_junk env) @ key @ rest) < length (concat ds)"
    using len by simp
  have nz: "length (concat ds) \<noteq> 0" using eq(3) by simp
  show ?thesis
    unfolding store_recv_def Let_def cc sz recv_append_to_mbuff_def if_not_P [OF av] if_not_P [OF nz]
    using recv_full_pieces [OF rx eq(2)] eq(1) by (simp add: mc_tick_def)
qed

subsection \<open>Storage against its specification\<close>

text \<open>What an item holds behind its data: the expiry time and the flags.\<close>

definition item_tail :: "bytes \<Rightarrow> bytes" where "item_tail val = drop (length val - 12) val"
definition item_expiry :: "bytes \<Rightarrow> u64" where "item_expiry val = of_le (take 8 (item_tail val))"

definition item_live :: "u64 \<Rightarrow> bytes \<Rightarrow> bool" where
  "item_live now val \<longleftrightarrow> 12 \<le> length val \<and> (item_expiry val = 0 \<or> sint now \<le> sint (item_expiry val))"

definition store_op :: "mc_req_type \<Rightarrow> PutOp" where
  "store_op req = (if req = REQ_ADD then CREATE else if req = REQ_REPLACE then REPLACE else NORMAL)"

definition store_allowed :: "mc_req_type \<Rightarrow> bytes option \<Rightarrow> bool" where
  "store_allowed req old \<longleftrightarrow> (if req = REQ_SET then True else if req = REQ_ADD then old = None else old \<noteq> None)"

definition store_item :: "mc_req_type \<Rightarrow> bytes option \<Rightarrow> bytes \<Rightarrow> bytes \<Rightarrow> bytes" where
  "store_item req old val tail =
     (case old of
        None \<Rightarrow> val @ tail
      | Some v \<Rightarrow> if req = REQ_APPEND then item_data v @ val @ item_tail v else if req = REQ_PREPEND then val @ v else val @ tail)"

lemma handle_store_block:
  assumes c: "storage_cmd req key flags e (length val) nr rest c" and bl: "block_arrives val rest ds" and v: "length val \<le> 2 ^ 31 - 3"
    and rx: "cn_rx (mc_con s) = map Rcv ds @ r" and mem: "me_mem env (mc_ev s)"
  defines "s1 \<equiv> mc_tick (mc_tick s\<lparr>mc_con := (mc_con s)\<lparr>cn_rx := r\<rparr>\<rparr>)"
  shows "req \<in> {REQ_SET, REQ_ADD, REQ_REPLACE} \<Longrightarrow> handle_store env c s =
      (case me_put env key (val @ le64 e @ le32 flags) (store_op req) (mc_kv s) of
         None \<Rightarrow> None
       | Some (kv, rc) \<Rightarrow> Some (c\<lparr>cm_rsp := (if rc = E_OK then RSP_STORED else RSP_NOT_STORED), cm_err := E_OK\<rparr>, s1\<lparr>mc_kv := kv\<rparr>))"
    and "req \<in> {REQ_APPEND, REQ_PREPEND} \<Longrightarrow> handle_store env c s = store_merge env (c\<lparr>cm_rsp := RSP_SERVER_ERROR\<rparr>) key val s1"
proof -
  let ?c = "c\<lparr>cm_rsp := RSP_SERVER_ERROR\<rparr>" and ?p = "me_prefix env"
  let ?mb = "replicate ?p (me_junk env) @ key @ val @ delimiter"
  have cc: "unat (cm_vlen ?c) = length val" "tok_bytes ?c 1 = key" "cm_req ?c = req" "store_trailer ?c = le64 e @ le32 flags"
    using c v tok_bytes_cong [of ?c c 1] by (auto simp: storage_cmd_def unat_of_nat_small store_trailer_def)
  have "store_recv env ?c (mc_tick s) = store_recv env c (mc_tick s)"
    using tok_bytes_cong [of ?c c 1] by (simp add: store_recv_def Let_def)
  also have "\<dots> = (s1, E_OK, ?mb)" using store_recv_ok [OF c bl v, of "mc_tick s" r env] rx by (simp add: s1_def)
  finally have r: "store_recv env ?c (mc_tick s) = (s1, E_OK, ?mb)" .
  have d: "?mb ! (?p + length key + length val) = 13" "?mb ! (?p + length key + length val + 1) = 10"
    by (simp_all add: nth_append delimiter_def)
  have rs: "mb_reslice (length key + length val) ?p ?mb = key @ val" "length (key @ val) = length key + length val"
    by (simp_all add: mb_reslice_def)
  have rt: "mb_reslice (?p + length key + length val + 12 + me_suffix env) 0 ((key @ val) @ le64 e @ le32 flags) = key @ val @ le64 e @ le32 flags"
    by (simp add: mb_reslice_def le64_def le32_def)
  have kv: "mc_kv s1 = mc_kv s" by (simp add: s1_def)
  note eqs = handle_store_def Let_def cc r prod.case d rs rt kv
  show "req \<in> {REQ_SET, REQ_ADD, REQ_REPLACE} \<Longrightarrow> handle_store env c s =
      (case me_put env key (val @ le64 e @ le32 flags) (store_op req) (mc_kv s) of
         None \<Rightarrow> None
       | Some (kv, rc) \<Rightarrow> Some (c\<lparr>cm_rsp := (if rc = E_OK then RSP_STORED else RSP_NOT_STORED), cm_err := E_OK\<rparr>, s1\<lparr>mc_kv := kv\<rparr>))"
    unfolding eqs using mem by (auto simp: store_op_def split: option.split)
  show "req \<in> {REQ_APPEND, REQ_PREPEND} \<Longrightarrow> handle_store env c s = store_merge env ?c key val s1"
    unfolding eqs using mem by auto
qed

subsection \<open>The handlers keep the buffer\<close>

lemma handle_rsp_buff: "handle_rsp c s = (c', s') \<Longrightarrow> cm_buff c' = cm_buff c"
  by (auto simp: handle_rsp_def case_prod_unfold Let_def split: option.splits if_splits)

lemma arith_finish_buff: "arith_finish c s = (c', s') \<Longrightarrow> cm_buff c' = cm_buff c"
  using handle_rsp_buff [of c s c' s'] by (auto simp: arith_finish_def split: if_splits)

lemma send_end_buff: "send_end c s = (c', s', ok) \<Longrightarrow> cm_buff c' = cm_buff c"
  using handle_rsp_buff [of "c\<lparr>cm_rsp := RSP_SERVER_ERROR\<rparr>"] by (auto simp: send_end_def split: prod.splits if_splits)

lemma kv_get_for_mc_buff: "kv_get_for_mc env key c s = Some (c', s', rc, v) \<Longrightarrow> cm_buff c' = cm_buff c"
  by (auto simp: kv_get_for_mc_def Let_def split: option.splits if_splits)

lemma handle_single_kv_get_buff: "handle_single_kv_get env key c s = Some (c', s', rc, v) \<Longrightarrow> cm_buff c' = cm_buff c"
  by (auto simp: handle_single_kv_get_def Let_def split: option.splits if_splits dest!: kv_get_for_mc_buff)

lemma multiget_loop_buff: "multiget_loop env keys items c s = Some (c', s', items') \<Longrightarrow> cm_buff c' = cm_buff c"
  by (induction env keys items c s rule: multiget_loop.induct) (auto split: option.splits if_splits dest!: handle_single_kv_get_buff)

lemma handle_get_buff: "handle_get env c s = Some (c', s') \<Longrightarrow> cm_buff c' = cm_buff c"
  by (auto simp: handle_get_def handle_multiget_def split: option.splits prod.splits if_splits
      dest!: handle_single_kv_get_buff multiget_loop_buff send_end_buff)

lemma put_merged_buff: "put_merged env c key val s = Some (c', s') \<Longrightarrow> cm_buff c' = cm_buff c"
  by (auto simp: put_merged_def split: option.splits if_splits)

lemma store_merge_buff: "store_merge env c key new s = Some (c', s') \<Longrightarrow> cm_buff c' = cm_buff c"
  by (auto simp: store_merge_def split: option.splits if_splits dest!: kv_get_for_mc_buff put_merged_buff)

lemma handle_store_buff: "handle_store env c s = Some (c', s') \<Longrightarrow> cm_buff c' = cm_buff c"
  by (auto simp: handle_store_def Let_def split: option.splits prod.splits if_splits dest!: store_merge_buff)

lemma handle_arithmetic_cmd_buff: "handle_arithmetic_cmd env c s = Some (c', s') \<Longrightarrow> cm_buff c' = cm_buff c"
  by (auto simp: handle_arithmetic_cmd_def Let_def split: option.splits prod.splits if_splits
      dest!: kv_get_for_mc_buff arith_finish_buff)

lemma handle_buff: "handle env c s = Some (c', s') \<Longrightarrow> cm_buff c' = cm_buff c"
  by (cases "cm_req c") (auto simp: handle_def handle_stats_cmd_def split: option.splits prod.splits if_splits
      dest!: handle_rsp_buff handle_get_buff handle_store_buff handle_arithmetic_cmd_buff)

subsection \<open>Rounds of the server\<close>

lemma serve_roundI:
  assumes "read_cmd renv (mc_con s) (new_cmd (buff_reset b)) = (con, c)" "cm_err c = E_OK"
  shows "serve_round renv env b s = (case handle env c (s\<lparr>mc_con := con\<rparr>) of None \<Rightarrow> None
    | Some (c2, s2) \<Rightarrow> Some (cm_buff c2, s2, cm_err c2 = E_OK \<or> cm_err c2 = ENOMEM))"
  using assms by (simp add: serve_round_def)

lemma handle_storage:
  assumes "cm_req c \<in> {REQ_SET, REQ_ADD, REQ_REPLACE, REQ_APPEND, REQ_PREPEND}"
  shows "handle env c s = (case handle_store env c s of None \<Rightarrow> None
    | Some (c1, s1) \<Rightarrow> if cm_noreply c1 then Some (c1, s1) else Some (handle_rsp c1 s1))"
  using assms by (auto simp: handle_def)

lemma storage_req_cases: "name \<in> {''add'', ''set'', ''replace'', ''prepend'', ''append''}
    \<Longrightarrow> storage_req name \<in> {REQ_SET, REQ_ADD, REQ_REPLACE, REQ_APPEND, REQ_PREPEND}"
  by (auto simp: storage_req_def)

lemma length_dec_digits: "n < 10 ^ k \<Longrightarrow> 0 < k \<Longrightarrow> length (dec_digits n) \<le> k"
proof (induction n arbitrary: k rule: dec_digits.induct)
  case (1 n)
  show ?case
  proof (cases "n < 10")
    case False
    then obtain j where j: "k = Suc j" "0 < j" using 1(2,3) by (cases k; cases "k - 1") auto
    then have "n div 10 < 10 ^ j" using 1(2) by (simp add: less_mult_imp_div_less)
    then show ?thesis using 1(1) [OF False _ j(2)] False j(1) by (subst dec_digits.simps) simp
  next
    case True
    then show ?thesis using 1(3) by (subst dec_digits.simps) simp
  qed
qed

lemma length_item_mid: "7 \<le> length (item_mid val) \<and> length (item_mid val) \<le> 31"
proof -
  have s: "- 2147483648 \<le> sint w \<and> sint w < 2147483648" for w :: u32
    using signed_take_bit_int_greater_eq_minus_exp [of 31 "uint w"] signed_take_bit_int_less_exp [of 31 "uint w"] by (simp add: sint_uint)
  have "unat (item_flags val) < 2 ^ LENGTH(32)" by (rule unat_lt_two_p)
  then have f: "length (dec_digits (unat (item_flags val))) \<le> 10" by (intro length_dec_digits) simp_all
  have "nat (- sint w) < 10 ^ 10" "nat (sint w) < 10 ^ 10" for w :: u32 using s [of w] by auto
  then have p: "length (print_s32 w) \<le> 11" for w
    using length_dec_digits [of "nat (- sint w)" 10] length_dec_digits [of "nat (sint w)" 10] by (simp add: print_s32_def le_Suc_eq)
  have "1 \<le> length (dec_digits (unat (item_flags val)))" "1 \<le> length (print_s32 (of_nat (length val - 12)))"
    by (simp_all add: print_s32_def Suc_le_eq)
  then show ?thesis using f p [of "of_nat (length val - 12)"] by (simp add: item_mid_def delimiter_def)
qed

subsection \<open>A delete\<close>

lemma parse_delete:
  assumes w: "cmd_words (tokenized c0) [cstr ''delete'', key]"
  shows "parse t c0 = (tokenized c0)\<lparr>cm_req := REQ_DEL\<rparr>"
proof -
  obtain m toks where tk: "tokenize_command MAX_TOKENS (unat (bf_ab (cm_buff c0))) (bf_p (cm_buff c0)) 0 = (m, toks)" by force
  let ?c = "c0\<lparr>cm_buff := (cm_buff c0)\<lparr>bf_p := m\<rparr>, cm_tokens := toks\<rparr>"
  have e: "tokenized c0 = ?c" by (simp add: tokenized_def tk)
  have s: "tok_str ?c 0 = cstr v \<longleftrightarrow> ''delete'' = v" for v using cmd_words_token(1) [OF w, of 0] by (simp add: e)
  have n: "length toks = 3" using w by (simp add: e cmd_words_def)
  show ?thesis unfolding parse_def tk prod.case Let_def s n e by simp
qed

lemma delete_round:
  assumes a: "arrives (mc_join [cstr ''delete'', key]) rest ds" and b: "unat (bf_ab b) < 2 ^ 31" and al: "\<And>n. re_alloc renv n"
    and rx: "cn_rx (mc_con s) = map Rcv ds @ r" "cn_tx (mc_con s) = []" and key: "word_ok key"
  shows "\<exists>b' s'. serve_round renv env b s = Some (b', s', True) \<and> mc_kv s' = mc_kv s
    \<and> mc_con s' = (mc_con s)\<lparr>cn_rx := r, cn_out := cn_out (mc_con s) @ stats_msg (me_kv_size env (mc_kv s))\<rparr>"
proof -
  have ok: "\<forall>w \<in> set [cstr ''delete'', key]. word_ok w" using key by (simp add: word_ok_def cstr_def)
  obtain c0 where c0: "read_cmd renv (mc_con s) (new_cmd (buff_reset b)) = ((mc_con s)\<lparr>cn_rx := r\<rparr>, parse (re_time renv) c0)"
    "cmd_words (tokenized c0) [cstr ''delete'', key]" "c0 = new_cmd (cm_buff c0)"
    using read_line [OF a ok _ _ b al rx(1)] by auto
  have "cm_err c0 = E_OK" by (subst c0(3), simp add: new_cmd_def)
  then have p: "cm_err (parse (re_time renv) c0) = E_OK" "cm_req (parse (re_time renv) c0) = REQ_DEL"
    by (simp_all add: parse_delete [OF c0(2)])
  show ?thesis unfolding serve_roundI [OF c0(1) p(1)] using rx(2) p by (simp add: handle_def handle_stats_cmd_def send_msg_ok replied_def)
qed

subsection \<open>A data block that came with its line\<close>

lemma store_recv_overrun:
  assumes c: "storage_cmd req key flags e vlen nr rest c" and v: "vlen \<le> 2 ^ 31 - 3" and k: "length key \<le> 250"
    and p: "me_prefix env + me_suffix env < 2 ^ 31" and l: "vlen + 2 \<le> length rest" and u: "length rest = vlen + 2 \<Longrightarrow> me_uninit env (mc_ev s) \<noteq> E_OK"
  shows "\<exists>rc mb. store_recv env c s = (mc_tick s, rc, mb) \<and> rc \<noteq> E_OK \<and> (rc = ENOSPC \<or> rc = me_uninit env (mc_ev s))"
proof -
  have cc: "unat (cm_vlen c) = vlen" "tok_bytes c 1 = key" "unat (bf_rb (cm_buff c)) - bf_pos (cm_buff c) = length rest"
    "map (bf_p (cm_buff c)) [bf_pos (cm_buff c)..<unat (bf_rb (cm_buff c))] = rest"
    using c v by (auto simp: storage_cmd_def buff_rest_def unat_of_nat_small)
  have lr: "length rest < 2 ^ 32" using c unat_lt_two_p [of "bf_rb (cm_buff c)"] by (simp add: storage_cmd_def)
  let ?sz = "of_nat (vlen + length delimiter) - of_nat (length rest) :: u64"
  let ?av = "max (me_prefix env + length key + vlen + 12 + me_suffix env) (vlen + length delimiter)
      - length (replicate (me_prefix env) (me_junk env) @ key @ rest)"
  have rc: "?av < unat ?sz \<or> unat ?sz = 0 \<and> length rest = vlen + 2"
  proof (cases "length rest = vlen + 2")
    case False
    let ?d = "length rest - (vlen + 2)"
    have d: "0 < ?d" "?d < 2 ^ 32" "?d < 2 ^ LENGTH(64)" using False l lr by auto
    have "(of_nat (length rest) :: u64) = of_nat (vlen + 2) + of_nat ?d" using l by (simp flip: of_nat_add)
    then have "?sz = - of_nat ?d" by (simp add: delimiter_def)
    moreover have "(of_nat (2 ^ 64 - ?d) :: u64) + of_nat ?d = 0" using d(3) by (simp flip: of_nat_add del: of_nat_diff)
    ultimately have "?sz = of_nat (2 ^ 64 - ?d)" unfolding eq_neg_iff_add_eq_0 by (metis add_right_cancel)
    moreover have "unat (of_nat (2 ^ 64 - ?d) :: u64) = 2 ^ 64 - ?d" using d(1) by (intro unat_of_nat_small) simp
    ultimately have "2 ^ 63 \<le> unat ?sz" using d(2) by simp
    moreover have "?av < 2 ^ 63" using p k v by (simp add: delimiter_def)
    ultimately show ?thesis by linarith
  qed (simp add: delimiter_def)
  then show ?thesis
    unfolding store_recv_def Let_def cc recv_append_to_mbuff_def using u by (auto simp: mc_tick_def)
qed

lemma storage_round_overrun:
  assumes a: "arrives (storage_line name key flags exptime vlen nr) rest ds" and name: "name \<in> {''add'', ''set'', ''replace'', ''prepend'', ''append''}"
    and key: "word_ok key" "length key \<le> 250" and e: "exptime < 2 ^ 63" and v: "vlen \<le> 2 ^ 31 - 3"
    and b: "unat (bf_ab b) < 2 ^ 31" "\<And>n. re_alloc renv n" and rx: "cn_rx (mc_con s) = map Rcv ds @ r" "cn_tx (mc_con s) = []"
    and mem: "me_mem env (mc_ev s)" and p: "me_prefix env + me_suffix env < 2 ^ 31" and l: "vlen + 2 \<le> length rest"
    and u: "length rest = vlen + 2 \<longrightarrow> me_uninit env (Suc (mc_ev s)) \<noteq> E_OK" "me_uninit env (Suc (mc_ev s)) \<noteq> ENOMEM"
  shows "\<exists>b' s'. serve_round renv env b s = Some (b', s', False) \<and> mc_kv s' = mc_kv s
    \<and> mc_con s' = (mc_con s)\<lparr>cn_rx := r, cn_out := cn_out (mc_con s) @ (if nr then [] else cstr ''SERVER_ERROR'' @ delimiter)\<rparr>"
proof -
  let ?e = "stored_expiry (re_time renv) exptime"
  obtain c where rd: "read_cmd renv (mc_con s) (new_cmd (buff_reset b)) = ((mc_con s)\<lparr>cn_rx := r\<rparr>, c)"
    and c: "storage_cmd (storage_req name) key flags ?e vlen nr rest c"
    using read_storage [OF a b rx(1) key e v name] by blast
  let ?s = "s\<lparr>mc_con := (mc_con s)\<lparr>cn_rx := r\<rparr>\<rparr>" and ?c = "c\<lparr>cm_rsp := RSP_SERVER_ERROR\<rparr>"
  have cr: "cm_req c = storage_req name" "cm_err c = E_OK" "cm_noreply c = nr" using c by (simp_all add: storage_cmd_def)
  have req: "storage_req name \<in> {REQ_SET, REQ_ADD, REQ_REPLACE, REQ_APPEND, REQ_PREPEND}" by (rule storage_req_cases [OF name])
  obtain rc mb where sr: "store_recv env c (mc_tick ?s) = (mc_tick (mc_tick ?s), rc, mb)"
    and rc: "rc \<noteq> E_OK" "rc = ENOSPC \<or> rc = me_uninit env (Suc (mc_ev s))"
    using store_recv_overrun [OF c v key(2) p l, of "mc_tick ?s"] u(1) by auto
  have "store_recv env ?c (mc_tick ?s) = store_recv env c (mc_tick ?s)"
    using tok_bytes_cong [of ?c c 1] by (simp add: store_recv_def Let_def)
  then have h: "handle_store env c ?s = Some (?c\<lparr>cm_err := rc\<rparr>, mc_tick (mc_tick ?s))"
    using sr mem rc(1) by (simp add: handle_store_def Let_def)
  have tx: "cn_tx (mc_con (mc_tick (mc_tick ?s))) = []" using rx(2) by simp
  have "rc \<noteq> ENOMEM" using rc u(2) by auto
  then show ?thesis
    unfolding serve_roundI [OF rd cr(2)] handle_storage [of c, unfolded cr(1), OF req] h
    using rc(1) cr(3) by (simp add: handle_rsp_ok [OF tx] rsp_text_def replied_def)
qed

text \<open>A storage command whose put returns is answered.\<close>

lemma storage_round_returns:
  assumes a: "arrives (storage_line name key flags exptime (length val) nr) rest ds1" and bl: "block_arrives val rest ds2"
    and name: "name \<in> {''add'', ''set'', ''replace''}" and key: "word_ok key" "length key \<le> 250" and e: "exptime < 2 ^ 63" and v: "length val \<le> 2 ^ 31 - 3"
    and b: "unat (bf_ab b) < 2 ^ 31" "\<And>n. re_alloc renv n" and rx: "cn_rx (mc_con s) = map Rcv ds1 @ map Rcv ds2 @ r"
    and mem: "me_mem env (mc_ev s)"
    and put: "me_put env key (val @ le64 (stored_expiry (re_time renv) exptime) @ le32 flags) (store_op (storage_req name)) (mc_kv s) = Some (kv, rc)"
  shows "\<exists>b' s' go. serve_round renv env b s = Some (b', s', go) \<and> mc_kv s' = kv"
proof -
  let ?e = "stored_expiry (re_time renv) exptime" and ?r1 = "map Rcv ds2 @ r"
  have name': "name \<in> {''add'', ''set'', ''replace'', ''prepend'', ''append''}" using name by auto
  obtain c where rd: "read_cmd renv (mc_con s) (new_cmd (buff_reset b)) = ((mc_con s)\<lparr>cn_rx := ?r1\<rparr>, c)"
    and c: "storage_cmd (storage_req name) key flags ?e (length val) nr rest c"
    using read_storage [OF a b rx key e v name'] by blast
  let ?s = "s\<lparr>mc_con := (mc_con s)\<lparr>cn_rx := ?r1\<rparr>\<rparr>"
  have cr: "cm_req c = storage_req name" "cm_err c = E_OK" using c by (simp_all add: storage_cmd_def)
  have req: "storage_req name \<in> {REQ_SET, REQ_ADD, REQ_REPLACE}" using name by (auto simp: storage_req_def)
  have "\<exists>c1 s1. handle_store env c ?s = Some (c1, s1) \<and> mc_kv s1 = kv"
    using handle_store_block(1) [OF c bl v, of ?s r env] req mem put by simp
  then obtain c1 s1 where "handle_store env c ?s = Some (c1, s1)" "mc_kv s1 = kv" by blast
  then have "\<exists>c2 s2. handle env c ?s = Some (c2, s2) \<and> mc_kv s2 = kv"
    using req handle_storage [of c env ?s] cr(1) by (auto simp: handle_rsp_def send_msg_def case_prod_unfold Let_def)
  then show ?thesis unfolding serve_roundI [OF rd cr(2)] by auto
qed

text \<open>The reply to a retrieval in terms of what was stored.\<close>

lemma item_of_store:
  assumes "length val \<le> 2 ^ 31 - 3"
  shows "item_msg key (val @ le64 e @ le32 flags)
    = cstr ''VALUE '' @ key @ 32 # dec_digits (unat flags) @ 32 # dec_digits (length val) @ 32 # delimiter @ val @ delimiter"
    "item_live now (val @ le64 e @ le32 flags) \<longleftrightarrow> e = 0 \<or> sint now \<le> sint e"
proof -
  have s: "sint (of_nat (length val) :: u32) = int (length val)" using assms by (simp add: signed_of_nat signed_take_bit_int_eq_self)
  show "item_msg key (val @ le64 e @ le32 flags)
    = cstr ''VALUE '' @ key @ 32 # dec_digits (unat flags) @ 32 # dec_digits (length val) @ 32 # delimiter @ val @ delimiter"
    by (simp add: item_msg_def item_mid_def item_flags_def item_data_def print_s32_def s)
  show "item_live now (val @ le64 e @ le32 flags) \<longleftrightarrow> e = 0 \<or> sint now \<le> sint e"
    by (simp add: item_live_def item_expiry_def item_tail_def)
qed

text \<open>Numbers of at most two digits are refused, longer ones are read.\<close>

lemma arith_value_digits:
  assumes "length tail = 12" "n < 2 ^ 64"
  shows "arith_value (dec_digits n @ tail) = (if n < 100 then None else Some (of_nat n))"
proof -
  have l: "length (dec_digits n) \<le> 20" using assms(2) by (intro length_dec_digits) simp_all
  have t: "takeWhile (\<lambda>b. b \<noteq> 0) (dec_digits n) = dec_digits n" using dec_digits_bytes [of n] by (auto simp: takeWhile_eq_all_conv)
  have "length (dec_digits n) \<le> 2 \<longleftrightarrow> n < 100"
  proof (cases "n < 100")
    case False
    then have "dec_digits n = dec_digits (n div 100) @ [of_nat (n div 10 mod 10) + 48] @ [of_nat (n mod 10) + 48]"
      using dec_digits.simps [of n] dec_digits.simps [of "n div 10"] by (simp add: div_mult2_eq [of n 10 10, simplified])
    then show ?thesis using False by simp
  qed (use length_dec_digits [of n 2] in simp)
  then show ?thesis using l assms safe_strtoull_dec_digits [OF assms(2)] by (auto simp: arith_value_def Let_def t)
qed

text \<open>An increment or decrement whose get and put succeed is answered with the number.\<close>

lemma handle_arithmetic_returns:
  assumes mem: "me_mem env (mc_ev s)" and tx: "cn_tx (mc_con s) = []" and key: "tok_bytes c 1 = key"
    and get: "me_get env key (mc_kv s) = Some (kv1, E_OK, old)" and lv: "item_live (me_time env (Suc (mc_ev s))) old"
    and val: "arith_value old = Some n" and num: "arith_result (cm_req c) (cm_num c) n = num"
    and put: "me_put env key (dec_digits (unat num) @ item_tail old) NORMAL kv1 = Some (kv2, E_OK)"
  shows "\<exists>c' s'. handle_arithmetic_cmd env c s = Some (c', s') \<and> mc_kv s' = kv2
    \<and> cn_out (mc_con s') = cn_out (mc_con s) @ (if cm_noreply c then [] else dec_digits (unat num) @ delimiter)"
proof -
  let ?c = "c\<lparr>cm_rsp := RSP_SERVER_ERROR\<rparr>" and ?s1 = "mc_tick (mc_tick s\<lparr>mc_kv := kv1\<rparr>)"
  have k: "tok_bytes ?c 1 = key" using tok_bytes_cong [of ?c c 1] key by simp
  have g: "kv_get_for_mc env key ?c (mc_tick s) = Some (?c\<lparr>cm_expiry := item_expiry old\<rparr>, ?s1, E_OK, old)"
    using get lv by (auto simp: kv_get_for_mc_def Let_def item_live_def item_expiry_def item_tail_def)
  have l: "length old \<noteq> 12" using val by (auto simp: arith_value_def Let_def split: if_splits)
  have tx2: "cn_tx (mc_con (?s1\<lparr>mc_kv := kv2\<rparr>)) = []" using tx by simp
  show ?thesis
    unfolding handle_arithmetic_cmd_def Let_def k g
    using mem l val num put by (cases "cm_noreply c") (simp_all add: item_tail_def send_msg_ok [OF tx2])
qed

end
