(* ===== verification/MC_Store.thy ===== *)
theory MC_Store
  imports MC_Serve KV_Run
begin

section \<open>The memcache commands on the store\<close>

text \<open>
  What the handlers rely on of the store below them, what they promise on top of it, and
  the key-value store of \<open>KV_Salsa\<close> as that store.
\<close>

text \<open>A storage command changes the store as its specification says, or leaves it as it is.\<close>

definition stored_ok :: "('s \<Rightarrow> bool) \<Rightarrow> ('s \<Rightarrow> bytes \<Rightarrow> bytes option) \<Rightarrow> mc_req_type \<Rightarrow> bytes \<Rightarrow> bytes \<Rightarrow> bytes \<Rightarrow> 's \<Rightarrow> mc_rsp_type \<Rightarrow> 's \<Rightarrow> bool" where
  "stored_ok kv_ok kvmap req key val tail kv rsp kv' \<longleftrightarrow> kv_ok kv' \<and>
     (rsp = RSP_STORED \<and> store_allowed req (kvmap kv key) \<and> kvmap kv' = (kvmap kv)(key \<mapsto> store_item req (kvmap kv key) val tail)
      \<or> rsp \<in> {RSP_NOT_STORED, RSP_SERVER_ERROR} \<and> kvmap kv' = kvmap kv)"

locale kv_service =
  fixes env :: "'s mc_env" and kv_ok :: "'s \<Rightarrow> bool" and kvmap :: "'s \<Rightarrow> bytes \<Rightarrow> bytes option"
    and room :: "'s \<Rightarrow> bytes \<Rightarrow> bytes \<Rightarrow> PutOp \<Rightarrow> bool" and reliable :: bool
  assumes get_law: "kv_ok kv \<Longrightarrow> \<exists>kv' rc val. me_get env key kv = Some (kv', rc, val) \<and> kv_ok kv' \<and> kvmap kv' = kvmap kv \<and> room kv' = room kv
      \<and> (rc = E_OK \<longrightarrow> kvmap kv key = Some val) \<and> (reliable \<and> kvmap kv key \<noteq> None \<longrightarrow> rc = E_OK)"
    and put_law: "kv_ok kv \<Longrightarrow> room kv key val op \<Longrightarrow> me_put env key val op kv = Some (kv', rc)
      \<Longrightarrow> kv_ok kv' \<and> (if rc = E_OK then op_allows op (kvmap kv key \<noteq> None) \<and> kvmap kv' = (kvmap kv)(key \<mapsto> val)
                        else kvmap kv' = kvmap kv)"
begin

lemma kv_get_for_mc_ok:
  assumes ok: "kv_ok (mc_kv s)"
  shows "\<exists>x s' rc val. kv_get_for_mc env key c s = Some (c\<lparr>cm_expiry := x\<rparr>, s', rc, val) \<and> kv_ok (mc_kv s')
    \<and> kvmap (mc_kv s') = kvmap (mc_kv s) \<and> room (mc_kv s') = room (mc_kv s) \<and> mc_con s' = mc_con s
    \<and> (rc = E_OK \<longrightarrow> kvmap (mc_kv s) key = Some val \<and> item_live (me_time env (mc_ev s)) val)
    \<and> (\<forall>old. reliable \<and> kvmap (mc_kv s) key = Some old \<and> item_live (me_time env (mc_ev s)) old \<longrightarrow> rc = E_OK)"
proof -
  obtain kv rc val where g: "me_get env key (mc_kv s) = Some (kv, rc, val)" and k: "kv_ok kv" "kvmap kv = kvmap (mc_kv s)" "room kv = room (mc_kv s)"
    and v: "rc = E_OK \<longrightarrow> kvmap (mc_kv s) key = Some val" "reliable \<and> kvmap (mc_kv s) key \<noteq> None \<longrightarrow> rc = E_OK"
    using get_law [OF ok] by blast
  let ?live = "item_live (me_time env (mc_ev s)) val"
  have x: "c = c\<lparr>cm_expiry := cm_expiry c\<rparr>" by simp
  consider "rc \<noteq> E_OK" | "rc = E_OK" "length val < 12" | "rc = E_OK" "\<not> length val < 12" "\<not> ?live" | "rc = E_OK" "\<not> length val < 12" "?live" by blast
  then show ?thesis
  proof cases
    case 1
    then have "kv_get_for_mc env key c s = Some (c\<lparr>cm_expiry := cm_expiry c\<rparr>, s\<lparr>mc_kv := kv\<rparr>, rc, val)" by (simp add: kv_get_for_mc_def g Let_def)
    then show ?thesis using 1 k v by (intro exI conjI) (assumption, auto)
  next
    case 2
    then have "kv_get_for_mc env key c s = Some (c\<lparr>cm_expiry := cm_expiry c\<rparr>, s\<lparr>mc_kv := kv\<rparr>, ENODATA, val)" by (simp add: kv_get_for_mc_def g Let_def)
    then show ?thesis using 2 k v by (intro exI conjI) (assumption, simp_all add: item_live_def)
  next
    case 3
    then have "kv_get_for_mc env key c s = Some (c\<lparr>cm_expiry := item_expiry val\<rparr>, mc_tick (s\<lparr>mc_kv := kv\<rparr>), ENODATA, val)"
      by (simp add: kv_get_for_mc_def g Let_def item_expiry_def item_tail_def item_live_def)
    then show ?thesis using 3 k v by (intro exI conjI) (assumption, simp_all)
  next
    case 4
    then have "kv_get_for_mc env key c s = Some (c\<lparr>cm_expiry := item_expiry val\<rparr>, mc_tick (s\<lparr>mc_kv := kv\<rparr>), E_OK, val)"
      by (auto simp: kv_get_for_mc_def g Let_def item_expiry_def item_tail_def item_live_def)
    then show ?thesis using 4 k v by (intro exI conjI) (assumption, simp_all)
  qed
qed

lemma put_merged_ok:
  assumes kv: "kv_ok (mc_kv s)" "kvmap (mc_kv s) = kvmap kv" "room (mc_kv s) = room kv"
    and rm: "room kv key item NORMAL" and p: "put_merged env c key item s = Some (c', s')" and c: "cm_rsp c = RSP_SERVER_ERROR"
  shows "mc_con s' = mc_con s \<and> cm_err c' = E_OK \<and> cm_noreply c' = cm_noreply c \<and> kv_ok (mc_kv s')
    \<and> (cm_rsp c' = RSP_STORED \<and> kvmap (mc_kv s') = (kvmap kv)(key \<mapsto> item) \<or> cm_rsp c' = RSP_SERVER_ERROR \<and> kvmap (mc_kv s') = kvmap kv)"
proof -
  obtain kv' rc where put: "me_put env key item NORMAL (mc_kv s) = Some (kv', rc)"
    and e: "c' = (if rc = E_OK then c\<lparr>cm_rsp := RSP_STORED, cm_err := E_OK\<rparr> else c\<lparr>cm_err := E_OK\<rparr>)" "s' = s\<lparr>mc_kv := kv'\<rparr>"
    using p by (auto simp: put_merged_def split: option.splits)
  show ?thesis using put_law [OF kv(1) _ put] rm kv c by (simp add: e split: if_splits)
qed

lemma store_merge_ok:
  assumes kv: "kv_ok (mc_kv s)" and req: "cm_req c = req" "req \<in> {REQ_APPEND, REQ_PREPEND}" and c: "cm_rsp c = RSP_SERVER_ERROR"
    and rm: "room (mc_kv s) key (store_item req (kvmap (mc_kv s) key) val tail) NORMAL"
    and m: "store_merge env c key val s = Some (c', s')"
  shows "mc_con s' = mc_con s \<and> cm_err c' = E_OK \<and> cm_noreply c' = cm_noreply c \<and> stored_ok kv_ok kvmap req key val tail (mc_kv s) (cm_rsp c') (mc_kv s')"
proof -
  obtain x s1 rc old where g: "kv_get_for_mc env key c (mc_tick s) = Some (c\<lparr>cm_expiry := x\<rparr>, s1, rc, old)"
    and k: "kv_ok (mc_kv s1)" "kvmap (mc_kv s1) = kvmap (mc_kv s)" "room (mc_kv s1) = room (mc_kv s)" "mc_con s1 = mc_con s"
    and v: "rc = E_OK \<longrightarrow> kvmap (mc_kv s) key = Some old"
    using kv_get_for_mc_ok [of "mc_tick s" key c, unfolded mc_tick_simps, OF kv] by blast
  show ?thesis
  proof (cases "me_mem env (mc_ev s) \<and> rc = E_OK \<and> me_mem env (mc_ev s1)")
    case True
    then have o: "kvmap (mc_kv s) key = Some old" using v by simp
    have "put_merged env (c\<lparr>cm_expiry := x\<rparr>) key (store_item req (kvmap (mc_kv s) key) val tail) (mc_tick s1) = Some (c', s')"
      using m True req by (cases "req = REQ_PREPEND") (simp_all add: store_merge_def g o store_item_def item_tail_def split: if_splits)
    from put_merged_ok [OF _ _ _ rm this, unfolded mc_tick_simps, OF k(1-3)] c k(4) show ?thesis
      using req(2) by (auto simp: stored_ok_def store_allowed_def o simp del: fun_upd_apply)
  next
    case False
    then have "c' = c\<lparr>cm_err := E_OK\<rparr> \<and> s' = mc_tick s \<or> c' = c\<lparr>cm_expiry := x, cm_err := E_OK\<rparr> \<and> (s' = s1 \<or> s' = mc_tick s1)"
      using m by (cases "me_mem env (mc_ev s)"; cases "rc = E_OK") (simp_all add: store_merge_def g)
    then show ?thesis using k kv c by (elim disjE conjE) (simp_all add: stored_ok_def)
  qed
qed

lemma handle_store_ok:
  assumes c: "storage_cmd req key flags e (length val) nr rest c" and bl: "block_arrives val rest ds" and v: "length val \<le> 2 ^ 31 - 3"
    and rx: "cn_rx (mc_con s) = map Rcv ds @ r" and mem: "me_mem env (mc_ev s)" and kv: "kv_ok (mc_kv s)"
    and req: "req \<in> {REQ_SET, REQ_ADD, REQ_REPLACE, REQ_APPEND, REQ_PREPEND}"
    and rm: "room (mc_kv s) key (store_item req (kvmap (mc_kv s) key) val (le64 e @ le32 flags)) (store_op req)"
    and h: "handle_store env c s = Some (c', s')"
  shows "mc_con s' = (mc_con s)\<lparr>cn_rx := r\<rparr> \<and> cm_err c' = E_OK \<and> cm_noreply c' = nr
    \<and> stored_ok kv_ok kvmap req key val (le64 e @ le32 flags) (mc_kv s) (cm_rsp c') (mc_kv s')"
proof (cases "req \<in> {REQ_SET, REQ_ADD, REQ_REPLACE}")
  case True
  have i: "store_item req (kvmap (mc_kv s) key) val (le64 e @ le32 flags) = val @ le64 e @ le32 flags"
    using True by (auto simp: store_item_def split: option.split)
  obtain kv' rc where put: "me_put env key (val @ le64 e @ le32 flags) (store_op req) (mc_kv s) = Some (kv', rc)"
    and e: "c' = c\<lparr>cm_rsp := (if rc = E_OK then RSP_STORED else RSP_NOT_STORED), cm_err := E_OK\<rparr>"
      "s' = mc_tick (mc_tick s\<lparr>mc_con := (mc_con s)\<lparr>cn_rx := r\<rparr>\<rparr>)\<lparr>mc_kv := kv'\<rparr>"
    using h handle_store_block(1) [OF c bl v rx mem True] by (auto split: option.splits)
  show ?thesis using put_law [OF kv rm [unfolded i] put] True c
    by (auto simp: e stored_ok_def storage_cmd_def i store_allowed_def store_op_def op_allows_def split: if_splits)
next
  case False
  then have ap: "req \<in> {REQ_APPEND, REQ_PREPEND}" and op: "store_op req = NORMAL" using req by (auto simp: store_op_def)
  let ?s = "mc_tick (mc_tick s\<lparr>mc_con := (mc_con s)\<lparr>cn_rx := r\<rparr>\<rparr>)"
  have "store_merge env (c\<lparr>cm_rsp := RSP_SERVER_ERROR\<rparr>) key val ?s = Some (c', s')"
    using h handle_store_block(2) [OF c bl v rx mem ap] by simp
  then show ?thesis
    using store_merge_ok [of ?s "c\<lparr>cm_rsp := RSP_SERVER_ERROR\<rparr>" req key val "le64 e @ le32 flags" c' s'] kv ap rm op c by (simp add: storage_cmd_def)
qed

end

context kv_service
begin

lemma storage_round:
  assumes a: "arrives (storage_line name key flags exptime (length val) nr) rest ds1" and bl: "block_arrives val rest ds2"
    and name: "name \<in> {''add'', ''set'', ''replace'', ''prepend'', ''append''}"
    and key: "word_ok key" "length key \<le> 250" and e: "exptime < 2 ^ 63" and v: "length val \<le> 2 ^ 31 - 3"
    and b: "unat (bf_ab b) < 2 ^ 31" "\<And>n. re_alloc renv n" and rx: "cn_rx (mc_con s) = map Rcv ds1 @ map Rcv ds2 @ r" "cn_tx (mc_con s) = []"
    and mem: "me_mem env (mc_ev s)" and kv: "kv_ok (mc_kv s)"
    and rm: "room (mc_kv s) key (store_item (storage_req name) (kvmap (mc_kv s) key) val (le64 (stored_expiry (re_time renv) exptime) @ le32 flags))
      (store_op (storage_req name))"
    and sr: "serve_round renv env b s = Some (b', s', go)"
  shows "\<exists>rsp. stored_ok kv_ok kvmap (storage_req name) key val (le64 (stored_expiry (re_time renv) exptime) @ le32 flags) (mc_kv s) rsp (mc_kv s')
    \<and> mc_con s' = (mc_con s)\<lparr>cn_rx := r, cn_out := cn_out (mc_con s) @ (if nr then [] else fst (rsp_text rsp))\<rparr>
    \<and> go = (nr \<or> rsp \<noteq> RSP_SERVER_ERROR) \<and> unat (bf_ab b') < 2 ^ 31"
proof -
  let ?e = "stored_expiry (re_time renv) exptime" and ?r1 = "map Rcv ds2 @ r"
  obtain c where rd: "read_cmd renv (mc_con s) (new_cmd (buff_reset b)) = ((mc_con s)\<lparr>cn_rx := ?r1\<rparr>, c)"
    and c: "storage_cmd (storage_req name) key flags ?e (length val) nr rest c"
    using read_storage [OF a b rx(1) key e v name] by blast
  let ?s = "s\<lparr>mc_con := (mc_con s)\<lparr>cn_rx := ?r1\<rparr>\<rparr>"
  have cr: "cm_req c = storage_req name" "cm_err c = E_OK" "unat (bf_ab (cm_buff c)) < 2 ^ 31" using c by (simp_all add: storage_cmd_def)
  have req: "storage_req name \<in> {REQ_SET, REQ_ADD, REQ_REPLACE, REQ_APPEND, REQ_PREPEND}" by (rule storage_req_cases [OF name])
  obtain c2 where h: "handle env c ?s = Some (c2, s')" and g: "go = (cm_err c2 = E_OK \<or> cm_err c2 = ENOMEM)" "b' = cm_buff c2"
    using sr unfolding serve_roundI [OF rd cr(2)] by (auto split: option.splits)
  have bb: "unat (bf_ab b') < 2 ^ 31" using handle_buff [OF h] cr(3) g(2) by simp
  obtain c1 s1 where hs: "handle_store env c ?s = Some (c1, s1)" and f: "(c2, s') = (if cm_noreply c1 then (c1, s1) else handle_rsp c1 s1)"
    using h req unfolding handle_storage [of c, unfolded cr(1), OF req] by (auto split: option.splits if_splits)
  have st: "mc_con s1 = (mc_con s)\<lparr>cn_rx := r\<rparr>" "cm_err c1 = E_OK" "cm_noreply c1 = nr"
    "stored_ok kv_ok kvmap (storage_req name) key val (le64 ?e @ le32 flags) (mc_kv s) (cm_rsp c1) (mc_kv s1)"
    using handle_store_ok [OF c bl v, of ?s r c1 s1] mem kv req rm hs by simp_all
  have tx: "cn_tx (mc_con s1) = []" using st(1) rx(2) by simp
  have rsp: "cm_rsp c1 \<in> {RSP_STORED, RSP_NOT_STORED, RSP_SERVER_ERROR}" using st(4) by (auto simp: stored_ok_def)
  show ?thesis
  proof (cases nr)
    case True
    then show ?thesis using f st bb g(1) by (intro exI [of _ "cm_rsp c1"]) simp
  next
    case False
    then have "(c2, s') = handle_rsp c1 s1" using f st(3) by simp
    then have "s' = replied (fst (rsp_text (cm_rsp c1))) s1" "cm_err c2 = (if cm_rsp c1 = RSP_SERVER_ERROR then ECONNRESET else E_OK)"
      using rsp st(2) by (auto simp: handle_rsp_ok [OF tx] rsp_text_def)
    then show ?thesis using st bb g(1) False by (intro exI [of _ "cm_rsp c1"]) (simp add: replied_def)
  qed
qed

end

context kv_service
begin

lemma get_round:
  assumes a: "arrives (mc_join [cstr ''get'', key]) rest ds" and key: "word_ok key"
    and b: "unat (bf_ab b) < 2 ^ 31" "\<And>n. re_alloc renv n" and rx: "cn_rx (mc_con s) = map Rcv ds @ r" "cn_tx (mc_con s) = []"
    and kv: "kv_ok (mc_kv s)"
  shows "\<exists>b' s' reply. serve_round renv env b s = Some (b', s', True) \<and> kv_ok (mc_kv s') \<and> kvmap (mc_kv s') = kvmap (mc_kv s)
    \<and> mc_con s' = (mc_con s)\<lparr>cn_rx := r, cn_out := cn_out (mc_con s) @ reply @ end_get_rsp_msg\<rparr>
    \<and> (reply = [] \<or> (\<exists>v. kvmap (mc_kv s) key = Some v \<and> item_live (me_time env (Suc (mc_ev s))) v \<and> reply = item_msg key v))
    \<and> (\<forall>v. reliable \<and> (\<forall>n. me_mem env n \<and> me_iov env n) \<and> kvmap (mc_kv s) key = Some v \<and> item_live (me_time env (Suc (mc_ev s))) v
         \<longrightarrow> reply = item_msg key v)"
proof -
  obtain c where rd: "read_cmd renv (mc_con s) (new_cmd (buff_reset b)) = ((mc_con s)\<lparr>cn_rx := r\<rparr>, c)" and c: "get_cmd key c"
    using read_get [OF a b rx(1) key] by blast
  let ?s = "s\<lparr>mc_con := (mc_con s)\<lparr>cn_rx := r\<rparr>\<rparr>"
  have cc: "cm_req c = REQ_GET" "cm_err c = E_OK" "\<not> 3 < length (cm_tokens c)" "tok_bytes c 1 = key" using c by (simp_all add: get_cmd_def)
  have hg: "handle_get env c ?s = (case handle_single_kv_get env key c ?s of
        None \<Rightarrow> None
      | Some (c1, s1, rc, msg) \<Rightarrow>
          (case (if rc = E_OK then send_items env msg s1 else (s1, False)) of (s2, sent) \<Rightarrow>
             if sent then Some (c1\<lparr>cm_err := E_OK\<rparr>, s2)
             else case send_end c1 s2 of (c3, s3, ok) \<Rightarrow> Some (c3, s3)))"
    unfolding handle_get_def if_not_P [OF cc(3)] cc(4) ..
  have sr: "serve_round renv env b s = (case handle_get env c ?s of None \<Rightarrow> None
      | Some (c2, s2) \<Rightarrow> Some (cm_buff c2, s2, cm_err c2 = E_OK \<or> cm_err c2 = ENOMEM))"
    unfolding serve_roundI [OF rd cc(2)] by (simp add: handle_def cc(1))
  have sm: "mc_kv ?s = mc_kv s" "mc_con ?s = (mc_con s)\<lparr>cn_rx := r\<rparr>" "mc_ev ?s = mc_ev s" by simp_all
  obtain x s1 rc val where g: "kv_get_for_mc env key c (mc_tick ?s) = Some (c\<lparr>cm_expiry := x\<rparr>, s1, rc, val)" and k: "kv_ok (mc_kv s1)"
    "kvmap (mc_kv s1) = kvmap (mc_kv s)" "mc_con s1 = (mc_con s)\<lparr>cn_rx := r\<rparr>"
    and v: "rc = E_OK \<longrightarrow> kvmap (mc_kv s) key = Some val \<and> item_live (me_time env (Suc (mc_ev s))) val"
      "\<forall>old. reliable \<and> kvmap (mc_kv s) key = Some old \<and> item_live (me_time env (Suc (mc_ev s))) old \<longrightarrow> rc = E_OK"
    using kv_get_for_mc_ok [of "mc_tick ?s" key c, unfolded mc_tick_simps sm, OF kv] by blast
  have tx: "cn_tx (mc_con s1) = []" "cn_tx (mc_con (mc_tick s1)) = []" "cn_tx (mc_con (mc_tick ?s)) = []" using rx(2) k(3) by simp_all
  have m: "\<not> (length (item_mid w) < 7 \<or> 31 < length (item_mid w))" for w using length_item_mid [of w] by linarith
  consider "\<not> me_mem env (mc_ev s)" | "me_mem env (mc_ev s)" "rc \<noteq> E_OK" | "me_mem env (mc_ev s)" "rc = E_OK" "me_iov env (mc_ev s1)"
    | "me_mem env (mc_ev s)" "rc = E_OK" "\<not> me_iov env (mc_ev s1)" by blast
  then show ?thesis
  proof cases
    case 1
    then have "handle_get env c ?s = Some (c, replied end_get_rsp_msg (mc_tick ?s))"
      unfolding hg by (simp add: handle_single_kv_get_def send_end_ok [OF tx(3)])
    then show ?thesis unfolding sr using kv 1 cc(2)
      by (intro exI [of _ "[]"] exI [of _ "replied end_get_rsp_msg (mc_tick ?s)"] exI [of _ "cm_buff c"]) (auto simp: replied_def)
  next
    case 2
    then have "handle_get env c ?s = Some (c\<lparr>cm_expiry := x\<rparr>, replied end_get_rsp_msg s1)"
      unfolding hg by (simp add: handle_single_kv_get_def g send_end_ok [OF tx(1)])
    then show ?thesis unfolding sr using k 2 cc(2) v(2)
      by (intro exI [of _ "[]"] exI [of _ "replied end_get_rsp_msg s1"] exI [of _ "cm_buff c"]) (auto simp: replied_def)
  next
    case 3
    then have "handle_get env c ?s = Some (c\<lparr>cm_expiry := x, cm_flags := item_flags val, cm_err := E_OK\<rparr>,
        mc_tick (replied (item_msg key val @ end_get_rsp_msg) s1))"
      unfolding hg by (simp add: handle_single_kv_get_def g m send_items_ok [OF tx(1)] Let_def)
    then show ?thesis unfolding sr using k 3 v
      by (intro exI [of _ "item_msg key val"] exI [of _ "mc_tick (replied (item_msg key val @ end_get_rsp_msg) s1)"] exI [of _ "cm_buff c"])
        (auto simp: replied_def)
  next
    case 4
    then have "handle_get env c ?s = Some (c\<lparr>cm_expiry := x, cm_flags := item_flags val\<rparr>, replied end_get_rsp_msg (mc_tick s1))"
      unfolding hg by (simp add: handle_single_kv_get_def g m send_items_ok [OF tx(1)] Let_def send_end_ok [OF tx(2)])
    then show ?thesis unfolding sr using k 4 cc(2)
      by (intro exI [of _ "[]"] exI [of _ "replied end_get_rsp_msg (mc_tick s1)"] exI [of _ "cm_buff c"]) (auto simp: replied_def)
  qed
qed

text \<open>Increment and decrement replace the number and keep the expiry time and the flags.\<close>

lemma arithmetic_ok:
  assumes kv: "kv_ok (mc_kv s)" and tx: "cn_tx (mc_con s) = []" and mem: "me_mem env (mc_ev s)" and rl: reliable
    and old: "kvmap (mc_kv s) (tok_bytes c 1) = Some old" "item_live (me_time env (Suc (mc_ev s))) old" and val: "arith_value old = Some n"
    and rm: "room (mc_kv s) (tok_bytes c 1) (dec_digits (unat (arith_result (cm_req c) (cm_num c) n)) @ item_tail old) NORMAL"
    and h: "handle_arithmetic_cmd env c s = Some (c', s')"
  shows "kv_ok (mc_kv s') \<and> (
      kvmap (mc_kv s') = (kvmap (mc_kv s))(tok_bytes c 1 \<mapsto> dec_digits (unat (arith_result (cm_req c) (cm_num c) n)) @ item_tail old)
        \<and> mc_con s' = (mc_con s)\<lparr>cn_out := cn_out (mc_con s) @ (if cm_noreply c then [] else dec_digits (unat (arith_result (cm_req c) (cm_num c) n)) @ delimiter)\<rparr>
    \<or> kvmap (mc_kv s') = kvmap (mc_kv s)
        \<and> mc_con s' = (mc_con s)\<lparr>cn_out := cn_out (mc_con s) @ (if cm_noreply c then [] else cstr ''SERVER_ERROR'' @ delimiter)\<rparr>)"
proof -
  define key where "key = tok_bytes c 1"
  let ?c = "c\<lparr>cm_rsp := RSP_SERVER_ERROR\<rparr>" and ?n = "arith_result (cm_req c) (cm_num c) n"
  have key: "tok_bytes ?c 1 = key" unfolding key_def by (rule tok_bytes_cong) simp_all
  note old = old [folded key_def] and rm = rm [folded key_def]
  obtain x s1 where g: "kv_get_for_mc env key ?c (mc_tick s) = Some (?c\<lparr>cm_expiry := x\<rparr>, s1, E_OK, old)" and k: "kv_ok (mc_kv s1)"
    "kvmap (mc_kv s1) = kvmap (mc_kv s)" "room (mc_kv s1) = room (mc_kv s)" "mc_con s1 = mc_con s"
    using kv_get_for_mc_ok [of "mc_tick s" key ?c] kv old rl by auto
  have l: "length old \<noteq> 12" using val by (auto simp: arith_value_def Let_def split: if_splits)
  let ?d = "dec_digits (unat ?n) @ item_tail old"
  obtain kv' rc where p: "me_put env key ?d NORMAL (mc_kv s1) = Some (kv', rc)"
    using h mem l unfolding handle_arithmetic_cmd_def Let_def key by (auto simp: g val item_tail_def split: option.splits)
  note pl = put_law [OF k(1) _ p, unfolded k(2,3), OF rm]
  let ?c2 = "?c\<lparr>cm_expiry := x, cm_num := ?n\<rparr>" and ?s2 = "s1\<lparr>mc_kv := kv'\<rparr>"
  have tx2: "cn_tx (mc_con ?s2) = []" using k(4) tx by simp
  have "Some (c', s') = (if rc \<noteq> E_OK then Some (arith_finish ?c2 ?s2) else if cm_noreply c then Some (?c2, ?s2)
      else Some (?c2, replied (dec_digits (unat ?n) @ delimiter) ?s2))"
    unfolding h [symmetric] using mem l p
    unfolding handle_arithmetic_cmd_def Let_def key by (simp add: g val item_tail_def send_msg_ok [OF tx2])
  then show ?thesis unfolding key_def [symmetric]
    using pl k(4) by (cases "rc = E_OK"; cases "cm_noreply c") (simp_all add: arith_finish_def handle_rsp_ok [OF tx2] rsp_text_def replied_def)
qed

lemma arithmetic_rejected:
  assumes kv: "kv_ok (mc_kv s)" and tx: "cn_tx (mc_con s) = []" and mem: "me_mem env (mc_ev s)" and rl: reliable
    and old: "kvmap (mc_kv s) (tok_bytes c 1) = Some old" "item_live (me_time env (Suc (mc_ev s))) old" "length old \<noteq> 12"
    and val: "arith_value old = None"
  shows "\<exists>c' s'. handle_arithmetic_cmd env c s = Some (c', s') \<and> kv_ok (mc_kv s') \<and> kvmap (mc_kv s') = kvmap (mc_kv s)
    \<and> mc_con s' = (mc_con s)\<lparr>cn_out := cn_out (mc_con s)
          @ (if cm_noreply c then [] else cstr ''CLIENT_ERROR cannot increment or decrement non-numeric value'' @ delimiter)\<rparr>"
proof -
  define key where "key = tok_bytes c 1"
  let ?c = "c\<lparr>cm_rsp := RSP_SERVER_ERROR\<rparr>"
  have key: "tok_bytes ?c 1 = key" unfolding key_def by (rule tok_bytes_cong) simp_all
  note old = old [folded key_def]
  obtain x s1 where g: "kv_get_for_mc env key ?c (mc_tick s) = Some (?c\<lparr>cm_expiry := x\<rparr>, s1, E_OK, old)" and k: "kv_ok (mc_kv s1)"
    "kvmap (mc_kv s1) = kvmap (mc_kv s)" "mc_con s1 = mc_con s"
    using kv_get_for_mc_ok [of "mc_tick s" key ?c] kv old rl by auto
  have tx1: "cn_tx (mc_con s1) = []" using k(3) tx by simp
  show ?thesis
    using mem old(3) k unfolding handle_arithmetic_cmd_def Let_def key
    by (cases "cm_noreply c") (simp_all add: g val arith_finish_def handle_rsp_ok [OF tx1] rsp_text_def replied_def)
qed

end

text \<open>What a retrieval of a key adds to the reply at a time.\<close>

definition get_item :: "u64 \<Rightarrow> (bytes \<rightharpoonup> bytes) \<Rightarrow> bytes \<Rightarrow> bytes" where
  "get_item now m key = (case m key of None \<Rightarrow> [] | Some v \<Rightarrow> if item_live now v then item_msg key v else [])"

definition resources_ok :: "u64 \<Rightarrow> 's mc_env \<Rightarrow> bool" where
  "resources_ok now env \<longleftrightarrow> (\<forall>n. me_mem env n \<and> me_room env n \<and> me_iov env n \<and> me_cache env n \<and> me_time env n = now)"

lemma item_msg_not_Nil [simp]: "item_msg key v \<noteq> []"
  by (simp add: item_msg_def delimiter_def)

context kv_service
begin

lemma handle_single_kv_get_ok:
  assumes kv: "kv_ok (mc_kv s)" and ok: "resources_ok now env" reliable
  shows "\<exists>c' s' rc. handle_single_kv_get env key c s = Some (c', s', rc, get_item now (kvmap (mc_kv s)) key) \<and> cm_err c' = cm_err c
    \<and> kv_ok (mc_kv s') \<and> kvmap (mc_kv s') = kvmap (mc_kv s) \<and> mc_con s' = mc_con s
    \<and> (rc = E_OK \<longleftrightarrow> get_item now (kvmap (mc_kv s)) key \<noteq> [])"
proof -
  have r: "me_mem env n" "me_time env n = now" for n using ok(1) by (simp_all add: resources_ok_def)
  obtain x s1 rc val where g: "kv_get_for_mc env key c (mc_tick s) = Some (c\<lparr>cm_expiry := x\<rparr>, s1, rc, val)" and k: "kv_ok (mc_kv s1)"
    "kvmap (mc_kv s1) = kvmap (mc_kv s)" "mc_con s1 = mc_con s"
    and v: "rc = E_OK \<longrightarrow> kvmap (mc_kv s) key = Some val \<and> item_live now val"
      "\<forall>old. reliable \<and> kvmap (mc_kv s) key = Some old \<and> item_live now old \<longrightarrow> rc = E_OK"
    using kv_get_for_mc_ok [of "mc_tick s" key c, unfolded mc_tick_simps r, OF kv] by blast
  have m: "\<not> (length (item_mid w) < 7 \<or> 31 < length (item_mid w))" for w using length_item_mid [of w] by linarith
  have i: "rc = E_OK \<Longrightarrow> get_item now (kvmap (mc_kv s)) key = item_msg key val" "rc \<noteq> E_OK \<Longrightarrow> get_item now (kvmap (mc_kv s)) key = []"
    using v ok(2) by (auto simp: get_item_def split: option.split)
  show ?thesis using k i by (cases "rc = E_OK") (simp_all add: handle_single_kv_get_def g r m Let_def)
qed

lemma multiget_loop_ok:
  assumes ok: "resources_ok now env" reliable
  shows "kv_ok (mc_kv s) \<Longrightarrow> \<exists>c' s' items'. multiget_loop env keys items c s = Some (c', s', items @ items')
    \<and> kv_ok (mc_kv s') \<and> kvmap (mc_kv s') = kvmap (mc_kv s) \<and> mc_con s' = mc_con s
    \<and> concat items' = concat (map (get_item now (kvmap (mc_kv s))) keys) \<and> [] \<notin> set items'"
proof (induction keys arbitrary: items c s)
  case (Cons key keys)
  let ?g = "get_item now (kvmap (mc_kv s)) key"
  obtain c1 s1 rc where h: "handle_single_kv_get env key c s = Some (c1, s1, rc, ?g)" and k: "kv_ok (mc_kv s1)" "kvmap (mc_kv s1) = kvmap (mc_kv s)"
    "mc_con s1 = mc_con s" and i: "rc = E_OK \<longleftrightarrow> ?g \<noteq> []"
    using handle_single_kv_get_ok [OF Cons.prems ok] by metis
  have ca: "me_cache env n" for n using ok(1) by (simp add: resources_ok_def)
  show ?case
  proof (cases "rc = E_OK")
    case True
    have "kv_ok (mc_kv (mc_tick s1))" using k(1) by simp
    from Cons.IH [OF this, of "items @ [?g]" c1] show ?thesis
      using True i k by (auto simp: h ca intro!: exI [of _ "?g # _"])
  next
    case False
    then show ?thesis using Cons.IH [OF k(1), of items c1] i k by (auto simp: h)
  qed
qed simp

lemma handle_get_ok:
  assumes ok: "resources_ok now env" reliable and kv: "kv_ok (mc_kv s)" and tx: "cn_tx (mc_con s) = []" and n: "3 \<le> length (cm_tokens c)"
  shows "\<exists>c' s'. handle_get env c s = Some (c', s') \<and> kv_ok (mc_kv s') \<and> kvmap (mc_kv s') = kvmap (mc_kv s)
    \<and> mc_con s' = (mc_con s)\<lparr>cn_out := cn_out (mc_con s)
        @ concat (map (get_item now (kvmap (mc_kv s)) \<circ> tok_bytes c) [1..<length (cm_tokens c) - 1]) @ end_get_rsp_msg\<rparr>"
proof (cases "3 < length (cm_tokens c)")
  case True
  let ?keys = "map (tok_bytes c) [1..<length (cm_tokens c) - 1]"
  obtain c1 s1 items where l: "multiget_loop env ?keys [] (c\<lparr>cm_err := ENOENT\<rparr>) s = Some (c1, s1, items)" and k: "kv_ok (mc_kv s1)"
    "kvmap (mc_kv s1) = kvmap (mc_kv s)" "mc_con s1 = mc_con s" and i: "concat items = concat (map (get_item now (kvmap (mc_kv s))) ?keys)"
    using multiget_loop_ok [OF ok kv, of ?keys "[]"] by (metis append_Nil)
  have tx1: "cn_tx (mc_con s1) = []" using tx k(3) by simp
  have iov: "me_iov env n" for n using ok(1) by (simp add: resources_ok_def)
  have j: "concat (map (get_item now (kvmap (mc_kv s)) \<circ> tok_bytes c) [1..<length (cm_tokens c) - 1]) = concat items" using i by simp
  show ?thesis unfolding j handle_get_def if_P [OF True] handle_multiget_def l option.case prod.case send_items_ok [OF tx1] send_end_ok [OF tx1]
    using k iov by (cases "items = []") (simp_all add: replied_def send_end_ok [OF tx1])
next
  case False
  define key where "key = tok_bytes c 1"
  have u: "map (get_item now (kvmap (mc_kv s)) \<circ> tok_bytes c) [1..<length (cm_tokens c) - 1] = [get_item now (kvmap (mc_kv s)) key]"
    using n False by (simp add: key_def upt_rec)
  obtain c1 s1 rc where h: "handle_single_kv_get env key c s = Some (c1, s1, rc, get_item now (kvmap (mc_kv s)) key)" and k: "kv_ok (mc_kv s1)"
    "kvmap (mc_kv s1) = kvmap (mc_kv s)" "mc_con s1 = mc_con s" and i: "rc = E_OK \<longleftrightarrow> get_item now (kvmap (mc_kv s)) key \<noteq> []"
    using handle_single_kv_get_ok [OF kv ok] by metis
  have tx1: "cn_tx (mc_con s1) = []" using tx k(3) by simp
  have iov: "me_iov env n" for n using ok(1) by (simp add: resources_ok_def)
  show ?thesis unfolding u handle_get_def if_not_P [OF False] key_def [symmetric] h option.case prod.case send_items_ok [OF tx1]
    using k i iov by (cases "rc = E_OK") (simp_all add: replied_def send_end_ok [OF tx1])
qed

end

text \<open>Only storing and counting reach the put of the store.\<close>

lemma handle_rsp_kv: "mc_kv (snd (handle_rsp c s)) = mc_kv s"
  by (simp add: handle_rsp_def send_msg_def case_prod_unfold Let_def)

lemma handle_no_store:
  assumes "cm_req c \<notin> {REQ_GET, REQ_GETS, REQ_SET, REQ_ADD, REQ_REPLACE, REQ_APPEND, REQ_PREPEND, REQ_INCR, REQ_DECR}"
    and "handle env c s = Some (c', s')"
  shows "mc_kv s' = mc_kv s"
  using assms handle_rsp_kv [of c s] handle_rsp_kv [of "c\<lparr>cm_rsp := RSP_SERVER_ERROR\<rparr>" s]
  by (cases "cm_req c") (auto simp: handle_def handle_stats_cmd_def send_msg_def case_prod_unfold Let_def split: if_splits)

subsection \<open>The key-value store as the service\<close>

text \<open>The memcache server of the program runs on uDepotSalsa.\<close>

definition mc_salsa_env :: "salsa_env \<Rightarrow> salsa kv_env \<Rightarrow> salsa kv mc_env \<Rightarrow> salsa kv mc_env" where
  "mc_salsa_env se env me = me\<lparr>me_get := kv_get (salsa_kv_env se env), me_put := kv_put (salsa_kv_env se env),
     me_prefix := PREFIX_SIZE, me_suffix := SUFFIX_SIZE\<rparr>"

lemma mc_salsa_env_simps [simp]:
  "me_get (mc_salsa_env se env me) = kv_get (salsa_kv_env se env)" "me_put (mc_salsa_env se env me) = kv_put (salsa_kv_env se env)"
  "me_mem (mc_salsa_env se env me) = me_mem me" "me_time (mc_salsa_env se env me) = me_time me" "me_iov (mc_salsa_env se env me) = me_iov me"
  "me_uninit (mc_salsa_env se env me) = me_uninit me" "resources_ok now (mc_salsa_env se env me) = resources_ok now me"
  by (simp_all add: mc_salsa_env_def resources_ok_def)

definition mc_room :: "salsa kv_env \<Rightarrow> salsa kv \<Rightarrow> bytes \<Rightarrow> bytes \<Rightarrow> PutOp \<Rightarrow> bool" where
  "mc_room env s key val op \<longleftrightarrow> length key < 2 ^ 16 \<and> length key + length val < 2 ^ 32 \<and> put_room (kv_map s) (ev_hash env key) op"

interpretation mcs: kv_service "mc_salsa_env se env me" "salsa_kv_safe se env" "kv_abs (salsa_kv_env se env)" "mc_room env" "io_ok env"
  for se env me
proof unfold_locales
  fix kv :: "salsa kv" and key
  assume safe: "salsa_kv_safe se env kv"
  then have "kv_inv (salsa_kv_env se env) kv" by (simp add: salsa_kv_safe_def)
  then obtain kv' rc val where g: "kv_get (salsa_kv_env se env) key kv = Some (kv', rc, val)" and same: "same_store kv kv'" using kv_get_ok by blast
  have "kv_map kv' = kv_map kv" by (simp add: same_store_fields [OF same])
  then have "mc_room env kv' = mc_room env kv" by (simp add: fun_eq_iff mc_room_def)
  then show "\<exists>kv' rc val. me_get (mc_salsa_env se env me) key kv = Some (kv', rc, val) \<and> salsa_kv_safe se env kv'
      \<and> kv_abs (salsa_kv_env se env) kv' = kv_abs (salsa_kv_env se env) kv \<and> mc_room env kv' = mc_room env kv
      \<and> (rc = E_OK \<longrightarrow> kv_abs (salsa_kv_env se env) kv key = Some val)
      \<and> (io_ok env \<and> kv_abs (salsa_kv_env se env) kv key \<noteq> None \<longrightarrow> rc = E_OK)"
    using kv_get_step [OF safe g] g io_failureD [of env rc] by auto
next
  fix kv key val op kv' rc
  assume "salsa_kv_safe se env kv" "mc_room env kv key val op" "me_put (mc_salsa_env se env me) key val op kv = Some (kv', rc)"
  then show "salsa_kv_safe se env kv' \<and> (if rc = E_OK then op_allows op (kv_abs (salsa_kv_env se env) kv key \<noteq> None)
        \<and> kv_abs (salsa_kv_env se env) kv' = (kv_abs (salsa_kv_env se env) kv)(key \<mapsto> val)
      else kv_abs (salsa_kv_env se env) kv' = kv_abs (salsa_kv_env se env) kv)"
    using kv_put_step [of se env kv key val op kv' rc] by (simp add: mc_room_def del: not_None_eq)
qed

end
