(* ===== verification/MC_Type.thy ===== *)
theory MC_Type
  imports MC_Parse
begin

section \<open>Well-formed commands\<close>

text \<open>
  What the handlers of the memcache server may assume of a parsed command: the tokens fit the array,
  all but the last one point into the buffer, and the arguments of the request are in their range.
\<close>

definition token_wf :: "nat \<Rightarrow> token \<Rightarrow> bool" where
  "token_wf lim t \<longleftrightarrow> (\<exists>v. tok_value t = Some v \<and> v + unat (tok_length t) \<le> lim)"

definition tokens_wf :: "nat \<Rightarrow> token list \<Rightarrow> bool" where
  "tokens_wf lim toks \<longleftrightarrow> toks \<noteq> [] \<and> length toks \<le> MAX_TOKENS \<and> list_all (token_wf lim) (butlast toks)"

definition cmd_wf :: "cmd \<Rightarrow> bool" where
  "cmd_wf c \<longleftrightarrow> tokens_wf (unat (bf_ab (cm_buff c))) (cm_tokens c) \<and>
     (case cm_req c of
        REQ_GET \<Rightarrow> 3 \<le> length (cm_tokens c)
      | REQ_GETS \<Rightarrow> 3 \<le> length (cm_tokens c)
      | REQ_INVAL \<Rightarrow> cm_rsp c \<in> {RSP_ERROR, RSP_CLIENT_ERROR_FORMAT}
      | req \<Rightarrow>
          if req \<in> {REQ_SET, REQ_ADD, REQ_REPLACE, REQ_APPEND, REQ_PREPEND} then
            length (cm_tokens c) \<in> {6, 7} \<and> unat (tok_length (cm_tokens c ! 1)) \<le> 250 \<and> unat (cm_vlen c) \<le> 2 ^ 31 - 3 \<and> cm_rsp c = RSP_INVAL
          else if req \<in> {REQ_INCR, REQ_DECR} then
            length (cm_tokens c) \<in> {4, 5} \<and> unat (tok_length (cm_tokens c ! 1)) \<le> 250 \<and> cm_rsp c = RSP_INVAL
          else 2 \<le> length (cm_tokens c))"

lemma token_wfI: "s \<le> e \<Longrightarrow> e \<le> lim \<Longrightarrow> token_wf lim \<lparr>tok_value = Some s, tok_length = of_nat (e - s)\<rparr>"
  using mod_less_eq_dividend [of "e - s" "2 ^ 64"] by (simp add: token_wf_def unat_of_nat del: of_nat_diff)

lemma c_str_in_buffer: "p \<le> lim \<Longrightarrow> p + length (c_str m lim p) \<le> lim"
proof (induction m lim p rule: c_str.induct)
  case (1 m lim p)
  then show ?case by (subst c_str.simps) auto
qed

lemma tokenize_loop_wf:
  assumes "tokenize_loop mx len m i s e toks = (m', s', e', toks')" "list_all (token_wf lim) toks" "s \<le> e" "e + (len - i) \<le> lim"
    "length toks < mx - 1"
  shows "list_all (token_wf lim) toks' \<and> s' \<le> e' \<and> e' \<le> lim \<and> length toks' + (if s' = e' then 1 else 2) \<le> mx"
  using assms
proof (induction mx len m i s e toks rule: tokenize_loop.induct)
  case (1 mx len m i s e toks)
  let ?t = "\<lparr>tok_value = Some s, tok_length = of_nat (e - s)\<rparr>"
  show ?case
  proof (cases "i < len \<and> m e = 32 \<and> s \<noteq> e")
    case True
    then have w: "list_all (token_wf lim) (toks @ [?t])" "Suc e + (len - Suc i) \<le> lim" using 1(5-7) token_wfI [of s e lim] by auto
    show ?thesis
    proof (cases "length (toks @ [?t]) = mx - 1")
      case stop: True
      then have "m' = m(e := 0) \<and> s' = Suc e \<and> e' = Suc e \<and> toks' = toks @ [?t]"
        using True 1(4) by (subst (asm) tokenize_loop.simps) (simp add: Let_def)
      then show ?thesis using w stop 1(8) by auto
    next
      case False
      have l: "tokenize_loop mx len (m(e := 0)) (Suc i) (Suc e) (Suc e) (toks @ [?t]) = (m', s', e', toks')"
        using True False 1(4) by (subst (asm) tokenize_loop.simps) (simp add: Let_def)
      have "length (toks @ [?t]) < mx - 1" using False 1(8) by simp
      then show ?thesis using True by (intro 1(1) [OF _ _ _ refl refl False l w(1) _ w(2)]) simp_all
    qed
  next
    case no: False
    show ?thesis
    proof (cases "i < len")
      case True
      then have b: "Suc e + (len - Suc i) \<le> lim" using 1(7) by simp
      show ?thesis
      proof (cases "m e = 32")
        case sp: True
        then have "tokenize_loop mx len m (Suc i) (Suc e) (Suc e) toks = (m', s', e', toks')"
          using True no 1(4) by (subst (asm) tokenize_loop.simps) simp
        then show ?thesis using 1(2) True sp no b 1(5,8) by simp
      next
        case sp: False
        then have "tokenize_loop mx len m (Suc i) s (Suc e) toks = (m', s', e', toks')"
          using True 1(4) by (subst (asm) tokenize_loop.simps) simp
        then show ?thesis using 1(3) True sp b 1(5,6,8) by simp
      qed
    next
      case False
      then have "m' = m \<and> s' = s \<and> e' = e \<and> toks' = toks" using 1(4) by (subst (asm) tokenize_loop.simps) simp
      then show ?thesis using 1(5-8) False by auto
    qed
  qed
qed

lemma tokenize_command_wf:
  assumes "tokenize_command MAX_TOKENS lim m 0 = (m', toks)"
  shows "tokens_wf lim toks"
proof -
  obtain m1 s e tk where l: "tokenize_loop MAX_TOKENS (length (c_str m lim 0)) m 0 0 0 [] = (m1, s, e, tk)" by (metis prod_cases4)
  have "list_all (token_wf lim) tk \<and> s \<le> e \<and> e \<le> lim \<and> length tk + (if s = e then 1 else 2) \<le> MAX_TOKENS"
    using tokenize_loop_wf [OF l, of lim] c_str_in_buffer [of 0 lim m] by (simp add: MAX_TOKENS_def)
  moreover have "toks = (if s \<noteq> e then tk @ [\<lparr>tok_value = Some s, tok_length = of_nat (e - s)\<rparr>] else tk)
      @ [\<lparr>tok_value = (if m1 e = 0 then None else Some e), tok_length = 0\<rparr>]"
    using assms l by (auto simp: tokenize_command_def Let_def)
  ultimately show ?thesis using token_wfI [of s e lim] by (auto simp: tokens_wf_def butlast_append split: if_splits)
qed

lemma check_noreply_fields: "cm_tokens (check_noreply c) = cm_tokens c" "cm_buff (check_noreply c) = cm_buff c"
  "cm_req (check_noreply c) = cm_req c" "cm_rsp (check_noreply c) = cm_rsp c"
  by (simp_all add: check_noreply_def Let_def)

lemma vlen_range:
  assumes "0 \<le> sint (w :: u32)" "sint w \<le> 2 ^ 31 - 3"
  shows "unat w \<le> 2 ^ 31 - 3"
proof -
  have "take_bit 32 (sint w) = sint w" using assms by (intro take_bit_int_eq_self) simp_all
  then have "uint w = sint w" by (simp add: uint_sint)
  then show ?thesis using assms(2) by (simp flip: nat_uint_eq)
qed

text \<open>The cases of a well-formed command.\<close>

lemma cmd_wf_inval:
  "tokens_wf (unat (bf_ab (cm_buff c))) (cm_tokens c) \<Longrightarrow> cm_req c = REQ_INVAL \<Longrightarrow> cm_rsp c = RSP_ERROR \<or> cm_rsp c = RSP_CLIENT_ERROR_FORMAT
     \<Longrightarrow> cmd_wf c"
  by (simp add: cmd_wf_def)

lemma cmd_wf_storage:
  "tokens_wf (unat (bf_ab (cm_buff c))) (cm_tokens c) \<Longrightarrow> cm_req c \<in> {REQ_SET, REQ_ADD, REQ_REPLACE, REQ_APPEND, REQ_PREPEND}
     \<Longrightarrow> length (cm_tokens c) = 6 \<or> length (cm_tokens c) = 7 \<Longrightarrow> unat (tok_length (cm_tokens c ! 1)) \<le> 250 \<Longrightarrow> unat (cm_vlen c) \<le> 2 ^ 31 - 3
     \<Longrightarrow> cm_rsp c = RSP_INVAL \<Longrightarrow> cmd_wf c"
  by (cases "cm_req c") (simp_all add: cmd_wf_def)

lemma cmd_wf_arithmetic:
  "tokens_wf (unat (bf_ab (cm_buff c))) (cm_tokens c) \<Longrightarrow> cm_req c \<in> {REQ_INCR, REQ_DECR}
     \<Longrightarrow> length (cm_tokens c) = 4 \<or> length (cm_tokens c) = 5 \<Longrightarrow> unat (tok_length (cm_tokens c ! 1)) \<le> 250
     \<Longrightarrow> cm_rsp c = RSP_INVAL \<Longrightarrow> cmd_wf c"
  by (cases "cm_req c") (simp_all add: cmd_wf_def)

lemma cmd_wf_other:
  "tokens_wf (unat (bf_ab (cm_buff c))) (cm_tokens c)
     \<Longrightarrow> cm_req c \<notin> {REQ_GET, REQ_GETS, REQ_INVAL, REQ_SET, REQ_ADD, REQ_REPLACE, REQ_APPEND, REQ_PREPEND, REQ_INCR, REQ_DECR}
     \<Longrightarrow> 2 \<le> length (cm_tokens c) \<Longrightarrow> cmd_wf c"
  by (cases "cm_req c") (simp_all add: cmd_wf_def)

lemma cmd_wf_get:
  "tokens_wf (unat (bf_ab (cm_buff c))) (cm_tokens c) \<Longrightarrow> cm_req c = REQ_GET \<or> cm_req c = REQ_GETS \<Longrightarrow> 3 \<le> length (cm_tokens c) \<Longrightarrow> cmd_wf c"
  by (elim disjE) (simp_all add: cmd_wf_def)

lemma cmd_wf_if: "(P \<Longrightarrow> cmd_wf a) \<Longrightarrow> (\<not> P \<Longrightarrow> cmd_wf b) \<Longrightarrow> cmd_wf (if P then a else b)"
  by simp

lemma cmd_wf_elif: "(P \<Longrightarrow> cmd_wf a) \<Longrightarrow> cmd_wf b \<Longrightarrow> cmd_wf (if P then a else b)"
  by simp

lemma cmd_wf_option: "(x = None \<Longrightarrow> cmd_wf a) \<Longrightarrow> (\<And>y. x = Some y \<Longrightarrow> cmd_wf (f y)) \<Longrightarrow> cmd_wf (case x of None \<Rightarrow> a | Some y \<Rightarrow> f y)"
  by (cases x) simp_all

lemma parse_storage_wf:
  assumes "tokens_wf (unat (bf_ab (cm_buff c))) (cm_tokens c)" "cm_req c \<in> {REQ_SET, REQ_ADD, REQ_REPLACE, REQ_APPEND, REQ_PREPEND}"
    "length (cm_tokens c) = 6 \<or> length (cm_tokens c) = 7"
  shows "cmd_wf (parse_storage_arguments t c)"
  unfolding parse_storage_arguments_def Let_def
proof (intro cmd_wf_if cmd_wf_option, goal_cases)
  case 6
  then show ?case using assms vlen_range
    by (intro cmd_wf_storage) (simp_all add: check_noreply_fields max_key_length_def word_le_nat_alt not_less)
qed (rule cmd_wf_inval; simp add: check_noreply_fields assms(1))+

lemma parse_arithmetic_wf:
  assumes "tokens_wf (unat (bf_ab (cm_buff c))) (cm_tokens c)" "cm_req c \<in> {REQ_INCR, REQ_DECR}"
    "length (cm_tokens c) = 4 \<or> length (cm_tokens c) = 5"
  shows "cmd_wf (parse_arithmetic_arguments c)"
  unfolding parse_arithmetic_arguments_def Let_def
proof (intro cmd_wf_if cmd_wf_option, goal_cases)
  case 3
  then show ?case using assms by (intro cmd_wf_arithmetic) (simp_all add: check_noreply_fields max_key_length_def word_le_nat_alt not_less)
qed (rule cmd_wf_inval; simp add: check_noreply_fields assms(1))+

lemma parse_wf: "cmd_wf (parse t (new_cmd b))"
proof -
  obtain m toks where tk: "tokenize_command MAX_TOKENS (unat (bf_ab (cm_buff (new_cmd b)))) (bf_p (cm_buff (new_cmd b))) 0 = (m, toks)" by force
  note w = tokenize_command_wf [OF tk]
  show ?thesis
    unfolding parse_def tk prod.case Let_def
  proof (intro cmd_wf_elif, goal_cases)
    case 1 then show ?case by (intro cmd_wf_get) (simp_all add: w)
  next
    case 2 then show ?case by (intro parse_storage_wf) (simp_all add: w)
  next
    case 4 then show ?case by (intro parse_arithmetic_wf) (simp_all add: w)
  next
    case 17 then show ?case by (intro cmd_wf_inval) (simp_all add: w)
  qed (intro cmd_wf_other; auto simp: w)+
qed

end
