(* ===== verification/MC_Props.thy ===== *)
theory MC_Props
  imports MC_Store MC_Type KV_Example
begin

section \<open>Properties of the memcache server\<close>

text \<open>
  What a client of the memcache server observes: the commands as they arrive from the network in
  any pieces, the store below, and the bytes of the replies.
\<close>

subsection \<open>An example connection\<close>

definition mx_me :: "salsa kv mc_env" where
  "mx_me = \<lparr>me_get = (\<lambda>_ _. None), me_put = (\<lambda>_ _ _ _. None), me_kv_size = used_bytes_m, me_prefix = 0, me_suffix = 0,
     me_mem = (\<lambda>_. True), me_room = (\<lambda>_. True), me_iov = (\<lambda>_. True), me_cache = (\<lambda>_. True), me_time = (\<lambda>_. 1000),
     me_uninit = (\<lambda>_. EIO), me_junk = 0\<rparr>"

definition mx_renv :: rd_env where "mx_renv = \<lparr>re_alloc = (\<lambda>_. True), re_time = 1000\<rparr>"
definition mx_buff :: msg_buff where "mx_buff = new_buff (\<lambda>_. 0)"

definition mx_mc :: "bytes list \<Rightarrow> salsa kv \<Rightarrow> salsa kv mc" where
  "mx_mc ds kv = \<lparr>mc_kv = kv, mc_con = \<lparr>cn_rx = map Rcv ds, cn_tx = [], cn_out = []\<rparr>, mc_ev = 0\<rparr>"

text \<open>The set of the key 1, 2 to the value 123, in two pieces, and a get.\<close>

definition mx_set :: bytes where "mx_set = storage_line ''set'' [1, 2] 7 0 3 False @ [13, 10]"
definition mx_block :: bytes where "mx_block = cstr ''123'' @ [13, 10]"
definition mx_get :: bytes where "mx_get = mc_join [cstr ''get'', [1, 2]] @ [13, 10]"
definition mx_item :: bytes where "mx_item = cstr ''123'' @ le64 0 @ le32 7"

lemma mx_line: "storage_line ''set'' [1, 2] 7 0 3 nr
    = cstr ''set '' @ [1, 2] @ cstr (if nr then '' 7 0 3 noreply'' else '' 7 0 3'')"
  by (cases nr) (simp_all add: storage_line_def storage_args_def cstr_def dec_digits.simps)

lemma mx_arrives:
  "arrives (storage_line ''set'' [1, 2] 7 0 3 False) [] [mx_set]" "block_arrives (cstr ''123'') [] [mx_block]"
  "arrives (mc_join [cstr ''get'', [1, 2]]) [] [mx_get]"
  unfolding mx_set_def mx_get_def
  by (simp_all add: arrives_def block_arrives_def mx_line mx_block_def delimiter_def cstr_def)

lemma mx_key: "word_ok [1, 2]" by (simp add: word_ok_def)

lemma mx_simps [simp]:
  "bf_ab mx_buff = 0" "re_alloc mx_renv n" "resources_ok 1000 mx_me" "me_mem mx_me i" "me_time mx_me i = 1000"
  "mc_kv (mx_mc ds kv) = kv" "cn_rx (mc_con (mx_mc ds kv)) = map Rcv ds" "cn_tx (mc_con (mx_mc ds kv)) = []" "cn_out (mc_con (mx_mc ds kv)) = []"
  "mc_ev (mx_mc ds kv) = 0" "stored_expiry t 0 = 0"
  by (simp_all add: mx_buff_def new_buff_def mx_renv_def resources_ok_def mx_me_def mx_mc_def stored_expiry_def)

lemma mx_space: "space_for ex_se (record_grains_nr ex_kv_env [1, 2] mx_item) (kv_seg ex_kv)"
proof -
  have "record_grains_nr ex_kv_env [1, 2] mx_item = 1" by code_simp
  then show ?thesis by (simp add: space_for_def ex_se_def ex_kv_def ex_salsa_def)
qed

lemma mx_new: "kv_abs (salsa_kv_env ex_se ex_kv_env) ex_kv = Map.empty"
  by (rule kv_fresh_safe(2) [OF ex_kv_fresh])

text \<open>The store after the set, with room left in the bucket.\<close>

definition mx_room_left :: "(salsa kv \<times> errno) option \<Rightarrow> bool" where
  "mx_room_left x = (case x of Some (s, rc) \<Rightarrow> rc = E_OK \<and> bucket_of (table_of (kv_map s) 5) 5 = 1 \<and> free_slot (table_of (kv_map s) 5) 2 | None \<Rightarrow> False)"

lemma mx_stored:
  obtains kv where "kv_put (salsa_kv_env ex_se ex_kv_env) [1, 2] mx_item NORMAL ex_kv = Some (kv, E_OK)" "salsa_kv_safe ex_se ex_kv_env kv"
    "kv_abs (salsa_kv_env ex_se ex_kv_env) kv = [[1, 2] \<mapsto> mx_item]" "put_room (kv_map kv) (ev_hash ex_kv_env key) op"
proof -
  have "mx_room_left (kv_put (salsa_kv_env ex_se ex_kv_env) [1, 2] mx_item NORMAL ex_kv)" by code_simp
  then obtain kv where p: "kv_put (salsa_kv_env ex_se ex_kv_env) [1, 2] mx_item NORMAL ex_kv = Some (kv, E_OK)"
    and r: "bucket_of (table_of (kv_map kv) 5) 5 = 1" "free_slot (table_of (kv_map kv) 5) 2"
    by (auto simp: mx_room_left_def split: option.splits prod.splits)
  have "\<not> bucket_full (table_of (kv_map kv) 5) 5" using r by (auto simp: bucket_full_def intro!: exI [of _ 2])
  then have "put_room (kv_map kv) (ev_hash ex_kv_env key) op" by (simp add: put_room_def ex_kv_env_def)
  moreover have "length ([1, 2] :: bytes) + length mx_item < 2 ^ 32" by (simp add: mx_item_def cstr_def)
  ultimately show ?thesis using that p kv_put_step [OF ex_kv_safe _ _ ex_kv_put_room p] mx_new by simp
qed

subsection \<open>The properties\<close>






text \<open>A get of the key 1, 2 and of an absent key.\<close>

definition mx_two :: cmd where
  "mx_two = (new_cmd (mx_buff\<lparr>bf_p := (\<lambda>i. [103, 101, 116, 0, 9, 0, 1, 2, 0] ! i)\<rparr>))\<lparr>cm_req := REQ_GET,
     cm_tokens := [\<lparr>tok_value = Some 0, tok_length = 3\<rparr>, \<lparr>tok_value = Some 4, tok_length = 1\<rparr>, \<lparr>tok_value = Some 6, tok_length = 2\<rparr>,
       \<lparr>tok_value = None, tok_length = 0\<rparr>]\<rparr>"


lemma unat_arith_result:
  assumes "n < 2 ^ 64" "req = REQ_INCR \<or> req = REQ_DECR"
  shows "unat (arith_result req num (of_nat n)) = (if req = REQ_INCR then (n + unat num) mod 2 ^ 64 else n - unat num)"
proof -
  have u: "unat (of_nat n :: u64) = n" using assms(1) by (intro unat_of_nat_small) simp
  have lt: "(of_nat n :: u64) < num \<longleftrightarrow> n < unat num" unfolding word_less_nat_alt u ..
  show ?thesis
  proof (cases "req = REQ_INCR")
    case True
    have "unat (num + of_nat n) = (unat num + unat (of_nat n :: u64)) mod 2 ^ LENGTH(64)" by (rule unat_word_ariths(1))
    then show ?thesis unfolding arith_result_def u if_P [OF True] by (simp only: add.commute len_num1 len_bit0 mult_1_right) simp
  next
    case False
    have "unat num \<le> n \<Longrightarrow> unat (of_nat n - num) = unat (of_nat n :: u64) - unat num"
      by (rule unat_sub) (unfold word_le_nat_alt u)
    then show ?thesis unfolding arith_result_def if_not_P [OF False] lt u by simp
  qed
qed


definition mx_incr :: cmd where
  "mx_incr = (new_cmd (mx_buff\<lparr>bf_p := (\<lambda>i. [105, 110, 99, 114, 0, 1, 2, 0, 53, 0] ! i)\<rparr>))\<lparr>cm_req := REQ_INCR, cm_num := 5,
     cm_tokens := [\<lparr>tok_value = Some 0, tok_length = 4\<rparr>, \<lparr>tok_value = Some 5, tok_length = 2\<rparr>, \<lparr>tok_value = Some 8, tok_length = 1\<rparr>,
       \<lparr>tok_value = None, tok_length = 0\<rparr>]\<rparr>"

lemma mx_incr_simps: "tok_bytes mx_incr 1 = [1, 2]" "cm_req mx_incr = REQ_INCR" "cm_num mx_incr = 5" "cm_noreply mx_incr = False"
  by (simp_all add: mx_incr_def new_cmd_def tok_bytes_def upt_rec)

lemma mx_incr_results:
  "map_option snd (kv_exec_all (salsa_kv_env ex_se ex_kv_env)
      [Put [1, 2] mx_item NORMAL, Get [1, 2], Put [1, 2] (cstr ''128'' @ le64 0 @ le32 7) NORMAL] ex_kv)
     = Some [Rc E_OK, Val E_OK mx_item, Rc E_OK]"
  by code_simp


text \<open>
  C19: increment and decrement refuse short numbers.  A stored number below 100 that has not
  expired is answered as a non-numeric value, and nothing is changed.
\<close>

theorem mc_incr_refuses_short_numbers:
  assumes "salsa_kv_safe se env (mc_kv s)" "io_ok env" "resources_ok now me" "cn_tx (mc_con s) = []" "cm_req c = REQ_INCR \<or> cm_req c = REQ_DECR"
    "kv_abs (salsa_kv_env se env) (mc_kv s) (tok_bytes c 1) = Some (dec_digits n @ tail)" "length tail = 12" "n < 100"
    "item_live now (dec_digits n @ tail)" "\<not> cm_noreply c"
  shows "\<exists>c' s'. handle (mc_salsa_env se env me) c s = Some (c', s') \<and> kv_abs (salsa_kv_env se env) (mc_kv s') = kv_abs (salsa_kv_env se env) (mc_kv s)
    \<and> cn_out (mc_con s') = cn_out (mc_con s) @ cstr ''CLIENT_ERROR cannot increment or decrement non-numeric value'' @ delimiter"
proof -
  have h: "handle (mc_salsa_env se env me) c s = handle_arithmetic_cmd (mc_salsa_env se env me) c s" using assms(5) by (auto simp: handle_def)
  have "arith_value (dec_digits n @ tail) = None" using arith_value_digits [OF assms(7), of n] assms(8) by simp
  then show ?thesis
    unfolding h using mcs.arithmetic_rejected [of se env s me c "dec_digits n @ tail"] assms by (auto simp: resources_ok_def)
qed

lemma mx_short_results:
  "map_option snd (kv_exec_all (salsa_kv_env ex_se ex_kv_env) [Put [1, 2] (cstr ''42'' @ le64 0 @ le32 7) NORMAL] ex_kv) = Some [Rc E_OK]"
  by code_simp

theorem mc_incr_refuses_short_numbers_witness:
  "\<exists>kv c' s'. kv_abs (salsa_kv_env ex_se ex_kv_env) kv = [[1, 2] \<mapsto> cstr ''42'' @ le64 0 @ le32 7]
    \<and> handle (mc_salsa_env ex_se ex_kv_env mx_me) mx_incr (mx_mc [] kv) = Some (c', s')
    \<and> cn_out (mc_con s') = cstr ''CLIENT_ERROR cannot increment or decrement non-numeric value'' @ delimiter"
proof -
  have d: "cstr ''42'' = dec_digits 42" "length (dec_digits 42) = 2" by (simp_all add: cstr_def dec_digits.simps)
  obtain kv where put: "kv_put (salsa_kv_env ex_se ex_kv_env) [1, 2] (dec_digits 42 @ le64 0 @ le32 7) NORMAL ex_kv = Some (kv, E_OK)"
    using mx_short_results unfolding d by (auto split: option.splits)
  have kv: "salsa_kv_safe ex_se ex_kv_env kv" "kv_abs (salsa_kv_env ex_se ex_kv_env) kv = [[1, 2] \<mapsto> dec_digits 42 @ le64 0 @ le32 7]"
    using kv_put_step [OF ex_kv_safe _ _ ex_kv_put_room put] d(2) mx_new by simp_all
  have lv: "item_live 1000 (dec_digits 42 @ le64 0 @ le32 7)" using item_of_store(2) [of "dec_digits 42" 1000 0 7] d(2) by simp
  have key: "kv_abs (salsa_kv_env ex_se ex_kv_env) (mc_kv (mx_mc [] kv)) (tok_bytes mx_incr 1) = Some (dec_digits 42 @ le64 0 @ le32 7)"
    unfolding mx_incr_simps(1) by (simp add: kv)
  show ?thesis
    using mc_incr_refuses_short_numbers [OF _ ex_kv_io_ok mx_simps(3) _ _ key _ _ lv] kv unfolding d(1) by (fastforce simp: mx_incr_simps)
qed

text \<open>
  C20: a delete deletes nothing.  A delete of a key, in any pieces, is answered with the statistics,
  and the store is exactly what it was.
\<close>

theorem mc_delete_deletes_nothing:
  assumes "arrives (mc_join [cstr ''delete'', key]) rest ds" "word_ok key" "unat (bf_ab b) < 2 ^ 31" "\<And>n. re_alloc renv n"
    "cn_rx (mc_con s) = map Rcv ds @ r" "cn_tx (mc_con s) = []"
  shows "\<exists>b' s'. serve_round renv env b s = Some (b', s', True) \<and> mc_kv s' = mc_kv s
    \<and> cn_out (mc_con s') = cn_out (mc_con s) @ cstr ''STAT bytes '' @ dec_digits (unat (me_kv_size env (mc_kv s))) @ delimiter @ cstr ''END'' @ delimiter"
  using delete_round [OF assms(1,3-6,2), of env] by (auto simp: stats_msg_def end_get_rsp_msg_def)

theorem mc_delete_deletes_nothing_witness:
  "\<exists>b' s'. serve_round mx_renv (mc_salsa_env ex_se ex_kv_env mx_me) mx_buff (mx_mc [cstr ''delete '' @ [1, 2, 13], [10]] ex_kv) = Some (b', s', True)
    \<and> mc_kv s' = ex_kv"
proof -
  have "arrives (mc_join [cstr ''delete'', [1, 2]]) [] [cstr ''delete '' @ [1, 2, 13], [10]]" by (simp add: arrives_def cstr_def)
  from mc_delete_deletes_nothing [OF this mx_key, of mx_buff mx_renv "mx_mc [cstr ''delete '' @ [1, 2, 13], [10]] ex_kv" "[]"]
  show ?thesis by fastforce
qed

text \<open>
  C21: a storage command whose data block comes together with its line fails.  When the bytes that
  were received with the line are more than the data block, or exactly the block and the
  uninitialised result of the receive is an error, the command stores nothing, is answered
  SERVER_ERROR, and the connection ends.
\<close>

theorem mc_block_with_line_fails:
  assumes "name \<in> {''add'', ''set'', ''replace'', ''prepend'', ''append''}" "arrives (storage_line name key flags exptime vlen False) rest ds"
    "vlen + 2 \<le> length rest" "length rest = vlen + 2 \<longrightarrow> me_uninit me (Suc (mc_ev s)) \<noteq> E_OK" "me_uninit me (Suc (mc_ev s)) \<noteq> ENOMEM"
    "word_ok key" "length key \<le> 250" "exptime < 2 ^ 63" "vlen \<le> 2 ^ 31 - 3" "unat (bf_ab b) < 2 ^ 31" "\<And>n. re_alloc renv n"
    "cn_rx (mc_con s) = map Rcv ds @ r" "cn_tx (mc_con s) = []" "me_mem me (mc_ev s)"
  shows "\<exists>b' s'. serve_round renv (mc_salsa_env se env me) b s = Some (b', s', False) \<and> mc_kv s' = mc_kv s
    \<and> cn_out (mc_con s') = cn_out (mc_con s) @ cstr ''SERVER_ERROR'' @ delimiter"
proof -
  have p: "me_prefix (mc_salsa_env se env me) + me_suffix (mc_salsa_env se env me) < 2 ^ 31"
    by (simp add: mc_salsa_env_def PREFIX_SIZE_def SUFFIX_SIZE_def)
  show ?thesis using storage_round_overrun [OF assms(2,1,6-13) _ p assms(3)] assms(4,5,14) by fastforce
qed

theorem mc_block_with_line_fails_witness:
  "\<exists>b' s'. serve_round mx_renv (mc_salsa_env ex_se ex_kv_env mx_me) mx_buff (mx_mc [mx_set @ mx_block] ex_kv) = Some (b', s', False)
    \<and> mc_kv s' = ex_kv"
proof -
  have l: "length mx_block = 5" by (simp add: mx_block_def cstr_def)
  have a: "arrives (storage_line ''set'' [1, 2] 7 0 3 False) mx_block [mx_set @ mx_block]"
    using mx_arrives(1) l by (auto simp: arrives_def mx_set_def mx_line cstr_def)
  have u: "me_uninit mx_me n = EIO" for n by (simp add: mx_me_def)
  show ?thesis
    using mc_block_with_line_fails [OF _ a, of mx_me "mx_mc [mx_set @ mx_block] ex_kv" mx_buff mx_renv "[]" ex_se ex_kv_env] mx_key l u
    by fastforce
qed

text \<open>
  C22: the command line of a storage command survives the network and the parser.  However the
  bytes of a printed line are split into pieces, the server reads exactly the line and what came
  behind it in the last piece, and the parsed command has the request, key, flags, length and
  noreply of the line, with the expiry time made absolute.
\<close>

theorem mc_storage_line_round_trip:
  assumes "arrives (storage_line name key flags exptime vlen nr) rest ds" "name \<in> {''add'', ''set'', ''replace'', ''prepend'', ''append''}"
    "word_ok key" "length key \<le> 250" "exptime < 2 ^ 63" "vlen \<le> 2 ^ 31 - 3" "unat (bf_ab b) < 2 ^ 31" "\<And>n. re_alloc env n"
    "cn_rx con = map Rcv ds @ r"
  shows "\<exists>c. read_cmd env con (new_cmd (buff_reset b)) = (con\<lparr>cn_rx := r\<rparr>, c)
    \<and> cm_err c = E_OK \<and> cm_req c = storage_req name \<and> tok_bytes c 1 = key \<and> cm_flags c = flags \<and> unat (cm_vlen c) = vlen \<and> cm_noreply c = nr
    \<and> cm_expiry c = (if exptime = 0 then 0 else sanitize_exp_time (re_time env) (of_nat exptime)) \<and> buff_rest c = rest"
proof -
  have "unat (of_nat vlen :: u32) = vlen" using assms(6) by (intro unat_of_nat_small) simp
  then show ?thesis using read_storage [OF assms(1,7-9,3-6,2)] by (auto simp: storage_cmd_def stored_expiry_def)
qed

theorem mc_storage_line_round_trip_witness:
  "\<exists>c. read_cmd mx_renv \<lparr>cn_rx = [Rcv (cstr ''se''), Rcv (cstr ''t '' @ [1, 2] @ cstr '' 7 0 3''), Rcv [13, 10, 49]], cn_tx = [], cn_out = []\<rparr>
       (new_cmd (buff_reset mx_buff)) = (\<lparr>cn_rx = [], cn_tx = [], cn_out = []\<rparr>, c)
    \<and> cm_req c = REQ_SET \<and> tok_bytes c 1 = [1, 2] \<and> cm_flags c = 7 \<and> unat (cm_vlen c) = 3 \<and> buff_rest c = [49]"
proof -
  let ?ds = "[cstr ''se'', cstr ''t '' @ [1, 2] @ cstr '' 7 0 3'', [13, 10, 49]]"
  have a: "arrives (storage_line ''set'' [1, 2] 7 0 3 False) [49] ?ds" by (simp add: arrives_def mx_line cstr_def)
  show ?thesis
    using mc_storage_line_round_trip [OF a, of mx_buff mx_renv "\<lparr>cn_rx = map Rcv ?ds, cn_tx = [], cn_out = []\<rparr>" "[]"] mx_key
    by (auto simp: storage_req_def)
qed

text \<open>
  C23: a parsed command is well-formed, whatever the bytes of the line: the tokens fit their array
  and all but the last point into the buffer, a storage or counting command has its arguments, a
  key of at most 250 bytes and a length below \<open>2 ^ 31 - 2\<close>, and an invalid command has an error response.
\<close>

theorem mc_parse_well_formed: "cmd_wf (parse now (new_cmd b))"
  by (rule parse_wf)

end
