(* ===== verification/Net_Wire.thy ===== *)
theory Net_Wire
  imports Byte_Enc
begin

section \<open>The messages of the network protocol (\<^verbatim>\<open>kv-wire.hh\<close>)\<close>

text \<open>
  The headers are packed structs that client and server copy to and from the connection, so a
  header on the wire is the concatenation of its little-endian fields.  The operation is an enum
  that the server reads from the wire, so it may hold any 32-bit value.  Errors travel as the
  numbers of the \<^verbatim>\<open>errno\<close> constants.
\<close>

definition errno_num :: "errno \<Rightarrow> u32" where
  "errno_num e = (case e of
       E_OK \<Rightarrow> 0 | EPERM \<Rightarrow> 1 | ENOENT \<Rightarrow> 2 | EINTR \<Rightarrow> 4 | EIO \<Rightarrow> 5 | EBADF \<Rightarrow> 9 | EAGAIN \<Rightarrow> 11 | ENOMEM \<Rightarrow> 12
     | EFAULT \<Rightarrow> 14 | EEXIST \<Rightarrow> 17 | EINVAL \<Rightarrow> 22 | ENOSPC \<Rightarrow> 28 | ENOSYS \<Rightarrow> 38 | ENODATA \<Rightarrow> 61 | EBADMSG \<Rightarrow> 74
     | ENOTSUP \<Rightarrow> 95 | ECONNRESET \<Rightarrow> 104 | EALREADY \<Rightarrow> 114)"

definition NET_MAGIC :: u32 where "NET_MAGIC = 0xfa73fa11"

definition OP_NOP :: u32 where "OP_NOP = 0"
definition OP_PUT :: u32 where "OP_PUT = 1"
definition OP_GET :: u32 where "OP_GET = 2"
definition OP_DEL :: u32 where "OP_DEL = 3"

record req_hdr =
  rq_magic :: u32
  rq_op :: u32
  rq_id :: u64
  rq_key_len :: u32
  rq_val_len :: u32

text \<open>An operation outside the enum ends in \<^verbatim>\<open>abort\<close>; the lengths of a put are added at 32 bits.\<close>

definition req_key_len :: "req_hdr \<Rightarrow> nat option" where
  "req_key_len h =
     (if rq_op h = OP_NOP then Some 0
      else if rq_op h \<in> {OP_PUT, OP_GET, OP_DEL} then Some (unat (rq_key_len h))
      else None)"

definition body_len :: "req_hdr \<Rightarrow> nat option" where
  "body_len h =
     (if rq_op h = OP_NOP then Some 0
      else if rq_op h \<in> {OP_GET, OP_DEL} then Some (unat (rq_key_len h))
      else if rq_op h = OP_PUT then Some (unat (rq_key_len h + rq_val_len h))
      else None)"

definition req_val_len :: "req_hdr \<Rightarrow> nat option" where
  "req_val_len h =
     (if rq_op h \<in> {OP_NOP, OP_GET, OP_DEL} then Some 0
      else if rq_op h = OP_PUT then Some (unat (rq_val_len h))
      else None)"

text \<open>
  The fields that a constructor leaves out hold what was on the stack; this is the arguments
  \<open>junk\<close> and \<open>junk2\<close> of \<open>mkGET\<close> and \<open>mkNOP\<close>.
\<close>

definition mkGET :: "u32 \<Rightarrow> u64 \<Rightarrow> u32 \<Rightarrow> req_hdr" where
  "mkGET junk req_id key_len =
     \<lparr>rq_magic = NET_MAGIC, rq_op = OP_GET, rq_id = req_id, rq_key_len = key_len, rq_val_len = junk\<rparr>"

definition mkPUT :: "u64 \<Rightarrow> u32 \<Rightarrow> u32 \<Rightarrow> req_hdr" where
  "mkPUT req_id key_len val_len =
     \<lparr>rq_magic = NET_MAGIC, rq_op = OP_PUT, rq_id = req_id, rq_key_len = key_len, rq_val_len = val_len\<rparr>"

definition mkNOP :: "u32 \<Rightarrow> u32 \<Rightarrow> u64 \<Rightarrow> req_hdr" where
  "mkNOP junk junk2 req_id =
     \<lparr>rq_magic = NET_MAGIC, rq_op = OP_NOP, rq_id = req_id, rq_key_len = junk, rq_val_len = junk2\<rparr>"

definition req_verify_magic :: "req_hdr \<Rightarrow> bool" where "req_verify_magic h \<longleftrightarrow> rq_magic h = NET_MAGIC"

record res_hdr =
  rs_magic :: u32
  rs_id :: u64
  rs_error :: u32

definition mk_res :: "u32 \<Rightarrow> u64 \<Rightarrow> res_hdr" where
  "mk_res res rid = \<lparr>rs_magic = NET_MAGIC, rs_id = rid, rs_error = res\<rparr>"

definition res_verify_magic :: "res_hdr \<Rightarrow> bool" where "res_verify_magic h \<longleftrightarrow> rs_magic h = NET_MAGIC"

record res_get_hdr =
  rg_hdr :: res_hdr
  rg_val_len :: u64

definition mk_get_res :: "u32 \<Rightarrow> u64 \<Rightarrow> u64 \<Rightarrow> res_get_hdr" where
  "mk_get_res res rid vlen = \<lparr>rg_hdr = mk_res res rid, rg_val_len = vlen\<rparr>"

subsection \<open>The headers on the wire\<close>

definition REQ_HDR_SIZE :: nat where "REQ_HDR_SIZE = 24"
definition RES_HDR_SIZE :: nat where "RES_HDR_SIZE = 16"
definition RES_GET_HDR_SIZE :: nat where "RES_GET_HDR_SIZE = 24"

definition enc_req :: "req_hdr \<Rightarrow> bytes" where
  "enc_req h = le32 (rq_magic h) @ le32 (rq_op h) @ le64 (rq_id h) @ le32 (rq_key_len h) @ le32 (rq_val_len h)"

definition dec_req :: "bytes \<Rightarrow> req_hdr" where
  "dec_req bs = \<lparr>rq_magic = of_le (take 4 bs), rq_op = of_le (take 4 (drop 4 bs)), rq_id = of_le (take 8 (drop 8 bs)),
     rq_key_len = of_le (take 4 (drop 16 bs)), rq_val_len = of_le (take 4 (drop 20 bs))\<rparr>"

definition enc_res :: "res_hdr \<Rightarrow> bytes" where
  "enc_res h = le32 (rs_magic h) @ le64 (rs_id h) @ le32 (rs_error h)"

definition dec_res :: "bytes \<Rightarrow> res_hdr" where
  "dec_res bs = \<lparr>rs_magic = of_le (take 4 bs), rs_id = of_le (take 8 (drop 4 bs)), rs_error = of_le (take 4 (drop 12 bs))\<rparr>"

definition enc_get_res :: "res_get_hdr \<Rightarrow> bytes" where
  "enc_get_res h = enc_res (rg_hdr h) @ le64 (rg_val_len h)"

definition dec_get_res :: "bytes \<Rightarrow> res_get_hdr" where
  "dec_get_res bs = \<lparr>rg_hdr = dec_res (take 16 bs), rg_val_len = of_le (take 8 (drop 16 bs))\<rparr>"

lemmas hdr_size_defs = REQ_HDR_SIZE_def RES_HDR_SIZE_def RES_GET_HDR_SIZE_def
lemmas op_defs = OP_NOP_def OP_PUT_def OP_GET_def OP_DEL_def

lemma length_enc_net [simp]:
  "length (enc_req h) = REQ_HDR_SIZE" "length (enc_res r) = RES_HDR_SIZE" "length (enc_get_res g) = RES_GET_HDR_SIZE"
  by (simp_all add: enc_req_def enc_res_def enc_get_res_def hdr_size_defs)

lemma dec_enc_net [simp]:
  "dec_req (enc_req h) = h" "dec_res (enc_res r) = r" "dec_get_res (enc_get_res g) = g"
  by (simp_all add: dec_req_def enc_req_def dec_res_def enc_res_def dec_get_res_def enc_get_res_def)

lemma enc_dec_req:
  assumes "length bs = REQ_HDR_SIZE"
  shows "enc_req (dec_req bs) = bs"
proof -
  have "le32 (of_le (take 4 bs)) = take 4 bs" "le32 (of_le (take 4 (drop 4 bs))) = take 4 (drop 4 bs)"
    "le64 (of_le (take 8 (drop 8 bs))) = take 8 (drop 8 bs)" "le32 (of_le (take 4 (drop 16 bs))) = take 4 (drop 16 bs)"
    "le32 (of_le (take 4 (drop 20 bs))) = take 4 (drop 20 bs)"
    using le_bytes_of_le [of "take 4 bs", where 'a = 32] le_bytes_of_le [of "take 4 (drop 4 bs)", where 'a = 32]
      le_bytes_of_le [of "take 8 (drop 8 bs)", where 'a = 64] le_bytes_of_le [of "take 4 (drop 16 bs)", where 'a = 32]
      le_bytes_of_le [of "take 4 (drop 20 bs)", where 'a = 32] assms by (simp_all add: le32_def le64_def hdr_size_defs)
  moreover have "bs = take 4 bs @ take 4 (drop 4 bs) @ take 8 (drop 8 bs) @ take 4 (drop 16 bs) @ take 4 (drop 20 bs)"
    using append_take_drop_id [of 4 bs] append_take_drop_id [of 4 "drop 4 bs"] append_take_drop_id [of 8 "drop 8 bs"]
      append_take_drop_id [of 4 "drop 16 bs"] assms by (simp add: hdr_size_defs)
  ultimately show ?thesis by (simp add: enc_req_def dec_req_def)
qed

text \<open>Different return codes have different numbers, and only success is 0.\<close>

lemma errno_num_inj: "errno_num a = errno_num b \<longleftrightarrow> a = b"
  by (cases a; cases b) (simp_all add: errno_num_def)

lemma errno_num_0 [simp]: "errno_num E_OK = 0" "errno_num a = 0 \<longleftrightarrow> a = E_OK"
  using errno_num_inj [of a E_OK] by (simp_all add: errno_num_def)

lemma mk_req_simps [simp]:
  "rq_op (mkGET j i k) = OP_GET" "rq_id (mkGET j i k) = i" "rq_key_len (mkGET j i k) = k" "req_verify_magic (mkGET j i k)"
  "rq_op (mkPUT i k v) = OP_PUT" "rq_id (mkPUT i k v) = i" "rq_key_len (mkPUT i k v) = k" "rq_val_len (mkPUT i k v) = v"
  "req_verify_magic (mkPUT i k v)" "rq_op (mkNOP j l i) = OP_NOP" "rq_id (mkNOP j l i) = i" "req_verify_magic (mkNOP j l i)"
  by (simp_all add: mkGET_def mkPUT_def mkNOP_def req_verify_magic_def)

lemma mk_res_simps [simp]:
  "res_verify_magic (mk_res e i)" "rs_id (mk_res e i) = i" "rs_error (mk_res e i) = e"
  "rg_hdr (mk_get_res e i n) = mk_res e i" "rg_val_len (mk_get_res e i n) = n"
  by (simp_all add: mk_res_def mk_get_res_def res_verify_magic_def)

lemma body_len_mk:
  "body_len (mkGET j i k) = Some (unat k)" "body_len (mkNOP j l i) = Some 0"
  "unat k + unat v < 2 ^ 32 \<Longrightarrow> body_len (mkPUT i k v) = Some (unat k + unat v)"
  using unat_add_no_wrap [of k v] by (simp_all add: body_len_def op_defs)

end
