(* ===== verification/Net_Conn.thy ===== *)
theory Net_Conn
  imports MC_Conn Mbuff_Read
begin

section \<open>Mbuffs and connections (\<^verbatim>\<open>mbuff.hh\<close>, \<^verbatim>\<open>sys-helpers.hh\<close>)\<close>

text \<open>
  A client receives into an Mbuff and sends from one.  Both loops work chunk by chunk, each chunk
  with the \<open>recv_full\<close> and \<open>send_full\<close> of the connections.
\<close>

text \<open>
  The callback of \<open>append_recv\<close>.  Its captured state is the connection, the number of bytes that
  remain, and the outcome of the last \<open>recv_full\<close>: \<open>E_OK\<close>, or the value of \<^verbatim>\<open>errno\<close> when the
  result was -1.
\<close>

definition recv_fn :: "(conn \<times> nat \<times> errno) chunk_fn" where
  "recv_fn s c =
     (case s of (con, remaining, recv_err) \<Rightarrow>
        let recv_len = min remaining (length c) in
        if recv_len = 0 then (s, c, 0)
        else case recv_full recv_len con of (con1, rc, ds) \<Rightarrow>
               ((con1, remaining - length ds, rc), ds @ drop (length ds) c, length ds))"

text \<open>
  \<open>append_recv\<close> reads the variable \<^verbatim>\<open>recv_err\<close> after the loop, and only a call of \<open>recv_full\<close>
  sets it: for a size of 0 it still is what the stack held, the argument \<open>uninit\<close>.
\<close>

definition append_recv :: "errno \<Rightarrow> nat \<Rightarrow> mbuff \<Rightarrow> conn \<Rightarrow> (conn \<times> errno \<times> mbuff) option" where
  "append_recv uninit sz m con =
     (if append_avail_size m < sz then Some (con, ENOMEM, m)
      else case mb_append recv_fn (con, sz, uninit) m of
             None \<Rightarrow> None
           | Some ((con1, remaining, recv_err), m1) \<Rightarrow>
               Some (con1, if recv_err \<noteq> E_OK then recv_err else if remaining \<noteq> 0 then ECONNRESET else E_OK, m1))"

text \<open>\<open>send\<close> of an Mbuff: \<open>e\<close> is the value of \<^verbatim>\<open>errno\<close> after a call of \<^verbatim>\<open>send\<close> that failed.\<close>

function send_iter :: "errno \<Rightarrow> iter \<Rightarrow> nat \<Rightarrow> conn \<Rightarrow> (conn \<times> errno) option" where
  "send_iter e it len con =
     (if \<not> iter_valid it then Some (con, if len \<noteq> 0 then EINVAL else E_OK)
      else case send_full (i_chunk it) con of
        (con1, ok, data_sent) \<Rightarrow>
          if \<not> ok then Some (con1, e)
          else case iter_next it of None \<Rightarrow> None | Some it1 \<Rightarrow> send_iter e it1 (len - data_sent) con1)"
  by pat_completeness auto
termination by (relation "measure (\<lambda>(e, it, _). length (i_nodes it))") (auto dest: iter_next_less)

declare send_iter.simps [simp del]

definition mb_send :: "errno \<Rightarrow> nat \<Rightarrow> nat \<Rightarrow> mbuff \<Rightarrow> conn \<Rightarrow> (conn \<times> errno) option" where
  "mb_send e off len m con =
     (case iterate_valid_init off len m of
        None \<Rightarrow> None
      | Some (err, it) \<Rightarrow> if err \<noteq> E_OK then Some (con, EINVAL) else send_iter e it len con)"

subsection \<open>Streams\<close>

text \<open>
  What a connection delivers, as a stream of bytes up to the first error.  An empty piece would
  be the end of the stream, so a connection that is alive has none.
\<close>

fun rx_bytes :: "rcv list \<Rightarrow> bytes" where
  "rx_bytes (Rcv d # r) = d @ rx_bytes r"
| "rx_bytes _ = []"

definition rx_data :: "conn \<Rightarrow> bytes" where "rx_data c = rx_bytes (cn_rx c)"

definition rx_live :: "conn \<Rightarrow> bool" where "rx_live c \<longleftrightarrow> Rcv [] \<notin> set (cn_rx c)"

lemma con_recv_live:
  assumes "rx_live c" "rx_data c \<noteq> []" "0 < n"
  shows "\<exists>r d. con_recv n c = (c\<lparr>cn_rx := r\<rparr>, Inr d) \<and> d \<noteq> [] \<and> length d \<le> n \<and> rx_data c = d @ rx_bytes r \<and> Rcv [] \<notin> set r"
proof -
  obtain d r where c: "cn_rx c = Rcv d # r" using assms(2) by (cases "cn_rx c" rule: rx_bytes.cases) (auto simp: rx_data_def)
  have d: "d \<noteq> []" "Rcv [] \<notin> set r" using assms(1) c by (auto simp: rx_live_def)
  have data: "rx_data c = d @ rx_bytes r" by (simp add: rx_data_def c)
  show ?thesis
  proof (cases "length d \<le> n")
    case True
    then have "con_recv n c = (c\<lparr>cn_rx := r\<rparr>, Inr d)" using c by (simp add: con_recv_def)
    then show ?thesis using d data True by blast
  next
    case False
    then have "con_recv n c = (c\<lparr>cn_rx := Rcv (drop n d) # r\<rparr>, Inr (take n d))" using c by (simp add: con_recv_def)
    moreover have "take n d \<noteq> []" "length (take n d) \<le> n" "rx_data c = take n d @ rx_bytes (Rcv (drop n d) # r)"
      "Rcv [] \<notin> set (Rcv (drop n d) # r)"
      using d assms(3) False data by auto
    ultimately show ?thesis by blast
  qed
qed

lemma recv_full_live:
  assumes "rx_live c" "n \<le> length (rx_data c)"
  shows "\<exists>r. recv_full n c = (c\<lparr>cn_rx := r\<rparr>, E_OK, take n (rx_data c)) \<and> rx_bytes r = drop n (rx_data c) \<and> Rcv [] \<notin> set r"
  using assms
proof (induction n arbitrary: c rule: less_induct)
  case (less n)
  show ?case
  proof (cases "n = 0")
    case True
    have "c\<lparr>cn_rx := cn_rx c\<rparr> = c" by simp
    then show ?thesis using True less.prems by (intro exI [of _ "cn_rx c"]) (simp add: recv_full.simps rx_data_def rx_live_def)
  next
    case False
    then have "rx_data c \<noteq> []" using less.prems by auto
    then obtain r d where r: "con_recv n c = (c\<lparr>cn_rx := r\<rparr>, Inr d)" "d \<noteq> []" "length d \<le> n" "rx_data c = d @ rx_bytes r" "Rcv [] \<notin> set r"
      using con_recv_live [OF less.prems(1)] False by blast
    let ?c = "c\<lparr>cn_rx := r\<rparr>"
    have "n - length d < n" "rx_live ?c" "n - length d \<le> length (rx_data ?c)"
      using r False less.prems(2) by (auto simp: rx_live_def rx_data_def)
    then obtain r' where r': "recv_full (n - length d) ?c = (?c\<lparr>cn_rx := r'\<rparr>, E_OK, take (n - length d) (rx_data ?c))"
      "rx_bytes r' = drop (n - length d) (rx_data ?c)" "Rcv [] \<notin> set r'" using less.IH by blast
    have "rx_data ?c = rx_bytes r" by (simp add: rx_data_def)
    then show ?thesis using r r' False by (intro exI [of _ r']) (simp add: recv_full.simps [of n c])
  qed
qed

subsection \<open>Receiving into an Mbuff\<close>

text \<open>
  On a connection that delivers enough, the callback writes the next bytes of the stream \<open>data\<close>;
  the rest of the connection is untouched.
\<close>

definition recv_ok :: "conn \<Rightarrow> nat \<Rightarrow> errno \<Rightarrow> conn \<times> nat \<times> errno \<Rightarrow> bool" where
  "recv_ok con0 sz e0 = (\<lambda>(con, remaining, e). (\<exists>r. con = con0\<lparr>cn_rx := r\<rparr>) \<and> rx_live con \<and> sz \<le> length (rx_data con0)
     \<and> remaining \<le> sz \<and> rx_data con = drop (sz - remaining) (rx_data con0) \<and> e = (if remaining < sz then E_OK else e0))"

interpretation arecv: chunk_writer recv_fn "\<lambda>(con, remaining, e). take remaining (rx_data con)" "recv_ok con0 sz e0"
  for con0 sz e0
proof unfold_locales
  fix s c s' c' n
  assume ok: "recv_ok con0 sz e0 s" and f: "recv_fn s c = (s', c', n)"
  obtain con rem e where s: "s = (con, rem, e)" by (cases s)
  obtain r0 where o: "con = con0\<lparr>cn_rx := r0\<rparr>" "rx_live con" "sz \<le> length (rx_data con0)" "rem \<le> sz"
    "rx_data con = drop (sz - rem) (rx_data con0)" "e = (if rem < sz then E_OK else e0)" using ok by (auto simp: recv_ok_def s)
  let ?n = "min rem (length c)"
  have "?n \<le> length (rx_data con)" "rem \<le> length (rx_data con)" using o(3-5) by auto
  then obtain r where r: "recv_full ?n con = (con\<lparr>cn_rx := r\<rparr>, E_OK, take ?n (rx_data con))" "rx_bytes r = drop ?n (rx_data con)" "Rcv [] \<notin> set r"
    and le: "length (take ?n (rx_data con)) = ?n" "length (take rem (rx_data con)) = rem"
    using recv_full_live [OF o(2)] by fastforce
  have "recv_ok con0 sz e0 s' \<and> n = ?n \<and> length c' = length c \<and> take n c' = take n (rx_data con)
      \<and> (case s' of (con', rem', e') \<Rightarrow> take rem' (rx_data con') = drop n (take rem (rx_data con)))"
  proof (cases "?n = 0")
    case True
    then have "s' = s" "c' = c" "n = 0" using f by (auto simp: recv_fn_def s Let_def)
    then show ?thesis using True ok by (simp add: s)
  next
    case False
    then have x: "s' = (con\<lparr>cn_rx := r\<rparr>, rem - ?n, E_OK)" "c' = take ?n (rx_data con) @ drop ?n c" "n = ?n"
      using f r(1) le(1) unfolding recv_fn_def s Let_def prod.case if_not_P [OF False] by auto
    have lt: "rem - ?n < sz" using False o(4) by linarith
    have "sz - (rem - ?n) = ?n + (sz - rem)" using o(4) by auto
    then have "drop ?n (rx_data con) = drop (sz - (rem - ?n)) (rx_data con0)" by (simp add: o(5))
    moreover have "rx_data (con\<lparr>cn_rx := r\<rparr>) = drop ?n (rx_data con)" by (simp add: rx_data_def r(2) del: drop_drop)
    ultimately have "recv_ok con0 sz e0 s'" using o(1,3,4) r(3) lt by (auto simp: recv_ok_def x rx_live_def)
    moreover have "length c' = length c" using le(1) by (simp add: x)
    ultimately show ?thesis using le(1) by (simp add: x take_drop r(2) rx_data_def del: drop_drop)
  qed
  then show "recv_ok con0 sz e0 s' \<and> chunk_ok c c' n \<and> n = min (length (case s of (con, remaining, e) \<Rightarrow> take remaining (rx_data con))) (length c)"
    "take n c' = take n (case s of (con, remaining, e) \<Rightarrow> take remaining (rx_data con))
      \<and> (case s' of (con, remaining, e) \<Rightarrow> take remaining (rx_data con)) = drop n (case s of (con, remaining, e) \<Rightarrow> take remaining (rx_data con))"
    using le(2) by (auto simp: chunk_ok_def s min_def)
qed

lemma append_recv_ok:
  assumes inv: "mb_inv m" and live: "rx_live con" and fits: "sz \<le> length (rx_data con)" "sz \<le> append_avail_size m"
    and un: "sz = 0 \<Longrightarrow> uninit = E_OK"
  shows "\<exists>r m'. append_recv uninit sz m con = Some (con\<lparr>cn_rx := r\<rparr>, E_OK, m') \<and> mb_inv m' \<and> mb_data m' = mb_data m @ take sz (rx_data con)
    \<and> rx_bytes r = drop sz (rx_data con) \<and> Rcv [] \<notin> set r"
proof -
  have "con\<lparr>cn_rx := cn_rx con\<rparr> = con" by simp
  then have "recv_ok con sz uninit (con, sz, uninit)" using live fits by (auto simp: recv_ok_def intro: exI [of _ "cn_rx con"])
  then obtain con' rem e m' where a: "mb_append recv_fn (con, sz, uninit) m = Some ((con', rem, e), m')" "mb_inv m'"
      "recv_ok con sz uninit (con', rem, e)" "mb_data m' = mb_data m @ take (append_avail_size m) (take sz (rx_data con))"
      "take rem (rx_data con') = drop (append_avail_size m) (take sz (rx_data con))"
    using arecv.append_writes [OF inv, of con sz uninit "(con, sz, uninit)"] by auto
  obtain r where o: "con' = con\<lparr>cn_rx := r\<rparr>" "rx_live con'" "rem \<le> sz" "rx_data con' = drop (sz - rem) (rx_data con)" "e = (if rem < sz then E_OK else uninit)"
    using a(3) by (auto simp: recv_ok_def)
  have "take rem (rx_data con') = []" using a(5) fits by simp
  moreover have "rem \<le> length (rx_data con')" using o(3,4) fits(1) by simp
  ultimately have rem: "rem = 0" by (cases rem) auto
  then have "e = E_OK" using o(5) un by (cases "sz = 0") auto
  then show ?thesis using a o rem fits by (intro exI [of _ r] exI [of _ m']) (simp add: append_recv_def rx_data_def rx_live_def)
qed

subsection \<open>Sending from an Mbuff\<close>

lemma send_full_clear: "cn_tx c = [] \<Longrightarrow> send_full msg c = (c\<lparr>cn_out := cn_out c @ msg\<rparr>, True, length msg)"
  by (simp add: send_full.simps)

lemma sendv_full_clear: "cn_tx c = [] \<Longrightarrow> sendv_full msg c = (c\<lparr>cn_out := cn_out c @ msg\<rparr>, Some (length msg))"
  by (simp add: sendv_full.simps)

lemma send_iter_ok:
  assumes "iter_ok it" "cn_tx con = []"
  shows "send_iter e it (i_len it) con = Some (con\<lparr>cn_out := cn_out con @ iter_rest it\<rparr>, E_OK)"
  using assms
proof (induction "length (i_nodes it)" arbitrary: it con rule: less_induct)
  case less
  show ?case
  proof (cases "iter_valid it")
    case False
    then show ?thesis using less.prems by (simp add: send_iter.simps [of e it] iter_valid_def iter_ok_def iter_rest_def)
  next
    case True
    obtain it' where n: "iter_next it = Some it'" "iter_ok it'" "iter_rest it = i_chunk it @ iter_rest it'"
      using iter_next_ok [OF less.prems(1) True] by auto
    have l: "length (iter_rest it) = i_len it" "length (iter_rest it') = i_len it'" using less.prems n(2) by (simp_all add: iter_ok_def)
    have "i_len it - length (i_chunk it) = i_len it'" using l n(3) by simp
    then show ?thesis using less.hyps [OF iter_next_less [OF n(1)] n(2)] True n(1,3) less.prems(2)
      by (simp add: send_iter.simps [of e it] send_full_clear)
  qed
qed

lemma mb_send_ok:
  assumes "mb_inv m" "mb_valid_size m < 2 ^ 64" "cn_tx con = []"
  shows "mb_send e 0 (mb_valid_size m) m con = Some (con\<lparr>cn_out := cn_out con @ mb_data m\<rparr>, E_OK)"
proof -
  obtain it where i: "iterate_valid_init 0 (mb_valid_size m) m = Some (E_OK, it)" "iter_ok it" "i_len it = mb_valid_size m"
    "iter_rest it = take (mb_valid_size m) (drop 0 (mb_data m))" using iterate_valid_init_ok [OF assms(1) _ assms(2), of 0] by auto
  show ?thesis using send_iter_ok [OF i(2) assms(3)] i length_mb_data [OF assms(1)] by (simp add: mb_send_def)
qed

end
