(* ===== verification/Net_Serve.thy ===== *)
theory Net_Serve
  imports Net_Wire Net_Conn
begin

section \<open>Serving a request (\<^verbatim>\<open>serve-kv-request.cc\<close>)\<close>

text \<open>
  The server runs on any store behind the \<^verbatim>\<open>KV_MbuffInterface\<close>.  The environment holds its
  operations (get; put of a key and a value in one buffer, with the size of the key) and what the
  run of the server meets: the free space \<open>ne_iov\<close> of the request buffer that the first receive
  covers, the free space \<open>ne_avail n\<close> after \<^verbatim>\<open>mbuff_add_buffers\<close> was asked for \<open>n\<close> bytes, whether
  the array for a long reply can be allocated, the value of \<^verbatim>\<open>errno\<close> after a send that failed, and
  the contents of a variable that is read before it is set.
\<close>

record 's net_env =
  ne_get :: "bytes \<Rightarrow> 's \<Rightarrow> ('s \<times> errno \<times> bytes) option"
  ne_put :: "bytes \<Rightarrow> nat \<Rightarrow> 's \<Rightarrow> ('s \<times> errno) option"
  ne_prefix :: nat
  ne_suffix :: nat
  ne_junk :: u8
  ne_iov :: nat
  ne_avail :: "nat \<Rightarrow> nat"
  ne_iovec_mem :: bool
  ne_errno :: errno
  ne_uninit :: errno

record 's srv =
  sv_con :: conn
  sv_kv :: 's

text \<open>
  \<open>recv_request\<close> receives the header and as much of the body as there is with one call, checks
  the header, and receives the rest of the body.  \<open>body\<close> is the request buffer, which already
  holds the room for the prefix of a record.  The result is an error, or the header and the
  buffer; \<open>None\<close> is the \<^verbatim>\<open>abort\<close> of \<open>body_len\<close>.
\<close>

definition recv_request :: "'s net_env \<Rightarrow> bytes \<Rightarrow> conn \<Rightarrow> (conn \<times> (errno + req_hdr \<times> bytes)) option" where
  "recv_request env body con =
     (case con_recv (REQ_HDR_SIZE + ne_iov env) con of
        (c1, Inl e) \<Rightarrow> Some (c1, Inl e)
      | (c1, Inr d) \<Rightarrow>
          if length d < REQ_HDR_SIZE then Some (c1, Inl ECONNRESET)
          else
            let h = dec_req (take REQ_HDR_SIZE d); body1 = body @ drop REQ_HDR_SIZE d; received = length d - REQ_HDR_SIZE in
            if \<not> req_verify_magic h then
              Some (fst (send_full (enc_res (mk_res (errno_num EBADMSG) 0)) c1), Inl EBADMSG)
            else case body_len h of
              None \<Rightarrow> None
            | Some blen \<Rightarrow>
                if blen < received then Some (c1, Inl EBADMSG)
                else if received < blen then
                  (case recv_append_to_mbuff (ne_uninit env) (ne_avail env (length body + blen)) body1 (blen - received) c1 of
                     (c2, rc, body2) \<Rightarrow> Some (c2, if rc \<noteq> E_OK then Inl rc else Inr (h, body2)))
                else Some (c1, Inr (h, body1)))"

definition send_get_responose :: "'s net_env \<Rightarrow> res_get_hdr \<Rightarrow> bytes \<Rightarrow> conn \<Rightarrow> conn \<times> errno" where
  "send_get_responose env h val con =
     (if rg_val_len h = 0 then
        (case send_full (enc_get_res h) con of (c1, ok, _) \<Rightarrow> (c1, if ok then E_OK else ne_errno env))
      else if \<not> ne_iovec_mem env then (con, ENOMEM)
      else case sendv_full (enc_get_res h @ val) con of (c1, r) \<Rightarrow> (c1, if r = None then ne_errno env else E_OK))"

definition send_res :: "'s net_env \<Rightarrow> errno \<Rightarrow> u64 \<Rightarrow> 's srv \<Rightarrow> 's srv \<times> errno" where
  "send_res env res rid s =
     (case send_full (enc_res (mk_res (errno_num res) rid)) (sv_con s) of
        (c1, ok, _) \<Rightarrow> (s\<lparr>sv_con := c1\<rparr>, if ok then E_OK else ne_errno env))"

definition serve_kv_request :: "'s net_env \<Rightarrow> 's srv \<Rightarrow> ('s srv \<times> errno) option" where
  "serve_kv_request env s =
     (case recv_request env (replicate (ne_prefix env) (ne_junk env)) (sv_con s) of
        None \<Rightarrow> None
      | Some (c1, Inl e) \<Rightarrow> Some (s\<lparr>sv_con := c1\<rparr>, e)
      | Some (c1, Inr (h, buff)) \<Rightarrow>
          (case body_len h of
             None \<Rightarrow> None
           | Some blen \<Rightarrow>
               let s1 = s\<lparr>sv_con := c1\<rparr>; body = take blen (drop (ne_prefix env) buff) in
               if rq_op h = OP_NOP then Some (send_res env E_OK (rq_id h) s1)
               else if rq_op h = OP_PUT then
                 (case ne_put env body (unat (rq_key_len h)) (sv_kv s1) of
                    None \<Rightarrow> None
                  | Some (kv, ret) \<Rightarrow> Some (send_res env ret (rq_id h) (s1\<lparr>sv_kv := kv\<rparr>)))
               else if rq_op h = OP_GET then
                 (case ne_get env body (sv_kv s1) of
                    None \<Rightarrow> None
                  | Some (kv, op_err, val) \<Rightarrow>
                      (case send_get_responose env
                              (mk_get_res (errno_num op_err) (rq_id h) (if op_err \<noteq> E_OK then 0 else of_nat (length val))) val (sv_con s1) of
                         (c2, rc) \<Rightarrow> Some (s1\<lparr>sv_kv := kv, sv_con := c2\<rparr>, rc)))
               else if rq_op h = OP_DEL then Some (s1, ENOTSUP)
               else Some (s1, EINVAL)))"

text \<open>
  The earlier version of the server, kept in the file, receives the header and the body with one
  \<open>recv_full\<close> each and sends the value of a get after its header.
\<close>

definition two_recvs_get :: "'s net_env \<Rightarrow> req_hdr \<Rightarrow> 's srv \<Rightarrow> ('s srv \<times> errno) option" where
  "two_recvs_get env h s =
     (let klen = unat (rq_key_len h) in
      case recv_append_to_mbuff (ne_uninit env) (ne_avail env klen) [] klen (sv_con s) of
        (c1, err, key) \<Rightarrow>
          if err \<noteq> E_OK then Some (s\<lparr>sv_con := c1\<rparr>, err)
          else case ne_get env key (sv_kv s) of
            None \<Rightarrow> None
          | Some (kv, ret, val) \<Rightarrow>
              (case send_full (enc_get_res (mk_get_res (errno_num ret) (rq_id h) (of_nat (length val)))) c1 of
                 (c2, ok, _) \<Rightarrow>
                   if \<not> ok then Some (s\<lparr>sv_con := c2, sv_kv := kv\<rparr>, ne_errno env)
                   else case send_full val c2 of
                     (c3, ok3, _) \<Rightarrow> Some (s\<lparr>sv_con := c3, sv_kv := kv\<rparr>, if ok3 then E_OK else ne_errno env)))"

definition two_recvs_put :: "'s net_env \<Rightarrow> req_hdr \<Rightarrow> 's srv \<Rightarrow> ('s srv \<times> errno) option" where
  "two_recvs_put env h s =
     (let body_size = unat (rq_key_len h + rq_val_len h); size1 = ne_prefix env + body_size + ne_suffix env in
      case recv_append_to_mbuff (ne_uninit env) (ne_avail env size1 - ne_prefix env) (replicate (ne_prefix env) (ne_junk env)) body_size (sv_con s) of
        (c1, err, buff) \<Rightarrow>
          if err \<noteq> E_OK then Some (s\<lparr>sv_con := c1\<rparr>, err)
          else case ne_put env (take body_size (drop (ne_prefix env) buff)) (unat (rq_key_len h)) (sv_kv s) of
            None \<Rightarrow> None
          | Some (kv, ret) \<Rightarrow> Some (send_res env ret (rq_id h) (s\<lparr>sv_con := c1, sv_kv := kv\<rparr>)))"

definition serve_kv_request_two_recvs :: "'s net_env \<Rightarrow> 's srv \<Rightarrow> ('s srv \<times> errno) option" where
  "serve_kv_request_two_recvs env s =
     (case recv_full REQ_HDR_SIZE (sv_con s) of
        (c1, err, bs) \<Rightarrow>
          let s1 = s\<lparr>sv_con := c1\<rparr>; h = dec_req bs in
          if err \<noteq> E_OK then Some (s1, if bs = [] then ECONNRESET else err)
          else if \<not> req_verify_magic h then Some (send_res env EBADMSG 0 s1)
          else if rq_op h = OP_NOP then Some (send_res env E_OK (rq_id h) s1)
          else if rq_op h = OP_PUT then two_recvs_put env h s1
          else if rq_op h = OP_GET then two_recvs_get env h s1
          else if rq_op h = OP_DEL then None
          else Some (s1, E_OK))"

text \<open>
  \<open>recv_from_client\<close> of the server: any error closes the connection of the client (the flag), and
  the end of the stream is not reported as an error.
\<close>

definition recv_from_client :: "'s net_env \<Rightarrow> 's srv \<Rightarrow> ('s srv \<times> bool \<times> errno) option" where
  "recv_from_client env s =
     map_option (\<lambda>(s1, err). (s1, err \<noteq> E_OK, if err = ECONNRESET then E_OK else err)) (serve_kv_request env s)"

subsection \<open>Receiving a request\<close>

text \<open>
  A request that reaches the server: the header is in the first piece, the pieces make up the
  header and the body and nothing else, and there is memory for the body.
\<close>

definition request_arrives :: "'s net_env \<Rightarrow> req_hdr \<Rightarrow> bytes \<Rightarrow> conn \<Rightarrow> bool" where
  "request_arrives env h body con \<longleftrightarrow> rx_live con \<and> rx_data con = enc_req h @ body
     \<and> (case cn_rx con of Rcv d # _ \<Rightarrow> REQ_HDR_SIZE \<le> length d | _ \<Rightarrow> False) \<and> (\<forall>n. n - ne_prefix env \<le> ne_avail env n)"

lemma recv_request_ok:
  assumes r: "request_arrives env h body con" and h: "req_verify_magic h" "body_len h = Some (length body)" and b: "length b0 = ne_prefix env"
  shows "\<exists>r. recv_request env b0 con = Some (con\<lparr>cn_rx := r\<rparr>, Inr (h, b0 @ body)) \<and> rx_bytes r = []"
proof -
  obtain d r where c: "cn_rx con = Rcv d # r" "REQ_HDR_SIZE \<le> length d" "Rcv [] \<notin> set r" "d @ rx_bytes r = enc_req h @ body"
    and av: "\<forall>n. n - ne_prefix env \<le> ne_avail env n"
    using r by (auto simp: request_arrives_def rx_data_def rx_live_def split: list.splits rcv.splits)
  define n where "n = min (length d) (REQ_HDR_SIZE + ne_iov env)"
  define r1 where "r1 = (if length d \<le> REQ_HDR_SIZE + ne_iov env then r else Rcv (drop n d) # r)"
  have rc: "con_recv (REQ_HDR_SIZE + ne_iov env) con = (con\<lparr>cn_rx := r1\<rparr>, Inr (take n d))"
    by (simp add: con_recv_def c(1) n_def r1_def min_def)
  have n: "REQ_HDR_SIZE \<le> n" "n \<le> length d" using c(2) by (simp_all add: n_def)
  have r1: "Rcv [] \<notin> set r1" "rx_bytes r1 = drop n d @ rx_bytes r" using c(3) by (auto simp: r1_def n_def min_def)
  have hd: "take REQ_HDR_SIZE (take n d) = enc_req h"
    using arg_cong [OF c(4), of "take REQ_HDR_SIZE"] c(2) n by (simp add: min_def)
  have tl: "drop REQ_HDR_SIZE (take n d) @ rx_bytes r1 = body"
  proof -
    have "take n d @ rx_bytes r1 = enc_req h @ body" unfolding r1(2) by (simp add: c(4) [symmetric])
    from arg_cong [OF this, of "drop REQ_HDR_SIZE"] show ?thesis using n by simp
  qed
  have l: "length (take n d) - REQ_HDR_SIZE + length (rx_bytes r1) = length body" using arg_cong [OF tl, of length] by simp
  have live: "rx_live (con\<lparr>cn_rx := r1\<rparr>)" "rx_data (con\<lparr>cn_rx := r1\<rparr>) = rx_bytes r1" using r1(1) by (simp_all add: rx_live_def rx_data_def)
  show ?thesis
  proof (cases "rx_bytes r1 = []")
    case True
    then have "drop REQ_HDR_SIZE (take n d) = body" "length (take n d) - REQ_HDR_SIZE = length body" using tl l by simp_all
    then show ?thesis using rc hd h n True by (intro exI [of _ r1]) (simp add: recv_request_def)
  next
    case False
    obtain r' where r': "recv_full (length (rx_bytes r1)) (con\<lparr>cn_rx := r1\<rparr>) = (con\<lparr>cn_rx := r'\<rparr>, E_OK, rx_bytes r1)" "rx_bytes r' = []"
      using recv_full_live [OF live(1), of "length (rx_bytes r1)"] live(2) by auto
    have "length (rx_bytes r1) \<le> ne_avail env (length b0 + length body)"
      using av [rule_format, of "length b0 + length body"] l b by simp
    then have "recv_append_to_mbuff (ne_uninit env) (ne_avail env (length b0 + length body)) (b0 @ drop REQ_HDR_SIZE (take n d)) (length (rx_bytes r1)) (con\<lparr>cn_rx := r1\<rparr>)
        = (con\<lparr>cn_rx := r'\<rparr>, E_OK, b0 @ body)" using r' False tl by (simp add: recv_append_to_mbuff_def)
    moreover have "length body - (length (take n d) - REQ_HDR_SIZE) = length (rx_bytes r1)" "length (take n d) - REQ_HDR_SIZE < length body"
      using l False by (cases "rx_bytes r1"; simp)+
    ultimately show ?thesis using rc hd h n r'(2) by (intro exI [of _ r']) (simp add: recv_request_def)
  qed
qed
subsection \<open>What the server does and answers\<close>

definition answered :: "bytes \<Rightarrow> rcv list \<Rightarrow> 's \<Rightarrow> 's srv \<Rightarrow> 's srv" where
  "answered msg r kv s = s\<lparr>sv_con := (sv_con s)\<lparr>cn_rx := r, cn_out := cn_out (sv_con s) @ msg\<rparr>, sv_kv := kv\<rparr>"

lemma answered_simps [simp]:
  "cn_out (sv_con (answered msg r kv s)) = cn_out (sv_con s) @ msg" "cn_tx (sv_con (answered msg r kv s)) = cn_tx (sv_con s)"
  "cn_rx (sv_con (answered msg r kv s)) = r" "sv_kv (answered msg r kv s) = kv"
  by (simp_all add: answered_def)

lemma answered_con: "cn_rx (sv_con s) = [] \<Longrightarrow> answered [] [] (sv_kv s) s = s"
  by (simp add: answered_def)

definition get_reply :: "errno \<Rightarrow> u64 \<Rightarrow> bytes \<Rightarrow> bytes" where
  "get_reply rc rid val = enc_get_res (mk_get_res (errno_num rc) rid (if rc \<noteq> E_OK then 0 else of_nat (length val))) @ (if rc \<noteq> E_OK then [] else val)"

lemma send_res_clear:
  "cn_tx (sv_con s) = [] \<Longrightarrow> send_res env rc rid s = (answered (enc_res (mk_res (errno_num rc) rid)) (cn_rx (sv_con s)) (sv_kv s) s, E_OK)"
  by (simp add: send_res_def send_full_clear answered_def)

lemma put_lens:
  assumes "klen \<le> n" "n < 2 ^ 32"
  shows "unat (of_nat klen :: u32) = klen" "unat (of_nat klen + of_nat (n - klen) :: u32) = n"
proof -
  show "unat (of_nat klen :: u32) = klen" by (rule unat_of_nat_small) (use assms in simp)
  have "of_nat klen + of_nat (n - klen) = (of_nat n :: u32)" using assms(1) by (metis le_add_diff_inverse of_nat_add)
  then show "unat (of_nat klen + of_nat (n - klen) :: u32) = n" using unat_of_nat_small [of n, where 'a = 32] assms(2) by simp
qed

lemma serve_put_ok:
  assumes r: "request_arrives env (mkPUT rid (of_nat klen) (of_nat (length body - klen))) body (sv_con s)" and tx: "cn_tx (sv_con s) = []"
    and l: "klen \<le> length body" "length body < 2 ^ 32" and p: "ne_put env body klen (sv_kv s) = Some (kv, rc)"
  shows "\<exists>r. serve_kv_request env s = Some (answered (enc_res (mk_res (errno_num rc) rid)) r kv s, E_OK) \<and> rx_bytes r = []"
proof -
  let ?h = "mkPUT rid (of_nat klen) (of_nat (length body - klen))"
  note u = put_lens [OF l]
  have bl: "body_len ?h = Some (length body)" using u(2) by (simp add: body_len_def op_defs)
  obtain r where rr: "recv_request env (replicate (ne_prefix env) (ne_junk env)) (sv_con s)
      = Some ((sv_con s)\<lparr>cn_rx := r\<rparr>, Inr (?h, replicate (ne_prefix env) (ne_junk env) @ body))" "rx_bytes r = []"
    using recv_request_ok [OF r _ bl, of "replicate (ne_prefix env) (ne_junk env)"] by auto
  then show ?thesis using p tx bl u(1)
    by (intro exI [of _ r]) (simp add: serve_kv_request_def Let_def send_res_clear op_defs answered_def)
qed

lemma send_get_responose_clear:
  assumes "cn_tx con = []" "ne_iovec_mem env" "length val < 2 ^ 64"
  shows "send_get_responose env (mk_get_res (errno_num rc) rid (if rc \<noteq> E_OK then 0 else of_nat (length val))) val con
     = (con\<lparr>cn_out := cn_out con @ get_reply rc rid val\<rparr>, E_OK)"
proof -
  have "rc = E_OK \<and> val \<noteq> [] \<Longrightarrow> (of_nat (length val) :: u64) \<noteq> 0"
    using assms(3) unat_of_nat_small [of "length val", where 'a = 64] by auto
  then show ?thesis using assms(1,2) by (cases "val = []") (auto simp: send_get_responose_def send_full_clear sendv_full_clear get_reply_def)
qed

lemma serve_get_ok:
  assumes r: "request_arrives env (mkGET j rid (of_nat (length key))) key (sv_con s)" and tx: "cn_tx (sv_con s) = []"
    and l: "length key < 2 ^ 32" "length val < 2 ^ 64" and mem: "ne_iovec_mem env" and g: "ne_get env key (sv_kv s) = Some (kv, rc, val)"
  shows "\<exists>r. serve_kv_request env s = Some (answered (get_reply rc rid val) r kv s, E_OK) \<and> rx_bytes r = []"
proof -
  let ?h = "mkGET j rid (of_nat (length key))"
  have bl: "body_len ?h = Some (length key)" using body_len_mk(1) [of j rid "of_nat (length key)"] l by (simp add: unat_of_nat_small)
  obtain r where rr: "recv_request env (replicate (ne_prefix env) (ne_junk env)) (sv_con s)
      = Some ((sv_con s)\<lparr>cn_rx := r\<rparr>, Inr (?h, replicate (ne_prefix env) (ne_junk env) @ key))" "rx_bytes r = []"
    using recv_request_ok [OF r _ bl, of "replicate (ne_prefix env) (ne_junk env)"] by auto
  have "cn_tx ((sv_con s)\<lparr>cn_rx := r\<rparr>) = []" using tx by simp
  from send_get_responose_clear [OF this mem l(2)] show ?thesis using rr g bl
    by (intro exI [of _ r]) (simp add: serve_kv_request_def Let_def answered_def op_defs)
qed

lemma serve_nop_ok:
  assumes r: "request_arrives env (mkNOP j l rid) [] (sv_con s)" and tx: "cn_tx (sv_con s) = []"
  shows "\<exists>r. serve_kv_request env s = Some (answered (enc_res (mk_res 0 rid)) r (sv_kv s) s, E_OK) \<and> rx_bytes r = []"
proof -
  obtain r where rr: "recv_request env (replicate (ne_prefix env) (ne_junk env)) (sv_con s)
      = Some ((sv_con s)\<lparr>cn_rx := r\<rparr>, Inr (mkNOP j l rid, replicate (ne_prefix env) (ne_junk env) @ []))" "rx_bytes r = []"
    using recv_request_ok [OF r, of "replicate (ne_prefix env) (ne_junk env)"] body_len_mk(2) by auto
  then show ?thesis using tx body_len_mk(2) [of j l rid]
    by (intro exI [of _ r]) (simp add: serve_kv_request_def Let_def send_res_clear answered_def)
qed

text \<open>A first piece that is too short, has the wrong magic number or too many bytes never reaches the store.\<close>

definition bad_first_piece :: "'s net_env \<Rightarrow> bytes \<Rightarrow> bool" where
  "bad_first_piece env d \<longleftrightarrow> length d < REQ_HDR_SIZE \<or> \<not> req_verify_magic (dec_req (take REQ_HDR_SIZE d))
     \<or> (\<exists>n. body_len (dec_req (take REQ_HDR_SIZE d)) = Some n \<and> n < min (length d) (REQ_HDR_SIZE + ne_iov env) - REQ_HDR_SIZE)"

lemma serve_bad_piece:
  assumes "cn_rx (sv_con s) = Rcv d # r" "bad_first_piece env d"
  shows "\<exists>s' rc. serve_kv_request env s = Some (s', rc) \<and> sv_kv s' = sv_kv s \<and> rc \<in> {ECONNRESET, EBADMSG}"
proof -
  define n where "n = min (length d) (REQ_HDR_SIZE + ne_iov env)"
  define r1 where "r1 = (if length d \<le> REQ_HDR_SIZE + ne_iov env then r else Rcv (drop n d) # r)"
  let ?c = "(sv_con s)\<lparr>cn_rx := r1\<rparr>"
  have rc: "con_recv (REQ_HDR_SIZE + ne_iov env) (sv_con s) = (?c, Inr (take n d))"
    by (simp add: con_recv_def assms(1) n_def r1_def min_def)
  let ?h = "dec_req (take REQ_HDR_SIZE d)"
  have tk: "REQ_HDR_SIZE \<le> length d \<Longrightarrow> take REQ_HDR_SIZE (take n d) = take REQ_HDR_SIZE d" and
    ln: "length (take n d) < REQ_HDR_SIZE \<longleftrightarrow> length d < REQ_HDR_SIZE" by (simp_all add: n_def min_def)
  consider "length d < REQ_HDR_SIZE" | "\<not> length d < REQ_HDR_SIZE" "\<not> req_verify_magic ?h"
    | k where "\<not> length d < REQ_HDR_SIZE" "req_verify_magic ?h" "body_len ?h = Some k" "k < n - REQ_HDR_SIZE"
    using assms(2) by (auto simp: bad_first_piece_def n_def)
  then show ?thesis
  proof cases
    case 3
    then have "k < length (take n d) - REQ_HDR_SIZE" by (simp add: n_def)
    then show ?thesis using 3 rc tk ln by (simp add: serve_kv_request_def recv_request_def Let_def)
  qed (use rc tk ln in \<open>simp_all add: serve_kv_request_def recv_request_def Let_def\<close>)
qed

subsection \<open>The fast path against the two receives\<close>

lemma two_recvs_hdr:
  assumes r: "rx_live con" "rx_data con = enc_req h @ body"
  shows "\<exists>r. recv_full REQ_HDR_SIZE con = (con\<lparr>cn_rx := r\<rparr>, E_OK, enc_req h) \<and> rx_bytes r = body \<and> Rcv [] \<notin> set r"
  using recv_full_live [OF r(1), of REQ_HDR_SIZE] r(2) by simp

lemma recv_append_body:
  assumes "Rcv [] \<notin> set r" "rx_bytes r = body" "length body \<le> avail" "body \<noteq> [] \<or> uninit = E_OK"
  shows "\<exists>r'. recv_append_to_mbuff uninit avail pre (length body) (con\<lparr>cn_rx := r\<rparr>) = (con\<lparr>cn_rx := r'\<rparr>, E_OK, pre @ body) \<and> rx_bytes r' = []"
proof (cases "body = []")
  case True
  then show ?thesis using assms by (intro exI [of _ r]) (simp add: recv_append_to_mbuff_def)
next
  case False
  have "rx_live (con\<lparr>cn_rx := r\<rparr>)" "rx_data (con\<lparr>cn_rx := r\<rparr>) = body" using assms by (simp_all add: rx_live_def rx_data_def)
  then obtain r' where "recv_full (length body) (con\<lparr>cn_rx := r\<rparr>) = (con\<lparr>cn_rx := r'\<rparr>, E_OK, body)" "rx_bytes r' = []"
    using recv_full_live [of "con\<lparr>cn_rx := r\<rparr>" "length body"] by auto
  then show ?thesis using assms(3) False by (intro exI [of _ r']) (simp add: recv_append_to_mbuff_def)
qed

lemma two_recvs_put_ok:
  assumes r: "rx_live (sv_con s)" "rx_data (sv_con s) = enc_req (mkPUT rid (of_nat klen) (of_nat (length body - klen))) @ body"
    and tx: "cn_tx (sv_con s) = []" and av: "\<forall>n. n \<le> ne_avail env n" and l: "klen \<le> length body" "length body < 2 ^ 32"
    and p: "ne_put env body klen (sv_kv s) = Some (kv, rc)" and un: "body \<noteq> [] \<or> ne_uninit env = E_OK"
  shows "\<exists>r. serve_kv_request_two_recvs env s = Some (answered (enc_res (mk_res (errno_num rc) rid)) r kv s, E_OK) \<and> rx_bytes r = []"
proof -
  let ?h = "mkPUT rid (of_nat klen) (of_nat (length body - klen))" and ?p = "ne_prefix env"
  note u = put_lens [OF l]
  obtain r1 where r1: "recv_full REQ_HDR_SIZE (sv_con s) = ((sv_con s)\<lparr>cn_rx := r1\<rparr>, E_OK, enc_req ?h)" "rx_bytes r1 = body" "Rcv [] \<notin> set r1"
    using two_recvs_hdr [OF r] by blast
  have "length body \<le> ne_avail env (?p + length body + ne_suffix env) - ?p" using av [rule_format, of "?p + length body + ne_suffix env"] by simp
  then obtain r2 where r2: "recv_append_to_mbuff (ne_uninit env) (ne_avail env (?p + length body + ne_suffix env) - ?p)
      (replicate ?p (ne_junk env)) (length body) ((sv_con s)\<lparr>cn_rx := r1\<rparr>) = ((sv_con s)\<lparr>cn_rx := r2\<rparr>, E_OK, replicate ?p (ne_junk env) @ body)"
    "rx_bytes r2 = []" using recv_append_body [OF r1(3,2) _ un] by blast
  have "two_recvs_put env ?h (s\<lparr>sv_con := (sv_con s)\<lparr>cn_rx := r1\<rparr>\<rparr>)
      = Some (send_res env rc rid (s\<lparr>sv_con := (sv_con s)\<lparr>cn_rx := r2\<rparr>, sv_kv := kv\<rparr>))"
    unfolding two_recvs_put_def Let_def mk_req_simps u using r2(1) p by simp
  then show ?thesis using r1(1) r2(2) tx by (intro exI [of _ r2])
    (simp add: serve_kv_request_two_recvs_def Let_def send_res_clear op_defs answered_def)
qed

lemma two_recvs_get_ok:
  assumes r: "rx_live (sv_con s)" "rx_data (sv_con s) = enc_req (mkGET j rid (of_nat (length key))) @ key"
    and tx: "cn_tx (sv_con s) = []" and av: "\<forall>n. n \<le> ne_avail env n" and l: "length key < 2 ^ 32"
    and g: "ne_get env key (sv_kv s) = Some (kv, rc, val)" "rc \<noteq> E_OK \<Longrightarrow> val = []" and un: "key \<noteq> [] \<or> ne_uninit env = E_OK"
  shows "\<exists>r. serve_kv_request_two_recvs env s = Some (answered (get_reply rc rid val) r kv s, E_OK) \<and> rx_bytes r = []"
proof -
  let ?h = "mkGET j rid (of_nat (length key))"
  have u: "unat (of_nat (length key) :: u32) = length key" using l by (simp add: unat_of_nat_small)
  obtain r1 where r1: "recv_full REQ_HDR_SIZE (sv_con s) = ((sv_con s)\<lparr>cn_rx := r1\<rparr>, E_OK, enc_req ?h)" "rx_bytes r1 = key" "Rcv [] \<notin> set r1"
    using two_recvs_hdr [OF r] by blast
  obtain r2 where r2: "recv_append_to_mbuff (ne_uninit env) (ne_avail env (length key)) [] (length key) ((sv_con s)\<lparr>cn_rx := r1\<rparr>)
      = ((sv_con s)\<lparr>cn_rx := r2\<rparr>, E_OK, key)" "rx_bytes r2 = []" using recv_append_body [OF r1(3,2) av [rule_format] un, where pre = "[]"] by auto
  have "two_recvs_get env ?h (s\<lparr>sv_con := (sv_con s)\<lparr>cn_rx := r1\<rparr>\<rparr>) = Some (answered (get_reply rc rid val) r2 kv s, E_OK)"
    unfolding two_recvs_get_def Let_def mk_req_simps u using r2(1) g tx
    by (cases "rc = E_OK") (simp_all add: send_full_clear answered_def get_reply_def)
  then show ?thesis using r1(1) r2(2) by (intro exI [of _ r2]) (simp add: serve_kv_request_two_recvs_def Let_def op_defs)
qed

end
