(* ===== verification/Mbuff_Alloc.thy ===== *)
theory Mbuff_Alloc
  imports KV_Mbuff
begin

section \<open>Asking for free buffers\<close>

text \<open>
  Callers of \<open>mbuff_add_buffers\<close> name the free size they want in total and look at the free size
  afterwards.  An allocation that succeeds leaves at least what was asked for, and no allocation
  changes the data.
\<close>

lemma mb_new_ok: "mb_inv mb_new" "mb_data mb_new = []" "mb_free_size mb_new = 0" "mb_valid_size mb_new = 0"
  by (simp_all add: mb_new_def mb_inv_def mb_data_def)

lemma mbuff_wanted:
  assumes inv: "mb_inv m" and al: "alloc_sized alloc" and n: "unat n \<le> 2 ^ 63" and f: "mb_free_size m < 2 ^ 64"
  shows "mb_inv (mbuff_add_buffers alloc n m)" "mb_data (mbuff_add_buffers alloc n m) = mb_data m"
    "(\<And>k. alloc k \<noteq> None) \<Longrightarrow> unat n \<le> mb_free_size (mbuff_add_buffers alloc n m)"
proof -
  have uf: "unat (of_nat (mb_free_size m) :: u64) = mb_free_size m" by (rule unat_of_nat_small) (use f in simp)
  have same: "mbuff_add_buffers alloc n m = m" if "unat n \<le> mb_free_size m"
    using that by (simp add: mbuff_add_buffers_def Let_def word_le_nat_alt uf)
  have lt: "mb_free_size m < unat n" if "\<not> unat n \<le> mb_free_size m" using that by simp
  show "mb_inv (mbuff_add_buffers alloc n m)" "mb_data (mbuff_add_buffers alloc n m) = mb_data m"
    using same inv mbuff_add_buffers_ok(1,2) [OF inv al lt n] by (cases "unat n \<le> mb_free_size m"; simp)+
  have nodes: "mb_nodes (mbuff_add_buffers alloc n m) = mb_nodes m"
    by (simp add: mbuff_add_buffers_def Let_def add_buff_def put_free_node_def split: option.split)
  show "unat n \<le> mb_free_size (mbuff_add_buffers alloc n m)" if mem: "\<And>k. alloc k \<noteq> None"
  proof (cases "unat n \<le> mb_free_size m")
    case False
    obtain b where "alloc (align_up (n - of_nat (mb_free_size m)) 4096) = Some b" using mem by blast
    from mbuff_add_buffers_ok(3) [OF inv al lt [OF False] n this] show ?thesis unfolding append_avail_size_def nodes by simp
  qed (simp add: same)
qed

end
