(* ===== verification/Net_Client.thy ===== *)
theory Net_Client
  imports Net_Serve Mbuff_Alloc
begin

section \<open>The client (\<^verbatim>\<open>SocketClient\<close> in \<^verbatim>\<open>socket.cc\<close>)\<close>

text \<open>
  A client is its connection, whether the descriptor is open, and the number of the next request.
  The operations return an \<^verbatim>\<open>int\<close>, a 32-bit number here: 0, an \<^verbatim>\<open>errno\<close> of its own, or the error
  that the server sent.  The environment holds what the client meets: the outcome of the system
  calls of \<open>connect\<close> (\<open>ce_connect k\<close> is the \<open>k\<close>-th attempt) with the connection that results, the
  result of \<^verbatim>\<open>close\<close>, \<^verbatim>\<open>errno\<close> after a send that failed, the memory, and the contents of variables
  and header fields that are used before they are set.
\<close>

record cli_env =
  ce_errno :: errno
  ce_uninit :: errno
  ce_junk :: u32
  ce_junk2 :: u32
  ce_alloc :: buf_alloc
  ce_addr :: bool
  ce_socket :: bool
  ce_sockopt :: bool
  ce_connect :: "nat \<Rightarrow> bool"
  ce_new :: conn
  ce_close :: u32

record sock_cli =
  cl_con :: conn
  cl_open :: bool
  cl_req_id :: u64

definition get_next_reqid :: "sock_cli \<Rightarrow> sock_cli \<times> u64" where
  "get_next_reqid cl = (cl\<lparr>cl_req_id := cl_req_id cl + 1\<rparr>, cl_req_id cl)"

fun connect_retry :: "(nat \<Rightarrow> bool) \<Rightarrow> nat \<Rightarrow> nat \<Rightarrow> bool" where
  "connect_retry attempt k 0 = False"
| "connect_retry attempt k (Suc n) = (attempt k \<or> connect_retry attempt (Suc k) n)"

definition cli_connect :: "cli_env \<Rightarrow> sock_cli \<Rightarrow> sock_cli \<times> u32" where
  "cli_connect env cl =
     (if cl_open cl then (cl, - 1)
      else if \<not> ce_addr env then (cl, - 1)
      else if \<not> ce_socket env then (cl, - 1)
      else if \<not> ce_sockopt env then (cl, - 1)
      else if \<not> connect_retry (ce_connect env) 0 10 then (cl, - 1)
      else (cl\<lparr>cl_con := ce_new env, cl_open := True\<rparr>, 0))"

definition cli_disconnect :: "cli_env \<Rightarrow> sock_cli \<Rightarrow> sock_cli \<times> u32" where
  "cli_disconnect env cl = (if \<not> cl_open cl then (cl, - 1) else (cl\<lparr>cl_open := False\<rparr>, ce_close env))"

definition cli_stop :: "cli_env \<Rightarrow> sock_cli \<Rightarrow> sock_cli \<times> u32" where
  "cli_stop env cl = (if cl_open cl then fst (cli_disconnect env cl) else cl, 0)"

definition recvResHdr :: "u64 \<Rightarrow> conn \<Rightarrow> conn \<times> (errno + res_hdr)" where
  "recvResHdr req_id con =
     (case recv_full RES_HDR_SIZE con of (c1, rc, bs) \<Rightarrow>
        if rc \<noteq> E_OK then (c1, Inl rc)
        else if \<not> res_verify_magic (dec_res bs) then (c1, Inl EBADMSG)
        else if rs_id (dec_res bs) \<noteq> req_id then (c1, Inl EINVAL)
        else (c1, Inr (dec_res bs)))"

definition recvGetResHdr :: "u64 \<Rightarrow> conn \<Rightarrow> conn \<times> (errno + res_get_hdr)" where
  "recvGetResHdr req_id con =
     (case recv_full RES_GET_HDR_SIZE con of (c1, rc, bs) \<Rightarrow>
        if rc \<noteq> E_OK then (c1, Inl rc)
        else if \<not> res_verify_magic (rg_hdr (dec_get_res bs)) then (c1, Inl EBADMSG)
        else if rs_id (rg_hdr (dec_get_res bs)) \<noteq> req_id then (c1, Inl EINVAL)
        else (c1, Inr (dec_get_res bs)))"

definition sendReq :: "cli_env \<Rightarrow> req_hdr \<Rightarrow> mbuff \<Rightarrow> conn \<Rightarrow> (conn \<times> errno) option" where
  "sendReq env h body con =
     (case send_full (enc_req h) con of (c1, ok, _) \<Rightarrow>
        if \<not> ok then Some (c1, ce_errno env) else mb_send (ce_errno env) 0 (mb_valid_size body) body c1)"

text \<open>An error of the protocol closes the connection; an error of the operation at the server does not.\<close>

definition cli_fail :: "cli_env \<Rightarrow> errno \<Rightarrow> sock_cli \<Rightarrow> sock_cli \<times> u32" where
  "cli_fail env e cl = (fst (cli_disconnect env cl), errno_num e)"

definition cli_nop :: "cli_env \<Rightarrow> sock_cli \<Rightarrow> sock_cli \<times> u32" where
  "cli_nop env cl =
     (if \<not> cl_open cl then (cl, errno_num EBADF)
      else case get_next_reqid cl of (cl1, myreqid) \<Rightarrow>
        case send_full (enc_req (mkNOP (ce_junk env) (ce_junk2 env) myreqid)) (cl_con cl1) of (c1, ok, _) \<Rightarrow>
          if \<not> ok then (cl1\<lparr>cl_con := c1\<rparr>, errno_num (ce_errno env))
          else case recvResHdr myreqid c1 of
            (c2, Inl e) \<Rightarrow> cli_fail env e (cl1\<lparr>cl_con := c2\<rparr>)
          | (c2, Inr h) \<Rightarrow> (cl1\<lparr>cl_con := c2\<rparr>, rs_error h))"

definition remote_put :: "cli_env \<Rightarrow> mbuff \<Rightarrow> nat \<Rightarrow> sock_cli \<Rightarrow> (sock_cli \<times> u32) option" where
  "remote_put env keyval key_len cl =
     (if mb_valid_size keyval \<le> key_len then None
      else if \<not> cl_open cl then Some (cl, errno_num EBADF)
      else case get_next_reqid cl of (cl1, myreqid) \<Rightarrow>
        let val_len = mb_valid_size keyval - key_len in
        case sendReq env (mkPUT myreqid (of_nat key_len) (of_nat val_len)) keyval (cl_con cl1) of
          None \<Rightarrow> None
        | Some (c1, err) \<Rightarrow>
            if err \<noteq> E_OK then Some (cli_fail env err (cl1\<lparr>cl_con := c1\<rparr>))
            else case recvResHdr myreqid c1 of
              (c2, Inl e) \<Rightarrow> Some (cli_fail env e (cl1\<lparr>cl_con := c2\<rparr>))
            | (c2, Inr h) \<Rightarrow> Some (cl1\<lparr>cl_con := c2\<rparr>, rs_error h))"

definition remote_get :: "cli_env \<Rightarrow> mbuff \<Rightarrow> mbuff \<Rightarrow> sock_cli \<Rightarrow> (sock_cli \<times> u32 \<times> mbuff) option" where
  "remote_get env key val_out cl =
     (let fail = (\<lambda>e con cl1 v. case cli_fail env e (cl1\<lparr>cl_con := con\<rparr>) of (cl2, r) \<Rightarrow> Some (cl2, r, v)) in
      if \<not> cl_open cl then Some (cl, errno_num EBADF, val_out)
      else case get_next_reqid cl of (cl1, myreqid) \<Rightarrow>
        case sendReq env (mkGET (ce_junk env) myreqid (of_nat (mb_valid_size key))) key (cl_con cl1) of
          None \<Rightarrow> None
        | Some (c1, err) \<Rightarrow>
            if err \<noteq> E_OK then fail err c1 cl1 val_out
            else case recvGetResHdr myreqid c1 of
              (c2, Inl e) \<Rightarrow> fail e c2 cl1 val_out
            | (c2, Inr h) \<Rightarrow>
                if rs_error (rg_hdr h) \<noteq> 0 then Some (cl1\<lparr>cl_con := c2\<rparr>, rs_error (rg_hdr h), val_out)
                else
                  let val_len = unat (rg_val_len h); v1 = mbuff_add_buffers (ce_alloc env) (rg_val_len h) val_out in
                  if mb_free_size v1 < val_len then fail ENOMEM c2 cl1 v1
                  else case append_recv (ce_uninit env) val_len v1 c2 of
                    None \<Rightarrow> None
                  | Some (c3, e, v2) \<Rightarrow>
                      if e \<noteq> E_OK then fail e c3 cl1 v2 else Some (cl1\<lparr>cl_con := c3\<rparr>, 0, v2))"

definition remote_del :: "mbuff \<Rightarrow> sock_cli \<Rightarrow> sock_cli \<times> u32" where
  "remote_del key cl = (cl, errno_num ENOTSUP)"
subsection \<open>What a client sends and returns\<close>

text \<open>A client whose sends succeed, and to which the stream \<open>reply\<close> arrives in some pieces.\<close>

definition reply_arrives :: "bytes \<Rightarrow> sock_cli \<Rightarrow> bool" where
  "reply_arrives reply cl \<longleftrightarrow> cl_open cl \<and> cn_tx (cl_con cl) = [] \<and> rx_live (cl_con cl) \<and> rx_data (cl_con cl) = reply"

definition cli_after :: "rcv list \<Rightarrow> bytes \<Rightarrow> sock_cli \<Rightarrow> sock_cli" where
  "cli_after r msg cl = cl\<lparr>cl_con := (cl_con cl)\<lparr>cn_rx := r, cn_out := cn_out (cl_con cl) @ msg\<rparr>, cl_req_id := cl_req_id cl + 1\<rparr>"

lemma cli_after_simps [simp]:
  "cl_open (cli_after r msg cl) = cl_open cl" "cl_req_id (cli_after r msg cl) = cl_req_id cl + 1"
  "cn_out (cl_con (cli_after r msg cl)) = cn_out (cl_con cl) @ msg" "cn_rx (cl_con (cli_after r msg cl)) = r"
  by (simp_all add: cli_after_def)

lemma recv_stream:
  assumes "rx_live con" "rx_data con = hdr @ rest"
  shows "\<exists>r. recv_full (length hdr) (con\<lparr>cn_out := z\<rparr>) = (con\<lparr>cn_rx := r, cn_out := z\<rparr>, E_OK, hdr) \<and> rx_bytes r = rest \<and> Rcv [] \<notin> set r"
proof -
  let ?c = "con\<lparr>cn_out := z\<rparr>"
  have "rx_live ?c" "rx_data ?c = hdr @ rest" using assms by (simp_all add: rx_live_def rx_data_def)
  then obtain r where "recv_full (length hdr) ?c = (?c\<lparr>cn_rx := r\<rparr>, E_OK, hdr)" "rx_bytes r = rest" "Rcv [] \<notin> set r"
    using recv_full_live [of ?c "length hdr"] by auto
  then show ?thesis by (intro exI [of _ r]) simp
qed

lemma recvResHdr_ok:
  assumes "rx_live con" "rx_data con = enc_res h" "res_verify_magic h" "rs_id h = rid"
  shows "\<exists>r. recvResHdr rid (con\<lparr>cn_out := z\<rparr>) = (con\<lparr>cn_rx := r, cn_out := z\<rparr>, Inr h) \<and> rx_bytes r = []"
  using recv_stream [OF assms(1), of "enc_res h" "[]" z] assms(2-4) by (auto simp: recvResHdr_def)

lemma recvGetResHdr_ok:
  assumes "rx_live con" "rx_data con = enc_get_res h @ rest" "res_verify_magic (rg_hdr h)" "rs_id (rg_hdr h) = rid"
  shows "\<exists>r. recvGetResHdr rid (con\<lparr>cn_out := z\<rparr>) = (con\<lparr>cn_out := z, cn_rx := r\<rparr>, Inr h) \<and> rx_bytes r = rest \<and> Rcv [] \<notin> set r"
proof -
  obtain r where "recv_full RES_GET_HDR_SIZE (con\<lparr>cn_out := z\<rparr>) = (con\<lparr>cn_rx := r, cn_out := z\<rparr>, E_OK, enc_get_res h)" "rx_bytes r = rest" "Rcv [] \<notin> set r"
    using recv_stream [OF assms(1,2), of z] by auto
  then show ?thesis using assms(3,4) by (intro exI [of _ r]) (simp add: recvGetResHdr_def)
qed

lemma sendReq_ok:
  assumes "mb_inv m" "mb_valid_size m < 2 ^ 64" "cn_tx con = []"
  shows "sendReq env h m con = Some (con\<lparr>cn_out := cn_out con @ enc_req h @ mb_data m\<rparr>, E_OK)"
  using mb_send_ok [OF assms(1,2)] assms(3) by (simp add: sendReq_def send_full_clear)

lemma remote_put_ok:
  assumes kv: "mb_inv keyval" "klen < mb_valid_size keyval" "mb_valid_size keyval < 2 ^ 32"
    and reply: "reply_arrives (enc_res (mk_res e (cl_req_id cl))) cl"
  shows "\<exists>r. remote_put env keyval klen cl
    = Some (cli_after r (enc_req (mkPUT (cl_req_id cl) (of_nat klen) (of_nat (mb_valid_size keyval - klen))) @ mb_data keyval) cl, e)"
proof -
  let ?h = "mkPUT (cl_req_id cl) (of_nat klen) (of_nat (mb_valid_size keyval - klen))"
  have cl: "cl_open cl" "cn_tx (cl_con cl) = []" "rx_live (cl_con cl)" "rx_data (cl_con cl) = enc_res (mk_res e (cl_req_id cl))"
    using reply by (simp_all add: reply_arrives_def)
  have snd: "sendReq env ?h keyval (cl_con cl) = Some ((cl_con cl)\<lparr>cn_out := cn_out (cl_con cl) @ enc_req ?h @ mb_data keyval\<rparr>, E_OK)"
    by (rule sendReq_ok [OF kv(1) _ cl(2)]) (use kv(3) in simp)
  obtain r where "recvResHdr (cl_req_id cl) ((cl_con cl)\<lparr>cn_out := cn_out (cl_con cl) @ enc_req ?h @ mb_data keyval\<rparr>)
      = ((cl_con cl)\<lparr>cn_rx := r, cn_out := cn_out (cl_con cl) @ enc_req ?h @ mb_data keyval\<rparr>, Inr (mk_res e (cl_req_id cl)))"
    using recvResHdr_ok [OF cl(3,4)] by auto
  then show ?thesis using cl(1) kv(2) snd
    by (intro exI [of _ r]) (simp add: remote_put_def get_next_reqid_def Let_def cli_after_def)
qed

lemma remote_get_ok:
  assumes key: "mb_inv key" "mb_valid_size key < 2 ^ 32" and v0: "mb_inv v0" "mb_free_size v0 < 2 ^ 64" and mem: "alloc_sized (ce_alloc env)" "\<And>n. ce_alloc env n \<noteq> None"
    and reply: "reply_arrives (get_reply rc (cl_req_id cl) val) cl" and val: "length val < 2 ^ 63" "val \<noteq> [] \<or> ce_uninit env = E_OK"
  defines "req \<equiv> enc_req (mkGET (ce_junk env) (cl_req_id cl) (of_nat (mb_valid_size key))) @ mb_data key"
  shows "\<exists>r v. remote_get env key v0 cl = Some (cli_after r req cl, errno_num rc, v)
    \<and> mb_inv v \<and> mb_data v = mb_data v0 @ (if rc = E_OK then val else [])"
proof -
  let ?rid = "cl_req_id cl" and ?n = "(if rc \<noteq> E_OK then 0 else of_nat (length val)) :: u64" and ?val = "if rc \<noteq> E_OK then [] else val"
  have cl: "cl_open cl" "cn_tx (cl_con cl) = []" "rx_live (cl_con cl)" "rx_data (cl_con cl) = enc_get_res (mk_get_res (errno_num rc) ?rid ?n) @ ?val"
    using reply by (auto simp: reply_arrives_def get_reply_def)
  let ?con = "(cl_con cl)\<lparr>cn_out := cn_out (cl_con cl) @ req\<rparr>"
  have snd: "sendReq env (mkGET (ce_junk env) ?rid (of_nat (mb_valid_size key))) key (cl_con cl) = Some (?con, E_OK)"
    unfolding req_def by (rule sendReq_ok [OF key(1) _ cl(2)]) (use key(2) in simp)
  have hdr: "res_verify_magic (rg_hdr (mk_get_res (errno_num rc) ?rid ?n))" "rs_id (rg_hdr (mk_get_res (errno_num rc) ?rid ?n)) = ?rid" by simp_all
  obtain r where r: "recvGetResHdr ?rid ?con = (?con\<lparr>cn_rx := r\<rparr>, Inr (mk_get_res (errno_num rc) ?rid ?n))" "rx_bytes r = ?val" "Rcv [] \<notin> set r"
    using recvGetResHdr_ok [OF cl(3,4) hdr] by blast
  show ?thesis
  proof (cases "rc = E_OK")
    case False
    then show ?thesis using cl(1) snd r(1) v0 by (intro exI [of _ r] exI [of _ v0]) (simp add: remote_get_def get_next_reqid_def Let_def cli_after_def)
  next
    case True
    let ?v1 = "mbuff_add_buffers (ce_alloc env) (of_nat (length val)) v0"
    have n: "unat (of_nat (length val) :: u64) = length val" by (rule unat_of_nat_small) (use val(1) in simp)
    have "unat (of_nat (length val) :: u64) \<le> 2 ^ 63" using val(1) n by simp
    note v1 = mbuff_wanted [OF v0(1) mem(1) this v0(2), unfolded n]
    have c2: "rx_live (?con\<lparr>cn_rx := r\<rparr>)" "rx_data (?con\<lparr>cn_rx := r\<rparr>) = val" using r(2,3) True by (simp_all add: rx_live_def rx_data_def)
    have av: "length val \<le> mb_free_size ?v1" "length val \<le> append_avail_size ?v1" using v1(3) mem(2) by (simp_all add: append_avail_size_def trans_le_add1)
    obtain r2 v where a: "append_recv (ce_uninit env) (length val) ?v1 (?con\<lparr>cn_rx := r\<rparr>) = Some (?con\<lparr>cn_rx := r2\<rparr>, E_OK, v)" "mb_inv v"
        "mb_data v = mb_data ?v1 @ val"
      using append_recv_ok [OF v1(1) c2(1) _ av(2), of "ce_uninit env"] c2(2) val(2) by auto
    then show ?thesis using True cl(1) snd r(1) av(1) v1(2) n
      by (intro exI [of _ r2] exI [of _ v]) (simp add: remote_get_def get_next_reqid_def Let_def cli_after_def)
  qed
qed

text \<open>A reply that is not the answer to this request is refused, and the connection is closed.\<close>

lemma recvResHdr_bad:
  assumes "rx_live con" "rx_data con = enc_res h" "\<not> res_verify_magic h \<or> rs_id h \<noteq> rid"
  shows "\<exists>c2. recvResHdr rid (con\<lparr>cn_out := z\<rparr>) = (c2, Inl (if res_verify_magic h then EINVAL else EBADMSG))"
proof -
  obtain r where "recv_full RES_HDR_SIZE (con\<lparr>cn_out := z\<rparr>) = (con\<lparr>cn_rx := r, cn_out := z\<rparr>, E_OK, enc_res h)"
    using recv_stream [OF assms(1), of "enc_res h" "[]" z] assms(2) by auto
  then show ?thesis using assms(3) by (simp add: recvResHdr_def)
qed

end
