(* ===== verification/Net_Store.thy ===== *)
theory Net_Store
  imports Net_Client KV_Salsa
begin

section \<open>The store behind the network server\<close>

text \<open>
  What the server promises its clients needs only the laws of a key-value map of the store it runs
  on.  The laws are those of a get and of a put; \<open>reliable\<close> is the absence of I/O errors.
\<close>

locale net_store =
  fixes env :: "'s net_env" and kv_ok :: "'s \<Rightarrow> bool" and kvmap :: "'s \<Rightarrow> bytes \<Rightarrow> bytes option"
    and room :: "'s \<Rightarrow> bytes \<Rightarrow> bytes \<Rightarrow> bool" and reliable :: bool
  assumes get_law: "kv_ok kv \<Longrightarrow> \<exists>kv' rc val. ne_get env key kv = Some (kv', rc, val) \<and> kv_ok kv' \<and> kvmap kv' = kvmap kv
      \<and> (rc = E_OK \<longrightarrow> kvmap kv key = Some val) \<and> (reliable \<and> kvmap kv key \<noteq> None \<longrightarrow> rc = E_OK)"
    and put_law: "kv_ok kv \<Longrightarrow> klen \<le> length body \<Longrightarrow> room kv (take klen body) (drop klen body) \<Longrightarrow> ne_put env body klen kv = Some (kv', rc)
      \<Longrightarrow> kv_ok kv' \<and> kvmap kv' = (if rc = E_OK then (kvmap kv)(take klen body \<mapsto> drop klen body) else kvmap kv)"
begin

text \<open>A put that a client sends: the server runs it, and the client returns its result.\<close>

lemma put_over_net:
  assumes ok: "kv_ok (sv_kv s)" and kv: "mb_inv keyval" "klen < mb_valid_size keyval" "mb_valid_size keyval < 2 ^ 32"
    and rm: "room (sv_kv s) (take klen (mb_data keyval)) (drop klen (mb_data keyval))"
    and req: "request_arrives env (mkPUT rid (of_nat klen) (of_nat (mb_valid_size keyval - klen))) (mb_data keyval) (sv_con s)"
    and tx: "cn_tx (sv_con s) = []" and put: "ne_put env (mb_data keyval) klen (sv_kv s) = Some (kv', rc)"
  shows "\<exists>s'. serve_kv_request env s = Some (s', E_OK) \<and> sv_kv s' = kv' \<and> kv_ok kv'
    \<and> kvmap kv' = (if rc = E_OK then (kvmap (sv_kv s))(take klen (mb_data keyval) \<mapsto> drop klen (mb_data keyval)) else kvmap (sv_kv s))
    \<and> (\<forall>cl. reply_arrives (drop (length (cn_out (sv_con s))) (cn_out (sv_con s'))) cl \<and> cl_req_id cl = rid
         \<longrightarrow> (\<exists>cl'. remote_put ce keyval klen cl = Some (cl', errno_num rc) \<and> cl_open cl'
              \<and> cn_out (cl_con cl') = cn_out (cl_con cl) @ rx_data (sv_con s)))"
proof -
  have len: "length (mb_data keyval) = mb_valid_size keyval" by (rule length_mb_data [OF kv(1)])
  obtain r where s: "serve_kv_request env s = Some (answered (enc_res (mk_res (errno_num rc) rid)) r kv' s, E_OK)"
    using serve_put_ok [of env rid klen "mb_data keyval" s kv' rc] req tx put kv len by auto
  have rx: "rx_data (sv_con s) = enc_req (mkPUT rid (of_nat klen) (of_nat (mb_valid_size keyval - klen))) @ mb_data keyval"
    using req by (simp add: request_arrives_def)
  have cli: "\<exists>cl'. remote_put ce keyval klen cl = Some (cl', errno_num rc) \<and> cl_open cl' \<and> cn_out (cl_con cl') = cn_out (cl_con cl) @ rx_data (sv_con s)"
    if a: "reply_arrives (enc_res (mk_res (errno_num rc) rid)) cl" "cl_req_id cl = rid" for cl
  proof -
    have "cl_open cl" using a(1) by (simp add: reply_arrives_def)
    moreover obtain r where "remote_put ce keyval klen cl = Some (cli_after r (rx_data (sv_con s)) cl, errno_num rc)"
      using remote_put_ok [OF kv a(1) [folded a(2)], of ce] unfolding a(2) rx by blast
    ultimately show ?thesis by simp
  qed
  have kl: "klen \<le> length (mb_data keyval)" using kv(2) len by simp
  show ?thesis using s cli put_law [OF ok kl rm put] by auto
qed

lemma get_over_net:
  assumes ok: "kv_ok (sv_kv s)" and key: "mb_inv key" "mb_valid_size key < 2 ^ 32" and v0: "mb_inv v0" "mb_free_size v0 < 2 ^ 64"
    and val: "kvmap (sv_kv s) (mb_data key) = Some val" "val \<noteq> []" "length val < 2 ^ 63" and rel: reliable
    and req: "request_arrives env (mkGET (ce_junk ce) rid (of_nat (mb_valid_size key))) (mb_data key) (sv_con s)" and tx: "cn_tx (sv_con s) = []"
    and mem: "ne_iovec_mem env" "alloc_sized (ce_alloc ce)" "\<And>n. ce_alloc ce n \<noteq> None"
  shows "\<exists>s'. serve_kv_request env s = Some (s', E_OK) \<and> kv_ok (sv_kv s') \<and> kvmap (sv_kv s') = kvmap (sv_kv s)
    \<and> (\<forall>cl. reply_arrives (drop (length (cn_out (sv_con s))) (cn_out (sv_con s'))) cl \<and> cl_req_id cl = rid
         \<longrightarrow> (\<exists>cl' v. remote_get ce key v0 cl = Some (cl', 0, v) \<and> mb_data v = mb_data v0 @ val \<and> cl_open cl'
              \<and> cn_out (cl_con cl') = cn_out (cl_con cl) @ rx_data (sv_con s)))"
proof -
  have len: "length (mb_data key) = mb_valid_size key" by (rule length_mb_data [OF key(1)])
  obtain kv' where g: "ne_get env (mb_data key) (sv_kv s) = Some (kv', E_OK, val)" "kv_ok kv'" "kvmap kv' = kvmap (sv_kv s)"
    using get_law [OF ok, of "mb_data key"] val(1) rel by auto
  obtain r where s: "serve_kv_request env s = Some (answered (get_reply E_OK rid val) r kv' s, E_OK)"
    using serve_get_ok [OF _ tx _ _ mem(1) g(1), of "ce_junk ce" rid] req key(2) val(3) len by auto
  have rx: "rx_data (sv_con s) = enc_req (mkGET (ce_junk ce) rid (of_nat (mb_valid_size key))) @ mb_data key"
    using req by (simp add: request_arrives_def)
  have cli: "\<exists>cl' v. remote_get ce key v0 cl = Some (cl', 0, v) \<and> mb_data v = mb_data v0 @ val \<and> cl_open cl'
      \<and> cn_out (cl_con cl') = cn_out (cl_con cl) @ rx_data (sv_con s)"
    if a: "reply_arrives (get_reply E_OK rid val) cl" "cl_req_id cl = rid" for cl
  proof -
    have op: "cl_open cl" using a(1) by (simp add: reply_arrives_def)
    obtain r v where "remote_get ce key v0 cl = Some (cli_after r (rx_data (sv_con s)) cl, 0, v)" "mb_data v = mb_data v0 @ val"
      using remote_get_ok [OF key v0 mem(2,3) a(1) [folded a(2)] val(3)] val(2) unfolding a(2) rx by auto
    then show ?thesis using op by simp
  qed
  show ?thesis using s g cli by auto
qed

end

subsection \<open>The key-value store as the service\<close>

text \<open>
  The server of the program runs on uDepotSalsa.  A key that is longer than the buffer, which only
  lengths that overflow in \<open>body_len\<close> can produce, is outside of the model of the store.
\<close>

definition net_salsa_env :: "salsa_env \<Rightarrow> salsa kv_env \<Rightarrow> salsa kv net_env \<Rightarrow> salsa kv net_env" where
  "net_salsa_env se env ne = ne\<lparr>ne_get := kv_get (salsa_kv_env se env),
     ne_put := (\<lambda>body klen s. if klen \<le> length body then kv_put (salsa_kv_env se env) (take klen body) (drop klen body) NORMAL s else None),
     ne_prefix := PREFIX_SIZE, ne_suffix := SUFFIX_SIZE\<rparr>"

lemma net_salsa_env_simps [simp]:
  "ne_get (net_salsa_env se env ne) = kv_get (salsa_kv_env se env)"
  "klen \<le> length body \<Longrightarrow> ne_put (net_salsa_env se env ne) body klen s = kv_put (salsa_kv_env se env) (take klen body) (drop klen body) NORMAL s"
  "ne_iovec_mem (net_salsa_env se env ne) = ne_iovec_mem ne" "ne_avail (net_salsa_env se env ne) = ne_avail ne"
  by (simp_all add: net_salsa_env_def)

definition net_room :: "salsa kv_env \<Rightarrow> salsa kv \<Rightarrow> bytes \<Rightarrow> bytes \<Rightarrow> bool" where
  "net_room env s key val \<longleftrightarrow> length key < 2 ^ 16 \<and> length key + length val < 2 ^ 32 \<and> put_room (kv_map s) (ev_hash env key) NORMAL"

interpretation nets: net_store "net_salsa_env se env ne" "salsa_kv_safe se env" "kv_abs (salsa_kv_env se env)" "net_room env" "io_ok env"
  for se env ne
proof unfold_locales
  fix kv :: "salsa kv" and key
  assume safe: "salsa_kv_safe se env kv"
  then have "kv_inv (salsa_kv_env se env) kv" by (simp add: salsa_kv_safe_def)
  then obtain kv' rc val where g: "kv_get (salsa_kv_env se env) key kv = Some (kv', rc, val)" using kv_get_ok by blast
  then show "\<exists>kv' rc val. ne_get (net_salsa_env se env ne) key kv = Some (kv', rc, val) \<and> salsa_kv_safe se env kv'
      \<and> kv_abs (salsa_kv_env se env) kv' = kv_abs (salsa_kv_env se env) kv
      \<and> (rc = E_OK \<longrightarrow> kv_abs (salsa_kv_env se env) kv key = Some val)
      \<and> (io_ok env \<and> kv_abs (salsa_kv_env se env) kv key \<noteq> None \<longrightarrow> rc = E_OK)"
    using kv_get_step [OF safe g] io_failureD [of env rc] by auto
next
  fix kv klen body kv' rc
  assume "salsa_kv_safe se env kv" "klen \<le> length body" "net_room env kv (take klen body) (drop klen body)"
    "ne_put (net_salsa_env se env ne) body klen kv = Some (kv', rc)"
  then show "salsa_kv_safe se env kv' \<and> kv_abs (salsa_kv_env se env) kv'
      = (if rc = E_OK then (kv_abs (salsa_kv_env se env) kv)(take klen body \<mapsto> drop klen body) else kv_abs (salsa_kv_env se env) kv)"
    using kv_put_step [of se env kv "take klen body" "drop klen body" NORMAL kv' rc] by (auto simp: net_room_def simp del: not_None_eq split: if_splits)
qed

end
