(* ===== verification/Net_Shard.thy ===== *)
theory Net_Shard
  imports Net_Client KV_Store
begin

section \<open>Peers and the distribution of keys (\<^verbatim>\<open>net.cc\<close>, \<^verbatim>\<open>socket-peer-conf.cc\<close>)\<close>

subsection \<open>Addresses of peers\<close>

fun strstr :: "string \<Rightarrow> string \<Rightarrow> nat option" where
  "strstr [] sep = (if sep = [] then Some 0 else None)"
| "strstr (c # s) sep = (if take (length sep) (c # s) = sep then Some 0 else map_option Suc (strstr s sep))"

record url =
  url_prot :: "string option"
  url_node :: "string option"
  url_serv :: "string option"

text \<open>\<open>None\<close> is the error -1; a failed allocation ends the program and is left out.\<close>

definition url_parse :: "string \<Rightarrow> url option" where
  "url_parse s =
     (if s = [] then None
      else
        let (prot, inp) = (case strstr s ''://'' of Some i \<Rightarrow> (Some (take i s), drop (i + 3) s) | None \<Rightarrow> (None, s)) in
        case strstr inp '':'' of
          None \<Rightarrow> Some \<lparr>url_prot = prot, url_node = Some inp, url_serv = None\<rparr>
        | Some i \<Rightarrow> Some \<lparr>url_prot = prot, url_node = Some (take i inp), url_serv = Some (drop (i + 1) inp)\<rparr>)"

record peer_conf =
  pc_protocol :: string
  pc_node :: string
  pc_service :: string

definition peer_parse :: "string \<Rightarrow> peer_conf \<Rightarrow> peer_conf \<times> bool" where
  "peer_parse s pc =
     (case url_parse s of
        None \<Rightarrow> (pc, False)
      | Some u \<Rightarrow> (\<lparr>pc_protocol = (case url_prot u of None \<Rightarrow> pc_protocol pc | Some x \<Rightarrow> x),
           pc_node = (case url_node u of None \<Rightarrow> pc_node pc | Some x \<Rightarrow> x),
           pc_service = (case url_serv u of None \<Rightarrow> pc_service pc | Some x \<Rightarrow> x)\<rparr>, True))"

definition peer_str :: "peer_conf \<Rightarrow> string" where
  "peer_str pc = pc_protocol pc @ ''://'' @ (if pc_node pc = [] then ''*'' else pc_node pc) @ '':'' @ pc_service pc"

definition peer_is_invalid :: "peer_conf \<Rightarrow> bool" where
  "peer_is_invalid pc \<longleftrightarrow> pc_protocol pc = [] \<and> pc_node pc = [] \<and> pc_service pc = []"

definition peer_eq :: "peer_conf \<Rightarrow> peer_conf \<Rightarrow> bool" where
  "peer_eq a b \<longleftrightarrow> pc_protocol a = pc_protocol b \<and> pc_node a = pc_node b \<and> pc_service a = pc_service b"

text \<open>The order of strings and of tuples of strings, and the order of peers that \<^verbatim>\<open>std::set\<close> uses.\<close>

fun str_less :: "string \<Rightarrow> string \<Rightarrow> bool" where
  "str_less xs [] = False"
| "str_less [] (y # ys) = True"
| "str_less (x # xs) (y # ys) = ((of_char x :: nat) < of_char y \<or> x = y \<and> str_less xs ys)"

fun tuple_less :: "string \<times> string \<times> string \<Rightarrow> string \<times> string \<times> string \<Rightarrow> bool" where
  "tuple_less (a, b, c) (a', b', c') =
     (str_less a a' \<or> \<not> str_less a' a \<and> (str_less b b' \<or> \<not> str_less b' b \<and> str_less c c'))"

definition peer_less :: "peer_conf \<Rightarrow> peer_conf \<Rightarrow> bool" where
  "peer_less lhs rhs =
     tuple_less (pc_protocol lhs, pc_node lhs, pc_node lhs) (pc_protocol lhs, pc_node lhs, pc_node lhs)"

text \<open>Inserting into a \<^verbatim>\<open>std::set\<close>: an element that is equivalent to one of the set is not inserted.\<close>

fun set_insert :: "('a \<Rightarrow> 'a \<Rightarrow> bool) \<Rightarrow> 'a \<Rightarrow> 'a list \<Rightarrow> 'a list" where
  "set_insert lt x [] = [x]"
| "set_insert lt x (y # ys) = (if lt x y then x # y # ys else if lt y x then y # set_insert lt x ys else y # ys)"

subsection \<open>The network of a node\<close>

text \<open>
  A client is known by its position in the list of its thread; \<open>nt_conn\<close> holds the address that
  each was made for.  A null pointer is \<open>None\<close>.
\<close>

record net =
  nt_self :: peer_conf
  nt_confs :: "peer_conf list"
  nt_conn :: "peer_conf list list"
  nt_hash :: "nat option list list"

definition net_new :: "nat \<Rightarrow> peer_conf list \<Rightarrow> peer_conf \<Rightarrow> net" where
  "net_new thread_nr confs self =
     \<lparr>nt_self = self, nt_confs = confs, nt_conn = replicate thread_nr [],
      nt_hash = replicate thread_nr (replicate (length confs + (if peer_is_invalid self then 0 else 1)) None)\<rparr>"

text \<open>The inner loop over the clients of a thread: the last client of an address wins.\<close>

fun table_entry :: "peer_conf \<Rightarrow> nat \<Rightarrow> nat \<Rightarrow> peer_conf list \<Rightarrow> nat option list \<Rightarrow> nat option list" where
  "table_entry i idx k [] tbl = tbl"
| "table_entry i idx k (c # cs) tbl = table_entry i idx (Suc k) cs (if peer_eq i c then tbl[idx := Some k] else tbl)"

fun fill_table :: "peer_conf \<Rightarrow> peer_conf list \<Rightarrow> nat \<Rightarrow> peer_conf list \<Rightarrow> nat option list \<Rightarrow> nat option list" where
  "fill_table self cs idx [] tbl = tbl"
| "fill_table self cs idx (i # ids) tbl =
     (if peer_eq i self then fill_table self cs idx ids tbl else fill_table self cs (Suc idx) ids (table_entry i idx 0 cs tbl))"

definition ordered_ids :: "net \<Rightarrow> peer_conf list" where
  "ordered_ids n = foldl (\<lambda>s c. set_insert peer_less c s) (if peer_is_invalid (nt_self n) then [] else [nt_self n]) (nt_confs n)"

definition setup_consistent_hash_map :: "net \<Rightarrow> net" where
  "setup_consistent_hash_map n =
     n\<lparr>nt_hash := map (\<lambda>cid. if cid < length (nt_conn n) then fill_table (nt_self n) (nt_conn n ! cid) 0 (ordered_ids n) (nt_hash n ! cid)
                               else nt_hash n ! cid) [0..<length (nt_hash n)]\<rparr>"

text \<open>Starting the clients: \<open>start tid k\<close> is the result of the \<open>k\<close>-th client of thread \<open>tid\<close>.\<close>

fun start_clients :: "(nat \<Rightarrow> u32) \<Rightarrow> nat \<Rightarrow> peer_conf list \<Rightarrow> peer_conf list \<Rightarrow> peer_conf list \<times> u32" where
  "start_clients start k [] acc = (acc, 0)"
| "start_clients start k (c # cs) acc = (if start k \<noteq> 0 then (acc, start k) else start_clients start (Suc k) cs (acc @ [c]))"

fun start_threads :: "(nat \<Rightarrow> nat \<Rightarrow> u32) \<Rightarrow> nat \<Rightarrow> peer_conf list list \<Rightarrow> peer_conf list \<Rightarrow> peer_conf list list \<times> u32" where
  "start_threads start tid [] confs = ([], 0)"
| "start_threads start tid (conn # conns) confs =
     (case start_clients (start tid) 0 confs conn of
        (conn1, err) \<Rightarrow>
          if err \<noteq> 0 then (conn1 # conns, err)
          else case start_threads start (Suc tid) conns confs of (conns1, err1) \<Rightarrow> (conn1 # conns1, err1))"

definition init_socket_key_value_client :: "(nat \<Rightarrow> nat \<Rightarrow> u32) \<Rightarrow> net \<Rightarrow> net \<times> u32" where
  "init_socket_key_value_client start n =
     (case start_threads start 0 (nt_conn n) (nt_confs n) of (conns, err) \<Rightarrow> (n\<lparr>nt_conn := conns\<rparr>, err))"

definition start_net_all :: "u32 \<Rightarrow> (nat \<Rightarrow> nat \<Rightarrow> u32) \<Rightarrow> net \<Rightarrow> net \<times> u32" where
  "start_net_all srv_start start n =
     (if srv_start \<noteq> 0 then (n, - 1)
      else case init_socket_key_value_client start n of
             (n1, err) \<Rightarrow> if err \<noteq> 0 then (n1, - 1) else (setup_consistent_hash_map n1, 0))"

definition net_clear :: "net \<Rightarrow> net" where
  "net_clear n = n\<lparr>nt_hash := map (map (\<lambda>_. None)) (nt_hash n), nt_conn := map (\<lambda>_. []) (nt_conn n)\<rparr>"

definition get_scd :: "net \<Rightarrow> nat \<Rightarrow> nat \<Rightarrow> nat option" where
  "get_scd n tid idx =
     (if tid < length (nt_hash n) then if idx < length (nt_hash n ! tid) then nt_hash n ! tid ! idx else None else None)"

definition get_client :: "net \<Rightarrow> u64 \<Rightarrow> nat \<Rightarrow> nat option" where
  "get_client n h tid =
     (if length (nt_hash n ! tid) = 0 then None
      else get_scd n tid (unat (ucast (h mod of_nat (length (nt_hash n ! tid))) :: u32)))"

subsection \<open>The operations of a node\<close>

text \<open>
  The operations of the store first ask for the client of the key, and run locally when there is
  none.  \<open>nd_clis\<close> are the clients of the calling thread \<open>tid\<close>, which is \<^verbatim>\<open>ThreadId::get\<close> modulo the
  number of threads.
\<close>

record 's node_state =
  nd_net :: net
  nd_clis :: "sock_cli list"
  nd_kv :: "'s kv"

definition node_put :: "'s kv_env \<Rightarrow> cli_env \<Rightarrow> nat \<Rightarrow> mbuff \<Rightarrow> nat \<Rightarrow> PutOp \<Rightarrow> 's node_state \<Rightarrow> ('s node_state \<times> u32) option" where
  "node_put env ce tid keyval key_size op nd =
     (let key = take key_size (mb_data keyval); h = ev_hash env key in
      case get_client (nd_net nd) h tid of
        Some k \<Rightarrow> map_option (\<lambda>(cl, r). (nd\<lparr>nd_clis := (nd_clis nd)[k := cl]\<rparr>, r)) (remote_put ce keyval key_size (nd_clis nd ! k))
      | None \<Rightarrow> map_option (\<lambda>(kv, rc). (nd\<lparr>nd_kv := kv\<rparr>, errno_num rc)) (kv_put env key (drop key_size (mb_data keyval)) op (nd_kv nd)))"

definition node_get :: "'s kv_env \<Rightarrow> cli_env \<Rightarrow> nat \<Rightarrow> mbuff \<Rightarrow> mbuff \<Rightarrow> 's node_state \<Rightarrow> ('s node_state \<times> u32 \<times> bytes) option" where
  "node_get env ce tid key val_out nd =
     (case get_client (nd_net nd) (ev_hash env (mb_data key)) tid of
        Some k \<Rightarrow> map_option (\<lambda>(cl, r, v). (nd\<lparr>nd_clis := (nd_clis nd)[k := cl]\<rparr>, r, mb_data v)) (remote_get ce key val_out (nd_clis nd ! k))
      | None \<Rightarrow> map_option (\<lambda>(kv, rc, v). (nd\<lparr>nd_kv := kv\<rparr>, errno_num rc, v)) (kv_get env (mb_data key) (nd_kv nd)))"

definition node_del :: "'s kv_env \<Rightarrow> nat \<Rightarrow> mbuff \<Rightarrow> 's node_state \<Rightarrow> ('s node_state \<times> u32) option" where
  "node_del env tid key nd =
     (case get_client (nd_net nd) (ev_hash env (mb_data key)) tid of
        Some k \<Rightarrow> (case remote_del key (nd_clis nd ! k) of (cl, r) \<Rightarrow> Some (nd\<lparr>nd_clis := (nd_clis nd)[k := cl]\<rparr>, r))
      | None \<Rightarrow> map_option (\<lambda>(kv, rc). (nd\<lparr>nd_kv := kv\<rparr>, errno_num rc)) (kv_del env (mb_data key) (nd_kv nd)))"

definition node_exists :: "'s kv_env \<Rightarrow> cli_env \<Rightarrow> nat \<Rightarrow> mbuff \<Rightarrow> 's node_state \<Rightarrow> ('s node_state \<times> u32 \<times> nat option) option" where
  "node_exists env ce tid key nd =
     (case get_client (nd_net nd) (ev_hash env (mb_data key)) tid of
        Some k \<Rightarrow> map_option (\<lambda>(cl, r, v). (nd\<lparr>nd_clis := (nd_clis nd)[k := cl]\<rparr>, r, if r = 0 then Some (mb_valid_size v) else None))
                    (remote_get ce key mb_new (nd_clis nd ! k))
      | None \<Rightarrow> map_option (\<lambda>(kv, rc, vs). (nd\<lparr>nd_kv := kv\<rparr>, errno_num rc, if rc = E_OK then Some (unat vs) else None))
                    (kv_exists env (mb_data key) (nd_kv nd)))"
subsection \<open>Where the keys of a node go\<close>

lemma str_less_irrefl [simp]: "\<not> str_less s s"
  by (induction s) auto

lemma peer_less_never: "\<not> peer_less a b"
  by (simp add: peer_less_def)

lemma set_insert_peer: "set_insert peer_less c (x # xs) = x # xs"
  by (simp add: peer_less_never)

lemma ordered_ids_first:
  "\<not> peer_is_invalid (nt_self n) \<Longrightarrow> ordered_ids n = [nt_self n]"
  "peer_is_invalid (nt_self n) \<Longrightarrow> ordered_ids n = (case nt_confs n of [] \<Rightarrow> [] | c # _ \<Rightarrow> [c])"
proof -
  have "foldl (\<lambda>s c. set_insert peer_less c s) [x] cs = [x]" for x cs by (induction cs) (simp_all add: peer_less_never)
  then show "\<not> peer_is_invalid (nt_self n) \<Longrightarrow> ordered_ids n = [nt_self n]"
    "peer_is_invalid (nt_self n) \<Longrightarrow> ordered_ids n = (case nt_confs n of [] \<Rightarrow> [] | c # _ \<Rightarrow> [c])"
    by (simp_all add: ordered_ids_def split: list.split)
qed

lemma start_clients_ok: "(\<And>k. start k = 0) \<Longrightarrow> start_clients start k cs acc = (acc @ cs, 0)"
  by (induction cs arbitrary: k acc) simp_all

lemma start_threads_ok:
  "(\<And>t k. start t k = 0) \<Longrightarrow> start_threads start tid (replicate m []) confs = (replicate m confs, 0)"
  by (induction m arbitrary: tid) (simp_all add: start_clients_ok)

definition started_net :: "nat \<Rightarrow> peer_conf list \<Rightarrow> peer_conf \<Rightarrow> net" where
  "started_net thread_nr confs self = setup_consistent_hash_map ((net_new thread_nr confs self)\<lparr>nt_conn := replicate thread_nr confs\<rparr>)"

lemma start_net_all_ok:
  "(\<And>t k. start t k = 0) \<Longrightarrow> start_net_all 0 start (net_new thread_nr confs self) = (started_net thread_nr confs self, 0)"
  by (simp add: start_net_all_def init_socket_key_value_client_def net_new_def started_net_def start_threads_ok)

lemma started_table:
  assumes "tid < thread_nr"
  shows "nt_hash (started_net thread_nr confs self) ! tid
    = fill_table self confs 0 (if \<not> peer_is_invalid self then [self] else case confs of [] \<Rightarrow> [] | c # _ \<Rightarrow> [c])
        (replicate (length confs + (if peer_is_invalid self then 0 else 1)) None)"
  using assms by (simp add: started_net_def setup_consistent_hash_map_def net_new_def ordered_ids_first)

lemma length_table: "length (table_entry i idx k cs tbl) = length tbl"
  by (induction cs arbitrary: k tbl) simp_all

lemma length_fill_table: "length (fill_table self cs idx ids tbl) = length tbl"
  by (induction ids arbitrary: idx tbl) (simp_all add: length_table)

lemma table_entry_none: "(\<forall>c \<in> set cs. \<not> peer_eq i c) \<Longrightarrow> table_entry i idx k cs tbl = tbl"
  by (induction cs arbitrary: k tbl) simp_all

lemma server_node_local:
  assumes "\<not> peer_is_invalid self" "tid < thread_nr"
  shows "get_client (started_net thread_nr confs self) h tid = None"
proof -
  have "nt_hash (started_net thread_nr confs self) ! tid = replicate (Suc (length confs)) None"
    using started_table [OF assms(2)] assms(1) by (simp add: peer_eq_def)
  then show ?thesis by (simp add: get_client_def get_scd_def del: replicate_Suc)
qed

lemma client_node_first:
  assumes self: "peer_is_invalid self" and c: "\<not> peer_is_invalid c" "c \<notin> set cs" and t: "tid < thread_nr" and l: "length cs < 2 ^ 31"
  shows "get_client (started_net thread_nr (c # cs) self) h tid = (if unat h mod Suc (length cs) = 0 then Some 0 else None)"
proof -
  let ?n = "started_net thread_nr (c # cs) self" and ?m = "Suc (length cs)"
  have eq: "peer_eq a b \<longleftrightarrow> a = b" for a b by (cases a; cases b) (simp add: peer_eq_def)
  have "\<not> peer_eq c self" "\<forall>x \<in> set cs. \<not> peer_eq c x" using self c by (auto simp: eq)
  then have tbl: "nt_hash ?n ! tid = (replicate ?m None)[0 := Some 0]"
    using started_table [OF t, of "c # cs" self] self by (simp add: table_entry_none eq del: replicate_Suc)
  have len: "length (nt_hash ?n) = thread_nr" by (simp add: started_net_def setup_consistent_hash_map_def net_new_def)
  have um: "unat (of_nat ?m :: u64) = ?m" by (rule unat_of_nat_small) (use l in simp)
  then have hm: "unat (h mod of_nat ?m) = unat h mod ?m" by (simp only: unat_mod_distrib)
  have lt: "unat h mod ?m < 2 ^ 32" using l less_trans [OF mod_less_divisor [of ?m "unat h"], of "2 ^ 32"] by simp
  have "unat (ucast (h mod of_nat ?m) :: u32) = unat h mod ?m"
    using lt by (simp add: unsigned_ucast_eq hm take_bit_nat_eq_self del: of_nat_Suc)
  then have "get_client ?n h tid = (replicate ?m None)[0 := Some 0] ! (unat h mod ?m)"
    using t by (simp add: get_client_def get_scd_def tbl len del: replicate_Suc of_nat_Suc list_update.simps)
  then show ?thesis by (simp add: nth_list_update del: replicate_Suc list_update.simps)
qed

subsection \<open>Printing and parsing an address\<close>

lemma strstr_first:
  assumes "hd sep \<notin> set s" "sep \<noteq> []"
  shows "strstr (s @ sep @ rest) sep = Some (length s)"
  using assms
proof (induction s)
  case Nil
  then show ?case by (cases sep) auto
next
  case (Cons a s)
  then have "take (length sep) ((a # s) @ sep @ rest) \<noteq> sep" by (cases sep) auto
  then show ?case using Cons by simp
qed

lemma peer_parse_str:
  assumes "CHR '':'' \<notin> set (pc_protocol pc)" "CHR '':'' \<notin> set (pc_node pc)" "pc_node pc \<noteq> []"
  shows "peer_parse (peer_str pc) pc0 = (pc, True)"
proof -
  let ?rest = "pc_node pc @ '':'' @ pc_service pc"
  have s: "peer_str pc = pc_protocol pc @ ''://'' @ ?rest" using assms(3) by (simp add: peer_str_def)
  have "strstr (peer_str pc) ''://'' = Some (length (pc_protocol pc))" unfolding s by (rule strstr_first) (use assms(1) in simp_all)
  moreover have "strstr ?rest '':'' = Some (length (pc_node pc))" by (rule strstr_first) (use assms(2) in simp_all)
  moreover have "drop (length (pc_protocol pc) + 3) (peer_str pc) = ?rest" "take (length (pc_protocol pc)) (peer_str pc) = pc_protocol pc" "peer_str pc \<noteq> []"
    by (simp_all add: s)
  ultimately have "url_parse (peer_str pc) = Some \<lparr>url_prot = Some (pc_protocol pc), url_node = Some (pc_node pc), url_serv = Some (pc_service pc)\<rparr>"
    by (simp add: url_parse_def)
  then show ?thesis by (simp add: peer_parse_def)
qed

end
