(* ===== verification/Net_Props.thy ===== *)
theory Net_Props
  imports Net_Store Net_Shard KV_Example
begin

section \<open>Properties of the network\<close>

text \<open>What client and server do together, what a bad message does, and where the keys of a node go.\<close>

subsection \<open>An example\<close>

definition nx_ne :: "'s net_env" where
  "nx_ne = \<lparr>ne_get = (\<lambda>_ _. None), ne_put = (\<lambda>_ _ _. None), ne_prefix = 0, ne_suffix = 0, ne_junk = 0, ne_iov = 1, ne_avail = (\<lambda>n. n),
     ne_iovec_mem = True, ne_errno = EIO, ne_uninit = EIO\<rparr>"

definition nx_ce :: cli_env where
  "nx_ce = \<lparr>ce_errno = EIO, ce_uninit = EIO, ce_junk = 9, ce_junk2 = 8, ce_alloc = (\<lambda>n. Some (replicate (unat n) 0)), ce_addr = True, ce_socket = True,
     ce_sockopt = True, ce_connect = (\<lambda>_. True), ce_new = \<lparr>cn_rx = [], cn_tx = [], cn_out = []\<rparr>, ce_close = 0\<rparr>"

definition nx_con :: "rcv list \<Rightarrow> conn" where "nx_con rx = \<lparr>cn_rx = rx, cn_tx = [], cn_out = []\<rparr>"

text \<open>The key 1, 2 with the value 3, over two buffers, and the key alone.\<close>

definition nx_keyval :: mbuff where
  "nx_keyval = \<lparr>mb_valid_size = 3, mb_nodes = [\<lparr>mb_buff = [1, 2], mb_off = 0, mb_len = 2\<rparr>, \<lparr>mb_buff = [3, 0], mb_off = 0, mb_len = 1\<rparr>],
     mb_free = [], mb_free_size = 0, mb_free_nodes = 0\<rparr>"

definition nx_key :: mbuff where
  "nx_key = \<lparr>mb_valid_size = 2, mb_nodes = [\<lparr>mb_buff = [1, 2], mb_off = 0, mb_len = 2\<rparr>], mb_free = [], mb_free_size = 0, mb_free_nodes = 0\<rparr>"

lemma nx_simps [simp]:
  "mb_inv nx_keyval" "mb_data nx_keyval = [1, 2, 3]" "mb_valid_size nx_keyval = 3"
  "mb_inv nx_key" "mb_data nx_key = [1, 2]" "mb_valid_size nx_key = 2"
  "ne_iovec_mem nx_ne" "ne_avail nx_ne = (\<lambda>n. n)" "ne_uninit nx_ne = EIO" "ne_iov nx_ne = 1"
  "alloc_sized (ce_alloc nx_ce)" "ce_alloc nx_ce n \<noteq> None" "ce_junk nx_ce = 9" "cn_tx (nx_con rx) = []" "cn_rx (nx_con rx) = rx" "cn_out (nx_con rx) = []"
  by (simp_all add: nx_keyval_def nx_key_def mb_inv_def mb_data_def node_ok_def valid_bytes_def get_valid_chunk_def nx_ne_def nx_ce_def nx_con_def
      alloc_sized_def)

text \<open>A request in two pieces: the header with the first byte of the body, and the rest.\<close>

definition nx_request :: "req_hdr \<Rightarrow> bytes \<Rightarrow> rcv list" where
  "nx_request h body = (if length body \<le> 1 then [Rcv (enc_req h @ body)] else [Rcv (enc_req h @ take 1 body), Rcv (drop 1 body)])"

lemma enc_req_ne [simp]: "enc_req h \<noteq> []"
  using length_enc_net(1) [of h] by (metis REQ_HDR_SIZE_def list.size(3) zero_neq_numeral)

lemma nx_request_arrives:
  assumes "\<And>n. n - ne_prefix env \<le> ne_avail env n"
  shows "request_arrives env h body (nx_con (nx_request h body))"
  using assms by (auto simp: request_arrives_def nx_request_def rx_live_def rx_data_def)

subsection \<open>Client and server\<close>

text \<open>The put of the key 1, 2 and the get, each in two pieces, with the replies in one.\<close>

definition nx_srv :: "rcv list \<Rightarrow> 's \<Rightarrow> 's srv" where "nx_srv rx kv = \<lparr>sv_con = nx_con rx, sv_kv = kv\<rparr>"
definition nx_cli :: "bytes \<Rightarrow> sock_cli" where "nx_cli reply = \<lparr>cl_con = nx_con (if reply = [] then [] else [Rcv reply]), cl_open = True, cl_req_id = 7\<rparr>"

lemma nx_cli_reply: "reply_arrives reply (nx_cli reply)" "cl_req_id (nx_cli reply) = 7" "cn_out (cl_con (nx_cli reply)) = []"
  by (simp_all add: reply_arrives_def nx_cli_def rx_live_def rx_data_def)

subsection \<open>The fast path\<close>

lemma mkPUT_eq:
  assumes "req_verify_magic h" "rq_op h = OP_PUT" "body_len h = Some n" "unat (rq_key_len h) + unat (rq_val_len h) < 2 ^ 32"
  shows "h = mkPUT (rq_id h) (of_nat (unat (rq_key_len h))) (of_nat (n - unat (rq_key_len h)))" "unat (rq_key_len h) \<le> n" "n < 2 ^ 32"
proof -
  have "n = unat (rq_key_len h) + unat (rq_val_len h)"
    using assms unat_add_no_wrap [of "rq_key_len h" "rq_val_len h"] by (simp add: body_len_def op_defs)
  then show "h = mkPUT (rq_id h) (of_nat (unat (rq_key_len h))) (of_nat (n - unat (rq_key_len h)))" "unat (rq_key_len h) \<le> n" "n < 2 ^ 32"
    using assms by (cases h, simp_all add: mkPUT_def req_verify_magic_def)
qed

lemma mkGET_eq:
  assumes "req_verify_magic h" "rq_op h = OP_GET" "body_len h = Some n"
  shows "h = mkGET (rq_val_len h) (rq_id h) (of_nat n)" "n < 2 ^ 32"
proof -
  have n: "n = unat (rq_key_len h)" using assms by (simp add: body_len_def op_defs)
  then show "h = mkGET (rq_val_len h) (rq_id h) (of_nat n)" using assms by (cases h, simp add: mkGET_def req_verify_magic_def)
  show "n < 2 ^ 32" unfolding n using unat_lt_two_p [of "rq_key_len h"] by simp
qed

lemma nop_both:
  assumes r: "request_arrives env h body (sv_con s)" and tx: "cn_tx (sv_con s) = []" and h: "req_verify_magic h" "rq_op h = OP_NOP" "body_len h = Some (length body)"
  shows "\<exists>r. serve_kv_request env s = Some (answered (enc_res (mk_res 0 (rq_id h))) r (sv_kv s) s, E_OK) \<and> rx_bytes r = []"
    "\<exists>r. serve_kv_request_two_recvs env s = Some (answered (enc_res (mk_res 0 (rq_id h))) r (sv_kv s) s, E_OK) \<and> rx_bytes r = []"
proof -
  have b: "body = []" using h by (simp add: body_len_def)
  have eq: "h = mkNOP (rq_key_len h) (rq_val_len h) (rq_id h)" using h by (cases h, simp add: mkNOP_def req_verify_magic_def)
  show "\<exists>r. serve_kv_request env s = Some (answered (enc_res (mk_res 0 (rq_id h))) r (sv_kv s) s, E_OK) \<and> rx_bytes r = []"
    using serve_nop_ok [OF r [unfolded b, unfolded arg_cong [OF eq, of "\<lambda>x. request_arrives env x [] (sv_con s)"]] tx] .
  obtain r1 where "recv_full REQ_HDR_SIZE (sv_con s) = ((sv_con s)\<lparr>cn_rx := r1\<rparr>, E_OK, enc_req h)" "rx_bytes r1 = []"
    using two_recvs_hdr [of "sv_con s" h body] r b by (auto simp: request_arrives_def)
  then show "\<exists>r. serve_kv_request_two_recvs env s = Some (answered (enc_res (mk_res 0 (rq_id h))) r (sv_kv s) s, E_OK) \<and> rx_bytes r = []"
    using h tx by (intro exI [of _ r1]) (simp add: serve_kv_request_two_recvs_def Let_def send_res_clear answered_def)
qed

text \<open>
  C16: the fast path is equivalent to the plain server.  On a well-formed nop, put or get whose header
  is in the first piece, the server that receives header and body with one call, and the version
  that receives them with two, leave the same store, send the same bytes and consume the request.
\<close>

theorem net_fast_path_equiv:
  assumes "request_arrives env h body (sv_con s)" "cn_tx (sv_con s) = []" "req_verify_magic h" "rq_op h \<in> {OP_NOP, OP_PUT, OP_GET}"
    "body_len h = Some (length body)" "rq_op h = OP_PUT \<Longrightarrow> unat (rq_key_len h) + unat (rq_val_len h) < 2 ^ 32"
    "\<forall>n. n \<le> ne_avail env n" "ne_iovec_mem env" "body \<noteq> [] \<or> ne_uninit env = E_OK"
    "rq_op h = OP_PUT \<Longrightarrow> ne_put env body (unat (rq_key_len h)) (sv_kv s) = Some (kv, rc)"
    "rq_op h = OP_GET \<Longrightarrow> ne_get env body (sv_kv s) = Some (kv, rc, val)" "rc \<noteq> E_OK \<Longrightarrow> val = []" "length val < 2 ^ 64"
  shows "\<exists>s1 s2. serve_kv_request env s = Some (s1, E_OK) \<and> serve_kv_request_two_recvs env s = Some (s2, E_OK)
    \<and> sv_kv s1 = sv_kv s2 \<and> cn_out (sv_con s1) = cn_out (sv_con s2) \<and> rx_data (sv_con s1) = [] \<and> rx_data (sv_con s2) = []"
proof -
  have r: "rx_live (sv_con s)" "rx_data (sv_con s) = enc_req h @ body" using assms(1) by (simp_all add: request_arrives_def)
  have "\<exists>msg kv'. (\<exists>r. serve_kv_request env s = Some (answered msg r kv' s, E_OK) \<and> rx_bytes r = [])
      \<and> (\<exists>r. serve_kv_request_two_recvs env s = Some (answered msg r kv' s, E_OK) \<and> rx_bytes r = [])"
  proof -
    consider "rq_op h = OP_NOP" | "rq_op h = OP_PUT" | "rq_op h = OP_GET" using assms(4) by blast
    then show ?thesis
    proof cases
      case 1
      then show ?thesis using nop_both [OF assms(1-3) _ assms(5)] by blast
    next
      case 2
      note e = mkPUT_eq [OF assms(3) 2 assms(5) assms(6) [OF 2]]
      show ?thesis using serve_put_ok [OF assms(1) [unfolded arg_cong [OF e(1), of "\<lambda>x. request_arrives env x body (sv_con s)"]] assms(2) e(2,3) assms(10) [OF 2]]
          two_recvs_put_ok [OF r(1) r(2) [unfolded arg_cong [OF e(1), of enc_req]] assms(2,7) e(2,3) assms(10) [OF 2] assms(9)] by blast
    next
      case 3
      note e = mkGET_eq [OF assms(3) 3 assms(5)]
      show ?thesis
        using serve_get_ok [OF assms(1) [unfolded arg_cong [OF e(1), of "\<lambda>x. request_arrives env x body (sv_con s)"]] assms(2) e(2) assms(13,8) assms(11) [OF 3]]
          two_recvs_get_ok [OF r(1) r(2) [unfolded arg_cong [OF e(1), of enc_req]] assms(2,7) e(2) assms(11) [OF 3] assms(12,9)] by blast
    qed
  qed
  then show ?thesis by (auto simp: rx_data_def)
qed

theorem net_fast_path_equiv_witness:
  "\<exists>s1 s2. serve_kv_request (nx_ne\<lparr>ne_put := (\<lambda>b k kv. Some (b # kv, ENOSPC))\<rparr>) (nx_srv (nx_request (mkPUT 7 2 1) [1, 2, 3]) []) = Some (s1, E_OK)
    \<and> serve_kv_request_two_recvs (nx_ne\<lparr>ne_put := (\<lambda>b k kv. Some (b # kv, ENOSPC))\<rparr>) (nx_srv (nx_request (mkPUT 7 2 1) [1, 2, 3]) []) = Some (s2, E_OK)
    \<and> sv_kv s1 = sv_kv s2 \<and> cn_out (sv_con s1) = cn_out (sv_con s2)"
proof -
  let ?e = "nx_ne\<lparr>ne_put := (\<lambda>b k kv. Some (b # kv, ENOSPC))\<rparr> :: bytes list net_env"
  have a: "request_arrives ?e (mkPUT 7 2 1) [1, 2, 3] (sv_con (nx_srv (nx_request (mkPUT 7 2 1) [1, 2, 3]) []))"
    using nx_request_arrives [of ?e "mkPUT 7 2 1" "[1, 2, 3]"] by (simp add: nx_srv_def)
  show ?thesis
    using net_fast_path_equiv [OF a, of "[[1, 2, 3]]" ENOSPC "[]"] body_len_mk(3) [of 2 1 7] by (auto simp: nx_srv_def op_defs)
qed

subsection \<open>Bad messages\<close>

text \<open>
  C24: a bad message does not reach the store.  When the first piece is shorter than a header, has the
  wrong magic number, or has more bytes than its header announces, the server returns an error that
  closes the connection, and the store is unchanged.
\<close>

theorem net_bad_message_rejected:
  assumes "cn_rx (sv_con s) = Rcv d # r" "bad_first_piece env d"
  shows "\<exists>s' rc. recv_from_client env s = Some (s', True, rc) \<and> sv_kv s' = sv_kv s"
  using serve_bad_piece [OF assms] by (auto simp: recv_from_client_def)

theorem net_bad_message_rejected_witness:
  "\<exists>s' rc. recv_from_client nx_ne (nx_srv [Rcv (replicate 24 0)] [5 :: nat]) = Some (s', True, rc) \<and> sv_kv s' = [5]"
proof -
  have "of_le (replicate 4 0) = (0 :: u32)" by (simp add: eval_nat_numeral)
  then have "bad_first_piece nx_ne (replicate 24 0)" by (simp add: bad_first_piece_def REQ_HDR_SIZE_def req_verify_magic_def dec_req_def NET_MAGIC_def)
  then show ?thesis using net_bad_message_rejected [of "nx_srv [Rcv (replicate 24 0)] [5 :: nat]" "replicate 24 0" "[]" nx_ne] by (auto simp: nx_srv_def)
qed

text \<open>
  C25: a message with an operation outside the enum ends the server.  A header with the right magic
  number and any operation above DEL, followed by anything, makes \<open>body_len\<close> abort the process.
\<close>

theorem net_unknown_op_aborts:
  assumes "cn_rx (sv_con s) = Rcv d # r" "REQ_HDR_SIZE \<le> length d" "req_verify_magic (dec_req (take REQ_HDR_SIZE d))"
    "OP_DEL < rq_op (dec_req (take REQ_HDR_SIZE d))"
  shows "recv_from_client env s = None"
proof -
  let ?h = "dec_req (take REQ_HDR_SIZE d)" and ?n = "min (length d) (REQ_HDR_SIZE + ne_iov env)"
  obtain c where c: "con_recv (REQ_HDR_SIZE + ne_iov env) (sv_con s) = (c, Inr (take ?n d))" by (cases "length d \<le> REQ_HDR_SIZE + ne_iov env") (simp_all add: con_recv_def assms(1) min_def)
  have "take REQ_HDR_SIZE (take ?n d) = take REQ_HDR_SIZE d" "\<not> length (take ?n d) < REQ_HDR_SIZE" using assms(2) by (simp_all add: min_def)
  moreover have "body_len ?h = None" using assms(4) by (auto simp: body_len_def op_defs)
  ultimately show ?thesis using c assms(3) by (simp add: recv_from_client_def serve_kv_request_def recv_request_def Let_def)
qed

theorem net_unknown_op_aborts_witness:
  "recv_from_client nx_ne (nx_srv [Rcv (enc_req ((mkPUT 7 0 0)\<lparr>rq_op := 4\<rparr>))] ()) = None"
  using net_unknown_op_aborts [of "nx_srv [Rcv (enc_req ((mkPUT 7 0 0)\<lparr>rq_op := 4\<rparr>))] ()" "enc_req ((mkPUT 7 0 0)\<lparr>rq_op := 4\<rparr>)" "[]" nx_ne]
  by (simp add: nx_srv_def req_verify_magic_def mkPUT_def OP_DEL_def)

text \<open>
  A client takes no reply for that of another request.  A reply with a wrong magic number or with
  the number of another request makes the put fail with EBADMSG or EINVAL and closes the connection.
\<close>

lemma net_foreign_reply_refused:
  assumes "mb_inv keyval" "klen < mb_valid_size keyval" "mb_valid_size keyval < 2 ^ 32" "reply_arrives (enc_res h) cl"
    "\<not> res_verify_magic h \<or> rs_id h \<noteq> cl_req_id cl"
  shows "\<exists>cl'. remote_put env keyval klen cl = Some (cl', errno_num (if res_verify_magic h then EINVAL else EBADMSG)) \<and> \<not> cl_open cl'"
proof -
  let ?h = "mkPUT (cl_req_id cl) (of_nat klen) (of_nat (mb_valid_size keyval - klen))"
  have cl: "cl_open cl" "cn_tx (cl_con cl) = []" "rx_live (cl_con cl)" "rx_data (cl_con cl) = enc_res h"
    using assms(4) by (simp_all add: reply_arrives_def)
  have snd: "sendReq env ?h keyval (cl_con cl) = Some ((cl_con cl)\<lparr>cn_out := cn_out (cl_con cl) @ enc_req ?h @ mb_data keyval\<rparr>, E_OK)"
    by (rule sendReq_ok [OF assms(1) _ cl(2)]) (use assms(3) in simp)
  obtain c2 where "recvResHdr (cl_req_id cl) ((cl_con cl)\<lparr>cn_out := cn_out (cl_con cl) @ enc_req ?h @ mb_data keyval\<rparr>)
      = (c2, Inl (if res_verify_magic h then EINVAL else EBADMSG))"
    using recvResHdr_bad [OF cl(3,4) assms(5)] by blast
  then show ?thesis using cl(1) assms(2) snd
    by (simp add: remote_put_def get_next_reqid_def Let_def cli_fail_def cli_disconnect_def)
qed

lemma net_foreign_reply_refused_witness:
  "\<exists>cl'. remote_put nx_ce nx_keyval 2 (nx_cli (enc_res (mk_res 0 6))) = Some (cl', 22) \<and> \<not> cl_open cl'"
  using net_foreign_reply_refused [of nx_keyval 2 "mk_res 0 6" "nx_cli (enc_res (mk_res 0 6))" nx_ce] nx_cli_reply [of "enc_res (mk_res 0 6)"]
  by (simp add: errno_num_def)

subsection \<open>The distribution of keys\<close>

text \<open>
  C26: a node that is a server never asks a peer.  Whatever peers are configured, and whatever the
  key, every put and every get runs on the local store: the order of peer addresses never finds one
  smaller than another, so the set of servers keeps only the node itself.
\<close>

theorem net_server_node_local:
  assumes "\<not> peer_is_invalid self" "tid < thread_nr" "\<And>t k. start t k = 0" "start_net_all 0 start (net_new thread_nr confs self) = (nd_net nd, 0)"
  shows "node_put env ce tid keyval klen op nd
      = map_option (\<lambda>(kv, rc). (nd\<lparr>nd_kv := kv\<rparr>, errno_num rc)) (kv_put env (take klen (mb_data keyval)) (drop klen (mb_data keyval)) op (nd_kv nd))
    \<and> node_get env ce tid key v0 nd = map_option (\<lambda>(kv, rc, v). (nd\<lparr>nd_kv := kv\<rparr>, errno_num rc, v)) (kv_get env (mb_data key) (nd_kv nd))"
proof -
  have n: "nd_net nd = started_net thread_nr confs self" using assms(4) start_net_all_ok [of start thread_nr confs self] assms(3) by simp
  show ?thesis unfolding node_put_def node_get_def n Let_def server_node_local [OF assms(1,2)] by simp
qed

text \<open>Two servers that know each other.\<close>

definition nx_peer :: "string \<Rightarrow> peer_conf" where "nx_peer n = \<lparr>pc_protocol = ''tcp'', pc_node = n, pc_service = ''5000''\<rparr>"

theorem net_server_node_local_witness:
  "\<exists>nd. nd_net nd = fst (start_net_all 0 (\<lambda>_ _. 0) (net_new 1 [nx_peer ''b''] (nx_peer ''a'')))
    \<and> node_get (salsa_kv_env ex_se ex_kv_env) nx_ce 0 nx_key mb_new nd
        = map_option (\<lambda>(kv, rc, v). (nd\<lparr>nd_kv := kv\<rparr>, errno_num rc, v)) (kv_get (salsa_kv_env ex_se ex_kv_env) [1, 2] (nd_kv nd))"
proof -
  let ?n = "started_net 1 [nx_peer ''b''] (nx_peer ''a'')"
  let ?nd = "\<lparr>nd_net = ?n, nd_clis = [], nd_kv = ex_kv\<rparr>"
  have "start_net_all 0 (\<lambda>_ _. 0) (net_new 1 [nx_peer ''b''] (nx_peer ''a'')) = (?n, 0)" by (rule start_net_all_ok) simp
  then show ?thesis using net_server_node_local [of "nx_peer ''a''" 0 1 "\<lambda>_ _. 0" "[nx_peer ''b'']" ?nd "salsa_kv_env ex_se ex_kv_env" nx_ce nx_keyval 2 NORMAL nx_key mb_new]
    by (intro exI [of _ ?nd]) (simp add: peer_is_invalid_def nx_peer_def)
qed

end
