(* ===== verification/KV_Conf.thy ===== *)
theory KV_Conf
  imports UD_Util Hash_Entry
begin

section \<open>Configuration (\<^verbatim>\<open>kv-conf.cc\<close>, \<^verbatim>\<open>kv-conf.hh\<close>)\<close>

subsection \<open>Numbers on the command line\<close>

text \<open>
  \<^verbatim>\<open>std::stoi\<close> and \<^verbatim>\<open>std::stoul\<close>: white space, a sign, digits, and anything behind them.  Without a
  digit they throw \<^verbatim>\<open>invalid_argument\<close>, for a number that does not fit \<^verbatim>\<open>out_of_range\<close>.
\<close>

datatype 'a sto = StoInvalid | StoRange | StoVal 'a

definition is_digit_chr :: "char \<Rightarrow> bool" where "is_digit_chr c \<longleftrightarrow> (of_char c :: nat) \<in> {48..57}"
definition is_space_chr :: "char \<Rightarrow> bool" where "is_space_chr c \<longleftrightarrow> (of_char c :: nat) = 32 \<or> (of_char c :: nat) \<in> {9..13}"

definition digits_val :: "string \<Rightarrow> nat" where
  "digits_val ds = foldl (\<lambda>n c. 10 * n + (of_char c - 48)) 0 ds"

definition sto_scan :: "string \<Rightarrow> (bool \<times> nat) option" where
  "sto_scan s =
     (let s1 = dropWhile is_space_chr s;
          neg = (s1 \<noteq> [] \<and> hd s1 = CHR ''-'');
          s2 = (if s1 \<noteq> [] \<and> (hd s1 = CHR ''-'' \<or> hd s1 = CHR ''+'') then tl s1 else s1);
          ds = takeWhile is_digit_chr s2
      in if ds = [] then None else Some (neg, digits_val ds))"

definition stoi :: "string \<Rightarrow> int sto" where
  "stoi s = (case sto_scan s of
       None \<Rightarrow> StoInvalid
     | Some (neg, n) \<Rightarrow> let v = (if neg then - int n else int n) in if - (2 ^ 31) \<le> v \<and> v < 2 ^ 31 then StoVal v else StoRange)"

definition stoul :: "string \<Rightarrow> u64 sto" where
  "stoul s = (case sto_scan s of
       None \<Rightarrow> StoInvalid
     | Some (neg, n) \<Rightarrow> if n < 2 ^ 64 then StoVal (if neg then - of_nat n else of_nat n) else StoRange)"

subsection \<open>The configuration\<close>

text \<open>The type of the store is an enum that a cast may give any value, so it is an integer.\<close>

definition KV_UDEPOT_SALSA :: int where "KV_UDEPOT_SALSA = 2"
definition KV_UDEPOT_SALSA_O_DIRECT :: int where "KV_UDEPOT_SALSA_O_DIRECT = 3"
definition KV_UDEPOT_SALSA_SPDK :: int where "KV_UDEPOT_SALSA_SPDK = 4"
definition KV_UDEPOT_SALSA_TRT_AIO :: int where "KV_UDEPOT_SALSA_TRT_AIO = 5"
definition KV_UDEPOT_SALSA_TRT_URING :: int where "KV_UDEPOT_SALSA_TRT_URING = 6"
definition KV_UDEPOT_SALSA_TRT_SPDK :: int where "KV_UDEPOT_SALSA_TRT_SPDK = 7"
definition KV_UDEPOT_SALSA_TRT_SPDK_ARRAY :: int where "KV_UDEPOT_SALSA_TRT_SPDK_ARRAY = 8"
definition KV_UDEPOT_SALSA_O_DIRECT_MC :: int where "KV_UDEPOT_SALSA_O_DIRECT_MC = 9"
definition KV_UDEPOT_SALSA_TRT_SPDK_ARRAY_MC :: int where "KV_UDEPOT_SALSA_TRT_SPDK_ARRAY_MC = 10"
definition KV_UDEPOT_SALSA_TRT_AIO_MC :: int where "KV_UDEPOT_SALSA_TRT_AIO_MC = 11"
definition KV_UDEPOT_SALSA_TRT_URING_MC :: int where "KV_UDEPOT_SALSA_TRT_URING_MC = 12"
definition KV_UDEPOT_LAST :: int where "KV_UDEPOT_LAST = 13"

lemmas kv_type_defs = KV_UDEPOT_SALSA_def KV_UDEPOT_SALSA_O_DIRECT_def KV_UDEPOT_SALSA_SPDK_def KV_UDEPOT_SALSA_TRT_AIO_def
  KV_UDEPOT_SALSA_TRT_URING_def KV_UDEPOT_SALSA_TRT_SPDK_def KV_UDEPOT_SALSA_TRT_SPDK_ARRAY_def KV_UDEPOT_SALSA_O_DIRECT_MC_def
  KV_UDEPOT_SALSA_TRT_SPDK_ARRAY_MC_def KV_UDEPOT_SALSA_TRT_AIO_MC_def KV_UDEPOT_SALSA_TRT_URING_MC_def KV_UDEPOT_LAST_def

record kv_conf =
  type_m :: int
  size_m :: u64
  segment_size_m :: u64
  conf_grain_size_m :: u64
  thread_nr_m :: u32
  overprovision_m :: u32
  force_destroy_m :: bool
  help_m :: bool
  fname_m :: string
  self_server_m :: string
  remote_servers_m :: "string list"

definition kv_conf_new :: "string \<Rightarrow> kv_conf" where
  "kv_conf_new fname = \<lparr>type_m = KV_UDEPOT_SALSA, size_m = 0, segment_size_m = 2 ^ 29 div 4096 + 2, conf_grain_size_m = 4096, thread_nr_m = 1,
     overprovision_m = 200, force_destroy_m = False, help_m = False, fname_m = fname, self_server_m = [], remote_servers_m = []\<rparr>"

text \<open>\<open>spdk\<close> is the build option for SPDK.\<close>

definition valid_kv_type :: "bool \<Rightarrow> int \<Rightarrow> bool" where
  "valid_kv_type spdk t \<longleftrightarrow>
     t \<in> {KV_UDEPOT_SALSA, KV_UDEPOT_SALSA_O_DIRECT, KV_UDEPOT_SALSA_TRT_AIO, KV_UDEPOT_SALSA_TRT_URING, KV_UDEPOT_SALSA_TRT_AIO_MC,
          KV_UDEPOT_SALSA_TRT_URING_MC, KV_UDEPOT_SALSA_O_DIRECT_MC}
     \<or> spdk \<and> t \<in> {KV_UDEPOT_SALSA_TRT_SPDK, KV_UDEPOT_SALSA_TRT_SPDK_ARRAY, KV_UDEPOT_SALSA_SPDK, KV_UDEPOT_SALSA_TRT_SPDK_ARRAY_MC}"

subsection \<open>Parsing the arguments\<close>

text \<open>
  The arguments that were used are a vector of bits; writing behind its end is \<open>None\<close>, and so is
  an exception that is not caught.
\<close>

definition used_arg :: "nat \<Rightarrow> bool list \<Rightarrow> bool list option" where
  "used_arg i marks = (if i < length marks then Some (marks[i := True]) else None)"

definition used_arg_and_val :: "nat \<Rightarrow> bool list \<Rightarrow> bool list option" where
  "used_arg_and_val i marks = (case used_arg i marks of None \<Rightarrow> None | Some u \<Rightarrow> used_arg (i + 1) u)"

fun has_unused_args :: "bool list \<Rightarrow> bool" where
  "has_unused_args [] = False"
| "has_unused_args (_ # marks) = (False \<in> set marks)"

text \<open>The machines: every argument up to the next one that starts with a dash.\<close>

fun machines_loop :: "string list \<Rightarrow> nat \<Rightarrow> bool list \<Rightarrow> string list \<Rightarrow> nat \<times> bool list \<times> string list" where
  "machines_loop [] j marks rs = (j, marks, rs)"
| "machines_loop (a # xs) j marks rs =
     (if a \<noteq> [] \<and> hd a = CHR ''-'' then (j, marks, rs) else machines_loop xs (Suc j) (marks[j := True]) (rs @ [a]))"

text \<open>
  One argument.  The result is \<open>None\<close>, or the configuration, the bits, the index of the last
  argument that was consumed, and \<open>Some rc\<close> for a return.
\<close>

type_synonym arg_step = "kv_conf \<times> bool list \<times> nat \<times> errno option"

definition num_arg :: "'a sto \<Rightarrow> ('a \<Rightarrow> kv_conf) \<Rightarrow> nat \<Rightarrow> kv_conf \<Rightarrow> bool list \<Rightarrow> arg_step option" where
  "num_arg v upd i c marks = (case v of
       StoInvalid \<Rightarrow> Some (c, marks, i, Some EINVAL)
     | StoRange \<Rightarrow> None
     | StoVal x \<Rightarrow> map_option (\<lambda>u. (upd x, u, i + 1, None)) (used_arg_and_val i marks))"

definition parse_arg :: "string list \<Rightarrow> nat \<Rightarrow> kv_conf \<Rightarrow> bool list \<Rightarrow> arg_step option" where
  "parse_arg argv i c marks =
     (let arg = argv ! i; val = (if i + 1 < length argv then argv ! (i + 1) else []) in
      if arg = ''-t'' \<or> arg = ''--threads'' then num_arg (stoi val) (\<lambda>x. c\<lparr>thread_nr_m := of_int x\<rparr>) i c marks
      else if arg = ''-u'' \<or> arg = ''--udepot'' then num_arg (stoi val) (\<lambda>x. if x < KV_UDEPOT_LAST then c\<lparr>type_m := x\<rparr> else c) i c marks
      else if arg = ''--segment-size'' then num_arg (stoul val) (\<lambda>x. c\<lparr>segment_size_m := x\<rparr>) i c marks
      else if arg = ''--grain-size'' then num_arg (stoul val) (\<lambda>x. c\<lparr>conf_grain_size_m := x\<rparr>) i c marks
      else if arg = ''-h'' \<or> arg = ''--help'' then map_option (\<lambda>u. (c\<lparr>help_m := True\<rparr>, u, i, Some E_OK)) (used_arg i marks)
      else if arg = ''-f'' \<or> arg = ''--file'' then map_option (\<lambda>u. (c\<lparr>fname_m := val\<rparr>, u, i + 1, None)) (used_arg_and_val i marks)
      else if arg = ''-s'' \<or> arg = ''--size'' then num_arg (stoul val) (\<lambda>x. c\<lparr>size_m := x\<rparr>) i c marks
      else if arg = ''--server-conf'' then map_option (\<lambda>u. (c\<lparr>self_server_m := val\<rparr>, u, i + 1, None)) (used_arg_and_val i marks)
      else if arg = ''-o'' \<or> arg = ''--overprovision'' then num_arg (stoi val) (\<lambda>x. c\<lparr>overprovision_m := of_int x\<rparr>) i c marks
      else if arg = ''-m'' \<or> arg = ''--machines'' then
        (case used_arg i marks of
           None \<Rightarrow> None
         | Some u \<Rightarrow> (case machines_loop (drop (i + 1) argv) (i + 1) u (remote_servers_m c) of
                       (j, u1, rs) \<Rightarrow> Some (c\<lparr>remote_servers_m := rs\<rparr>, u1, j - 1, None)))
      else if arg = ''--force-destroy'' then map_option (\<lambda>u. (c\<lparr>force_destroy_m := True\<rparr>, u, i, None)) (used_arg i marks)
      else Some (c, marks, i, None))"

lemma machines_loop_index: "j \<le> fst (machines_loop xs j marks rs)"
proof (induction xs arbitrary: j marks rs)
  case (Cons a xs)
  show ?case using Cons [of "Suc j" "marks[j := True]" "rs @ [a]"] by simp
qed simp

lemma parse_arg_index: "parse_arg argv i c marks = Some (c', u, j, None) \<Longrightarrow> i \<le> j"
  using machines_loop_index [of "i + 1" "drop (i + 1) argv" "marks[i := True]" "remote_servers_m c"]
  by (auto simp: parse_arg_def num_arg_def used_arg_def Let_def split: if_splits sto.splits option.splits prod.splits)

function parse_loop :: "string list \<Rightarrow> nat \<Rightarrow> kv_conf \<Rightarrow> bool list \<Rightarrow> (kv_conf \<times> bool list \<times> errno option) option" where
  "parse_loop argv i c marks =
     (if i < length argv then
        (case parse_arg argv i c marks of
           None \<Rightarrow> None
         | Some (c1, u1, j, Some rc) \<Rightarrow> Some (c1, u1, Some rc)
         | Some (c1, u1, j, None) \<Rightarrow> parse_loop argv (j + 1) c1 u1)
      else Some (c, marks, None))"
  by pat_completeness auto
termination
  by (relation "measure (\<lambda>(argv, i, _). length argv - i)") (auto dest!: parse_arg_index)

declare parse_loop.simps [simp del]

definition parse_args :: "bool \<Rightarrow> string list \<Rightarrow> kv_conf \<Rightarrow> (kv_conf \<times> bool list \<times> errno) option" where
  "parse_args spdk argv c =
     (case parse_loop argv 1 c (replicate (length argv) False) of
        None \<Rightarrow> None
      | Some (c1, u, Some rc) \<Rightarrow> Some (c1, u, rc)
      | Some (c1, u, None) \<Rightarrow>
          Some (c1, u,
            if fname_m c1 = [] \<and> type_m c1 \<notin> {KV_UDEPOT_SALSA_TRT_SPDK, KV_UDEPOT_SALSA_TRT_SPDK_ARRAY, KV_UDEPOT_SALSA_SPDK} then EINVAL
            else if \<not> valid_kv_type spdk (type_m c1) then EINVAL else E_OK))"

subsection \<open>Sanitizing\<close>

definition sanitize_grain_size :: "u64 \<Rightarrow> u64" where
  "sanitize_grain_size grain_size = round_down_pow2 (max 1 grain_size)"

text \<open>The page size of the machine is the argument \<open>page_size\<close>.\<close>

definition sanitize_segment_size :: "u64 \<Rightarrow> u64 \<Rightarrow> u64 \<Rightarrow> u64" where
  "sanitize_segment_size page_size grain_size segment_size =
     (let step_size = (if grain_size < page_size then page_size div grain_size else 1) in
      max 1 (align_down segment_size step_size))"

definition dma_types :: "int set" where
  "dma_types = {KV_UDEPOT_SALSA_O_DIRECT, KV_UDEPOT_SALSA_SPDK, KV_UDEPOT_SALSA_TRT_SPDK, KV_UDEPOT_SALSA_TRT_AIO, KV_UDEPOT_SALSA_TRT_SPDK_ARRAY,
     KV_UDEPOT_SALSA_O_DIRECT_MC, KV_UDEPOT_SALSA_TRT_SPDK_ARRAY_MC}"

definition validate_and_sanitize_parameters :: "u64 \<Rightarrow> kv_conf \<Rightarrow> kv_conf" where
  "validate_and_sanitize_parameters page_size c =
     (let g0 = (if type_m c \<in> dma_types then align_up (conf_grain_size_m c) 512 else conf_grain_size_m c);
          g = sanitize_grain_size g0
      in c\<lparr>conf_grain_size_m := g, segment_size_m := sanitize_segment_size page_size g (segment_size_m c),
           overprovision_m := max 5 (min 600 (overprovision_m c)), size_m := min (g * (UNUSED_PBA_ENTRY - 1)) (size_m c)\<rparr>)"
subsection \<open>What sanitizing establishes\<close>

lemma round_down_pow2_pow2: "n < 64 \<Longrightarrow> round_down_pow2 (2 ^ n) = 2 ^ n"
proof -
  assume n: "n < 64"
  have u: "unat (2 ^ n :: u64) = 2 ^ n" using n by (simp add: unat_exp_less)
  have "(2 ^ n :: u64) \<noteq> 0" using u by (metis power_not_zero unat_0 zero_neq_numeral)
  from round_down_pow2_spec [OF this] obtain m where m: "round_down_pow2 (2 ^ n) = 2 ^ m" "2 ^ m \<le> unat (2 ^ n :: u64)" "unat (2 ^ n :: u64) < 2 ^ Suc m" by metis
  have "m = n" using m(2,3) u by (simp del: power_Suc)
  then show ?thesis using m(1) by simp
qed

lemma sanitize_grain_size_pow2: "\<exists>n < 64. sanitize_grain_size g = 2 ^ n \<and> (g \<noteq> 0 \<longrightarrow> 2 ^ n \<le> unat g \<and> unat g < 2 ^ Suc n)"
proof -
  have "max 1 g \<noteq> (0 :: u64)" by (auto simp: max_def word_le_nat_alt)
  from round_down_pow2_spec [OF this] obtain n where "round_down_pow2 (max 1 g) = 2 ^ n" "n < 64" "2 ^ n \<le> unat (max 1 g)" "unat (max 1 g) < 2 ^ Suc n" by metis
  moreover have "g \<noteq> 0 \<longrightarrow> max 1 g = g" by (simp add: max_def word_le_nat_alt unat_gt_0 Suc_le_eq)
  ultimately show ?thesis by (auto simp: sanitize_grain_size_def)
qed
lemma sanitize_segment_size_ok:
  assumes page: "page_size = 2 ^ k" "k < 64" and g: "g = 2 ^ n" "n < 64"
  shows "1 \<le> sanitize_segment_size page_size g s"
    "unat page_size \<le> unat s * unat g \<Longrightarrow> unat page_size dvd unat (sanitize_segment_size page_size g s) * unat g"
    "sanitize_segment_size page_size g (sanitize_segment_size page_size g s) = sanitize_segment_size page_size g s"
proof -
  define step where "step = (if g < page_size then page_size div g else 1)"
  have ug: "unat g = 2 ^ n" "unat page_size = 2 ^ k" using page g by (simp_all add: unat_exp_less)
  have us: "unat step = 2 ^ (k - n)"
  proof (cases "n < k")
    case True
    then have "g < page_size" using ug by (simp add: word_less_nat_alt)
    then show ?thesis using True by (simp add: step_def unat_div ug power_diff)
  next
    case False
    then have "\<not> g < page_size" using ug by (simp add: word_less_nat_alt)
    then show ?thesis using False by (simp add: step_def)
  qed
  have s0: "step \<noteq> 0" using us by (metis power_not_zero unat_0 zero_neq_numeral)
  have eq: "sanitize_segment_size page_size g x = max 1 (align_down x step)" for x by (simp add: sanitize_segment_size_def step_def Let_def)
  note al = align_down_bounds [OF s0]
  show "1 \<le> sanitize_segment_size page_size g s" by (simp add: eq)
  show "unat page_size dvd unat (sanitize_segment_size page_size g s) * unat g" if "unat page_size \<le> unat s * unat g"
  proof -
    have "2 ^ (k - n) \<le> unat s"
    proof (cases "n < k")
      case True
      then have "2 ^ k = 2 ^ (k - n) * (2 :: nat) ^ n" by (simp flip: power_add)
      then show ?thesis using that ug by simp
    next
      case False
      then show ?thesis using that ug by (cases "unat s") auto
    qed
    then have "0 < unat (align_down s step)" using us by (simp add: unat_align_down [OF s0] div_greater_zero_iff)
    then have "sanitize_segment_size page_size g s = align_down s step" by (simp add: eq max_def word_le_nat_alt Suc_le_eq)
    moreover have "2 ^ k dvd unat (align_down s step) * 2 ^ n"
    proof -
      have "2 ^ (k - n) * 2 ^ n dvd unat (align_down s step) * (2 :: nat) ^ n" using al(3) [of s] us by (simp add: mult_dvd_mono)
      moreover have "(2 :: nat) ^ k dvd 2 ^ (k - n) * 2 ^ n" by (simp add: le_imp_power_dvd flip: power_add)
      ultimately show ?thesis by (rule dvd_trans [rotated])
    qed
    ultimately show ?thesis by (simp add: ug)
  qed
  show "sanitize_segment_size page_size g (sanitize_segment_size page_size g s) = sanitize_segment_size page_size g s"
  proof -
    have idem: "align_down (align_down x step) step = align_down x step" for x
      using s0 by (intro word_unat_eq_iff [THEN iffD2]) (simp add: unat_align_down)
    have "align_down 1 step \<le> 1" using al(1) [of 1] by (simp add: word_le_nat_alt)
    then show ?thesis by (auto simp: eq max_def idem)
  qed
qed
subsection \<open>Printed numbers\<close>

fun nat_str :: "nat \<Rightarrow> string" where
  "nat_str n = (if n < 10 then [char_of (48 + n)] else nat_str (n div 10) @ [char_of (48 + n mod 10)])"

declare nat_str.simps [simp del]

lemma digits_val_snoc: "digits_val (ds @ [c]) = 10 * digits_val ds + (of_char c - 48)"
  by (simp add: digits_val_def)

lemma nat_str_ok: "digits_val (nat_str n) = n \<and> (\<forall>c \<in> set (nat_str n). is_digit_chr c) \<and> nat_str n \<noteq> []"
proof (induction n rule: nat_str.induct)
  case (1 n)
  have of_char: "of_char (char_of (48 + k) :: char) = 48 + k" if "k < 10" for k :: nat using that by simp
  show ?case
  proof (cases "n < 10")
    case True
    then show ?thesis by (simp add: nat_str.simps [of n] digits_val_def is_digit_chr_def of_char)
  next
    case False
    have "digits_val (nat_str n) = 10 * digits_val (nat_str (n div 10)) + n mod 10"
      using False by (simp add: nat_str.simps [of n] digits_val_snoc of_char)
    moreover have "is_digit_chr (char_of (48 + n mod 10))" by (simp add: is_digit_chr_def of_char)
    ultimately show ?thesis using 1 False by (auto simp: nat_str.simps [of n])
  qed
qed

lemma sto_scan_nat_str: "sto_scan (nat_str n) = Some (False, n)"
proof -
  note ok = nat_str_ok [of n]
  obtain c cs where c: "nat_str n = c # cs" using ok by (cases "nat_str n") auto
  then have d: "is_digit_chr c" using ok by simp
  then have "\<not> is_space_chr c" "c \<noteq> CHR ''-''" "c \<noteq> CHR ''+''" by (auto simp: is_digit_chr_def is_space_chr_def)
  then have h: "dropWhile is_space_chr (nat_str n) = nat_str n" "hd (nat_str n) \<noteq> CHR ''-''" "hd (nat_str n) \<noteq> CHR ''+''" by (simp_all add: c)
  have tw: "takeWhile is_digit_chr (nat_str n) = nat_str n" using ok by (simp add: takeWhile_eq_all_conv)
  show ?thesis unfolding sto_scan_def Let_def h(1) using ok h(2,3) by (simp add: tw)
qed

lemma sto_nat_str:
  "n < 2 ^ 31 \<Longrightarrow> stoi (nat_str n) = StoVal (int n)" "n < 2 ^ 64 \<Longrightarrow> stoul (nat_str n) = StoVal (of_nat n)"
  by (simp_all add: stoi_def stoul_def sto_scan_nat_str)

subsection \<open>Steps of the parser\<close>

text \<open>The bits after the arguments before \<open>i\<close>, of \<open>n\<close>, have been used.\<close>

definition marked :: "nat \<Rightarrow> nat \<Rightarrow> bool list" where "marked n i = map (\<lambda>k. 0 < k \<and> k < i) [0..<n]"

lemma marked_simps: "length (marked n i) = n" "0 < i \<Longrightarrow> (marked n i)[i := True] = marked n (Suc i)" "marked n 1 = replicate n False"
proof -
  show "length (marked n i) = n" "marked n 1 = replicate n False" by (auto simp: marked_def intro!: nth_equalityI)
  assume "0 < i"
  then have "(marked n i)[i := True] ! k = marked n (Suc i) ! k" if "k < n" for k
    using that by (cases "k = i") (auto simp: marked_def)
  then show "(marked n i)[i := True] = marked n (Suc i)" by (intro nth_equalityI) (simp_all add: marked_def)
qed

lemma used_marked:
  "0 < i \<Longrightarrow> i < n \<Longrightarrow> used_arg i (marked n i) = Some (marked n (Suc i))"
  "0 < i \<Longrightarrow> Suc i < n \<Longrightarrow> used_arg_and_val i (marked n i) = Some (marked n (i + 2))"
  by (simp_all add: used_arg_and_val_def used_arg_def marked_simps)

lemma drop_args: "drop i argv = a # v # r \<Longrightarrow> Suc i < length argv \<and> argv ! i = a \<and> argv ! Suc i = v \<and> drop (i + 2) argv = r"
proof -
  assume d: "drop i argv = a # v # r"
  have "Suc i < length argv" using arg_cong [OF d, of length] by simp
  moreover have "argv ! i = a" "argv ! Suc i = v" using d calculation by (metis Cons_nth_drop_Suc Suc_lessD list.inject)+
  moreover have "drop (i + 2) argv = r" using arg_cong [OF d, of "drop 2"] by (simp add: add.commute)
  ultimately show ?thesis by simp
qed

lemma parse_step:
  assumes d: "drop i argv = a # v # r" and i: "0 < i"
    and p: "parse_arg argv i c (marked (length argv) i) = Some (c', marked (length argv) (i + 2), i + 1, None)"
  shows "parse_loop argv i c (marked (length argv) i) = parse_loop argv (i + 2) c' (marked (length argv) (i + 2))"
  using p drop_args [OF d] by (simp add: parse_loop.simps [of argv i])

lemma parse_options:
  assumes d: "drop i argv = a # v # r" and i: "0 < i"
  shows "a = ''-f'' \<Longrightarrow> parse_loop argv i c (marked (length argv) i) = parse_loop argv (i + 2) (c\<lparr>fname_m := v\<rparr>) (marked (length argv) (i + 2))"
    "a = ''--server-conf'' \<Longrightarrow> parse_loop argv i c (marked (length argv) i) = parse_loop argv (i + 2) (c\<lparr>self_server_m := v\<rparr>) (marked (length argv) (i + 2))"
    "a = ''-t'' \<Longrightarrow> stoi v = StoVal x \<Longrightarrow> parse_loop argv i c (marked (length argv) i) = parse_loop argv (i + 2) (c\<lparr>thread_nr_m := of_int x\<rparr>) (marked (length argv) (i + 2))"
    "a = ''-o'' \<Longrightarrow> stoi v = StoVal x \<Longrightarrow> parse_loop argv i c (marked (length argv) i) = parse_loop argv (i + 2) (c\<lparr>overprovision_m := of_int x\<rparr>) (marked (length argv) (i + 2))"
    "a = ''-u'' \<Longrightarrow> stoi v = StoVal x \<Longrightarrow> x < KV_UDEPOT_LAST \<Longrightarrow> parse_loop argv i c (marked (length argv) i) = parse_loop argv (i + 2) (c\<lparr>type_m := x\<rparr>) (marked (length argv) (i + 2))"
    "a = ''-s'' \<Longrightarrow> stoul v = StoVal w \<Longrightarrow> parse_loop argv i c (marked (length argv) i) = parse_loop argv (i + 2) (c\<lparr>size_m := w\<rparr>) (marked (length argv) (i + 2))"
    "a = ''--segment-size'' \<Longrightarrow> stoul v = StoVal w \<Longrightarrow> parse_loop argv i c (marked (length argv) i) = parse_loop argv (i + 2) (c\<lparr>segment_size_m := w\<rparr>) (marked (length argv) (i + 2))"
    "a = ''--grain-size'' \<Longrightarrow> stoul v = StoVal w \<Longrightarrow> parse_loop argv i c (marked (length argv) i) = parse_loop argv (i + 2) (c\<lparr>conf_grain_size_m := w\<rparr>) (marked (length argv) (i + 2))"
  by (rule parse_step [OF d i]; use drop_args [OF d] i in \<open>simp add: parse_arg_def num_arg_def used_marked Let_def\<close>)+

lemma machines_marked:
  assumes "0 < j" "\<forall>a \<in> set xs. a = [] \<or> hd a \<noteq> CHR ''-''"
  shows "machines_loop xs j (marked n j) rs = (j + length xs, marked n (j + length xs), rs @ xs)"
  using assms by (induction xs arbitrary: j rs) (auto simp: marked_simps)

lemma parse_machines:
  assumes d: "drop i argv = ''-m'' # xs" and i: "0 < i" and xs: "\<forall>a \<in> set xs. a = [] \<or> hd a \<noteq> CHR ''-''"
  shows "parse_loop argv i c (marked (length argv) i) = Some (c\<lparr>remote_servers_m := remote_servers_m c @ xs\<rparr>, marked (length argv) (length argv), None)"
proof -
  have l: "i < length argv" "length argv = Suc (i + length xs)" using arg_cong [OF d, of length] by simp_all
  have "argv ! i = ''-m''" "drop (Suc i) argv = xs" using d l(1) by (metis Cons_nth_drop_Suc list.inject)+
  then have "parse_arg argv i c (marked (length argv) i) = Some (c\<lparr>remote_servers_m := remote_servers_m c @ xs\<rparr>, marked (length argv) (length argv), i + length xs, None)"
    using machines_marked [OF _ xs, of "Suc i" "length argv"] l i by (simp add: parse_arg_def Let_def used_marked)
  then show ?thesis using l by (simp add: parse_loop.simps [of argv i] parse_loop.simps [of argv "Suc (i + length xs)"])
qed

lemma parse_flag:
  assumes d: "drop i argv = ''--force-destroy'' # r" and i: "0 < i"
  shows "parse_loop argv i c (marked (length argv) i) = parse_loop argv (Suc i) (c\<lparr>force_destroy_m := True\<rparr>) (marked (length argv) (Suc i))"
proof -
  have l: "i < length argv" using arg_cong [OF d, of length] by simp
  then have "argv ! i = ''--force-destroy''" using d by (metis Cons_nth_drop_Suc list.inject)
  then show ?thesis using l i by (simp add: parse_loop.simps [of argv i] parse_arg_def Let_def used_marked)
qed

end
