(* ===== verification/Conf_Props.thy ===== *)
theory Conf_Props
  imports KV_Conf
begin

section \<open>Properties of the configuration\<close>

text \<open>
  C39: what sanitizing guarantees.  For a page size that is a power of two, the grain size becomes a
  power of two, the segment size at least 1, a segment that holds at least a page a whole number of
  pages, and the overprovisioning lies between 5 and 600.  For the types that the code knows to need
  it, a grain size other than 0 becomes a multiple of 512, and sanitizing again then changes nothing.
\<close>

theorem sanitized_parameters:
  assumes "page_size = 2 ^ k" "k < 64" "c' = validate_and_sanitize_parameters page_size c" "unat (conf_grain_size_m c) + 512 \<le> 2 ^ 64"
  shows "(\<exists>n < 64. conf_grain_size_m c' = 2 ^ n) \<and> 1 \<le> segment_size_m c' \<and> overprovision_m c' \<in> {5..600}
    \<and> (unat page_size \<le> unat (segment_size_m c) * unat (conf_grain_size_m c') \<longrightarrow> unat page_size dvd unat (segment_size_m c') * unat (conf_grain_size_m c'))
    \<and> (type_m c \<in> dma_types \<and> conf_grain_size_m c \<noteq> 0 \<longrightarrow> 512 dvd unat (conf_grain_size_m c'))
    \<and> (type_m c \<notin> dma_types \<or> conf_grain_size_m c \<noteq> 0 \<longrightarrow> validate_and_sanitize_parameters page_size c' = c')"
proof -
  define g0 where "g0 = (if type_m c \<in> dma_types then align_up (conf_grain_size_m c) 512 else conf_grain_size_m c)"
  obtain n where n: "n < 64" "sanitize_grain_size g0 = 2 ^ n" "g0 \<noteq> 0 \<longrightarrow> 2 ^ n \<le> unat g0 \<and> unat g0 < 2 ^ Suc n"
    using sanitize_grain_size_pow2 [of g0] by blast
  have c': "conf_grain_size_m c' = 2 ^ n" "type_m c' = type_m c" "segment_size_m c' = sanitize_segment_size page_size (2 ^ n) (segment_size_m c)"
    "overprovision_m c' = max 5 (min 600 (overprovision_m c))" "size_m c' = min (2 ^ n * (UNUSED_PBA_ENTRY - 1)) (size_m c)"
    by (simp_all add: assms(3) validate_and_sanitize_parameters_def Let_def n(2) flip: g0_def)
  note seg = sanitize_segment_size_ok [OF assms(1,2) refl n(1)]
  have un: "unat (2 ^ n :: u64) = 2 ^ n" using n(1) by (simp add: unat_exp_less)
  have dma: "512 dvd (2 :: nat) ^ n" if t: "type_m c \<in> dma_types" "conf_grain_size_m c \<noteq> 0"
  proof -
    note up = align_up_bounds [of 512 "conf_grain_size_m c"]
    have g: "512 dvd unat g0" "0 < unat g0" using up assms(4) t by (simp_all add: g0_def unat_gt_0) (metis le_zero_eq not_gr_zero unat_gt_0)
    then have "512 \<le> unat g0" by (simp add: dvd_imp_le)
    moreover have "unat g0 < 2 ^ Suc n" using n(3) g(2) by auto
    ultimately have "(2 :: nat) ^ 9 < 2 ^ Suc n" by (simp del: power_Suc)
    then have "9 \<le> n" by (simp only: power_strict_increasing_iff)
    then show ?thesis using le_imp_power_dvd [of 9 n "2 :: nat"] by simp
  qed
  have idem: "validate_and_sanitize_parameters page_size c' = c'" if t: "type_m c \<notin> dma_types \<or> conf_grain_size_m c \<noteq> 0"
  proof -
    have "(if type_m c' \<in> dma_types then align_up (conf_grain_size_m c') 512 else conf_grain_size_m c') = 2 ^ n"
    proof (cases "type_m c \<in> dma_types")
      case True
      then have d: "512 dvd (2 :: nat) ^ n" using dma t by blast
      have "(2 :: nat) ^ n \<le> 2 ^ 63" using n(1) by (intro power_increasing) simp_all
      then have "unat (align_up (2 ^ n :: u64) 512) = 2 ^ n" using d un by (subst unat_align_up) auto
      then show ?thesis using True un by (simp add: c' word_unat_eq_iff)
    qed (simp add: c')
    moreover have "sanitize_grain_size (2 ^ n) = 2 ^ n"
    proof -
      have "max 1 (2 ^ n :: u64) = 2 ^ n" by (simp add: max_def word_le_nat_alt un)
      then show ?thesis by (simp add: sanitize_grain_size_def round_down_pow2_pow2 [OF n(1)])
    qed
    ultimately show ?thesis using seg(3) [of "segment_size_m c"] c' by (simp add: validate_and_sanitize_parameters_def Let_def)
  qed
  have "overprovision_m c' \<in> {5..600}" by (auto simp: c' max_def min_def not_le intro: less_imp_le)
  then show ?thesis using n(1) seg(1,2) dma idem c' un by auto
qed

theorem sanitized_parameters_witness:
  "512 dvd unat (conf_grain_size_m (validate_and_sanitize_parameters 4096 (kv_conf_new []\<lparr>type_m := KV_UDEPOT_SALSA_O_DIRECT, conf_grain_size_m := 100\<rparr>)))"
  using sanitized_parameters [of 4096 12 _ "kv_conf_new []\<lparr>type_m := KV_UDEPOT_SALSA_O_DIRECT, conf_grain_size_m := 100\<rparr>", OF _ _ refl]
  by (simp add: dma_types_def)

text \<open>A command line for a configuration.\<close>

definition conf_argv :: "kv_conf \<Rightarrow> string list" where
  "conf_argv c = [''udepot'', ''-u'', nat_str (nat (type_m c)), ''-t'', nat_str (unat (thread_nr_m c)), ''-o'', nat_str (unat (overprovision_m c)),
     ''-s'', nat_str (unat (size_m c)), ''--segment-size'', nat_str (unat (segment_size_m c)), ''--grain-size'', nat_str (unat (conf_grain_size_m c)),
     ''-f'', fname_m c, ''--server-conf'', self_server_m c] @ (if force_destroy_m c then [''--force-destroy''] else []) @ ''-m'' # remote_servers_m c"

lemma parse_conf_argv:
  assumes ok: "valid_kv_type spdk (type_m c)" "unat (thread_nr_m c) < 2 ^ 31" "unat (overprovision_m c) < 2 ^ 31" "\<not> help_m c"
    "\<forall>a \<in> set (remote_servers_m c). a = [] \<or> hd a \<noteq> CHR ''-''"
  shows "parse_loop (conf_argv c) 1 (kv_conf_new []) (marked (length (conf_argv c)) 1) = Some (c, marked (length (conf_argv c)) (length (conf_argv c)), None)"
proof -
  let ?a = "conf_argv c" let ?n = "length ?a" let ?m = "marked ?n"
  have t: "0 \<le> type_m c" "type_m c < KV_UDEPOT_LAST" using ok(1) by (auto simp: valid_kv_type_def kv_type_defs)
  have ty: "stoi (nat_str (nat (type_m c))) = StoVal (type_m c)" using sto_nat_str(1) [of "nat (type_m c)"] t by (simp add: KV_UDEPOT_LAST_def)
  have th: "stoi (nat_str (unat (thread_nr_m c))) = StoVal (int (unat (thread_nr_m c)))" by (rule sto_nat_str(1) [OF ok(2)])
  have ov: "stoi (nat_str (unat (overprovision_m c))) = StoVal (int (unat (overprovision_m c)))" by (rule sto_nat_str(1) [OF ok(3)])
  have w: "stoul (nat_str (unat x)) = StoVal x" for x :: u64
    using sto_nat_str(2) [of "unat x"] unat_lt_two_p [of x] by simp
  have d1: "drop 1 ?a = ''-u'' # nat_str (nat (type_m c)) # drop 3 ?a" by (simp add: conf_argv_def)
  have s1: "parse_loop ?a 1 x (?m 1) = parse_loop ?a 3 (x\<lparr>type_m := type_m c\<rparr>) (?m 3)" for x
    using parse_options(5) [OF d1 _ refl ty t(2), of x] by (simp add: numeral_3_eq_3)
  have d3: "drop 3 ?a = ''-t'' # nat_str (unat (thread_nr_m c)) # drop 5 ?a" by (simp add: conf_argv_def)
  have s3: "parse_loop ?a 3 x (?m 3) = parse_loop ?a 5 (x\<lparr>thread_nr_m := thread_nr_m c\<rparr>) (?m 5)" for x
    using parse_options(3) [OF d3 _ refl th, of x] by simp
  have d5: "drop 5 ?a = ''-o'' # nat_str (unat (overprovision_m c)) # drop 7 ?a" by (simp add: conf_argv_def)
  have s5: "parse_loop ?a 5 x (?m 5) = parse_loop ?a 7 (x\<lparr>overprovision_m := overprovision_m c\<rparr>) (?m 7)" for x
    using parse_options(4) [OF d5 _ refl ov, of x] by simp
  have d7: "drop 7 ?a = ''-s'' # nat_str (unat (size_m c)) # drop 9 ?a" by (simp add: conf_argv_def)
  have s7: "parse_loop ?a 7 x (?m 7) = parse_loop ?a 9 (x\<lparr>size_m := size_m c\<rparr>) (?m 9)" for x
    using parse_options(6) [OF d7 _ refl w, of x] by simp
  have d9: "drop 9 ?a = ''--segment-size'' # nat_str (unat (segment_size_m c)) # drop 11 ?a" by (simp add: conf_argv_def)
  have s9: "parse_loop ?a 9 x (?m 9) = parse_loop ?a 11 (x\<lparr>segment_size_m := segment_size_m c\<rparr>) (?m 11)" for x
    using parse_options(7) [OF d9 _ refl w, of x] by simp
  have d11: "drop 11 ?a = ''--grain-size'' # nat_str (unat (conf_grain_size_m c)) # drop 13 ?a" by (simp add: conf_argv_def)
  have s11: "parse_loop ?a 11 x (?m 11) = parse_loop ?a 13 (x\<lparr>conf_grain_size_m := conf_grain_size_m c\<rparr>) (?m 13)" for x
    using parse_options(8) [OF d11 _ refl w, of x] by simp
  have d13: "drop 13 ?a = ''-f'' # fname_m c # drop 15 ?a" by (simp add: conf_argv_def)
  have s13: "parse_loop ?a 13 x (?m 13) = parse_loop ?a 15 (x\<lparr>fname_m := fname_m c\<rparr>) (?m 15)" for x
    using parse_options(1) [OF d13 _ refl, of x] by simp
  have d15: "drop 15 ?a = ''--server-conf'' # self_server_m c # drop 17 ?a" by (simp add: conf_argv_def)
  have s15: "parse_loop ?a 15 x (?m 15) = parse_loop ?a 17 (x\<lparr>self_server_m := self_server_m c\<rparr>) (?m 17)" for x
    using parse_options(2) [OF d15 _ refl, of x] by simp
  let ?c = "kv_conf_new []\<lparr>type_m := type_m c, thread_nr_m := thread_nr_m c, overprovision_m := overprovision_m c, size_m := size_m c,
    segment_size_m := segment_size_m c, conf_grain_size_m := conf_grain_size_m c, fname_m := fname_m c, self_server_m := self_server_m c\<rparr>"
  have l: "parse_loop ?a 17 ?c (?m 17) = Some (c, ?m ?n, None)"
  proof (cases "force_destroy_m c")
    case True
    then have d: "drop 17 ?a = ''--force-destroy'' # drop 18 ?a" "drop 18 ?a = ''-m'' # remote_servers_m c" by (simp_all add: conf_argv_def)
    show ?thesis using parse_flag [OF d(1), of ?c] parse_machines [OF d(2) _ ok(5), of "?c\<lparr>force_destroy_m := True\<rparr>"] ok(4) True
      by (simp add: kv_conf_new_def)
  next
    case False
    then have d: "drop 17 ?a = ''-m'' # remote_servers_m c" by (simp add: conf_argv_def)
    show ?thesis using parse_machines [OF d _ ok(5), of ?c] ok(4) False by (simp add: kv_conf_new_def)
  qed
  show ?thesis
    unfolding s1 s3 s5 s7 s9 s11 s13 s15 by (rule l)
qed

text \<open>
  C40: a configuration survives the command line.  Parsing the options printed for a configuration, with
  a valid type, a file, numbers of 31 bits where the code reads an int, and peers that do not start
  with a dash, starting from the default configuration, returns 0, restores every field, and leaves
  no argument unused.
\<close>

theorem parse_args_round_trip:
  assumes "valid_kv_type spdk (type_m c)" "fname_m c \<noteq> []" "unat (thread_nr_m c) < 2 ^ 31" "unat (overprovision_m c) < 2 ^ 31" "\<not> help_m c"
    "\<forall>a \<in> set (remote_servers_m c). a = [] \<or> hd a \<noteq> CHR ''-''"
  shows "\<exists>marks. parse_args spdk (conf_argv c) (kv_conf_new []) = Some (c, marks, E_OK) \<and> \<not> has_unused_args marks"
proof -
  let ?a = "conf_argv c" let ?n = "length ?a" let ?m = "marked ?n"
  have "parse_args spdk ?a (kv_conf_new []) = Some (c, ?m ?n, E_OK)"
    using assms(1,2) unfolding parse_args_def marked_simps(3) [symmetric] parse_conf_argv [OF assms(1,3-6)] by simp
  moreover have "\<not> has_unused_args (?m ?n)"
  proof -
    have "?n = Suc (?n - 1)" by (simp add: conf_argv_def)
    then have "?m ?n = False # map (\<lambda>k. True) [1..<?n]" unfolding marked_def by (subst (1) upt_conv_Cons) (auto simp: conf_argv_def)
    then show ?thesis by auto
  qed
  ultimately show ?thesis by blast
qed

theorem parse_args_round_trip_witness:
  "\<exists>marks. parse_args False (conf_argv (kv_conf_new ''/dev/x''\<lparr>remote_servers_m := [''a'', ''b'']\<rparr>)) (kv_conf_new [])
     = Some (kv_conf_new ''/dev/x''\<lparr>remote_servers_m := [''a'', ''b'']\<rparr>, marks, E_OK) \<and> \<not> has_unused_args marks"
  by (rule parse_args_round_trip) (simp_all add: kv_conf_new_def valid_kv_type_def)

text \<open>
  An option without its value.  When an option that takes a value of text is the last argument,
  the parser marks the argument behind it as used and writes behind the end of its vector.
\<close>

lemma option_without_value:
  assumes "a \<in> {''-f'', ''--file'', ''--server-conf''}"
  shows "parse_args spdk [prog, a] c = None"
proof -
  have "parse_arg [prog, a] 1 c [False, False] = None"
    using assms by (auto simp: parse_arg_def used_arg_and_val_def used_arg_def Let_def)
  then show ?thesis by (simp add: parse_args_def parse_loop.simps [of "[prog, a]"])
qed

end
