(* ===== verification/Salsa_Restore.thy ===== *)
theory Salsa_Restore
  imports Salsa_GC
begin

section \<open>Giving segments back to their owner after a crash\<close>

text \<open>
  The first pass of crash recovery (\<open>prep_crash_recovery\<close> of
  \<^verbatim>\<open>udepot-directory-map.cc\<close> and \<open>restore_grain_range\<close> of \<^verbatim>\<open>Scm.cc\<close>): every
  segment with valid metadata is taken out of the free queues, charged to the controller
  and handed to the garbage collector, and its timestamp is remembered.  A failed
  assertion is \<open>None\<close>; \<open>rd_ok\<close> tells which metadata reads succeed.
\<close>

definition segment_getn :: "nat \<Rightarrow> u32 \<Rightarrow> salsa \<Rightarrow> salsa" where
  "segment_getn i n s = upd_seg i (\<lambda>g. g\<lparr>valid_nr := valid_nr g + n\<rparr>) s"

definition scm_detach_free_seg :: "nat \<Rightarrow> salsa \<Rightarrow> salsa" where
  "scm_detach_free_seg i s =
     (if sgm_state (segs s ! i) = SEG_FREE then s\<lparr>q_segs := remove1 i (q_segs s)\<rparr>
      else s\<lparr>q_rel_segs := remove1 i (q_rel_segs s)\<rparr>)"

definition gc_base_seg_destaged :: "nat \<Rightarrow> nat list \<Rightarrow> nat list" where
  "gc_base_seg_destaged i fifo = fifo @ [i]"

definition restore_grain_range :: "salsa_env \<Rightarrow> u64 \<Rightarrow> u64 \<Rightarrow> u8 \<Rightarrow> nat list \<times> salsa \<Rightarrow> (nat list \<times> salsa) option" where
  "restore_grain_range env grain len ctlr_id st =
     (case st of (fifo, s) \<Rightarrow>
      let i = scm_grain_to_segment env grain in
      if scm_grain_to_segment env (grain + len) \<noteq> i \<or> len = 0 then None
      else
        let s1 = segment_getn i (ucast len) s;
            res = (if sgm_state (segs s1 ! i) \<in> {SEG_FREE, SEG_FREE_REL} then
                     let s2 = segment_putn i (ucast (se_seg_size env)) (scm_detach_free_seg i s1);
                         s3 = upd_seg i (\<lambda>g. g\<lparr>sgm_ctlr_id := ctlr_id\<rparr>) s2
                     in if valid_nr (segs s2 ! i) = 0 then None
                        else case provision_grains env len True s3 of (s4, rc) \<Rightarrow>
                          if rc \<noteq> E_OK then None else Some (gc_base_seg_destaged i fifo, s4)
                   else Some (fifo, s1))
        in case res of
             None \<Rightarrow> None
           | Some (fifo', s') \<Rightarrow> if se_seg_size env < ucast (valid_nr (segs s' ! i)) then None else Some (fifo', s'))"

subsection \<open>The segment iterator and the metadata of a segment\<close>

definition seg_iter :: "salsa \<Rightarrow> nat list" where
  "seg_iter s = [0..<length (segs s)]"

definition seg_net_size :: "salsa_env \<Rightarrow> salsa \<Rightarrow> u64" where
  "seg_net_size env s = se_seg_size env - get_seg_md_size (sa_md s)"

definition valid_seg_md :: "salsa_env \<Rightarrow> (nat \<Rightarrow> bool) \<Rightarrow> device \<Rightarrow> nat \<Rightarrow> salsa \<Rightarrow> salsa_seg_md option" where
  "valid_seg_md env rd_ok dev i s =
     (case read_seg_md (rd_ok i) dev (sa_md s) (scm_seg_to_grain env i + seg_net_size env s) of
        None \<Rightarrow> None
      | Some seg_md \<Rightarrow> if validate_seg_md (se_md env) (sa_md s) seg_md (se_type env) then Some seg_md else None)"

fun prep_crash_segs :: "salsa_env \<Rightarrow> (nat \<Rightarrow> bool) \<Rightarrow> device \<Rightarrow> nat list \<Rightarrow> u64 \<Rightarrow> nat list \<times> salsa
    \<Rightarrow> ((nat list \<times> salsa) \<times> u64) option" where
  "prep_crash_segs env rd_ok dev [] restored_seg_nr st = Some (st, restored_seg_nr)"
| "prep_crash_segs env rd_ok dev (i # is) restored_seg_nr st =
     (case valid_seg_md env rd_ok dev i (snd st) of
        None \<Rightarrow> prep_crash_segs env rd_ok dev is restored_seg_nr st
      | Some seg_md \<Rightarrow>
          let grain_start = scm_seg_to_grain env i in
          case restore_grain_range env grain_start (seg_net_size env (snd st)) (se_ctlr_id env) st of
            None \<Rightarrow> None
          | Some (fifo, s) \<Rightarrow>
              prep_crash_segs env rd_ok dev is (restored_seg_nr + 1)
                (fifo, s\<lparr>sa_md := restore_seg_ts (grain_start div se_seg_size env) (sg_timestamp seg_md) (sa_md s)\<rparr>))"

definition prep_crash_recovery :: "salsa_env \<Rightarrow> (nat \<Rightarrow> bool) \<Rightarrow> device \<Rightarrow> nat list \<times> salsa
    \<Rightarrow> ((nat list \<times> salsa) \<times> errno) option" where
  "prep_crash_recovery env rd_ok dev st =
     map_option (\<lambda>(st', nr). (st', if nr = 0 then ENODATA else E_OK))
       (prep_crash_segs env rd_ok dev (seg_iter (snd st)) 0 st)"

subsection \<open>What the pass establishes\<close>

text \<open>A segment manager that has just started: nothing is staged and the queues agree with the states.\<close>

definition scm_started :: "salsa_env \<Rightarrow> salsa \<Rightarrow> bool" where
  "scm_started env s \<longleftrightarrow> salsa_inv env s \<and> staged (stages s) = {#} \<and> length (segs s) \<le> length (seg_ts_m (sa_md s))
     \<and> (\<forall>i \<in> set (q_segs s). sgm_state (segs s ! i) = SEG_FREE)
     \<and> (\<forall>i \<in> set (q_rel_segs s). sgm_state (segs s ! i) = SEG_FREE_REL)"

text \<open>The segments with valid metadata are in use and their timestamps are known.\<close>

definition seg_restored :: "salsa_env \<Rightarrow> (nat \<Rightarrow> bool) \<Rightarrow> device \<Rightarrow> salsa \<Rightarrow> nat \<Rightarrow> bool" where
  "seg_restored env rd_ok dev s i \<longleftrightarrow>
     (\<forall>seg_md. valid_seg_md env rd_ok dev i s = Some seg_md \<longrightarrow>
        i \<notin># places s \<and> get_seg_ts (sa_md s) (of_nat i) = sg_timestamp seg_md)"

definition same_md :: "salsa \<Rightarrow> salsa \<Rightarrow> bool" where
  "same_md s s' \<longleftrightarrow> (\<exists>ts. sa_md s' = (sa_md s)\<lparr>seg_ts_m := ts\<rparr> \<and> length ts = length (seg_ts_m (sa_md s)))"

lemma same_md_refl [simp]: "same_md s s"
  unfolding same_md_def by (rule exI [of _ "seg_ts_m (sa_md s)"]) simp

lemma same_md_trans: "same_md s t \<Longrightarrow> same_md t u \<Longrightarrow> same_md s u"
  by (auto simp: same_md_def)

lemma valid_seg_md_same:
  assumes "same_md s s'"
  shows "valid_seg_md env rd_ok dev i s' = valid_seg_md env rd_ok dev i s"
  using assms by (auto simp: same_md_def valid_seg_md_def seg_net_size_def get_seg_md_size_def read_seg_md_def validate_seg_md_def)
text \<open>Only the counters of the segment and the queue that it is in change.\<close>

definition seg_states :: "salsa \<Rightarrow> segment_state list" where
  "seg_states s = map sgm_state (segs s)"

lemma seg_states_upd [simp]:
  assumes "\<And>g. sgm_state (f g) = sgm_state g"
  shows "seg_states (upd_seg i f s) = seg_states s"
proof (cases "i < length (segs s)")
  case True
  then have "map sgm_state ((segs s)[i := f (segs s ! i)]) = (map sgm_state (segs s))[i := map sgm_state (segs s) ! i]"
    by (simp add: map_update assms)
  then show ?thesis by (simp add: seg_states_def upd_seg_def)
next
  case False
  then show ?thesis by (simp add: seg_states_def upd_seg_def list_update_beyond)
qed

lemma seg_state_nth: "i < length (segs s) \<Longrightarrow> sgm_state (segs s ! i) = seg_states s ! i"
  by (simp add: seg_states_def)

lemma seg_states_queues [simp]:
  "seg_states (s\<lparr>q_segs := q\<rparr>) = seg_states s" "seg_states (s\<lparr>q_rel_segs := q\<rparr>) = seg_states s"
  "seg_states (s\<lparr>sa_md := m\<rparr>) = seg_states s" "seg_states (s\<lparr>seg_alloc_nr := n\<rparr>) = seg_states s"
  by (simp_all add: seg_states_def)

definition taken_out :: "nat \<Rightarrow> salsa \<Rightarrow> salsa \<Rightarrow> bool" where
  "taken_out i s s' \<longleftrightarrow> nr3s s' = nr3s s \<and> stages s' = stages s \<and> sa_md s' = sa_md s \<and> seg_states s' = seg_states s
     \<and> q_segs s' = (if seg_states s ! i = SEG_FREE then remove1 i (q_segs s) else q_segs s)
     \<and> q_rel_segs s' = (if seg_states s ! i = SEG_FREE_REL then remove1 i (q_rel_segs s) else q_rel_segs s)"

lemma restore_grain_range_takes_out:
  assumes i: "i < length (segs s)" "scm_grain_to_segment env grain = i"
    and r: "restore_grain_range env grain len c (fifo, s) = Some (fifo', s')"
  shows "taken_out i s s'"
proof -
  have p: "nr3s (fst (provision_grains env len b t)) = nr3s t" "stages (fst (provision_grains env len b t)) = stages t"
    "sa_md (fst (provision_grains env len b t)) = sa_md t" "seg_states (fst (provision_grains env len b t)) = seg_states t"
    "q_segs (fst (provision_grains env len b t)) = q_segs t" "q_rel_segs (fst (provision_grains env len b t)) = q_rel_segs t" for b t
    by (simp_all add: provision_grains_def sa_tick_def Let_def seg_states_def)
  have g: "seg_states (segment_getn i n t) = seg_states t" "nr3s (segment_getn i n t) = nr3s t" "stages (segment_getn i n t) = stages t"
    "sa_md (segment_getn i n t) = sa_md t" "q_segs (segment_getn i n t) = q_segs t" "q_rel_segs (segment_getn i n t) = q_rel_segs t"
    "length (segs (segment_getn i n t)) = length (segs t)" for n t
    by (simp_all add: segment_getn_def)
  have putn: "seg_states (segment_putn i n t) = seg_states t" "sa_md (segment_putn i n t) = sa_md t"
    "q_segs (segment_putn i n t) = q_segs t" "q_rel_segs (segment_putn i n t) = q_rel_segs t" for n t
    by (simp_all add: segment_putn_def Let_def) (simp_all add: upd_seg_def seg_states_def)
  have upd: "sa_md (upd_seg i f t) = sa_md t" "q_segs (upd_seg i f t) = q_segs t" "q_rel_segs (upd_seg i f t) = q_rel_segs t" for f t
    by (simp_all add: upd_seg_def)
  let ?s1 = "segment_getn i (ucast len) s"
  have st: "sgm_state (segs ?s1 ! i) = seg_states s ! i" using i(1) by (simp add: seg_state_nth g)
  show ?thesis
  proof (cases "seg_states s ! i \<in> {SEG_FREE, SEG_FREE_REL}")
    case True
    let ?s2 = "segment_putn i (ucast (se_seg_size env)) (scm_detach_free_seg i ?s1)"
    let ?s3 = "upd_seg i (\<lambda>g. g\<lparr>sgm_ctlr_id := c\<rparr>) ?s2"
    obtain s4 rc where pr: "provision_grains env len True ?s3 = (s4, rc)" by force
    have "s' = s4"
      using r True unfolding restore_grain_range_def Let_def i(2) prod.case st pr by (simp split: if_splits)
    then have s': "s' = fst (provision_grains env len True ?s3)" by (simp add: pr)
    have d: "nr3s (scm_detach_free_seg i ?s1) = nr3s s" "stages (scm_detach_free_seg i ?s1) = stages s"
      "sa_md (scm_detach_free_seg i ?s1) = sa_md s" "seg_states (scm_detach_free_seg i ?s1) = seg_states s"
      by (simp_all add: scm_detach_free_seg_def g)
    have "q_segs (scm_detach_free_seg i ?s1) = (if seg_states s ! i = SEG_FREE then remove1 i (q_segs s) else q_segs s)"
      "q_rel_segs (scm_detach_free_seg i ?s1) = (if seg_states s ! i = SEG_FREE_REL then remove1 i (q_rel_segs s) else q_rel_segs s)"
      using True by (auto simp: scm_detach_free_seg_def st g)
    then show ?thesis unfolding s' taken_out_def p by (simp add: putn upd d)
  next
    case False
    then have "s' = ?s1" using r unfolding restore_grain_range_def Let_def i(2) prod.case st by (simp split: if_splits)
    then show ?thesis using False by (simp add: taken_out_def g)
  qed
qed
lemma taken_out_started:
  assumes st: "scm_started env s" and i: "i < length (segs s)" and t: "taken_out i s s'"
  shows "scm_started env s'" "i \<notin># places s'" "set_mset (places s') \<subseteq> set_mset (places s)" "length (segs s') = length (segs s)"
proof -
  note inv = st [unfolded scm_started_def, THEN conjunct1] and t' = t [unfolded taken_out_def]
  have stg: "staged (stages s) = {#}" "staged (stages s') = {#}" using st t' by (simp_all add: scm_started_def)
  have len: "length (segs s') = length (segs s)" "length (alltrs s') = length (alltrs s)"
    using t' by (auto simp: nr3s_def stages_def dest: arg_cong [of _ _ length])
  show "length (segs s') = length (segs s)" by (rule len)
  have rm: "mset (remove1 i xs) \<subseteq># mset xs" for xs :: "nat list" by (simp add: diff_subset_eq_self)
  have "mset (q_segs s') \<subseteq># mset (q_segs s)" "mset (q_rel_segs s') \<subseteq># mset (q_rel_segs s)"
    using t' rm by (auto split: if_splits)
  then have sub: "places s' \<subseteq># places s" by (simp add: places_def stg subset_mset.add_mono)
  show mem: "set_mset (places s') \<subseteq> set_mset (places s)" using sub by (rule set_mset_mono)
  have q: "seg_states s ! j = SEG_FREE" if "j \<in> set (q_segs s)" for j
    using that st salsa_invD(3) [OF inv, of j] seg_state_nth [of j s] by (auto simp: scm_started_def places_def)
  have r: "seg_states s ! j = SEG_FREE_REL" if "j \<in> set (q_rel_segs s)" for j
    using that st salsa_invD(3) [OF inv, of j] seg_state_nth [of j s] by (auto simp: scm_started_def places_def)
  have one: "count (mset (q_segs s) + mset (q_rel_segs s)) i \<le> 1"
    using salsa_invD(2) [OF inv, of i] by (simp add: places_def stg)
  show "i \<notin># places s'"
  proof (cases "seg_states s ! i = SEG_FREE")
    case True
    then have "count (mset (q_rel_segs s)) i = 0" using r by (force simp: count_eq_zero_iff)
    then have "count (places s') i = 0" using True one t' by (simp add: places_def stg)
    then show ?thesis by (simp only: count_eq_zero_iff not_False_eq_True)
  next
    case False
    then have c: "count (mset (q_segs s)) i = 0" using q by (force simp: count_eq_zero_iff)
    show ?thesis
    proof (cases "seg_states s ! i = SEG_FREE_REL")
      case True
      then have "count (places s') i = 0" using c one t' by (simp add: places_def stg)
      then show ?thesis by (simp only: count_eq_zero_iff not_False_eq_True)
    next
      case no: False
      then show ?thesis using False q r t' by (auto simp: places_def stg)
    qed
  qed
  have cfg: "salsa_cfg_ok env s'" using salsa_invD(1) [OF inv] unfolding salsa_cfg_ok_def len t' [THEN conjunct2, THEN conjunct2, THEN conjunct1] by blast
  have "count (places s') j \<le> 1" for j using mset_subset_eq_count [OF sub, of j] salsa_invD(2) [OF inv, of j] by linarith
  then have inv': "salsa_inv env s'"
    using cfg mem salsa_invD(3) [OF inv] by (auto simp: salsa_inv_def len stg)
  have "sgm_state (segs s' ! j) = seg_states s ! j" if "j \<in># places s'" for j
    using that mem salsa_invD(3) [OF inv, of j] seg_state_nth [of j s'] t' len by auto
  moreover have "set (q_segs s') \<subseteq> set (q_segs s)" "set (q_rel_segs s') \<subseteq> set (q_rel_segs s)"
    using t' set_remove1_subset by (metis subset_refl)+
  ultimately show "scm_started env s'"
    using inv' st t' q r by (auto simp: scm_started_def len stg places_def)
qed

lemma restore_ts_started:
  fixes ts :: u64
  assumes "scm_started env s" "j < length (segs s)" "length (segs s) < 2 ^ 64"
  defines "s' \<equiv> s\<lparr>sa_md := restore_seg_ts (of_nat j) ts (sa_md s)\<rparr>"
  shows "scm_started env s'" "places s' = places s" "same_md s s'" "get_seg_ts (sa_md s') (of_nat j) = ts"
    "k < length (segs s) \<Longrightarrow> k \<noteq> j \<Longrightarrow> get_seg_ts (sa_md s') (of_nat k) = get_seg_ts (sa_md s) (of_nat k)"
proof -
  have u: "unat (of_nat k :: u64) = k" if "k < length (segs s)" for k using that assms(3) by (intro unat_of_nat_small) simp
  have sc: "same_core s s'" by (simp add: same_core_def s'_def restore_seg_ts_def)
  show pl: "places s' = places s" by (simp add: places_def s'_def)
  show "scm_started env s'"
    using assms(1) same_core_inv(1) [OF sc] by (simp add: scm_started_def s'_def restore_seg_ts_def)
  show "same_md s s'" unfolding same_md_def s'_def by (rule exI [of _ "(seg_ts_m (sa_md s))[j := ts]"]) (simp add: restore_seg_ts_def u [OF assms(2)])
  show "get_seg_ts (sa_md s') (of_nat j) = ts"
    using assms(1,2) u [OF assms(2)] by (simp add: s'_def restore_seg_ts_def get_seg_ts_def scm_started_def)
  show "k < length (segs s) \<Longrightarrow> k \<noteq> j \<Longrightarrow> get_seg_ts (sa_md s') (of_nat k) = get_seg_ts (sa_md s) (of_nat k)"
    using u [of k] u [OF assms(2)] by (simp add: s'_def restore_seg_ts_def get_seg_ts_def)
qed
text \<open>One segment with valid metadata.\<close>

lemma restore_seg_started:
  fixes ts :: u64
  assumes st: "scm_started env s" and i: "i < length (segs s)"
    and r: "restore_grain_range env (scm_seg_to_grain env i) len c (fifo, s) = Some (fifo', s1)"
  defines "s2 \<equiv> s1\<lparr>sa_md := restore_seg_ts (scm_seg_to_grain env i div se_seg_size env) ts (sa_md s1)\<rparr>"
  shows "scm_started env s2" "i \<notin># places s2" "set_mset (places s2) \<subseteq> set_mset (places s)" "length (segs s2) = length (segs s)"
    "same_md s s2" "get_seg_ts (sa_md s2) (of_nat i) = ts"
    "k < length (segs s) \<Longrightarrow> k \<noteq> i \<Longrightarrow> get_seg_ts (sa_md s2) (of_nat k) = get_seg_ts (sa_md s) (of_nat k)"
proof -
  note inv = st [unfolded scm_started_def, THEN conjunct1]
  note g = unat_seg_to_grain [OF inv i]
  have S: "0 < unat (se_seg_size env)" using salsa_cfgD(3) [OF inv] by simp
  have d: "unat (scm_seg_to_grain env i div se_seg_size env) = i" using S by (simp add: unat_div g(1))
  then have "(of_nat (unat (scm_seg_to_grain env i div se_seg_size env)) :: u64) = of_nat i" by simp
  then have d': "scm_seg_to_grain env i div se_seg_size env = of_nat i" by (simp only: of_nat_unat ucast_id)
  have big: "length (segs s) < 2 ^ 64"
  proof -
    have "length (segs s) * unat (se_seg_size env) < 2 ^ 39"
      using salsa_invD(1) [OF inv] unfolding salsa_cfg_ok_def by blast
    moreover have "length (segs s) * 1 \<le> length (segs s) * unat (se_seg_size env)" using S by (intro mult_le_mono2) simp
    ultimately have "length (segs s) * 1 < 2 ^ 39" using le_less_trans by blast
    then show ?thesis by simp
  qed
  have "scm_grain_to_segment env (scm_seg_to_grain env i) = i" using d by (simp add: scm_grain_to_segment_def)
  note t = restore_grain_range_takes_out [OF i this r]
  note o = taken_out_started [OF st i t] and md = t [unfolded taken_out_def, THEN conjunct2, THEN conjunct2, THEN conjunct1]
  have i1: "i < length (segs s1)" and big1: "length (segs s1) < 2 ^ 64" using i big by (simp_all only: o(4))
  note ts = restore_ts_started [OF o(1) i1 big1, where ts = ts, folded d', folded s2_def]
  show "scm_started env s2" by (rule ts(1))
  show "i \<notin># places s2" "set_mset (places s2) \<subseteq> set_mset (places s)" using o(2,3) by (simp_all add: ts(2))
  show "length (segs s2) = length (segs s)" by (simp add: s2_def o(4))
  have "same_md s s1" using md same_md_refl [of s] unfolding same_md_def by (simp only:)
  then show "same_md s s2" using ts(3) by (rule same_md_trans)
  show "get_seg_ts (sa_md s2) (of_nat i) = ts" using ts(4) by (simp add: d')
  show "k < length (segs s) \<Longrightarrow> k \<noteq> i \<Longrightarrow> get_seg_ts (sa_md s2) (of_nat k) = get_seg_ts (sa_md s) (of_nat k)"
    using ts(5) [of k] by (simp add: o(4) md)
qed

lemma prep_crash_segs_ok:
  assumes "scm_started env s" "set is \<subseteq> {..<length (segs s)}" "distinct is"
    "prep_crash_segs env rd_ok dev is nr (fifo, s) = Some ((fifo', s'), nr')"
  shows "scm_started env s' \<and> same_md s s' \<and> set_mset (places s') \<subseteq> set_mset (places s) \<and> length (segs s') = length (segs s)
    \<and> (\<forall>i \<in> set is. seg_restored env rd_ok dev s' i)
    \<and> (\<forall>k < length (segs s). k \<notin> set is \<longrightarrow> get_seg_ts (sa_md s') (of_nat k) = get_seg_ts (sa_md s) (of_nat k))"
  using assms
proof (induction "is" arbitrary: nr fifo s)
  case (Cons i "is")
  show ?case
  proof (cases "valid_seg_md env rd_ok dev i s")
    case None
    then have "prep_crash_segs env rd_ok dev is nr (fifo, s) = Some ((fifo', s'), nr')" using Cons.prems(4) by simp
    note IH = Cons.IH [OF Cons.prems(1) _ _ this]
    have "seg_restored env rd_ok dev s' i" if "same_md s s'"
      using None valid_seg_md_same [OF that] by (simp add: seg_restored_def)
    then show ?thesis using IH Cons.prems(2,3) by auto
  next
    case (Some sm)
    then obtain f1 s1 where r: "restore_grain_range env (scm_seg_to_grain env i) (seg_net_size env s) (se_ctlr_id env) (fifo, s) = Some (f1, s1)"
      and p: "prep_crash_segs env rd_ok dev is (nr + 1)
        (f1, s1\<lparr>sa_md := restore_seg_ts (scm_seg_to_grain env i div se_seg_size env) (sg_timestamp sm) (sa_md s1)\<rparr>) = Some ((fifo', s'), nr')"
      using Cons.prems(4) by (auto simp: Let_def split: option.splits)
    define s2 where "s2 = s1\<lparr>sa_md := restore_seg_ts (scm_seg_to_grain env i div se_seg_size env) (sg_timestamp sm) (sa_md s1)\<rparr>"
    have i: "i < length (segs s)" using Cons.prems(2) by simp
    note one = restore_seg_started [OF Cons.prems(1) i r, where ts = "sg_timestamp sm", folded s2_def]
    have IH: "scm_started env s' \<and> same_md s2 s' \<and> set_mset (places s') \<subseteq> set_mset (places s2) \<and> length (segs s') = length (segs s2)
      \<and> (\<forall>i \<in> set is. seg_restored env rd_ok dev s' i)
      \<and> (\<forall>k < length (segs s2). k \<notin> set is \<longrightarrow> get_seg_ts (sa_md s') (of_nat k) = get_seg_ts (sa_md s2) (of_nat k))"
      using Cons.prems(2,3) by (intro Cons.IH [OF one(1) _ _ p [folded s2_def]]) (auto simp: one(4))
    have md: "same_md s s'" using IH one(5) same_md_trans by blast
    have "get_seg_ts (sa_md s') (of_nat i) = sg_timestamp sm" using IH Cons.prems(3) i one(4,6) by simp
    then have "seg_restored env rd_ok dev s' i"
      using Some valid_seg_md_same [OF md] IH one(2) by (auto simp: seg_restored_def)
    then show ?thesis using IH md one(3,4,7) by auto
  qed
qed simp

text \<open>The pass as a whole.\<close>

lemma prep_crash_recovery_ok:
  assumes st: "scm_started env s" and p: "prep_crash_recovery env rd_ok dev (fifo, s) = Some ((fifo', s'), rc)"
  shows "scm_started env s'" "same_md s s'" "length (segs s') = length (segs s)"
    "i < length (segs s') \<Longrightarrow> seg_restored env rd_ok dev s' i"
proof -
  obtain nr' where "prep_crash_segs env rd_ok dev (seg_iter s) 0 (fifo, s) = Some ((fifo', s'), nr')"
    using p by (auto simp: prep_crash_recovery_def)
  note ok = prep_crash_segs_ok [OF st _ _ this]
  show "scm_started env s'" "same_md s s'" "length (segs s') = length (segs s)"
    "i < length (segs s') \<Longrightarrow> seg_restored env rd_ok dev s' i"
    using ok by (auto simp: seg_iter_def lessThan_atLeast0)
qed

end
