(* ===== verification/KV_Recover.thy ===== *)
theory KV_Recover
  imports Salsa_Restore KV_Run
begin

section \<open>Rebuilding the index from the log (\<open>crash_recovery\<close>)\<close>

text \<open>
  After a crash the directory is rebuilt by reading every segment of the log:
  \<open>try_restore_entry\<close> of \<^verbatim>\<open>udepot-lsa.cc\<close> and \<open>crash_recovery\<close> of
  \<^verbatim>\<open>udepot-directory-map.cc\<close>.  A failed assertion, an access outside the mapped
  segment and a loop that does not advance are \<open>None\<close>.
\<close>

record rcv_env =
  rv_rd_ok :: "nat \<Rightarrow> bool"
  rv_mmap_ok :: "nat \<Rightarrow> bool"

subsection \<open>One record\<close>

definition try_restore_entry :: "'s kv_env \<Rightarrow> bytes \<Rightarrow> u32 \<Rightarrow> u64 \<Rightarrow> 's kv \<Rightarrow> ('s kv \<times> errno \<times> u64) option" where
  "try_restore_entry env key val_size grain_start s =
     (let h = ev_hash env key; s0 = tick s in
      if \<not> ev_mem_ok env (kv_ev s) then Some (s0, ENOMEM, 0)
      else case lookup_mbuff_put env h key [] (Suc BUCKET_SIZE) s0 of
        None \<Rightarrow> None
      | Some (s1, rc, trgt, old_md) \<Rightarrow>
          if rc = ENOSPC then
            (case dm_try_shift (kv_map s1) h of (d', rc', trgt') \<Rightarrow>
               let s2 = s1\<lparr>kv_map := d'\<rparr> in
               if rc' = E_OK then
                 (case trgt' of
                    None \<Rightarrow> None
                  | Some i \<Rightarrow> Some (set_mapping env h i False (length key) (unat val_size) grain_start old_md s2, E_OK, 0))
               else
                 (case grow (ev_geom env) (ev_grow env (kv_ev s2)) (kv_map s2) of
                    None \<Rightarrow> None
                  | Some (d'', rc2, ivs) \<Rightarrow> if rc2 \<noteq> E_OK then Some (tick (s2\<lparr>kv_map := d''\<rparr>), ENOSPC, 0) else None))
          else if rc = ENODATA then
            (case trgt of
               None \<Rightarrow> None
             | Some i \<Rightarrow> Some (set_mapping env h i False (length key) (unat val_size) grain_start old_md s1, E_OK, 0))
          else if rc = EEXIST then
            (case trgt of
               None \<Rightarrow> None
             | Some i \<Rightarrow>
                 if is_pba_order_equal_to_total_order env s1 (ucast (pba (entry_at (kv_map s1) h i))) grain_start old_md
                 then Some (set_mapping env h i True (length key) (unat val_size) grain_start old_md s1, E_OK,
                            kv_tot_grains_get (gsize env) (ucast (sh_key_size old_md)) (sh_val_size old_md))
                 else Some (s1\<lparr>kv_seg := ev_invalidate env (kv_seg s1) grain_start
                              (kv_tot_grains_get (gsize env) (of_nat (length key)) val_size)\<rparr>, EEXIST, 0))
          else if rc = ENOMEM then Some (s1, ENOMEM, 0)
          else None)"

subsection \<open>One segment\<close>

text \<open>The tombstones that were restored: their grains, hashes and headers, in the order of the grains.\<close>

type_synonym tombstones = "(u64 \<times> u64 \<times> store_hdr) list"

text \<open>
  \<open>base\<close> is the byte address of the mapped segment, \<open>mend\<close> its length and \<open>p\<close> the
  position in it.  The position advances in whole grains together with the grain number.
\<close>

function scan_segment :: "'s kv_env \<Rightarrow> u64 \<Rightarrow> nat \<Rightarrow> nat \<Rightarrow> nat \<Rightarrow> u64 \<Rightarrow> errno \<Rightarrow> u64 \<Rightarrow> tombstones \<Rightarrow> 's kv
    \<Rightarrow> ('s kv \<times> errno \<times> u64 \<times> u64 \<times> tombstones) option" where
  "scan_segment env ts base mend p grain_start rc valid_grain_nr tomb s =
     (if p < mend then
        let hdr = dev_read (kv_dev s) (base + p) PREFIX_SIZE;
            md = dec_hdr hdr;
            ks = unat (sh_key_size md);
            vs = unat (sh_val_size md);
            key_size = ucast (sh_key_size md);
            key = dev_read (kv_dev s) (base + p + PREFIX_SIZE) ks
        in if mend < p + PREFIX_SIZE then None
           else if mend < p + vs + ks then Some (s, rc, grain_start, valid_grain_nr, tomb)
           else if mend < p + PREFIX_SIZE + ks + vs + SUFFIX_SIZE then None
           else if checksum16 env (ucast ts) hdr \<noteq> of_le (dev_read (kv_dev s) (base + p + PREFIX_SIZE + ks + vs) SUFFIX_SIZE)
           then Some (s, rc, grain_start, valid_grain_nr, tomb)
           else case try_restore_entry env key (sh_val_size md) grain_start s of
             None \<Rightarrow> None
           | Some (s1, rc1, inval_grain_nr) \<Rightarrow>
               if rc1 = E_OK \<or> rc1 = EEXIST then
                 let grain_nr = kv_tot_grains_get (gsize env) key_size (sh_val_size md);
                     byte_nr = kv_tot_bytes_get (gsize env) key_size (sh_val_size md);
                     is_tombstone = (rc1 = E_OK \<and> vs = 0);
                     valid' = (if rc1 = E_OK then valid_grain_nr + grain_nr else valid_grain_nr);
                     tomb' = (if is_tombstone then insort_key fst (grain_start, ev_hash env key, md) tomb else tomb)
                 in if is_tombstone \<and> grain_start \<in> fst ` set tomb then None
                    else if valid' < inval_grain_nr then None
                    else if unat byte_nr = 0 then None
                    else scan_segment env ts base mend (p + unat byte_nr) (grain_start + grain_nr) E_OK
                           (valid' - inval_grain_nr) tomb' s1
               else if rc1 = ENOSPC \<or> rc1 = ENOENT then Some (s1, rc1, grain_start, valid_grain_nr, tomb)
               else None
      else Some (s, rc, grain_start, valid_grain_nr, tomb))"
  by pat_completeness auto
termination
  by (relation "measure (\<lambda>(env, ts, base, mend, p, g, rc, v, tomb, s). mend - p)") auto

declare scan_segment.simps [simp del]

subsection \<open>All segments\<close>

record rcv =
  rv_max_seg_alloc_nr :: u64
  rv_valid_grain_nr :: u64
  rv_tomb :: tombstones
  rv_restored_nr :: u64

fun recover_segs :: "salsa_env \<Rightarrow> salsa kv_env \<Rightarrow> rcv_env \<Rightarrow> nat list \<Rightarrow> rcv \<Rightarrow> salsa kv \<Rightarrow> (salsa kv \<times> errno \<times> rcv) option" where
  "recover_segs se env re [] r s = Some (s, E_OK, r)"
| "recover_segs se env re (i # is) r s =
     (case valid_seg_md se (rv_rd_ok re) (kv_dev s) i (kv_seg s) of
        None \<Rightarrow> recover_segs se env re is r s
      | Some seg_md \<Rightarrow>
          let seg_start = scm_seg_to_grain se i;
              seg_size = seg_net_size se (kv_seg s);
              mmap_size_b = seg_size * gsize env;
              mmap_offset = seg_start * gsize env
          in if \<not> rv_mmap_ok re i then Some (s, ENOMEM, r)
             else case scan_segment env (sg_timestamp seg_md) (unat mmap_offset) (unat mmap_size_b) 0 seg_start ENOENT
                         (rv_valid_grain_nr r) (rv_tomb r) s of
               None \<Rightarrow> None
             | Some (s1, rc, grain_start, valid_grain_nr, tomb) \<Rightarrow>
                 if rc \<noteq> E_OK then Some (s1, rc, r)
                 else
                   let grain_end = seg_start + seg_size;
                       s2 = (if grain_start < grain_end
                             then s1\<lparr>kv_seg := invalidate_grains se grain_start (grain_end - grain_start) (kv_seg s1)\<rparr>
                             else s1)
                   in recover_segs se env re is
                        (r\<lparr>rv_max_seg_alloc_nr := max (rv_max_seg_alloc_nr r) (sg_timestamp seg_md),
                           rv_valid_grain_nr := valid_grain_nr, rv_tomb := tomb,
                           rv_restored_nr := rv_restored_nr r + 1\<rparr>) s2)"

definition restore_seg_alloc_nr :: "u64 \<Rightarrow> salsa kv \<Rightarrow> salsa kv option" where
  "restore_seg_alloc_nr nr s =
     (if seg_alloc_nr (kv_seg s) < nr then Some (s\<lparr>kv_seg := (kv_seg s)\<lparr>seg_alloc_nr := nr\<rparr>\<rparr>) else None)"

definition kv_remove_restored_tombstone :: "'s kv_env \<Rightarrow> store_hdr \<Rightarrow> 's kv \<Rightarrow> 's kv" where
  "kv_remove_restored_tombstone env md s =
     kv_removed (kv_raw_bytes_get (ucast (sh_key_size md)) (sh_val_size md))
       (kv_tot_bytes_get (gsize env) (ucast (sh_key_size md)) (sh_val_size md)) s"

fun remove_tombstones :: "'s kv_env \<Rightarrow> tombstones \<Rightarrow> 's kv \<Rightarrow> 's kv option" where
  "remove_tombstones env [] s = Some s"
| "remove_tombstones env ((a, h, md) # tomb) s =
     (case dm_lookup_pba (kv_map s) h a of
        None \<Rightarrow> remove_tombstones env tomb s
      | Some i \<Rightarrow>
          if ucast (pba (entry_at (kv_map s) h i)) \<noteq> a \<or> sh_val_size md \<noteq> 0 then None
          else remove_tombstones env tomb (kv_remove_restored_tombstone env md s))"

definition rcv_init :: rcv where
  "rcv_init = \<lparr>rv_max_seg_alloc_nr = 0, rv_valid_grain_nr = 0, rv_tomb = [], rv_restored_nr = 0\<rparr>"

definition crash_recovery :: "salsa_env \<Rightarrow> salsa kv_env \<Rightarrow> rcv_env \<Rightarrow> salsa kv \<Rightarrow> (salsa kv \<times> errno) option" where
  "crash_recovery se env re s =
     (case recover_segs se env re (seg_iter (kv_seg s)) rcv_init s of
        None \<Rightarrow> None
      | Some (s1, rc, r) \<Rightarrow>
          if rc \<noteq> E_OK then Some (s1, rc)
          else if rv_restored_nr r = 0 then (if rv_valid_grain_nr r \<noteq> 0 then None else Some (s1, ENODATA))
          else case restore_seg_alloc_nr (rv_max_seg_alloc_nr r) s1 of
            None \<Rightarrow> None
          | Some s2 \<Rightarrow> map_option (\<lambda>s3. (s3, E_OK)) (remove_tombstones env (rv_tomb r) s2))"

end
