(* ===== verification/KV_Replay.thy ===== *)
theory KV_Replay
  imports KV_Recover
begin

section \<open>What crash recovery rebuilds\<close>

text \<open>
  The specification of crash recovery is a replay of the log: the records of all valid
  segments are taken in turn and a record replaces the one known for its key if it is
  newer.  The index that \<open>crash_recovery\<close> builds points to the records that the replay
  selects, which are the newest ones of their keys.
\<close>

subsection \<open>Replaying a log\<close>

definition replay_step :: "('a \<Rightarrow> 'a \<Rightarrow> bool) \<Rightarrow> ('a \<Rightarrow> 'k) \<Rightarrow> ('k \<rightharpoonup> 'a) \<Rightarrow> 'a \<Rightarrow> ('k \<rightharpoonup> 'a)" where
  "replay_step older key m a =
     (case m (key a) of None \<Rightarrow> m(key a \<mapsto> a) | Some b \<Rightarrow> if older b a then m(key a \<mapsto> a) else m)"

definition replay :: "('a \<Rightarrow> 'a \<Rightarrow> bool) \<Rightarrow> ('a \<Rightarrow> 'k) \<Rightarrow> 'a list \<Rightarrow> ('k \<rightharpoonup> 'a)" where
  "replay older key log = foldl (replay_step older key) Map.empty log"

lemma replay_snoc [simp]:
  "replay older key [] = Map.empty" "replay older key (log @ [a]) = replay_step older key (replay older key log) a"
  unfolding replay_def by (simp_all only: foldl_append foldl_Cons foldl_Nil)

definition newest :: "('a \<Rightarrow> 'a \<Rightarrow> bool) \<Rightarrow> ('a \<Rightarrow> 'k) \<Rightarrow> 'a list \<Rightarrow> 'k \<Rightarrow> 'a \<Rightarrow> bool" where
  "newest older key log k a \<longleftrightarrow> a \<in> set log \<and> key a = k \<and> (\<forall>b \<in> set log. key b = k \<longrightarrow> b = a \<or> older b a)"

definition strict_order_on :: "'a set \<Rightarrow> ('a \<Rightarrow> 'a \<Rightarrow> bool) \<Rightarrow> bool" where
  "strict_order_on A older \<longleftrightarrow>
     (\<forall>a \<in> A. \<forall>b \<in> A. (a \<noteq> b \<longrightarrow> older a b \<or> older b a) \<and> (older a b \<longrightarrow> \<not> older b a))
   \<and> (\<forall>a \<in> A. \<forall>b \<in> A. \<forall>c \<in> A. older a b \<longrightarrow> older b c \<longrightarrow> older a c)"

lemma strict_order_onD:
  assumes "strict_order_on A older" "a \<in> A" "b \<in> A"
  shows "a \<noteq> b \<Longrightarrow> older a b \<or> older b a" "older a b \<Longrightarrow> \<not> older b a"
    "c \<in> A \<Longrightarrow> older a b \<Longrightarrow> older b c \<Longrightarrow> older a c"
  using assms unfolding strict_order_on_def by blast+

lemma strict_order_on_subset:
  assumes "strict_order_on B older" "A \<subseteq> B"
  shows "strict_order_on A older"
  unfolding strict_order_on_def
proof (intro conjI ballI impI)
  fix a b assume "a \<in> A" "b \<in> A"
  then have ab: "a \<in> B" "b \<in> B" using assms(2) by blast+
  show "older a b \<or> older b a" if "a \<noteq> b" using strict_order_onD(1) [OF assms(1) ab that] .
  show "\<not> older b a" if "older a b" using strict_order_onD(2) [OF assms(1) ab that] .
  show "older a c" if "c \<in> A" "older a b" "older b c" for c
    using strict_order_onD(3) [OF assms(1) ab _ that(2,3)] that(1) assms(2) by blast
qed

text \<open>The replay selects the newest record of each key.\<close>

lemma replay_None: "replay older key log k = None \<longleftrightarrow> (\<forall>a \<in> set log. key a \<noteq> k)"
proof (induction log arbitrary: k rule: rev_induct)
  case (snoc x log)
  have "replay_step older key m x k = None \<longleftrightarrow> m k = None \<and> key x \<noteq> k" for m
    by (auto simp: replay_step_def split: option.split)
  then show ?case using snoc.IH [of k] by auto
qed simp

lemma replay_newest:
  assumes "strict_order_on (set log) older"
  shows "replay older key log k = Some a \<longleftrightarrow> newest older key log k a"
  using assms
proof (induction log arbitrary: k a rule: rev_induct)
  case (snoc x log)
  have so: "strict_order_on (set log) older" by (rule strict_order_on_subset [OF snoc.prems]) auto
  note IH = snoc.IH [OF so]
  show ?case
  proof (cases "key x = k")
    case False
    then have "replay_step older key m x k = m k" for m by (simp add: replay_step_def split: option.split)
    then show ?thesis using IH [of k a] False by (auto simp: newest_def)
  next
    case True
    show ?thesis
    proof (cases "replay older key log k")
      case None
      then have "\<forall>b \<in> set log. key b \<noteq> k" by (simp only: replay_None)
      then show ?thesis using True None by (auto simp: replay_step_def newest_def)
    next
      case (Some b)
      then have b: "newest older key log k b" using IH by blast
      have in_log: "b \<in> set (log @ [x])" "x \<in> set (log @ [x])" using b by (auto simp: newest_def)
      note ord = strict_order_onD [OF snoc.prems]
      have up: "newest older key (log @ [x]) k x" if "older b x"
        unfolding newest_def using that b True in_log ord(3) [OF _ in_log]
        by (metis (no_types, lifting) Un_iff newest_def set_append set_ConsD empty_iff list.set(1))
      have stay: "newest older key (log @ [x]) k b" if "\<not> older b x"
        using that b ord(1) [OF in_log] by (auto simp: newest_def)
      have uniq: "c = d" if "newest older key (log @ [x]) k c" "newest older key (log @ [x]) k d" for c d
        using that ord(2) [of c d] unfolding newest_def by blast
      show ?thesis using up stay uniq True Some by (auto simp: replay_step_def)
    qed
  qed
qed (simp add: newest_def)
subsection \<open>Where the record of a key is\<close>

definition kv_loc :: "'s kv_env \<Rightarrow> 's kv \<Rightarrow> bytes \<Rightarrow> u64 option" where
  "kv_loc env s = map_of (map (\<lambda>x. (entry_key env (kv_dev s) x, info_pba x)) (dm_entries (kv_map s)))"

lemma kv_loc_Some:
  assumes "kv_inv env s"
  shows "kv_loc env s k = Some a \<longleftrightarrow> (\<exists>x \<in># kv_content s. entry_key env (kv_dev s) x = k \<and> info_pba x = a)"
proof -
  let ?L = "map (\<lambda>x. (entry_key env (kv_dev s) x, info_pba x)) (dm_entries (kv_map s))"
  have set: "set (dm_entries (kv_map s)) = set_mset (kv_content s)" by (simp add: set_dm_entries kv_content_def)
  have "(k, a) \<in> set ?L \<longleftrightarrow> (\<exists>x \<in># kv_content s. entry_key env (kv_dev s) x = k \<and> info_pba x = a)" for a
    using set by auto
  note mem = this
  have uniq: "b = a" if ab: "(k, a) \<in> set ?L" "(k, b) \<in> set ?L" for a b
  proof -
    obtain x y where x: "x \<in># kv_content s" "entry_key env (kv_dev s) x = k" "info_pba x = a"
      and y: "y \<in># kv_content s" "entry_key env (kv_dev s) y = k" "info_pba y = b"
      using ab unfolding mem by blast
    then have "y = x" using kv_invD(4) [OF assms x(1) y(1)] by simp
    then show ?thesis using x y by simp
  qed
  show ?thesis
  proof
    assume "kv_loc env s k = Some a"
    then have "(k, a) \<in> set ?L" unfolding kv_loc_def by (rule map_of_SomeD)
    then show "\<exists>x \<in># kv_content s. entry_key env (kv_dev s) x = k \<and> info_pba x = a" unfolding mem .
  next
    assume "\<exists>x \<in># kv_content s. entry_key env (kv_dev s) x = k \<and> info_pba x = a"
    then have a: "(k, a) \<in> set ?L" unfolding mem .
    then obtain b where b: "map_of ?L k = Some b" using weak_map_of_SomeI [OF a] by blast
    then show "kv_loc env s k = Some a" using uniq [OF a map_of_SomeD [OF b]] by (simp add: kv_loc_def)
  qed
qed

lemma kv_abs_loc:
  assumes "kv_inv env s"
  shows "kv_abs env s k = map_option (rec_val env (kv_dev s)) (kv_loc env s k)"
proof (cases "kv_loc env s k")
  case None
  then have "\<forall>x \<in># kv_content s. entry_key env (kv_dev s) x \<noteq> k" using kv_loc_Some [OF assms, of k] by auto
  then show ?thesis using None kv_abs_None [OF assms, of k] by simp
next
  case (Some a)
  then obtain x where x: "x \<in># kv_content s" "entry_key env (kv_dev s) x = k" "info_pba x = a" using kv_loc_Some [OF assms] by auto
  then have "kv_abs env s k = Some (rec_val env (kv_dev s) a)" using kv_abs_Some [OF assms, of k] by (auto simp: entry_val_def)
  then show ?thesis using Some by simp
qed

text \<open>An entry added under a new key, or exchanged under its key.\<close>

lemma kv_loc_bind:
  assumes inv: "kv_inv env s" "kv_inv env s'" and dev: "kv_dev s' = kv_dev s"
    and c: "kv_content s = M + old" "kv_content s' = add_mset x M" and x: "entry_key env (kv_dev s) x = key" "info_pba x = a"
    and old: "\<And>y. y \<in># old \<Longrightarrow> entry_key env (kv_dev s) y = key"
  shows "kv_loc env s' = (kv_loc env s)(key \<mapsto> a)"
proof
  fix k
  have eq: "kv_loc env s' k = Some b \<longleftrightarrow> ((kv_loc env s)(key \<mapsto> a)) k = Some b" for b
  proof (cases "k = key")
    case True
    have "b = a" if "kv_loc env s' key = Some b"
      using that kv_loc_Some [OF inv(2), of key] kv_invD(4) [OF inv(2), of x] x unfolding c(2) dev by fastforce
    moreover have "kv_loc env s' key = Some a" using kv_loc_Some [OF inv(2), of key a] x by (auto simp: c(2) dev)
    ultimately show ?thesis using True by auto
  next
    case False
    then show ?thesis using kv_loc_Some [OF inv(1), of k b] kv_loc_Some [OF inv(2), of k b] x old unfolding c dev by fastforce
  qed
  then show "kv_loc env s' k = ((kv_loc env s)(key \<mapsto> a)) k" by (metis option.exhaust)
qed

lemma kv_loc_same:
  "kv_map s' = kv_map s \<Longrightarrow> kv_dev s' = kv_dev s \<Longrightarrow> kv_loc env s' = kv_loc env s"
  by (simp add: kv_loc_def)

subsection \<open>An index without tombstones\<close>

text \<open>Recovery never removes an entry, so that displacement works without exception.\<close>

definition dm_clean :: "dmap \<Rightarrow> bool" where
  "dm_clean d \<longleftrightarrow> (\<forall>t \<in> set (tables d). clean t)"

lemma dm_clean_table: "dm_inv d \<Longrightarrow> dm_clean d \<Longrightarrow> clean (table_of d h)"
  using hash_to_map_less [of d h] by (auto simp: dm_clean_def table_of_def tables_def)

lemma dm_clean_set_table: "dm_clean d \<Longrightarrow> clean m \<Longrightarrow> dm_clean (set_table d h m)"
  unfolding dm_clean_def tables_set_table by (auto dest!: set_update_subset_insert [THEN subsetD])

lemma clean_list_update: "clean m \<Longrightarrow> \<not> deleted e \<Longrightarrow> ht_m m' = (ht_m m)[i := e] \<Longrightarrow> clean m'"
  unfolding clean_def by (auto dest!: set_update_subset_insert [THEN subsetD])

lemma live_size_not_deleted:
  assumes "kvs \<noteq> (0::u64)" "kv_size e = ucast (min kvs MAX_KV_SIZE)"
  shows "\<not> deleted e"
proof -
  have "unat (min kvs MAX_KV_SIZE) < 2 ^ 11" "0 < unat (min kvs MAX_KV_SIZE)"
    using assms(1) unat_gt_0 [of kvs] by (auto simp: min_def MAX_KV_SIZE_eq word_le_nat_alt)
  then have "0 < unat (kv_size e)" by (simp add: assms(2) unsigned_ucast_eq take_bit_eq_mod)
  then have "kv_size e \<noteq> 0" by (metis unat_0 less_irrefl)
  then show ?thesis by (simp add: deleted_iff)
qed

lemma dm_clean_ops:
  assumes "dm_inv d" "dm_clean d" "kvs \<noteq> 0"
  shows "dm_clean (dm_insert d h i kvs a)" "dm_clean (dm_update_inplace d h i kvs a)"
proof -
  note t = dm_clean_table [OF assms(1,2), of h]
  have "clean (um_insert (table_of d h) i h kvs a)"
    by (rule clean_list_update [OF t live_size_not_deleted [OF assms(3)]]) (simp_all add: um_insert_def um_update_def Let_def)
  then show "dm_clean (dm_insert d h i kvs a)" unfolding dm_insert_def by (rule dm_clean_set_table [OF assms(2)])
  have "clean (um_update_inplace (table_of d h) i h kvs a)"
    by (rule clean_list_update [OF t live_size_not_deleted [OF assms(3)]]) (simp_all add: um_update_inplace_def)
  then show "dm_clean (dm_update_inplace d h i kvs a)" unfolding dm_update_inplace_def by (rule dm_clean_set_table [OF assms(2)])
qed
subsection \<open>Restoring one record\<close>

text \<open>
  Which of two records is older, as the code decides it: the timestamp in the header of
  the first record against that of the segment of the second one, within a segment their
  places.  \<open>ts\<close> gives the timestamps of the segments.
\<close>

definition older :: "'s kv_env \<Rightarrow> (u64 \<Rightarrow> u64) \<Rightarrow> device \<Rightarrow> u64 \<Rightarrow> u64 \<Rightarrow> bool" where
  "older env ts dev a b \<longleftrightarrow>
     (if grain_to_seg_idx env a \<noteq> grain_to_seg_idx env b
      then sh_timestamp (rec_md env dev a) < ts (grain_to_seg_idx env b) else a < b)"

text \<open>The state after a part of the log, and a record of the log.\<close>

definition rcv_ok :: "salsa_env \<Rightarrow> salsa kv_env \<Rightarrow> salsa kv \<Rightarrow> u64 list \<Rightarrow> salsa kv \<Rightarrow> bool" where
  "rcv_ok se env s0 L s \<longleftrightarrow> salsa_kv_safe se env s \<and> dm_clean (kv_map s) \<and> kv_dev s = kv_dev s0
     \<and> same_core (kv_seg s0) (kv_seg s) \<and> sa_md (kv_seg s) = sa_md (kv_seg s0)
     \<and> kv_loc (salsa_kv_env se env) s
         = replay (older (salsa_kv_env se env) (get_seg_ts (sa_md (kv_seg s0))) (kv_dev s0)) (rec_key (salsa_kv_env se env) (kv_dev s0)) L"

definition log_record :: "salsa_env \<Rightarrow> salsa kv_env \<Rightarrow> salsa kv \<Rightarrow> u64 \<Rightarrow> bool" where
  "log_record se env s0 g \<longleftrightarrow>
     rec_ks (salsa_kv_env se env) (kv_dev s0) g + rec_vs (salsa_kv_env se env) (kv_dev s0) g < 2 ^ 32
   \<and> rec_range (salsa_kv_env se env) (kv_dev s0) g \<subseteq> owned_grains se (kv_seg s0)"

lemma length_rec_key [simp]: "length (rec_key env dev g) = rec_ks env dev g" "length (rec_val env dev g) = rec_vs env dev g"
  by (simp_all add: rec_key_def rec_val_def)

lemma sa_md_invalidate [simp]: "sa_md (invalidate_grains se g n s) = sa_md s"
  by (simp add: invalidate_grains_def unprovision_grains_def gc_base_page_invalidate_def)

lemma set_mapping_fields:
  "kv_dev (set_mapping env h i up kl vl a md s) = kv_dev s"
  "kv_seg (set_mapping env h i up kl vl a md s) = kv_seg s \<or> (\<exists>b n. kv_seg (set_mapping env h i up kl vl a md s) = ev_invalidate env (kv_seg s) b n)"
  "kv_map (set_mapping env h i True kl vl a md s) = dm_update_inplace (kv_map s) h i (kv_tot_grains_get (gsize env) (of_nat kl) (of_nat vl)) a"
  "kv_map (set_mapping env h i False kl vl a md s) = dm_insert (kv_map s) h i (kv_tot_grains_get (gsize env) (of_nat kl) (of_nat vl)) a"
  by (auto simp: set_mapping_def Let_def kv_added_def kv_removed_def)

lemma rcv_okD:
  assumes "rcv_ok se env s0 L s"
  shows "salsa_kv_safe se env s" "kvs.kv_safe se env s" "kv_inv (salsa_kv_env se env) s" "dm_inv (kv_map s)" "dm_clean (kv_map s)"
    "kv_dev s = kv_dev s0" "same_core (kv_seg s0) (kv_seg s)" "sa_md (kv_seg s) = sa_md (kv_seg s0)"
    "kv_loc (salsa_kv_env se env) s
       = replay (older (salsa_kv_env se env) (get_seg_ts (sa_md (kv_seg s0))) (kv_dev s0)) (rec_key (salsa_kv_env se env) (kv_dev s0)) L"
    "env_wf (salsa_kv_env se env)" "owned_grains se (kv_seg s) = owned_grains se (kv_seg s0)"
proof -
  note r = assms [unfolded rcv_ok_def]
  show safe: "salsa_kv_safe se env s" and "dm_clean (kv_map s)" "kv_dev s = kv_dev s0"
    and core: "same_core (kv_seg s0) (kv_seg s)" and "sa_md (kv_seg s) = sa_md (kv_seg s0)"
    and "kv_loc (salsa_kv_env se env) s
       = replay (older (salsa_kv_env se env) (get_seg_ts (sa_md (kv_seg s0))) (kv_dev s0)) (rec_key (salsa_kv_env se env) (kv_dev s0)) L"
    using r by simp_all
  show "kvs.kv_safe se env s" using safe by (simp only: salsa_kv_safe_eq)
  show inv: "kv_inv (salsa_kv_env se env) s" using safe unfolding salsa_kv_safe_def by (rule conjunct1)
  show "dm_inv (kv_map s)" by (rule kv_invD(2) [OF inv])
  show "env_wf (salsa_kv_env se env)" by (rule kv_invD(1) [OF inv])
  show "owned_grains se (kv_seg s) = owned_grains se (kv_seg s0)" by (rule same_core_inv(2) [OF core])
qed

lemma rcv_segI:
  assumes "rcv_ok se env s0 L s"
    "kv_seg s' = kv_seg s \<or> (\<exists>b n. kv_seg s' = ev_invalidate (salsa_kv_env se env) (kv_seg s) b n)"
  shows "same_core (kv_seg s0) (kv_seg s') \<and> sa_md (kv_seg s') = sa_md (kv_seg s0)"
  using rcv_okD(7,8) [OF assms(1)] assms(2) same_core_trans [OF _ same_core_steps(5)] by auto

lemma log_record_placed:
  assumes ok: "rcv_ok se env s0 L s" and g: "log_record se env s0 g"
  shows "kvs.placed_record se env s g (rec_key (salsa_kv_env se env) (kv_dev s0) g) (rec_val (salsa_kv_env se env) (kv_dev s0) g)"
proof -
  let ?E = "salsa_kv_env se env" and ?n = "of_nat (rec_grains (salsa_kv_env se env) (kv_dev s0) g) :: u64"
  note d = rcv_okD [OF ok]
  have sz: "rec_ks ?E (kv_dev s0) g + rec_vs ?E (kv_dev s0) g < 2 ^ 32" and r: "rec_range ?E (kv_dev s0) g \<subseteq> owned_grains se (kv_seg s)"
    using g d(11) by (simp_all add: log_record_def)
  have b: "rec_grains ?E (kv_dev s0) g = unat (kv_tot_grains_get (gsize ?E) (ucast (sh_key_size (rec_md ?E (kv_dev s0) g))) (sh_val_size (rec_md ?E (kv_dev s0) g)))"
    using kv_tot_grains_rec [OF d(10) sz] by simp
  have "rec_grains ?E (kv_dev s0) g > 0" using rec_grains_bounds(1) [OF d(10), of "kv_dev s0" g] gr0I by fastforce
  then have n0: "kv_tot_grains_get (gsize ?E) (ucast (sh_key_size (rec_md ?E (kv_dev s0) g))) (sh_val_size (rec_md ?E (kv_dev s0) g)) \<noteq> 0"
    unfolding b by (metis unat_0 less_irrefl)
  have "salsa_kv_inv se env (kv_seg s)" using d(1) by (simp add: salsa_kv_safe_def)
  from kvs.fresh_range_ok [OF this _ n0] r
  show ?thesis
    unfolding kvs.placed_record_def written_def d(6) by (simp add: rec_range_def b)
qed
text \<open>A key that the index does not have yet.\<close>

lemma rcv_insert:
  fixes g :: u64
  assumes ok: "rcv_ok se env s0 L s" and g: "log_record se env s0 g"
  defines "key \<equiv> rec_key (salsa_kv_env se env) (kv_dev s0) g" and "val \<equiv> rec_val (salsa_kv_env se env) (kv_dev s0) g"
  defines "n \<equiv> kv_tot_grains_get (gsize (salsa_kv_env se env)) (of_nat (length key)) (of_nat (length val))"
  assumes h: "h = ev_hash (salsa_kv_env se env) key"
    and dm: "dm_inv (dm_insert d' h c n g)" "dm_clean (dm_insert d' h c n g)"
      "dm_content (dm_insert d' h c n g) = add_mset (info_new (map_entry_nr_bits_m (kv_map s)) h n g) (dm_content (kv_map s))"
      "map_entry_nr_bits_m d' = map_entry_nr_bits_m (kv_map s)"
    and none: "kv_abs (salsa_kv_env se env) s key = None"
  shows "rcv_ok se env s0 (L @ [g]) (set_mapping (salsa_kv_env se env) h c False (length key) (length val) g md (s\<lparr>kv_map := d'\<rparr>))"
proof -
  let ?E = "salsa_kv_env se env"
  let ?s = "set_mapping ?E h c False (length key) (length val) g md (s\<lparr>kv_map := d'\<rparr>)"
  note d = rcv_okD [OF ok] and pl = log_record_placed [OF ok g, folded key_def val_def]
  have sz: "length key + length val < 2 ^ 32" using g by (simp add: log_record_def key_def val_def)
  have h': "h = ev_hash (salsa_kv_env se env) key" using h by simp
  have safe: "kvs.kv_safe se env ?s" and abs: "kv_abs ?E ?s = (kv_abs ?E s)(key \<mapsto> val)"
    using kvs.set_mapping_insert [OF d(2) pl sz meta_eq_to_obj_eq [OF n_def] h' dm(1,3,4) none, of md] by simp_all
  have inv': "kv_inv ?E ?s" using safe by (simp add: salsa_kv_safe_eq [symmetric] salsa_kv_safe_def)
  have m: "kv_map ?s = dm_insert d' h c n g" by (simp add: set_mapping_fields n_def)
  have w: "written ?E (kv_dev s) g key val" using pl by (simp add: kvs.placed_record_def)
  note we = written_entry [OF d(10) w sz, of "map_entry_nr_bits_m (kv_map s)", folded n_def, folded h]
  have "kv_loc ?E ?s = (kv_loc ?E s)(key \<mapsto> g)"
    by (rule kv_loc_bind [OF d(3) inv' _ _ _ we(3,1), where M = "kv_content s" and old = "{#}"])
      (simp_all add: set_mapping_fields(1) kv_content_def m dm(3))
  moreover have "kv_loc ?E s key = None" using none kv_abs_loc [OF d(3), of key] by simp
  ultimately have loc: "kv_loc ?E ?s = replay (older ?E (get_seg_ts (sa_md (kv_seg s0))) (kv_dev s0)) (rec_key ?E (kv_dev s0)) (L @ [g])"
    using d(9) by (simp add: replay_step_def key_def)
  have "kv_seg ?s = kv_seg s \<or> (\<exists>b n. kv_seg ?s = ev_invalidate (salsa_kv_env se env) (kv_seg s) b n)"
    using set_mapping_fields(2) [of ?E h c False "length key" "length val" g md "s\<lparr>kv_map := d'\<rparr>"] by simp
  note seg = rcv_segI [OF ok this]
  show ?thesis
    unfolding rcv_ok_def salsa_kv_safe_eq using safe seg loc dm(2) d(6)
    by (simp add: m set_mapping_fields(1))
qed

text \<open>A key whose record in the index is older.\<close>

lemma rcv_update:
  fixes g :: u64
  assumes ok: "rcv_ok se env s0 L s" and g: "log_record se env s0 g"
  defines "key \<equiv> rec_key (salsa_kv_env se env) (kv_dev s0) g" and "val \<equiv> rec_val (salsa_kv_env se env) (kv_dev s0) g"
  assumes h: "h = ev_hash (salsa_kv_env se env) key" and i: "key_slot (salsa_kv_env se env) s h key i"
  defines "a \<equiv> slot_pba (table_of (kv_map s) h) i"
  assumes md: "md = rec_md (salsa_kv_env se env) (kv_dev s) a"
  shows "is_pba_order_equal_to_total_order (salsa_kv_env se env) s a g md \<longleftrightarrow> older (salsa_kv_env se env) (get_seg_ts (sa_md (kv_seg s0))) (kv_dev s0) a g" "kv_loc (salsa_kv_env se env) s key = Some a"
    "older (salsa_kv_env se env) (get_seg_ts (sa_md (kv_seg s0))) (kv_dev s0) a g \<Longrightarrow> rcv_ok se env s0 (L @ [g]) (set_mapping (salsa_kv_env se env) h i True (length key) (length val) g md s)"
proof -
  let ?E = "salsa_kv_env se env"
  let ?s = "set_mapping ?E h i True (length key) (length val) g md s"
  note d = rcv_okD [OF ok] and pl = log_record_placed [OF ok g, folded key_def val_def]
  have sz: "length key + length val < 2 ^ 32" using g by (simp add: log_record_def key_def val_def)
  have ts: "ev_seg_ts ?E (kv_seg s) (grain_to_seg_idx ?E g) = get_seg_ts (sa_md (kv_seg s0)) (grain_to_seg_idx ?E g)"
    by (simp add: salsa_kv_env_def salsa_op_env_def d(8))
  show ord: "is_pba_order_equal_to_total_order ?E s a g md \<longleftrightarrow> older ?E (get_seg_ts (sa_md (kv_seg s0))) (kv_dev s0) a g"
    by (simp add: is_pba_order_equal_to_total_order_def older_def Let_def ts md d(6))
  note ks = key_slotD [OF d(3) i]
  have "info_pba (slot_info (table_of (kv_map s) h) i) = a" by (simp add: a_def)
  then show loc0: "kv_loc ?E s key = Some a" using kv_loc_Some [OF d(3), of key a] ks by blast
  assume old: "older ?E (get_seg_ts (sa_md (kv_seg s0))) (kv_dev s0) a g"
  obtain M where M: "kv_content s = add_mset (slot_info (table_of (kv_map s) h) i) M" using multi_member_split [OF ks(2)] by blast
  let ?n = "kv_tot_grains_get (gsize ?E) (of_nat (length key)) (of_nat (length val))"
  have h': "h = ev_hash (salsa_kv_env se env) key" using h by simp
  have safe: "kvs.kv_safe se env ?s"
    using kvs.set_mapping_update [OF d(2) pl sz h' i md [unfolded a_def]] by simp
  have inv': "kv_inv ?E ?s" using safe by (simp add: salsa_kv_safe_eq [symmetric] salsa_kv_safe_def)
  have w: "written ?E (kv_dev s) g key val" using pl by (simp add: kvs.placed_record_def)
  have n0: "?n \<noteq> 0" using kvs.put_grains_nz [OF d(10) sz] by simp
  have mt: "matches (table_of (kv_map s) h) h i" and vp: "valid_pba g" using i w by (simp_all add: key_slot_def written_def)
  note up = dm_update_inplace_ok [OF d(4) mt vp n0]
  note we = written_entry [OF d(10) w sz, of "map_entry_nr_bits_m (kv_map s)", folded h]
  have c': "kv_content ?s = add_mset (info_new (map_entry_nr_bits_m (kv_map s)) h ?n g) M"
    using up(2) M by (simp add: kv_content_def set_mapping_fields add_mset_commute)
  have "kv_loc ?E ?s = (kv_loc ?E s)(key \<mapsto> g)"
    using M ks(3) by (intro kv_loc_bind [OF d(3) inv' _ _ c' we(3,1), where old = "{#slot_info (table_of (kv_map s) h) i#}"])
      (auto simp: set_mapping_fields)
  then have loc: "kv_loc ?E ?s = replay (older ?E (get_seg_ts (sa_md (kv_seg s0))) (kv_dev s0)) (rec_key ?E (kv_dev s0)) (L @ [g])"
    using d(9) loc0 old by (simp add: replay_step_def key_def)
  note seg = rcv_segI [OF ok set_mapping_fields(2) [of ?E h i True "length key" "length val" g md s]]
  show "rcv_ok se env s0 (L @ [g]) ?s"
    unfolding rcv_ok_def salsa_kv_safe_eq using safe seg loc dm_clean_ops(2) [OF d(4,5) n0] d(6)
    by (simp add: set_mapping_fields)
qed
lemma dm_clean_shift_insert:
  assumes inv: "dm_inv d" and cl: "dm_clean d" and full: "bucket_full (table_of d h) h"
    and s: "dm_try_shift d h = (d', E_OK, he)" and n: "kvs \<noteq> 0"
  shows "dm_clean (dm_insert d' h i kvs a)"
proof -
  note tf = dm_table_facts [OF inv, of h] and ct = dm_clean_table [OF inv cl, of h]
  obtain m' where m': "try_shift (table_of d h) h = (m', E_OK, he)" "d' = set_table d h m'"
    using s by (auto simp: dm_try_shift_def split: prod.splits)
  have "clean m'" using try_shift_inv(1) [OF tf(1,3) full clean_no_tombstones [OF um_invD(1) [OF tf(1)] ct] m'(1)] ct by blast
  then have "clean (um_insert m' i h kvs a)"
    by (rule clean_list_update [OF _ live_size_not_deleted [OF n]]) (simp_all add: um_insert_def um_update_def Let_def)
  moreover have "dm_insert d' h i kvs a = set_table d h (um_insert m' i h kvs a)"
    using table_of_set_table [OF inv] by (simp add: dm_insert_def m'(2))
  ultimately show ?thesis using dm_clean_set_table [OF cl] by simp
qed

text \<open>The state does not change between the records.\<close>

lemma rcv_same:
  assumes ok: "rcv_ok se env s0 L s" and m: "kv_map s' = kv_map s" "kv_dev s' = kv_dev s"
    "key_nr_m s' = key_nr_m s" "used_bytes_m s' = used_bytes_m s" "total_bytes_m s' = total_bytes_m s"
    and seg: "kv_seg s' = kv_seg s \<or> (\<exists>b n. kv_seg s' = ev_invalidate (salsa_kv_env se env) (kv_seg s) b n)"
  shows "rcv_ok se env s0 L s'"
proof -
  note d = rcv_okD [OF ok] and sg = rcv_segI [OF ok seg]
  have i: "salsa_kv_inv se env (kv_seg s')"
    using kvs.kv_safeD(2) [OF d(2)] kvs.invalidate_inv [of se env "kv_seg s"] seg by auto
  have o: "owned_grains se (kv_seg s) \<subseteq> owned_grains se (kv_seg s')"
    using same_core_inv(2) [OF sg [THEN conjunct1], of se] d(11) by simp
  have "kvs.kv_safe se env s'" by (rule kvs.kv_safe_dev(1) [OF d(2) m(1) _ i o m(3,4,5)]) (simp add: m(2))
  moreover have "kv_loc (salsa_kv_env se env) s' = kv_loc (salsa_kv_env se env) s" by (rule kv_loc_same [OF m(1,2)])
  ultimately show ?thesis using sg d(5,6,9) by (simp add: rcv_ok_def salsa_kv_safe_eq m(1,2))
qed

lemma rcv_same_store:
  assumes ok: "rcv_ok se env s0 L s" and st: "same_store s s'"
  shows "rcv_ok se env s0 L s'"
proof -
  have eq: "s' = s\<lparr>kv_ev := kv_ev s'\<rparr>" using st by (simp add: same_store_def)
  have cnt: "key_nr_m s' = key_nr_m s" "used_bytes_m s' = used_bytes_m s" "total_bytes_m s' = total_bytes_m s"
    by (subst eq, simp)+
  note f = same_store_fields [OF st]
  show ?thesis by (rule rcv_same [OF ok f(1,2) cnt]) (simp add: f(3))
qed

lemma try_restore_entry_cases:
  assumes r: "try_restore_entry env key vs g s = Some (s', rc, inval)" and rc: "rc = E_OK \<or> rc = EEXIST"
    and l: "lookup_mbuff_put env (ev_hash env key) key [] (Suc BUCKET_SIZE) (tick s) = Some (s1, rc1, trgt, md)"
  obtains
    (shift) d' i where "rc1 = ENOSPC" "dm_try_shift (kv_map s1) (ev_hash env key) = (d', E_OK, Some i)"
      "s' = set_mapping env (ev_hash env key) i False (length key) (unat vs) g md (s1\<lparr>kv_map := d'\<rparr>)"
  | (new) i where "rc1 = ENODATA" "trgt = Some i" "s' = set_mapping env (ev_hash env key) i False (length key) (unat vs) g md s1"
  | (update) i where "rc1 = EEXIST" "trgt = Some i"
      "is_pba_order_equal_to_total_order env s1 (ucast (pba (entry_at (kv_map s1) (ev_hash env key) i))) g md"
      "s' = set_mapping env (ev_hash env key) i True (length key) (unat vs) g md s1"
  | (skip) i n where "rc1 = EEXIST" "trgt = Some i"
      "\<not> is_pba_order_equal_to_total_order env s1 (ucast (pba (entry_at (kv_map s1) (ev_hash env key) i))) g md"
      "s' = s1\<lparr>kv_seg := ev_invalidate env (kv_seg s1) g n\<rparr>"
proof -
  have mem: "ev_mem_ok env (kv_ev s)"
  proof (rule ccontr)
    assume "\<not> ev_mem_ok env (kv_ev s)"
    then show False using r rc by (auto simp: try_restore_entry_def Let_def)
  qed
  note unf = r [unfolded try_restore_entry_def Let_def l option.case prod.case]
  consider "rc1 = ENOSPC" | "rc1 = ENODATA" | "rc1 = EEXIST" using unf mem rc by (auto split: if_splits)
  then show thesis
  proof cases
    case 1
    then show thesis using unf mem rc shift by (auto split: prod.splits option.splits if_splits)
  next
    case 2
    then show thesis using unf mem new by (auto split: option.splits)
  next
    case 3
    then show thesis using unf mem update skip by (auto split: option.splits if_splits)
  qed
qed

text \<open>A record of the log, restored or left out because the index has a newer one.\<close>

lemma try_restore_entry_step:
  fixes g :: u64
  assumes ok: "rcv_ok se env s0 L s" and g: "log_record se env s0 g"
  defines "key \<equiv> rec_key (salsa_kv_env se env) (kv_dev s0) g"
  assumes r: "try_restore_entry (salsa_kv_env se env) key (sh_val_size (rec_md (salsa_kv_env se env) (kv_dev s0) g)) g s = Some (s', rc, inval)"
    and rc: "rc = E_OK \<or> rc = EEXIST"
  shows "rcv_ok se env s0 (L @ [g]) s'"
proof -
  let ?E = "salsa_kv_env se env" and ?val = "rec_val (salsa_kv_env se env) (kv_dev s0) g"
  let ?h = "ev_hash ?E key" and ?vs = "sh_val_size (rec_md (salsa_kv_env se env) (kv_dev s0) g)"
  let ?n = "kv_tot_grains_get (gsize ?E) (of_nat (length key)) (of_nat (length ?val))"
  have vs: "unat ?vs = length ?val" by (simp add: rec_vs_def)
  have st: "same_store s (tick s)" by (rule same_store_tick) (simp add: same_store_def)
  note ok0 = rcv_same_store [OF ok st] note d0 = rcv_okD [OF ok0]
  have sz: "length key + length ?val < 2 ^ 32" using g by (simp add: log_record_def key_def)
  then have len: "length key < 2 ^ 32" by simp
  obtain s1 rc1 trgt md where l: "lookup_mbuff_put ?E ?h key [] (Suc BUCKET_SIZE) (tick s) = Some (s1, rc1, trgt, md)"
    and s1: "same_store (tick s) s1" and spec: "put_lookup_spec ?E (tick s) ?h key (rc1, trgt, md)"
    using lookup_mbuff_put_ok [OF d0(3) len, of ?h] by auto
  note f = same_store_fields [OF s1] and ok1 = rcv_same_store [OF ok0 s1]
  note d = rcv_okD [OF ok1] and pl = log_record_placed [OF ok1 g, folded key_def]
  have vp: "valid_pba g" using pl by (simp add: kvs.placed_record_def written_def)
  have n0: "?n \<noteq> 0" by (rule kvs.put_grains_nz [OF d(10) sz])
  have spec1: "put_lookup_spec ?E s1 ?h key (rc1, trgt, md)" using spec by (simp add: put_lookup_spec_def key_slot_def f)
  note abs = no_key_slot_abs [OF d(3), of key]
  show ?thesis
  proof (rule try_restore_entry_cases [OF r rc l])
    fix d' i
    assume a: "rc1 = ENOSPC" "dm_try_shift (kv_map s1) ?h = (d', E_OK, Some i)"
      "s' = set_mapping ?E ?h i False (length key) (unat ?vs) g md (s1\<lparr>kv_map := d'\<rparr>)"
    have none: "kv_abs ?E s1 key = None" and full: "bucket_full (table_of (kv_map s1) ?h) ?h"
      using spec1 abs a(1) by (auto simp: put_lookup_spec_def dest: io_failureD)
    have nt: "no_tombstones (table_of (kv_map s1) ?h) ?h"
      by (rule clean_no_tombstones [OF um_invD(1) [OF dm_table_facts(1) [OF d(4)]] dm_clean_table [OF d(4,5)]])
    have ip: "dm_inv (dm_insert d' ?h i ?n g)"
      "dm_content (dm_insert d' ?h i ?n g) = add_mset (info_new (map_entry_nr_bits_m (kv_map s1)) ?h ?n g) (dm_content (kv_map s1))"
      using dm_shift_insert_ok [OF d(4) full nt a(2) vp n0] by auto
    have mb: "map_entry_nr_bits_m d' = map_entry_nr_bits_m (kv_map s1)"
      using a(2) by (auto simp: dm_try_shift_def split: prod.splits)
    note cl = dm_clean_shift_insert [OF d(4,5) full a(2) n0, of i g]
    have "rcv_ok se env s0 (L @ [g]) (set_mapping ?E ?h i False (length key) (length ?val) g md (s1\<lparr>kv_map := d'\<rparr>))"
      by (rule rcv_insert [OF ok1 g, folded key_def, OF refl ip(1) cl ip(2) mb none])
    then show ?thesis by (simp add: a(3) vs)
  next
    fix i
    assume a: "rc1 = ENODATA" "trgt = Some i" "s' = set_mapping ?E ?h i False (length key) (unat ?vs) g md s1"
    have none: "kv_abs ?E s1 key = None" and ins: "insertable (table_of (kv_map s1) ?h) ?h i"
      using spec1 abs a(1,2) by (auto simp: put_lookup_spec_def dest: io_failureD)
    note ip = dm_insert_ok [OF d(4) ins vp n0]
    have "rcv_ok se env s0 (L @ [g]) (set_mapping ?E ?h i False (length key) (length ?val) g md (s1\<lparr>kv_map := kv_map s1\<rparr>))"
      by (rule rcv_insert [OF ok1 g, folded key_def, OF refl ip(1) dm_clean_ops(1) [OF d(4,5) n0] ip(2) refl none])
    then show ?thesis by (simp add: a(3) vs)
  next
    fix i
    assume a: "rc1 = EEXIST" "trgt = Some i"
      "is_pba_order_equal_to_total_order ?E s1 (ucast (pba (entry_at (kv_map s1) ?h i))) g md"
      "s' = set_mapping ?E ?h i True (length key) (unat ?vs) g md s1"
    have i: "key_slot ?E s1 ?h key i" and md: "md = rec_md ?E (kv_dev s1) (slot_pba (table_of (kv_map s1) ?h) i)"
      using spec1 a(1,2) by (auto simp: put_lookup_spec_def dest: io_failureD)
    note up = rcv_update [OF ok1 g, folded key_def, OF refl i md]
    have e: "ucast (pba (entry_at (kv_map s1) ?h i)) = slot_pba (table_of (kv_map s1) ?h) i" by (simp add: entry_at_def slot_pba_def)
    then show ?thesis using a(3) up by (simp add: a(4) vs e)
  next
    fix i n
    assume a: "rc1 = EEXIST" "trgt = Some i"
      "\<not> is_pba_order_equal_to_total_order ?E s1 (ucast (pba (entry_at (kv_map s1) ?h i))) g md"
      "s' = s1\<lparr>kv_seg := ev_invalidate ?E (kv_seg s1) g n\<rparr>"
    have i: "key_slot ?E s1 ?h key i" and md: "md = rec_md ?E (kv_dev s1) (slot_pba (table_of (kv_map s1) ?h) i)"
      using spec1 a(1,2) by (auto simp: put_lookup_spec_def dest: io_failureD)
    note up = rcv_update [OF ok1 g, folded key_def, OF refl i md]
    have e: "ucast (pba (entry_at (kv_map s1) ?h i)) = slot_pba (table_of (kv_map s1) ?h) i" by (simp add: entry_at_def slot_pba_def)
    then have "\<not> older ?E (get_seg_ts (sa_md (kv_seg s0))) (kv_dev s0) (slot_pba (table_of (kv_map s1) ?h) i) g" using a(3) up(1) by (simp add: e)
    then have "replay (older ?E (get_seg_ts (sa_md (kv_seg s0))) (kv_dev s0)) (rec_key ?E (kv_dev s0)) (L @ [g]) = replay (older ?E (get_seg_ts (sa_md (kv_seg s0))) (kv_dev s0)) (rec_key ?E (kv_dev s0)) L"
      using up(2) by (simp add: replay_step_def d(9) key_def)
    moreover have "rcv_ok se env s0 L s'" unfolding a(4) by (rule rcv_same [OF ok1]) auto
    ultimately show ?thesis unfolding rcv_ok_def by (simp only:)
  qed
qed

end
