(* ===== verification/KV_Log.thy ===== *)
theory KV_Log
  imports KV_Replay
begin

section \<open>The records of the log\<close>

text \<open>
  The log is the sequence of the records that are found in the valid segments: from the
  start of a segment record after record, up to the first place where the header and the
  checksum do not fit together or the record does not fit into the segment.
\<close>

definition rec_valid :: "'s kv_env \<Rightarrow> device \<Rightarrow> u64 \<Rightarrow> nat \<Rightarrow> u64 \<Rightarrow> bool" where
  "rec_valid env dev ts gend g \<longleftrightarrow> unat g < gend
     \<and> rec_off env g + 16 + rec_ks env dev g + rec_vs env dev g \<le> gend * unat (gsize env)
     \<and> checksum16 env (ucast ts) (dev_read dev (rec_off env g) 14)
         = of_le (dev_read dev (rec_off env g + 14 + rec_ks env dev g + rec_vs env dev g) 2)"

function seg_records :: "'s kv_env \<Rightarrow> device \<Rightarrow> u64 \<Rightarrow> nat \<Rightarrow> u64 \<Rightarrow> u64 list" where
  "seg_records env dev ts gend g =
     (let g' = g + of_nat (rec_grains env dev g) in
      if rec_valid env dev ts gend g \<and> unat g < unat g' then g # seg_records env dev ts gend g' else [])"
  by pat_completeness auto
termination
  by (relation "measure (\<lambda>(env, dev, ts, gend, g). gend - unat g)") (auto simp: rec_valid_def)

declare seg_records.simps [simp del]

lemma rec_valid_fits:
  assumes ewf: "env_wf env" and v: "rec_valid env dev ts gend g" and gend: "gend < 2 ^ 64"
  shows "unat g + rec_grains env dev g \<le> gend" "0 < rec_grains env dev g"
    "unat (g + of_nat (rec_grains env dev g)) = unat g + rec_grains env dev g"
proof -
  let ?gs = "unat (gsize env)" and ?n = "rec_ks env dev g + rec_vs env dev g + 16"
  note gs = gsize_pos(1) [OF ewf]
  note b = rec_grains_bounds [OF ewf, of dev g]
  show pos: "0 < rec_grains env dev g" by (rule b(3))
  have "unat g * ?gs + ?n \<le> gend * ?gs" using v by (simp add: rec_valid_def rec_off_def)
  then have "(unat g + rec_grains env dev g) * ?gs < (gend + 1) * ?gs" using b(2) unfolding add_mult_distrib by linarith
  then have "unat g + rec_grains env dev g < gend + 1" using mult_less_cancel2 by blast
  then show le: "unat g + rec_grains env dev g \<le> gend" by simp
  then have "unat (of_nat (rec_grains env dev g) :: u64) = rec_grains env dev g" using gend by (intro unat_of_nat_small) simp
  then show "unat (g + of_nat (rec_grains env dev g)) = unat g + rec_grains env dev g"
    using le gend unat_add_no_wrap [of g "of_nat (rec_grains env dev g)"] by simp
qed

lemma seg_records_step:
  assumes ewf: "env_wf env" and gend: "gend < 2 ^ 64"
  shows "seg_records env dev ts gend g =
    (if rec_valid env dev ts gend g then g # seg_records env dev ts gend (g + of_nat (rec_grains env dev g)) else [])"
  using rec_valid_fits [OF ewf _ gend, of dev ts g] by (subst seg_records.simps) (auto simp: Let_def)

text \<open>Every record of the sequence lies between its start and the end of the segment.\<close>

lemma seg_records_range:
  assumes ewf: "env_wf env" and gend: "gend < 2 ^ 64" and a: "a \<in> set (seg_records env dev ts gend g)"
  shows "unat g \<le> unat a \<and> unat a + rec_grains env dev a \<le> gend"
  using a
proof (induction "gend - unat g" arbitrary: g rule: less_induct)
  case less
  note step = seg_records_step [OF ewf gend, of dev ts g]
  have v: "rec_valid env dev ts gend g" using less.prems step by (auto split: if_splits)
  note fit = rec_valid_fits [OF ewf v gend]
  have "a = g \<or> a \<in> set (seg_records env dev ts gend (g + of_nat (rec_grains env dev g)))" using less.prems step v by auto
  then show ?case
  proof
    assume "a \<in> set (seg_records env dev ts gend (g + of_nat (rec_grains env dev g)))"
    moreover have "gend - unat (g + of_nat (rec_grains env dev g)) < gend - unat g" using fit by simp
    ultimately show ?thesis using less.hyps [of "g + of_nat (rec_grains env dev g)"] fit(3) by simp
  qed (use fit(1) in simp)
qed

subsection \<open>Scanning a segment\<close>

text \<open>One round of the loop, in terms of the record at the position.\<close>

lemma scan_segment_round:
  fixes base mend gend :: nat and g :: u64
  assumes r: "scan_segment env ts base mend p g rc v tomb s = Some res"
    and p: "base + p = rec_off env g" and mend: "base + mend = gend * unat (gsize env)" and gs: "0 < unat (gsize env)"
  obtains
    (stop) "\<not> rec_valid env (kv_dev s) ts gend g" "res = (s, rc, g, v, tomb)"
  | (next_rec) s1 rc1 inval v1 tomb1 md where "rec_valid env (kv_dev s) ts gend g" "md = rec_md env (kv_dev s) g"
      "try_restore_entry env (rec_key env (kv_dev s) g) (sh_val_size md) g s = Some (s1, rc1, inval)"
      "rc1 = E_OK \<or> rc1 = EEXIST"
      "set tomb1 \<subseteq> set tomb \<union> {t. fst t = g \<and> rec_vs env (kv_dev s) g = 0}"
      "0 < unat (kv_tot_bytes_get (gsize env) (ucast (sh_key_size md)) (sh_val_size md))"
      "scan_segment env ts base mend (p + unat (kv_tot_bytes_get (gsize env) (ucast (sh_key_size md)) (sh_val_size md)))
         (g + kv_tot_grains_get (gsize env) (ucast (sh_key_size md)) (sh_val_size md)) E_OK v1 tomb1 s1 = Some res"
  | (fail) s1 rc1 where "rec_valid env (kv_dev s) ts gend g" "rc1 = ENOSPC \<or> rc1 = ENOENT" "res = (s1, rc1, g, v, tomb)"
proof (cases "p < mend")
  case False
  then have "gend * unat (gsize env) \<le> unat g * unat (gsize env)" using p mend unfolding rec_off_def by linarith
  then have "\<not> unat g < gend" using gs by simp
  then show thesis using r stop False by (subst (asm) scan_segment.simps) (simp add: rec_valid_def)
next
  case True
  let ?dev = "kv_dev s"
  define md where "md = rec_md env ?dev g"
  have "unat g * unat (gsize env) < gend * unat (gsize env)" using True p mend unfolding rec_off_def by linarith
  then have lt: "unat g < gend" by simp
  have hdr: "dev_read ?dev (base + p) PREFIX_SIZE = dev_read ?dev (rec_off env g) 14" by (simp add: p)
  have md': "dec_hdr (dev_read ?dev (rec_off env g) 14) = md" by (simp add: md_def rec_md_def)
  have ks: "unat (sh_key_size md) = rec_ks env ?dev g" and vs: "unat (sh_val_size md) = rec_vs env ?dev g"
    by (simp_all add: md_def rec_ks_def rec_vs_def)
  have key: "dev_read ?dev (base + p + PREFIX_SIZE) (rec_ks env ?dev g) = rec_key env ?dev g" by (simp add: rec_key_def p)
  have sfx: "dev_read ?dev (base + p + PREFIX_SIZE + rec_ks env ?dev g + rec_vs env ?dev g) SUFFIX_SIZE
    = dev_read ?dev (rec_off env g + 14 + rec_ks env ?dev g + rec_vs env ?dev g) 2" by (simp add: p)
  let ?crc = "checksum16 env (ucast ts) (dev_read ?dev (rec_off env g) 14)
    = of_le (dev_read ?dev (rec_off env g + 14 + rec_ks env ?dev g + rec_vs env ?dev g) 2)"
  have v: "rec_valid env ?dev ts gend g \<longleftrightarrow> p + 16 + rec_ks env ?dev g + rec_vs env ?dev g \<le> mend \<and> ?crc"
    using lt p mend unfolding rec_valid_def by linarith
  note unf = r [unfolded scan_segment.simps [of env ts base mend p] Let_def hdr md' ks vs key sfx, unfolded PREFIX_SIZE_simp SUFFIX_SIZE_simp]
  have ge: "p + 14 \<le> mend" using unf True by (simp split: if_splits)
  show thesis
  proof (cases "rec_valid env ?dev ts gend g")
    case False
    then have "res = (s, rc, g, v, tomb)" using unf True ge unfolding v by (simp split: if_splits)
    then show thesis by (rule stop [OF False])
  next
    case valid: True
    then obtain s1 rc1 inval where t: "try_restore_entry env (rec_key env ?dev g) (sh_val_size md) g s = Some (s1, rc1, inval)"
      using unf True ge unfolding v by (auto split: if_splits option.splits)
    have "rc1 = E_OK \<or> rc1 = EEXIST \<or> rc1 = ENOSPC \<or> rc1 = ENOENT"
      using unf True ge valid t unfolding v by (auto split: if_splits)
    then consider (ok) "rc1 = E_OK \<or> rc1 = EEXIST" | (bad) "rc1 = ENOSPC \<or> rc1 = ENOENT" by blast
    then show thesis
    proof cases
      case bad
      then have "res = (s1, rc1, g, v, tomb)" using unf True ge valid t unfolding v by auto
      then show thesis by (rule fail [OF valid bad])
    next
      case ok
      define tomb1 where "tomb1 = (if rc1 = E_OK \<and> rec_vs env ?dev g = 0
        then insort_key fst (g, ev_hash env (rec_key env ?dev g), md) tomb else tomb)"
      have tb: "set tomb1 \<subseteq> set tomb \<union> {t. fst t = g \<and> rec_vs env ?dev g = 0}" by (auto simp: tomb1_def set_insort_key)
      define v1 where "v1 = (if rc1 = E_OK then v + kv_tot_grains_get (gsize env) (ucast (sh_key_size md)) (sh_val_size md) else v) - inval"
      have "0 < unat (kv_tot_bytes_get (gsize env) (ucast (sh_key_size md)) (sh_val_size md))
        \<and> scan_segment env ts base mend (p + unat (kv_tot_bytes_get (gsize env) (ucast (sh_key_size md)) (sh_val_size md)))
           (g + kv_tot_grains_get (gsize env) (ucast (sh_key_size md)) (sh_val_size md)) E_OK v1 tomb1 s1 = Some res"
        using unf True ge valid ok unfolding v t option.case prod.case tomb1_def [symmetric] v1_def [symmetric] by (simp split: if_splits)
      then show thesis using next_rec [OF valid md_def t ok tb] by blast
    qed
  qed
qed

text \<open>A scan that succeeds has found a record.\<close>

lemma scan_segment_first:
  fixes base mend gend :: nat and g :: u64
  assumes r: "scan_segment env ts base mend p g rc v tomb s = Some (s', E_OK, g', v', tomb')" and rc: "rc \<noteq> E_OK"
    and p: "base + p = rec_off env g" and mend: "base + mend = gend * unat (gsize env)" and gs: "0 < unat (gsize env)"
  shows "rec_valid env (kv_dev s) ts gend g"
  by (rule scan_segment_round [OF r p mend gs]) (use rc in auto)

text \<open>The step to the next record, in grains and in bytes.\<close>

lemma rec_step_sizes:
  assumes ewf: "env_wf env" and sz: "rec_ks env dev g + rec_vs env dev g < 2 ^ 32"
  shows "kv_tot_grains_get (gsize env) (ucast (sh_key_size (rec_md env dev g))) (sh_val_size (rec_md env dev g)) = of_nat (rec_grains env dev g)"
    "unat (kv_tot_bytes_get (gsize env) (ucast (sh_key_size (rec_md env dev g))) (sh_val_size (rec_md env dev g)))
      = rec_grains env dev g * unat (gsize env)"
proof -
  let ?n = "kv_tot_grains_get (gsize env) (ucast (sh_key_size (rec_md env dev g))) (sh_val_size (rec_md env dev g))"
  note n = kv_tot_grains_rec [OF assms]
  show "?n = of_nat (rec_grains env dev g)" unfolding n [symmetric] by simp
  have "rec_grains env dev g * unat (gsize env) < 2 ^ 64"
    using rec_grains_bounds(2) [OF ewf, of dev g] sz ewf by (simp add: env_wf_def)
  then show "unat (kv_tot_bytes_get (gsize env) (ucast (sh_key_size (rec_md env dev g))) (sh_val_size (rec_md env dev g)))
      = rec_grains env dev g * unat (gsize env)"
    unfolding kv_tot_bytes_get_def using unat_mult_no_wrap [of "gsize env" ?n] by (simp add: n mult.commute)
qed

lemma scan_segment_ok:
  fixes base mend gend :: nat and g :: u64
  assumes "rcv_ok se env s0 L s" and gend: "gend < 2 ^ 64"
    and "base + p = rec_off (salsa_kv_env se env) g" and mend: "base + mend = gend * unat (gsize env)"
    and "\<And>a. a \<in> set (seg_records (salsa_kv_env se env) (kv_dev s0) ts gend g) \<Longrightarrow> log_record se env s0 a"
    and "scan_segment (salsa_kv_env se env) ts base mend p g rc v tomb s = Some (s', E_OK, g', v', tomb')"
  shows "rcv_ok se env s0 (L @ seg_records (salsa_kv_env se env) (kv_dev s0) ts gend g) s'
    \<and> set tomb' \<subseteq> set tomb \<union> {t. fst t \<in> set (seg_records (salsa_kv_env se env) (kv_dev s0) ts gend g)
       \<and> rec_vs (salsa_kv_env se env) (kv_dev s0) (fst t) = 0}"
  using assms(1,3,5,6)
proof (induction "mend - p" arbitrary: p g rc v tomb s L rule: less_induct)
  case less
  let ?E = "salsa_kv_env se env" and ?dev = "kv_dev s0"
  note d = rcv_okD [OF less.prems(1)] and p = less.prems(2)
  have mend': "base + mend = gend * unat (gsize ?E)" using mend by simp
  note step = seg_records_step [OF d(10) gend, of ?dev ts g]
  show ?case
  proof (rule scan_segment_round [OF less.prems(4) p mend' gsize_pos(1) [OF d(10)]])
    assume "\<not> rec_valid ?E (kv_dev s) ts gend g" "(s', E_OK, g', v', tomb') = (s, rc, g, v, tomb)"
    then show ?thesis using less.prems(1) step by (simp add: d(6))
  next
    fix s1 rc1
    assume "rc1 = ENOSPC \<or> rc1 = ENOENT" "(s', E_OK, g', v', tomb') = (s1, rc1, g, v, tomb)"
    then show ?thesis by auto
  next
    fix s1 rc1 inval v1 tomb1 md
    assume valid: "rec_valid ?E (kv_dev s) ts gend g" and md: "md = rec_md ?E (kv_dev s) g"
      and t: "try_restore_entry ?E (rec_key ?E (kv_dev s) g) (sh_val_size md) g s = Some (s1, rc1, inval)"
      and rc1: "rc1 = E_OK \<or> rc1 = EEXIST" and tomb1: "set tomb1 \<subseteq> set tomb \<union> {t. fst t = g \<and> rec_vs ?E (kv_dev s) g = 0}"
      and pos: "0 < unat (kv_tot_bytes_get (gsize ?E) (ucast (sh_key_size md)) (sh_val_size md))"
      and scan: "scan_segment ?E ts base mend (p + unat (kv_tot_bytes_get (gsize ?E) (ucast (sh_key_size md)) (sh_val_size md)))
         (g + kv_tot_grains_get (gsize ?E) (ucast (sh_key_size md)) (sh_val_size md)) E_OK v1 tomb1 s1 = Some (s', E_OK, g', v', tomb')"
    note fit = rec_valid_fits [OF d(10) valid [unfolded d(6)] gend]
    let ?g = "g + of_nat (rec_grains ?E ?dev g)"
    have seq: "seg_records ?E ?dev ts gend g = g # seg_records ?E ?dev ts gend ?g" using step valid by (simp add: d(6))
    have g: "log_record se env s0 g" using less.prems(3) seq by simp
    note ok1 = try_restore_entry_step [OF less.prems(1) g t [unfolded d(6) md] rc1]
    note n = rec_step_sizes [OF d(10), of ?dev g, folded d(6), folded md, unfolded d(6)]
    have sz: "rec_ks ?E ?dev g + rec_vs ?E ?dev g < 2 ^ 32" using g by (simp add: log_record_def)
    let ?p = "p + unat (kv_tot_bytes_get (gsize ?E) (ucast (sh_key_size md)) (sh_val_size md))"
    have p': "base + ?p = rec_off ?E ?g"
      using p unfolding n(2) [OF sz] rec_off_def fit(3) add_mult_distrib by linarith
    have lt: "p < mend"
    proof -
      have "unat g * unat (gsize ?E) < gend * unat (gsize ?E)" using valid gsize_pos(1) [OF d(10)] by (simp add: rec_valid_def)
      then show ?thesis using p mend' unfolding rec_off_def by linarith
    qed
    have "mend - ?p < mend - p" using pos lt by linarith
    from less.hyps [OF this ok1 p' _ scan [unfolded n(1) [OF sz]]] less.prems(3) seq
    have IH: "rcv_ok se env s0 ((L @ [g]) @ seg_records ?E ?dev ts gend ?g) s'
      \<and> set tomb' \<subseteq> set tomb1 \<union> {t. fst t \<in> set (seg_records ?E ?dev ts gend ?g) \<and> rec_vs ?E ?dev (fst t) = 0}"
      by simp
    then show ?thesis using tomb1 unfolding seq by (auto simp: d(6))
  qed
qed

subsection \<open>The log of the store\<close>

definition seg_end :: "salsa_env \<Rightarrow> nat \<Rightarrow> nat" where
  "seg_end se i = i * unat (se_seg_size se) + (unat (se_seg_size se) - unat (se_reserved se))"

definition seg_log :: "salsa_env \<Rightarrow> salsa kv_env \<Rightarrow> (nat \<Rightarrow> bool) \<Rightarrow> salsa kv \<Rightarrow> nat \<Rightarrow> u64 list" where
  "seg_log se env rd_ok s i =
     (case valid_seg_md se rd_ok (kv_dev s) i (kv_seg s) of
        None \<Rightarrow> []
      | Some sm \<Rightarrow> seg_records (salsa_kv_env se env) (kv_dev s) (sg_timestamp sm) (seg_end se i) (scm_seg_to_grain se i))"

definition crash_log :: "salsa_env \<Rightarrow> salsa kv_env \<Rightarrow> (nat \<Rightarrow> bool) \<Rightarrow> salsa kv \<Rightarrow> u64 list" where
  "crash_log se env rd_ok s = concat (map (seg_log se env rd_ok s) (seg_iter (kv_seg s)))"

text \<open>
  The sizes of the records fit 32 bits.  The records that put and del write carry the
  timestamp of their segment; one that was relocated still has that of its first segment.
\<close>

definition log_sized :: "salsa_env \<Rightarrow> salsa kv_env \<Rightarrow> (nat \<Rightarrow> bool) \<Rightarrow> salsa kv \<Rightarrow> bool" where
  "log_sized se env rd_ok s \<longleftrightarrow>
     (\<forall>a \<in> set (crash_log se env rd_ok s).
        rec_ks (salsa_kv_env se env) (kv_dev s) a + rec_vs (salsa_kv_env se env) (kv_dev s) a < 2 ^ 32)"

definition log_stamped :: "salsa_env \<Rightarrow> salsa kv_env \<Rightarrow> (nat \<Rightarrow> bool) \<Rightarrow> salsa kv \<Rightarrow> bool" where
  "log_stamped se env rd_ok s \<longleftrightarrow>
     (\<forall>i < length (segs (kv_seg s)). \<forall>a \<in> set (seg_log se env rd_ok s i).
        map_option sg_timestamp (valid_seg_md se rd_ok (kv_dev s) i (kv_seg s))
          = Some (sh_timestamp (rec_md (salsa_kv_env se env) (kv_dev s) a)))"

text \<open>The store before recovery: the segments have been given back and the index is empty.\<close>

definition rcv_start :: "salsa_env \<Rightarrow> salsa kv_env \<Rightarrow> (nat \<Rightarrow> bool) \<Rightarrow> salsa kv \<Rightarrow> bool" where
  "rcv_start se env rd_ok s \<longleftrightarrow> kv_fresh se env s \<and> dm_clean (kv_map s) \<and> g_seg_size (ev_geom env) = se_seg_size se
     \<and> (\<forall>i < length (segs (kv_seg s)). seg_restored se rd_ok (kv_dev s) (kv_seg s) i)"

lemma seg_bounds:
  assumes inv: "salsa_kv_inv se env s" and i: "i < length (segs s)"
  shows "seg_end se i < 2 ^ 64" "unat (seg_net_size se s) = unat (se_seg_size se) - unat (se_reserved se)"
    "unat (scm_seg_to_grain se i * gsize env) = rec_off (salsa_kv_env se env) (scm_seg_to_grain se i)"
    "unat (scm_seg_to_grain se i * gsize env) + unat (seg_net_size se s * gsize env) = seg_end se i * unat (gsize env)"
proof -
  have si: "salsa_inv se s" and gs: "grain_size_m (sa_md s) = gsize env" using inv by (simp_all add: salsa_kv_inv_def)
  let ?S = "unat (se_seg_size se)" and ?R = "unat (se_reserved se)" and ?g = "unat (gsize env)"
  note u = unat_seg_to_grain [OF si i, unfolded gs] and c = salsa_cfgD [OF si]
  have e: "seg_end se i < i * ?S + ?S" using c by (simp add: seg_end_def)
  then show "seg_end se i < 2 ^ 64" using u(2) by simp
  have "get_seg_md_size (sa_md s) = se_reserved se" using salsa_invD(1) [OF si] by (simp add: salsa_cfg_ok_def)
  then show net: "unat (seg_net_size se s) = ?S - ?R"
    unfolding seg_net_size_def using c unat_sub_no_wrap [of "se_reserved se" "se_seg_size se"] by simp
  have g0: "0 < ?g" using salsa_invD(1) [OF si] unfolding salsa_cfg_ok_def gs by blast
  have "seg_end se i * ?g < (i * ?S + ?S) * ?g" using e g0 by simp
  then have "seg_end se i * ?g < 2 ^ 64" using u(3) by (rule less_le_trans)
  then have lt: "i * ?S * ?g + (?S - ?R) * ?g < 2 ^ 64" unfolding seg_end_def add_mult_distrib .
  have m1: "unat (scm_seg_to_grain se i * gsize env) = i * ?S * ?g" using lt u(1) unat_mult_no_wrap [of "scm_seg_to_grain se i" "gsize env"] by simp
  then show "unat (scm_seg_to_grain se i * gsize env) = rec_off (salsa_kv_env se env) (scm_seg_to_grain se i)"
    by (simp add: rec_off_def u(1))
  have "unat (seg_net_size se s * gsize env) = (?S - ?R) * ?g" using lt net unat_mult_no_wrap [of "seg_net_size se s" "gsize env"] by simp
  then show "unat (scm_seg_to_grain se i * gsize env) + unat (seg_net_size se s * gsize env) = seg_end se i * ?g"
    using m1 by (simp add: seg_end_def add_mult_distrib)
qed

text \<open>The records of a restored segment are records of the log.\<close>

lemma seg_log_record:
  assumes st: "rcv_start se env rd_ok s" and sized: "log_sized se env rd_ok s" and i: "i < length (segs (kv_seg s))"
    and a: "a \<in> set (seg_log se env rd_ok s i)"
  shows "log_record se env s a" "grain_to_seg_idx (salsa_kv_env se env) a = of_nat i"
    "map_option sg_timestamp (valid_seg_md se rd_ok (kv_dev s) i (kv_seg s))
      = Some (get_seg_ts (sa_md (kv_seg s)) (grain_to_seg_idx (salsa_kv_env se env) a))"
proof -
  let ?E = "salsa_kv_env se env" and ?S = "unat (se_seg_size se)" and ?R = "unat (se_reserved se)" and ?t = "kv_seg s"
  have inv: "salsa_kv_inv se env ?t" and si: "salsa_inv se ?t" and ewf: "env_wf ?E" and geo: "g_seg_size (ev_geom env) = se_seg_size se"
    using st by (auto simp: rcv_start_def kv_fresh_def salsa_kv_inv_def env_wf_def)
  obtain sm where sm: "valid_seg_md se rd_ok (kv_dev s) i ?t = Some sm"
    and a': "a \<in> set (seg_records ?E (kv_dev s) (sg_timestamp sm) (seg_end se i) (scm_seg_to_grain se i))"
    using a by (cases "valid_seg_md se rd_ok (kv_dev s) i ?t") (auto simp: seg_log_def)
  note c = salsa_cfgD [OF si] and u = unat_seg_to_grain(1) [OF si i] and r = seg_records_range [OF ewf seg_bounds(1) [OF inv i] a', unfolded u]
  have place: "i \<notin># places ?t" "get_seg_ts (sa_md ?t) (of_nat i) = sg_timestamp sm"
    using st i sm by (auto simp: rcv_start_def seg_restored_def)
  have dm: "x div ?S = i" "x mod ?S + ?R < ?S" if ge: "i * ?S \<le> x" and lt: "x < seg_end se i" for x
  proof -
    obtain k where x: "x = i * ?S + k" using le_iff_add [THEN iffD1, OF ge] by blast
    then have k: "x = i * ?S + k" "k < ?S - ?R" using lt by (simp_all add: seg_end_def)
    then have "k < ?S" by simp
    then show "x div ?S = i" "x mod ?S + ?R < ?S" using k by (simp_all add: mult.commute)
  qed
  show idx: "grain_to_seg_idx ?E a = of_nat i"
  proof -
    have pos: "0 < rec_grains ?E (kv_dev s) a" by (rule rec_grains_bounds(3) [OF ewf])
    have "unat (a div se_seg_size se) = i" using dm(1) [of "unat a"] r pos by (simp add: unat_div)
    then have "a div se_seg_size se = of_nat i" by (metis of_nat_unat ucast_id)
    then show ?thesis by (simp add: grain_to_seg_idx_def geo salsa_kv_env_def salsa_op_env_def)
  qed
  show "map_option sg_timestamp (valid_seg_md se rd_ok (kv_dev s) i ?t) = Some (get_seg_ts (sa_md ?t) (grain_to_seg_idx ?E a))"
    by (simp add: sm idx place(2))
  have "rec_range ?E (kv_dev s) a \<subseteq> owned_grains se ?t"
  proof
    fix x assume "x \<in> rec_range ?E (kv_dev s) a"
    then have "i * ?S \<le> x" "x < seg_end se i" using r by (auto simp: rec_range_def)
    then show "x \<in> owned_grains se ?t" using dm [of x] place(1) i by (simp add: owned_grains_def owned_grain_def places_def)
  qed
  then show "log_record se env s a" using sized i a by (auto simp: log_record_def log_sized_def crash_log_def seg_iter_def)
qed

lemma rcv_ok_valid_seg_md:
  assumes "rcv_ok se env s0 L s"
  shows "valid_seg_md se rd_ok (kv_dev s) i (kv_seg s) = valid_seg_md se rd_ok (kv_dev s0) i (kv_seg s0)"
    "seg_net_size se (kv_seg s) = seg_net_size se (kv_seg s0)"
  unfolding valid_seg_md_def seg_net_size_def rcv_okD(6,8) [OF assms] by (rule refl)+

lemma rcv_invalidate:
  assumes "rcv_ok se env s0 L s"
  shows "rcv_ok se env s0 L (s\<lparr>kv_seg := invalidate_grains se b n (kv_seg s)\<rparr>)"
proof (rule rcv_same [OF assms])
  show "kv_seg (s\<lparr>kv_seg := invalidate_grains se b n (kv_seg s)\<rparr>) = kv_seg s
    \<or> (\<exists>b' n'. kv_seg (s\<lparr>kv_seg := invalidate_grains se b n (kv_seg s)\<rparr>) = ev_invalidate (salsa_kv_env se env) (kv_seg s) b' n')"
    by (intro disjI2 exI) simp
qed simp_all

lemma if_prop: "P x \<Longrightarrow> P y \<Longrightarrow> P (if b then y else x)"
  by simp

lemma recover_segs_ok:
  assumes st: "rcv_start se env (rv_rd_ok re) s0" and sized: "log_sized se env (rv_rd_ok re) s0"
    and "set is \<subseteq> {..<length (segs (kv_seg s0))}" "rcv_ok se env s0 L s"
    and "recover_segs se (salsa_kv_env se env) re is r s = Some (s', E_OK, r')"
  shows "rcv_ok se env s0 (L @ concat (map (seg_log se env (rv_rd_ok re) s0) is)) s'
    \<and> set (rv_tomb r') \<subseteq> set (rv_tomb r) \<union> {t. fst t \<in> set (concat (map (seg_log se env (rv_rd_ok re) s0) is))
        \<and> rec_vs (salsa_kv_env se env) (kv_dev s0) (fst t) = 0}
    \<and> (\<forall>i \<in> set is. valid_seg_md se (rv_rd_ok re) (kv_dev s0) i (kv_seg s0) \<noteq> None \<longrightarrow> seg_log se env (rv_rd_ok re) s0 i \<noteq> [])"
  using assms(3-5)
proof (induction "is" arbitrary: L r s)
  case (Cons i "is")
  let ?E = "salsa_kv_env se env"
  have i: "i < length (segs (kv_seg s0))" and rest: "set is \<subseteq> {..<length (segs (kv_seg s0))}" using Cons.prems(1) by auto
  have inv: "salsa_kv_inv se env (kv_seg s0)" using st by (simp add: rcv_start_def kv_fresh_def)
  note b = seg_bounds [OF inv i] and vm = rcv_ok_valid_seg_md [OF Cons.prems(2)]
  show ?case
  proof (cases "valid_seg_md se (rv_rd_ok re) (kv_dev s0) i (kv_seg s0)")
    case None
    then have "recover_segs se ?E re is r s = Some (s', E_OK, r')" and "seg_log se env (rv_rd_ok re) s0 i = []"
      using Cons.prems(3) by (simp_all add: vm seg_log_def)
    then show ?thesis using Cons.IH [OF rest Cons.prems(2)] None by simp
  next
    case (Some sm)
    let ?g = "scm_seg_to_grain se i" and ?log = "seg_log se env (rv_rd_ok re) s0"
    have log: "?log i = seg_records ?E (kv_dev s0) (sg_timestamp sm) (seg_end se i) ?g" by (simp add: seg_log_def Some)
    obtain s1 g v tomb where scan: "scan_segment ?E (sg_timestamp sm) (unat (?g * gsize ?E)) (unat (seg_net_size se (kv_seg s0) * gsize ?E))
        0 ?g ENOENT (rv_valid_grain_nr r) (rv_tomb r) s = Some (s1, E_OK, g, v, tomb)"
      and rec: "recover_segs se ?E re is
        (r\<lparr>rv_max_seg_alloc_nr := max (rv_max_seg_alloc_nr r) (sg_timestamp sm), rv_valid_grain_nr := v, rv_tomb := tomb,
           rv_restored_nr := rv_restored_nr r + 1\<rparr>)
        (if g < ?g + seg_net_size se (kv_seg s0)
         then s1\<lparr>kv_seg := invalidate_grains se g (?g + seg_net_size se (kv_seg s0) - g) (kv_seg s1)\<rparr> else s1) = Some (s', E_OK, r')"
      using Cons.prems(3) by (auto simp: vm Some Let_def split: if_splits option.splits)
    have recs: "\<And>a. a \<in> set (?log i) \<Longrightarrow> log_record se env s0 a" by (rule seg_log_record(1) [OF st sized i])
    have sc: "rcv_ok se env s0 (L @ ?log i) s1
      \<and> set tomb \<subseteq> set (rv_tomb r) \<union> {t. fst t \<in> set (?log i) \<and> rec_vs ?E (kv_dev s0) (fst t) = 0}"
      unfolding log
      by (rule scan_segment_ok [OF Cons.prems(2) b(1) _ _ _ scan]) (use b(3,4) recs in \<open>simp_all add: log\<close>)
    have ok2: "rcv_ok se env s0 (L @ ?log i) (if g < ?g + seg_net_size se (kv_seg s0)
         then s1\<lparr>kv_seg := invalidate_grains se g (?g + seg_net_size se (kv_seg s0) - g) (kv_seg s1)\<rparr> else s1)"
      using sc [THEN conjunct1] rcv_invalidate [OF sc [THEN conjunct1]] by (rule if_prop)
    note IH = Cons.IH [OF rest ok2 rec]
    have "set (rv_tomb r') \<subseteq> set tomb \<union> {t. fst t \<in> set (concat (map ?log is)) \<and> rec_vs ?E (kv_dev s0) (fst t) = 0}"
      using IH [THEN conjunct2, THEN conjunct1] by simp
    then have tombs: "set (rv_tomb r') \<subseteq> set (rv_tomb r) \<union> {t. fst t \<in> set (concat (map ?log (i # is))) \<and> rec_vs ?E (kv_dev s0) (fst t) = 0}"
      using sc [THEN conjunct2] unfolding concat.simps list.map set_append by blast
    note d = rcv_okD [OF Cons.prems(2)]
    have "rec_valid ?E (kv_dev s) (sg_timestamp sm) (seg_end se i) ?g"
      by (rule scan_segment_first [OF scan _ _ _ gsize_pos(1) [OF d(10)]]) (use b(3,4) in simp_all)
    then have "?log i \<noteq> []"
      using seg_records_step [OF d(10) b(1), of "kv_dev s0" "sg_timestamp sm" ?g] by (simp add: log d(6))
    then show ?thesis using IH tombs by simp
  qed
qed simp

subsection \<open>The result of recovery\<close>

lemma remove_tombstones_same:
  assumes "remove_tombstones env tomb s = Some s'"
  shows "kv_map s' = kv_map s" "kv_dev s' = kv_dev s" "kv_seg s' = kv_seg s"
  using assms
  by (induction env tomb s rule: remove_tombstones.induct)
    (auto simp: kv_remove_restored_tombstone_def kv_removed_def split: option.splits if_splits)

lemma rcv_start_ok:
  assumes "rcv_start se env rd_ok s"
  shows "rcv_ok se env s [] s"
proof -
  have fr: "kv_fresh se env s" and cl: "dm_clean (kv_map s)" using assms by (simp_all add: rcv_start_def)
  note safe = kv_fresh_safe(1) [OF fr]
  have "kv_inv (salsa_kv_env se env) s" using safe by (simp add: salsa_kv_safe_def)
  moreover have "kv_content s = {#}" using fr by (simp add: kv_fresh_def kv_content_def)
  ultimately have "kv_loc (salsa_kv_env se env) s k = None" for k
    using kv_loc_Some [of "salsa_kv_env se env" s k] by (cases "kv_loc (salsa_kv_env se env) s k") auto
  then have "kv_loc (salsa_kv_env se env) s = Map.empty" by (rule ext)
  then show ?thesis using safe cl by (simp add: rcv_ok_def)
qed

lemma rcv_seg_alloc_nr:
  assumes ok: "rcv_ok se env s0 L s" and r: "restore_seg_alloc_nr nr s = Some s'"
  shows "rcv_ok se env s0 L s'"
proof -
  note d = rcv_okD [OF ok]
  have s': "s' = s\<lparr>kv_seg := (kv_seg s)\<lparr>seg_alloc_nr := nr\<rparr>\<rparr>" using r by (simp add: restore_seg_alloc_nr_def split: if_splits)
  have core: "same_core (kv_seg s) (kv_seg s')" by (simp add: same_core_def s')
  have "salsa_kv_inv se env (kv_seg s')"
    using d(1) same_core_inv(1) [OF core] by (simp add: salsa_kv_safe_def salsa_kv_inv_def) (simp add: s')
  moreover have "owned_grains se (kv_seg s) \<subseteq> owned_grains se (kv_seg s')" by (simp only: same_core_inv(2) [OF core] subset_refl)
  ultimately have "kvs.kv_safe se env s'" by (intro kvs.kv_safe_dev(1) [OF d(2)]) (simp_all add: s')
  moreover have "kv_loc (salsa_kv_env se env) s' = kv_loc (salsa_kv_env se env) s" by (rule kv_loc_same) (simp_all add: s')
  ultimately show ?thesis
    using d(5,6,8,9) same_core_trans [OF d(7) core] by (simp add: rcv_ok_def salsa_kv_safe_eq s')
qed

lemma crash_recovery_ok:
  assumes st: "rcv_start se env (rv_rd_ok re) s" and sized: "log_sized se env (rv_rd_ok re) s"
    and r: "crash_recovery se (salsa_kv_env se env) re s = Some (s', E_OK)"
  defines "E \<equiv> salsa_kv_env se env" and "L \<equiv> crash_log se env (rv_rd_ok re) s"
  shows "kv_inv E s'" "kv_dev s' = kv_dev s" "kv_loc E s' = replay (older E (get_seg_ts (sa_md (kv_seg s))) (kv_dev s)) (rec_key E (kv_dev s)) L"
    "(\<forall>a \<in> set L. rec_vs E (kv_dev s) a \<noteq> 0) \<Longrightarrow> salsa_kv_safe se env s'"
    "i < length (segs (kv_seg s)) \<Longrightarrow> valid_seg_md se (rv_rd_ok re) (kv_dev s) i (kv_seg s) \<noteq> None
      \<Longrightarrow> seg_log se env (rv_rd_ok re) s i \<noteq> []"
proof -
  obtain s1 rv s2 where rec: "recover_segs se E re (seg_iter (kv_seg s)) rcv_init s = Some (s1, E_OK, rv)"
    and al: "restore_seg_alloc_nr (rv_max_seg_alloc_nr rv) s1 = Some s2" and tb: "remove_tombstones E (rv_tomb rv) s2 = Some s'"
    using r by (auto simp: crash_recovery_def E_def split: option.splits if_splits prod.splits)
  have segs: "set (seg_iter (kv_seg s)) \<subseteq> {..<length (segs (kv_seg s))}" by (auto simp: seg_iter_def)
  have ok: "rcv_ok se env s L s1"
    and sub: "set (rv_tomb rv) \<subseteq> {t. fst t \<in> set L \<and> rec_vs E (kv_dev s) (fst t) = 0}"
    using recover_segs_ok [OF st sized segs rcv_start_ok [OF st] rec [unfolded E_def]]
    by (simp_all add: L_def crash_log_def E_def rcv_init_def)
  show "i < length (segs (kv_seg s)) \<Longrightarrow> valid_seg_md se (rv_rd_ok re) (kv_dev s) i (kv_seg s) \<noteq> None
      \<Longrightarrow> seg_log se env (rv_rd_ok re) s i \<noteq> []"
    using recover_segs_ok [OF st sized segs rcv_start_ok [OF st] rec [unfolded E_def]] by (simp add: seg_iter_def)
  note d = rcv_okD [OF rcv_seg_alloc_nr [OF ok al], folded E_def] and same = remove_tombstones_same [OF tb]
  show "kv_dev s' = kv_dev s" by (simp add: same d(6))
  show "kv_inv E s'" using d(3) by (simp add: kv_inv_def kv_content_def same)
  show "kv_loc E s' = replay (older E (get_seg_ts (sa_md (kv_seg s))) (kv_dev s)) (rec_key E (kv_dev s)) L"
    using kv_loc_same [OF same(1,2), of E] d(9) by simp
  assume "\<forall>a \<in> set L. rec_vs E (kv_dev s) a \<noteq> 0"
  then have "x \<notin> set (rv_tomb rv)" for x using sub by blast
  then have "rv_tomb rv = []" using list.set_sel(1) by blast
  then have "s' = s2" using tb by simp
  then show "salsa_kv_safe se env s'" using d(1) by simp
qed

subsection \<open>The order of the log\<close>

text \<open>No two segments have the same timestamp: it is the number of segments allocated so far.\<close>

definition seg_ts_distinct :: "salsa_env \<Rightarrow> (nat \<Rightarrow> bool) \<Rightarrow> salsa kv \<Rightarrow> bool" where
  "seg_ts_distinct se rd_ok s \<longleftrightarrow>
     (\<forall>i < length (segs (kv_seg s)). \<forall>j < length (segs (kv_seg s)). i \<noteq> j
        \<longrightarrow> valid_seg_md se rd_ok (kv_dev s) i (kv_seg s) \<noteq> None
        \<longrightarrow> map_option sg_timestamp (valid_seg_md se rd_ok (kv_dev s) i (kv_seg s))
            \<noteq> map_option sg_timestamp (valid_seg_md se rd_ok (kv_dev s) j (kv_seg s)))"

lemma crash_log_order:
  assumes st: "rcv_start se env rd_ok s" and sized: "log_sized se env rd_ok s" and stamp: "log_stamped se env rd_ok s" and dist: "seg_ts_distinct se rd_ok s"
  shows "strict_order_on (set (crash_log se env rd_ok s)) (older (salsa_kv_env se env) (get_seg_ts (sa_md (kv_seg s))) (kv_dev s))"
proof -
  let ?E = "salsa_kv_env se env" and ?L = "set (crash_log se env rd_ok s)"
  let ?ts = "\<lambda>a. sh_timestamp (rec_md ?E (kv_dev s) a)"
  let ?old = "older ?E (get_seg_ts (sa_md (kv_seg s))) (kv_dev s)"
  have lex: "?old a b \<longleftrightarrow> ?ts a < ?ts b \<or> ?ts a = ?ts b \<and> a < b" if ab: "a \<in> ?L" "b \<in> ?L" for a b
  proof -
    obtain i j where i: "i < length (segs (kv_seg s))" "a \<in> set (seg_log se env rd_ok s i)"
      and j: "j < length (segs (kv_seg s))" "b \<in> set (seg_log se env rd_ok s j)"
      using ab by (auto simp: crash_log_def seg_iter_def)
    note ra = seg_log_record [OF st sized i] and rb = seg_log_record [OF st sized j]
    have ts: "map_option sg_timestamp (valid_seg_md se rd_ok (kv_dev s) i (kv_seg s)) = Some (?ts a)"
      "map_option sg_timestamp (valid_seg_md se rd_ok (kv_dev s) j (kv_seg s)) = Some (?ts b)"
      using stamp i j by (auto simp: log_stamped_def)
    have tb: "get_seg_ts (sa_md (kv_seg s)) (grain_to_seg_idx ?E b) = ?ts b" and ta: "get_seg_ts (sa_md (kv_seg s)) (grain_to_seg_idx ?E a) = ?ts a"
      using ts ra(3) rb(3) by simp_all
    have "?ts a \<noteq> ?ts b" if "i \<noteq> j" using dist i(1) j(1) that ts unfolding seg_ts_distinct_def by fastforce
    moreover have "grain_to_seg_idx ?E a = grain_to_seg_idx ?E b" if "i = j" using that ra(2) rb(2) by simp
    moreover have "?ts a = ?ts b" if "grain_to_seg_idx ?E a = grain_to_seg_idx ?E b" using that ta tb by simp
    ultimately have idx: "grain_to_seg_idx ?E a = grain_to_seg_idx ?E b \<longleftrightarrow> ?ts a = ?ts b" by blast
    show ?thesis unfolding older_def tb using idx by auto
  qed
  show ?thesis
    unfolding strict_order_on_def by (intro conjI ballI impI) (simp_all add: lex, auto)
qed

text \<open>Giving the segments back does not change the log.\<close>

lemma log_same_md:
  assumes "same_md (kv_seg s) seg" "length (segs seg) = length (segs (kv_seg s))"
  shows "crash_log se env rd_ok (s\<lparr>kv_seg := seg\<rparr>) = crash_log se env rd_ok s"
    "log_sized se env rd_ok (s\<lparr>kv_seg := seg\<rparr>) = log_sized se env rd_ok s"
    "log_stamped se env rd_ok (s\<lparr>kv_seg := seg\<rparr>) = log_stamped se env rd_ok s"
    "seg_ts_distinct se rd_ok (s\<lparr>kv_seg := seg\<rparr>) = seg_ts_distinct se rd_ok s"
    "seg_log se env rd_ok (s\<lparr>kv_seg := seg\<rparr>) i = seg_log se env rd_ok s i"
proof -
  note v = valid_seg_md_same [OF assms(1)]
  show l: "seg_log se env rd_ok (s\<lparr>kv_seg := seg\<rparr>) i = seg_log se env rd_ok s i" for i by (simp add: seg_log_def v split: option.split)
  show c: "crash_log se env rd_ok (s\<lparr>kv_seg := seg\<rparr>) = crash_log se env rd_ok s"
    by (simp add: crash_log_def seg_iter_def assms(2) l cong: map_cong)
  show "log_sized se env rd_ok (s\<lparr>kv_seg := seg\<rparr>) = log_sized se env rd_ok s" by (simp add: log_sized_def c)
  show "log_stamped se env rd_ok (s\<lparr>kv_seg := seg\<rparr>) = log_stamped se env rd_ok s" by (simp add: log_stamped_def assms(2) l v)
  show "seg_ts_distinct se rd_ok (s\<lparr>kv_seg := seg\<rparr>) = seg_ts_distinct se rd_ok s" by (simp add: seg_ts_distinct_def assms(2) v)
qed

subsection \<open>Both passes\<close>

text \<open>A restart: the index is empty, the segment manager has just started.\<close>

definition restart_ok :: "salsa_env \<Rightarrow> salsa kv_env \<Rightarrow> (nat \<Rightarrow> bool) \<Rightarrow> salsa kv \<Rightarrow> bool" where
  "restart_ok se env rd_ok s \<longleftrightarrow> kv_fresh se env s \<and> dm_clean (kv_map s) \<and> g_seg_size (ev_geom env) = se_seg_size se
     \<and> scm_started se (kv_seg s) \<and> log_sized se env rd_ok s"

lemma restart_start:
  assumes ok: "restart_ok se env rd_ok s" and p: "prep_crash_recovery se rd_ok (kv_dev s) (fifo, kv_seg s) = Some ((fifo', seg), rc)"
  shows "rcv_start se env rd_ok (s\<lparr>kv_seg := seg\<rparr>)" "log_sized se env rd_ok (s\<lparr>kv_seg := seg\<rparr>)"
    "crash_log se env rd_ok (s\<lparr>kv_seg := seg\<rparr>) = crash_log se env rd_ok s"
    "same_md (kv_seg s) seg" "length (segs seg) = length (segs (kv_seg s))"
proof -
  have st: "scm_started se (kv_seg s)" and fr: "kv_fresh se env s" using ok by (simp_all add: restart_ok_def)
  note pr = prep_crash_recovery_ok [OF st p] and same = log_same_md [OF prep_crash_recovery_ok(2,3) [OF st p]]
  have "grain_size_m (sa_md seg) = gsize env" using pr(2) fr by (auto simp: same_md_def kv_fresh_def salsa_kv_inv_def)
  then have "salsa_kv_inv se env seg" using pr(1) by (simp add: salsa_kv_inv_def scm_started_def)
  then show "rcv_start se env rd_ok (s\<lparr>kv_seg := seg\<rparr>)"
    using ok pr(4) by (simp add: rcv_start_def restart_ok_def kv_fresh_def)
  show "log_sized se env rd_ok (s\<lparr>kv_seg := seg\<rparr>)"
    "crash_log se env rd_ok (s\<lparr>kv_seg := seg\<rparr>) = crash_log se env rd_ok s" using ok by (simp_all add: same restart_ok_def)
  show "same_md (kv_seg s) seg" "length (segs seg) = length (segs (kv_seg s))" by (rule pr(2), rule pr(3))
qed

end
