(* ===== verification/Recover_Example.thy ===== *)
theory Recover_Example
  imports KV_Log KV_Example
begin

section \<open>A small store after a crash\<close>

text \<open>One segment of three 64-byte grains, the last of which holds the metadata of the segment.\<close>

definition rx_se :: salsa_env where
  "rx_se = ex_se\<lparr>se_seg_size := 3, se_max_capacity := 2, se_max_capacity_reloc := 2\<rparr>"

definition rx_md :: md where
  "rx_md = md_init (default_dev_md 64 3 (md_new 64 256 1)) (md_new 64 256 1)"

definition rx_salsa :: salsa where
  "rx_salsa = ex_salsa\<lparr>segs := [ex_seg\<lparr>valid_nr := 3\<rparr>], q_segs := [0], sa_md := rx_md\<rparr>"

definition rx_env :: "salsa kv_env" where
  "rx_env = ex_kv_env\<lparr>ev_crc32 := (\<lambda>_ _. 1), ev_geom := \<lparr>g_seg_size = 3, g_seg_md_size = 1, g_grain_size = 64\<rparr>\<rparr>"

definition rx_re :: rcv_env where
  "rx_re = \<lparr>rv_rd_ok = (\<lambda>_. True), rv_mmap_ok = (\<lambda>_. True)\<rparr>"

text \<open>
  The device after a put of the key [1, 2] and a del of it: the record, the tombstone and
  the metadata.  The second device has an allocated segment without a record.
\<close>

definition rx_seg_md :: bytes where
  "rx_seg_md = [3, 0, 0, 0, 0, 0, 0, 0, 64, 0, 0, 0, 0, 0, 0, 0, 1, 0, 0, 0, 0, 0, 0, 0, 1] @ replicate 39 0"

definition rx_bytes :: bytes where
  "rx_bytes = [2, 0, 1, 0, 0, 0, 1, 0, 0, 0, 0, 0, 0, 0, 1, 2, 3, 1] @ replicate 46 0
     @ [2, 0, 0, 0, 0, 0, 1, 0, 0, 0, 0, 0, 0, 0, 1, 2, 1] @ replicate 47 0 @ rx_seg_md"

definition rx_disk :: "bytes \<Rightarrow> device" where
  "rx_disk bs a = (if a < length bs then bs ! a else 0)"

definition rx_kv :: "bytes \<Rightarrow> salsa kv" where
  "rx_kv bs = ex_kv\<lparr>kv_seg := rx_salsa, kv_dev := rx_disk bs\<rparr>"

definition rx_unwritten :: bytes where
  "rx_unwritten = replicate 128 0 @ rx_seg_md"

lemma rx_scenario:
  "map_option (\<lambda>(s, rs). (map (kv_dev s) [0..<192], rs))
     (kv_exec_all (salsa_kv_env rx_se rx_env) [Put [1, 2] [3] NORMAL, Del [1, 2]] (rx_kv []))
   = Some (rx_bytes, [Rc E_OK, Rc E_OK])"
  by code_simp

text \<open>Both passes on the two devices.\<close>

definition rx_recover :: "bytes \<Rightarrow> (errno \<times> errno \<times> u64) option" where
  "rx_recover bs =
     (case prep_crash_recovery rx_se (rv_rd_ok rx_re) (kv_dev (rx_kv bs)) ([], kv_seg (rx_kv bs)) of
        None \<Rightarrow> None
      | Some ((fifo, seg), rc) \<Rightarrow>
          (case crash_recovery rx_se (salsa_kv_env rx_se rx_env) rx_re ((rx_kv bs)\<lparr>kv_seg := seg\<rparr>) of
             None \<Rightarrow> None
           | Some (s, rc') \<Rightarrow> Some (rc, rc', key_nr_m s)))"

lemma rx_recover_deleted: "rx_recover rx_bytes = Some (E_OK, E_OK, 0)"
  by code_simp

lemma rx_recover_unwritten: "rx_recover rx_unwritten = Some (E_OK, ENOENT, 0)"
  by code_simp

lemma rx_log:
  "seg_log rx_se rx_env (rv_rd_ok rx_re) (rx_kv rx_bytes) 0 = [0, 1]"
  "seg_log rx_se rx_env (rv_rd_ok rx_re) (rx_kv rx_unwritten) 0 = []"
  by code_simp+
text \<open>The hypotheses of the properties hold here.\<close>

lemma rx_recoverE:
  assumes "rx_recover bs = Some (rc, rc', nr)"
  obtains fifo seg s where
    "prep_crash_recovery rx_se (rv_rd_ok rx_re) (kv_dev (rx_kv bs)) ([], kv_seg (rx_kv bs)) = Some ((fifo, seg), rc)"
    "crash_recovery rx_se (salsa_kv_env rx_se rx_env) rx_re ((rx_kv bs)\<lparr>kv_seg := seg\<rparr>) = Some (s, rc')" "key_nr_m s = nr"
proof (cases "prep_crash_recovery rx_se (rv_rd_ok rx_re) (kv_dev (rx_kv bs)) ([], kv_seg (rx_kv bs))")
  case (Some p)
  obtain fifo seg rc1 where p: "p = ((fifo, seg), rc1)" by (metis prod.collapse)
  show thesis
  proof (cases "crash_recovery rx_se (salsa_kv_env rx_se rx_env) rx_re ((rx_kv bs)\<lparr>kv_seg := seg\<rparr>)")
    case c: (Some q)
    then show thesis using assms that Some p by (cases q) (auto simp: rx_recover_def)
  qed (use assms Some p in \<open>simp add: rx_recover_def\<close>)
qed (use assms in \<open>simp add: rx_recover_def\<close>)

lemma rx_salsa_inv: "salsa_kv_inv rx_se rx_env rx_salsa" "scm_started rx_se rx_salsa"
proof -
  have "get_seg_md_size rx_md = 1" by code_simp
  moreover have g: "grain_size_m rx_md = 64" by code_simp
  ultimately have c: "salsa_cfg_ok rx_se rx_salsa" by (simp add: salsa_cfg_ok_def rx_se_def ex_se_def rx_salsa_def ex_salsa_def)
  have st: "staged (stages rx_salsa) = {#}" by (simp add: staged_def stages_def rx_salsa_def ex_salsa_def)
  then have i: "salsa_inv rx_se rx_salsa" using c by (auto simp: salsa_inv_def places_def rx_salsa_def ex_salsa_def)
  then show "salsa_kv_inv rx_se rx_env rx_salsa" using g by (simp add: salsa_kv_inv_def rx_salsa_def gsize_def rx_env_def)
  have "length (seg_ts_m rx_md) = 1" by code_simp
  then show "scm_started rx_se rx_salsa" using i st by (simp add: scm_started_def) (simp add: rx_salsa_def ex_salsa_def ex_seg_def)
qed

lemma rx_one_segment: "length (segs (kv_seg (rx_kv bs))) = 1"
  by (simp add: rx_kv_def rx_salsa_def)

lemma rx_crash_log: "crash_log rx_se rx_env (rv_rd_ok rx_re) (rx_kv bs) = seg_log rx_se rx_env (rv_rd_ok rx_re) (rx_kv bs) 0"
  by (simp add: crash_log_def seg_iter_def rx_one_segment)

lemma rx_restart:
  assumes "log_sized rx_se rx_env (rv_rd_ok rx_re) (rx_kv bs)"
  shows "restart_ok rx_se rx_env (rv_rd_ok rx_re) (rx_kv bs)"
proof -
  have "kv_fresh rx_se rx_env (rx_kv bs)"
    using ex_dm_ok rx_salsa_inv(1) by (simp add: kv_fresh_def rx_kv_def ex_kv_def env_wf_def gsize_def rx_env_def ex_kv_env_def)
  moreover have "dm_clean (kv_map (rx_kv bs))"
    by (auto simp: dm_clean_def rx_kv_def ex_kv_def ex_dm_def tables_def clean_def ex_empty_def um_new_def erased_entry_free)
  ultimately show ?thesis
    using assms rx_salsa_inv(2) by (simp add: restart_ok_def rx_kv_def) (simp add: rx_env_def rx_se_def)
qed

lemma rx_restart_deleted: "restart_ok rx_se rx_env (rv_rd_ok rx_re) (rx_kv rx_bytes)"
proof (rule rx_restart)
  have "rec_ks (salsa_kv_env rx_se rx_env) (kv_dev (rx_kv rx_bytes)) a + rec_vs (salsa_kv_env rx_se rx_env) (kv_dev (rx_kv rx_bytes)) a \<le> 3"
    if "a \<in> set [0, 1]" for a
  proof -
    have "\<forall>a \<in> set [0, 1]. rec_ks (salsa_kv_env rx_se rx_env) (kv_dev (rx_kv rx_bytes)) a
        + rec_vs (salsa_kv_env rx_se rx_env) (kv_dev (rx_kv rx_bytes)) a \<le> 3" by code_simp
    then show ?thesis using that by blast
  qed
  then show "log_sized rx_se rx_env (rv_rd_ok rx_re) (rx_kv rx_bytes)"
    by (fastforce simp: log_sized_def rx_crash_log rx_log)
qed

lemma rx_restart_unwritten: "restart_ok rx_se rx_env (rv_rd_ok rx_re) (rx_kv rx_unwritten)"
  by (rule rx_restart) (simp add: log_sized_def rx_crash_log rx_log)

lemma rx_stamped:
  "log_stamped rx_se rx_env (rv_rd_ok rx_re) (rx_kv rx_bytes)" "seg_ts_distinct rx_se (rv_rd_ok rx_re) (rx_kv rx_bytes)"
proof -
  have "map_option sg_timestamp (valid_seg_md rx_se (rv_rd_ok rx_re) (kv_dev (rx_kv rx_bytes)) 0 (kv_seg (rx_kv rx_bytes)))
      = Some (sh_timestamp (rec_md (salsa_kv_env rx_se rx_env) (kv_dev (rx_kv rx_bytes)) 0))"
    "sh_timestamp (rec_md (salsa_kv_env rx_se rx_env) (kv_dev (rx_kv rx_bytes)) 1)
      = sh_timestamp (rec_md (salsa_kv_env rx_se rx_env) (kv_dev (rx_kv rx_bytes)) 0)"
    by code_simp+
  then show "log_stamped rx_se rx_env (rv_rd_ok rx_re) (rx_kv rx_bytes)"
    by (simp add: log_stamped_def rx_one_segment rx_log del: map_option_eq_Some)
  show "seg_ts_distinct rx_se (rv_rd_ok rx_re) (rx_kv rx_bytes)" by (simp add: seg_ts_distinct_def rx_one_segment)
qed

text \<open>The log has the record and the tombstone, which is the newer one.\<close>

lemma rx_tombstone:
  defines "E \<equiv> salsa_kv_env rx_se rx_env" and "dev \<equiv> kv_dev (rx_kv rx_bytes)"
  shows "newest (older E ts dev) (rec_key E dev) (crash_log rx_se rx_env (rv_rd_ok rx_re) (rx_kv rx_bytes)) [1, 2] 1"
    "replay (older E ts dev) (rec_key E dev) (crash_log rx_se rx_env (rv_rd_ok rx_re) (rx_kv rx_bytes)) [1, 2] = Some 1"
    "rec_vs E dev 1 = 0" "rec_val E dev 1 = []"
proof -
  have k: "rec_key E dev 0 = [1, 2]" "rec_key E dev 1 = [1, 2]" "grain_to_seg_idx E 0 = 0" "grain_to_seg_idx E 1 = 0"
    unfolding E_def dev_def by code_simp+
  then have o: "older E ts dev 0 1" "\<not> older E ts dev 1 0" by (simp_all add: older_def)
  have log: "crash_log rx_se rx_env (rv_rd_ok rx_re) (rx_kv rx_bytes) = [0, 1]" by (simp add: rx_crash_log rx_log)
  show "newest (older E ts dev) (rec_key E dev) (crash_log rx_se rx_env (rv_rd_ok rx_re) (rx_kv rx_bytes)) [1, 2] 1"
    using k o unfolding log newest_def by auto
  show "replay (older E ts dev) (rec_key E dev) (crash_log rx_se rx_env (rv_rd_ok rx_re) (rx_kv rx_bytes)) [1, 2] = Some 1"
    using k o unfolding log replay_def by (simp add: replay_step_def)
  show vs: "rec_vs E dev 1 = 0" unfolding E_def dev_def by code_simp
  then show "rec_val E dev 1 = []" by (simp add: rec_val_def dev_read_def)
qed

end
