(* ===== verification/Recover_Props.thy ===== *)
theory Recover_Props
  imports Recover_Example
begin

section \<open>Properties of crash recovery\<close>

text \<open>
  Both passes together, on a store that has just started.
\<close>

lemma restart_recovers:
  fixes se env s re
  defines "E \<equiv> salsa_kv_env se env" and "L \<equiv> crash_log se env (rv_rd_ok re) s"
  assumes ok: "restart_ok se env (rv_rd_ok re) s"
    and p: "prep_crash_recovery se (rv_rd_ok re) (kv_dev s) (fifo, kv_seg s) = Some ((fifo', seg), rc)"
    and r: "crash_recovery se E re (s\<lparr>kv_seg := seg\<rparr>) = Some (s', E_OK)"
  defines "old \<equiv> older E (get_seg_ts (sa_md seg)) (kv_dev s)"
  shows "kv_inv E s'" "kv_loc E s' = replay old (rec_key E (kv_dev s)) L"
    "kv_abs E s' k = map_option (rec_val E (kv_dev s)) (replay old (rec_key E (kv_dev s)) L k)"
    "(\<forall>a \<in> set L. rec_vs E (kv_dev s) a \<noteq> 0) \<Longrightarrow> salsa_kv_safe se env s'"
    "log_stamped se env (rv_rd_ok re) s \<Longrightarrow> seg_ts_distinct se (rv_rd_ok re) s \<Longrightarrow> strict_order_on (set L) old"
proof -
  note st = restart_start [OF ok p]
  note c = crash_recovery_ok [OF st(1,2) r [unfolded E_def], folded E_def, unfolded st(3), folded L_def]
  have old: "older E (get_seg_ts (sa_md (kv_seg (s\<lparr>kv_seg := seg\<rparr>)))) (kv_dev (s\<lparr>kv_seg := seg\<rparr>)) = old" by (simp add: old_def)
  show inv: "kv_inv E s'" by (rule c(1))
  show loc: "kv_loc E s' = replay old (rec_key E (kv_dev s)) L" using c(3) unfolding old by simp
  show "kv_abs E s' k = map_option (rec_val E (kv_dev s)) (replay old (rec_key E (kv_dev s)) L k)"
    using kv_abs_loc [OF inv, of k] c(2) by (simp add: loc)
  show "(\<forall>a \<in> set L. rec_vs E (kv_dev s) a \<noteq> 0) \<Longrightarrow> salsa_kv_safe se env s'" using c(4) by simp
  assume "log_stamped se env (rv_rd_ok re) s" "seg_ts_distinct se (rv_rd_ok re) s"
  then have "log_stamped se env (rv_rd_ok re) (s\<lparr>kv_seg := seg\<rparr>)" "seg_ts_distinct se (rv_rd_ok re) (s\<lparr>kv_seg := seg\<rparr>)"
    by (simp_all add: log_same_md [OF st(4,5)])
  from crash_log_order [OF st(1,2) this] show "strict_order_on (set L) old"
    unfolding st(3) E_def [symmetric] old L_def .
qed

text \<open>
  C7: Crash recovery rebuilds the store as a replay of the log.  If both passes succeed on
  a store that has just started, the value of each key is that of the record which is
  selected by taking the records of all valid segments in turn, a record replacing the
  one known for its key if it is newer by the timestamps.  If the log has no tombstone,
  the store is again in a state in which every operation is safe, counters included.
\<close>

theorem crash_recovery_replays_log:
  fixes se env s re
  defines "E \<equiv> salsa_kv_env se env" and "L \<equiv> crash_log se env (rv_rd_ok re) s"
  assumes ok: "restart_ok se env (rv_rd_ok re) s"
    and p: "prep_crash_recovery se (rv_rd_ok re) (kv_dev s) (fifo, kv_seg s) = Some ((fifo', seg), rc)"
    and r: "crash_recovery se E re (s\<lparr>kv_seg := seg\<rparr>) = Some (s', E_OK)"
  shows "kv_abs E s' k
      = map_option (rec_val E (kv_dev s)) (replay (older E (get_seg_ts (sa_md seg)) (kv_dev s)) (rec_key E (kv_dev s)) L k)
    \<and> ((\<forall>a \<in> set L. rec_vs E (kv_dev s) a \<noteq> 0) \<longrightarrow> salsa_kv_safe se env s')"
  using restart_recovers(3,4) [OF ok p r [unfolded E_def]] unfolding E_def L_def by blast

theorem crash_recovery_replays_log_witness:
  "\<exists>fifo seg s'. prep_crash_recovery rx_se (rv_rd_ok rx_re) (kv_dev (rx_kv rx_bytes)) ([], kv_seg (rx_kv rx_bytes)) = Some ((fifo, seg), E_OK)
     \<and> crash_recovery rx_se (salsa_kv_env rx_se rx_env) rx_re ((rx_kv rx_bytes)\<lparr>kv_seg := seg\<rparr>) = Some (s', E_OK)
     \<and> kv_abs (salsa_kv_env rx_se rx_env) s' [1, 2] = Some []"
proof -
  obtain fifo seg s' where
    p: "prep_crash_recovery rx_se (rv_rd_ok rx_re) (kv_dev (rx_kv rx_bytes)) ([], kv_seg (rx_kv rx_bytes)) = Some ((fifo, seg), E_OK)"
    and r: "crash_recovery rx_se (salsa_kv_env rx_se rx_env) rx_re ((rx_kv rx_bytes)\<lparr>kv_seg := seg\<rparr>) = Some (s', E_OK)" "key_nr_m s' = 0"
    by (rule rx_recoverE [OF rx_recover_deleted])
  have "kv_abs (salsa_kv_env rx_se rx_env) s' [1, 2] = Some []"
    using crash_recovery_replays_log [OF rx_restart_deleted p r(1), of "[1, 2]"] by (simp add: rx_tombstone)
  then show ?thesis using p r by blast
qed

text \<open>
  C8: Without relocated records, crash recovery restores the newest value of every key:
  if the records carry the timestamps of their segments, as put and del write them, and
  no two segments have the same timestamp, the contents after the recovery are exactly
  the values of the newest records, whatever the order of the segments on the device.
\<close>

theorem recovered_values_are_newest:
  fixes se env s re
  defines "E \<equiv> salsa_kv_env se env" and "L \<equiv> crash_log se env (rv_rd_ok re) s"
  assumes ok: "restart_ok se env (rv_rd_ok re) s"
    and p: "prep_crash_recovery se (rv_rd_ok re) (kv_dev s) (fifo, kv_seg s) = Some ((fifo', seg), rc)"
    and r: "crash_recovery se E re (s\<lparr>kv_seg := seg\<rparr>) = Some (s', E_OK)"
    and st: "log_stamped se env (rv_rd_ok re) s" "seg_ts_distinct se (rv_rd_ok re) s"
  shows "kv_abs E s' k = Some v \<longleftrightarrow>
    (\<exists>a. newest (older E (get_seg_ts (sa_md seg)) (kv_dev s)) (rec_key E (kv_dev s)) L k a \<and> rec_val E (kv_dev s) a = v)"
proof -
  note rr = restart_recovers [OF ok p r [unfolded E_def], folded E_def L_def]
  show ?thesis unfolding rr(3) map_option_eq_Some replay_newest [OF rr(5) [OF st]] ..
qed

theorem recovered_values_are_newest_witness:
  "\<exists>fifo seg s'. prep_crash_recovery rx_se (rv_rd_ok rx_re) (kv_dev (rx_kv rx_bytes)) ([], kv_seg (rx_kv rx_bytes)) = Some ((fifo, seg), E_OK)
     \<and> crash_recovery rx_se (salsa_kv_env rx_se rx_env) rx_re ((rx_kv rx_bytes)\<lparr>kv_seg := seg\<rparr>) = Some (s', E_OK)
     \<and> kv_abs (salsa_kv_env rx_se rx_env) s' [1, 2] = Some []"
proof -
  obtain fifo seg s' where
    p: "prep_crash_recovery rx_se (rv_rd_ok rx_re) (kv_dev (rx_kv rx_bytes)) ([], kv_seg (rx_kv rx_bytes)) = Some ((fifo, seg), E_OK)"
    and r: "crash_recovery rx_se (salsa_kv_env rx_se rx_env) rx_re ((rx_kv rx_bytes)\<lparr>kv_seg := seg\<rparr>) = Some (s', E_OK)" "key_nr_m s' = 0"
    by (rule rx_recoverE [OF rx_recover_deleted])
  have "kv_abs (salsa_kv_env rx_se rx_env) s' [1, 2] = Some []"
    using recovered_values_are_newest [OF rx_restart_deleted p r(1) rx_stamped, of "[1, 2]" "[]"] rx_tombstone(1,4) by blast
  then show ?thesis using p r by blast
qed



text \<open>
  C12: A segment that was allocated and to which no record was written before the crash
  makes the recovery of the whole store fail: if the metadata of a segment is valid and
  no valid record starts it, crash recovery does not return 0, whatever the other
  segments hold.
\<close>

theorem unwritten_segment_blocks_recovery:
  assumes ok: "restart_ok se env (rv_rd_ok re) s"
    and p: "prep_crash_recovery se (rv_rd_ok re) (kv_dev s) (fifo, kv_seg s) = Some ((fifo', seg), rc)"
    and r: "crash_recovery se (salsa_kv_env se env) re (s\<lparr>kv_seg := seg\<rparr>) = Some (s', rc')"
    and i: "i < length (segs (kv_seg s))" "valid_seg_md se (rv_rd_ok re) (kv_dev s) i (kv_seg s) \<noteq> None"
      "seg_log se env (rv_rd_ok re) s i = []"
  shows "rc' \<noteq> E_OK"
proof
  assume rc': "rc' = E_OK"
  note st = restart_start [OF ok p]
  note same = log_same_md(5) [OF st(4,5), of se env "rv_rd_ok re" i] and v = valid_seg_md_same [OF st(4), of se "rv_rd_ok re" "kv_dev s" i]
  show False using crash_recovery_ok(5) [OF st(1,2) r [unfolded rc'], of i] i st(5) by (simp add: same v)
qed

theorem unwritten_segment_blocks_recovery_witness:
  "\<exists>fifo seg s' rc. prep_crash_recovery rx_se (rv_rd_ok rx_re) (kv_dev (rx_kv rx_unwritten)) ([], kv_seg (rx_kv rx_unwritten)) = Some ((fifo, seg), E_OK)
     \<and> crash_recovery rx_se (salsa_kv_env rx_se rx_env) rx_re ((rx_kv rx_unwritten)\<lparr>kv_seg := seg\<rparr>) = Some (s', rc) \<and> rc \<noteq> E_OK"
proof -
  obtain fifo seg s' where
    p: "prep_crash_recovery rx_se (rv_rd_ok rx_re) (kv_dev (rx_kv rx_unwritten)) ([], kv_seg (rx_kv rx_unwritten)) = Some ((fifo, seg), E_OK)"
    and r: "crash_recovery rx_se (salsa_kv_env rx_se rx_env) rx_re ((rx_kv rx_unwritten)\<lparr>kv_seg := seg\<rparr>) = Some (s', ENOENT)"
    by (rule rx_recoverE [OF rx_recover_unwritten])
  have len: "0 < length (segs (kv_seg (rx_kv rx_unwritten)))" by (simp add: rx_one_segment)
  have v: "valid_seg_md rx_se (rv_rd_ok rx_re) (kv_dev (rx_kv rx_unwritten)) 0 (kv_seg (rx_kv rx_unwritten)) \<noteq> None" by code_simp
  have "ENOENT \<noteq> E_OK" by (rule unwritten_segment_blocks_recovery [OF rx_restart_unwritten p r len v rx_log(2)])
  then show ?thesis using p r by blast
qed

end
