(* ===== verification/Spec2Isabelle.thy ===== *)
theory Spec2Isabelle
  imports Hop_Props Dir_Props KV_Props Salsa_Props Mbuff_Props GC_Props Util_Props MC_Props Net_Props Conf_Props Recover_Props
begin

text \<open>
  \<^bold>\<open>uDepot: a key-value store on a log-structured device\<close>

  uDepot keeps an index of 64-bit hash entries in memory and the records (header, key,
  value, checksum) in segments of a device.  A put writes a record to fresh grains and
  then points the index to it; a del writes a record without value and leaves a
  tombstone in the index; a collector copies the live records of a segment elsewhere and
  frees the segment.  The parts, the theories that model them, and the code they stand
  for (paths under \<^verbatim>\<open>src/\<close>):

  \<^item> \<open>UD_Prelude\<close>, \<open>UD_Util\<close>, \<open>Byte_Enc\<close>: error codes, searches in lists, word arithmetic without
    wrap-around, the helpers of \<^verbatim>\<open>src/include/util/debug.h\<close>, little-endian encodings.
  \<^item> \<open>Hash_Entry\<close>: \<open>HashEntry\<close> of \<^verbatim>\<open>lsa/hash-entry.hh\<close>.  \<open>Hop_Map\<close> translates \<open>uDepotMap\<close>
    (\<^verbatim>\<open>lsa/udepot-map.hh\<close>, \<^verbatim>\<open>.cc\<close>), a hopscotch table whose buckets of 32 slots overlap.
    \<open>Hop_Map_Inv\<close> has its invariant and one lemma per operation, \<open>Hop_Walk\<close> the walk by lookup and
    next, \<open>Hop_Shift\<close> displacement, \<open>Hop_Locks\<close> the lock stripes, \<open>Hop_Props\<close> the properties.
  \<^item> \<open>Dir_Map\<close>, \<open>Dir_Map_Inv\<close>, \<open>Dir_Ops\<close>, \<open>Dir_Copy\<close>, \<open>Dir_Grow\<close>, \<open>Dir_Props\<close>: the directory of tables
    (\<^verbatim>\<open>lsa/udepot-directory-map.hh\<close>, \<^verbatim>\<open>.cc\<close>), how a hash selects a table, and growth, which
    doubles the directory and reinserts every entry.
  \<^item> \<open>KV_Record\<close>, \<open>KV_Store\<close>: the record format and put, get, del and exists of
    \<^verbatim>\<open>udepot-lsa.cc\<close>, with their retry loops.  \<open>KV_Inv\<close> defines the invariant and the abstract map
    of a state, \<open>KV_Lookup\<close>, \<open>KV_Update\<close>, \<open>KV_Put\<close>, \<open>KV_Ops\<close> prove the operations against it.
    \<open>KV_Put\<close> declares the locale \<open>grain_alloc\<close>: what the store needs of the segment manager.
  \<^item> \<open>Seg_MD\<close>: segment and device metadata (\<^verbatim>\<open>lsa/metadata.cc\<close>).  \<open>Salsa_Alloc\<close>: the allocators of
    \<open>SalsaCtlr\<close> (\<^verbatim>\<open>allocator.c\<close>, \<^verbatim>\<open>SalsaCtlr.cc\<close>, \<^verbatim>\<open>Scm.cc\<close>, \<^verbatim>\<open>scm-seg-alloc.c\<close>).  \<open>Salsa_Inv\<close> says
    which grains are in use and that no segment is in two places; \<open>Salsa_Grains\<close>, \<open>Salsa_Props\<close>
    prove that grains are handed out once.
  \<^item> \<open>KV_Salsa\<close>: the store on that allocator; it interprets \<open>grain_alloc\<close> on the operations of
    \<open>Salsa_Alloc\<close>.  \<open>KV_Run\<close>, \<open>KV_Props\<close>: sequences of operations against a finite map.
  \<^item> \<open>KV_GC\<close>, \<open>KV_GC_Inv\<close>, \<open>KV_GC_Walk\<close>: the relocation callback of \<^verbatim>\<open>udepot-lsa.cc\<close>, proved inside
    \<open>grain_alloc\<close>.  \<open>Salsa_GC\<close>, \<open>GC_Props\<close>: the circular and the greedy collector of
    \<^verbatim>\<open>gc-base.c\<close> around it, with a second interpretation for the relocation stream.
  \<^item> \<open>Mbuff\<close>, \<open>Mbuff_Inv\<close>, \<open>Mbuff_Write\<close>, \<open>Mbuff_Read\<close>: buffer chains (\<^verbatim>\<open>mbuff.hh\<close>, \<^verbatim>\<open>mbuff.cc\<close>), with
    locales for the callbacks that fill and prepend chunks.  \<open>KV_Mbuff\<close>, \<open>Mbuff_Props\<close>: the record that
    put builds in an Mbuff and the comparison of keys are those of the byte-level model.
  \<^item> \<open>MC_Str\<close>, \<open>MC_Parse\<close>, \<open>MC_Conn\<close>, \<open>MC_Cmd\<close>: the memcache server (\<^verbatim>\<open>net/mc-helpers.cc\<close>, \<^verbatim>\<open>connection.cc\<close>,
    \<^verbatim>\<open>memcache.cc\<close>): numbers in text, the parser on its buffer, connections that deliver and accept
    bytes in pieces, and the handlers of the commands.  \<open>MC_Tok\<close>, \<open>MC_Read\<close>, \<open>MC_Line\<close>, \<open>MC_Type\<close> prove the
    parser against printed lines, \<open>MC_Serve\<close> the handlers.  \<open>MC_Store\<close> declares the locale \<open>kv_service\<close>, what
    the handlers need of a store, and interprets it on the store of \<open>KV_Salsa\<close>; \<open>MC_Props\<close> has the
    properties that a client observes.
  \<^item> \<open>Net_Wire\<close>, \<open>Net_Conn\<close>, \<open>Net_Serve\<close>, \<open>Net_Client\<close>: the binary protocol (\<^verbatim>\<open>kv-wire.hh\<close>), sending and
    receiving Mbuffs (\<open>Mbuff_Alloc\<close> has their allocation), the server (\<^verbatim>\<open>net/serve-kv-request.cc\<close>) and the
    client (\<^verbatim>\<open>net/socket.cc\<close>).  \<open>Net_Store\<close> declares the locale \<open>net_store\<close>, what client and server need of a
    store, and interprets it on the store of \<open>KV_Salsa\<close>.  \<open>Net_Shard\<close>: addresses of peers, the table that
    distributes the keys (\<^verbatim>\<open>net.cc\<close>) and the operations that consult it.  \<open>Net_Props\<close>: a put and a
    get over the network, bad messages, and where the keys of a node go.
  \<^item> \<open>KV_Conf\<close>, \<open>Conf_Props\<close>: the command line and the sanitizing of its values (\<^verbatim>\<open>kv-conf.cc\<close>).
  \<^item> \<open>Salsa_Restore\<close>, \<open>KV_Recover\<close>: crash recovery, first of the segments (\<open>prep_crash_recovery\<close> of
    \<^verbatim>\<open>lsa/udepot-directory-map.cc\<close>, \<open>restore_grain_range\<close> of \<^verbatim>\<open>Scm.cc\<close>), then of the index (\<open>crash_recovery\<close>,
    \<open>try_restore_entry\<close> of \<^verbatim>\<open>udepot-lsa.cc\<close>).  \<open>KV_Replay\<close> specifies the replay of a list of records and proves
    one step of it, \<open>KV_Log\<close> defines the records that a device holds and proves the loops over them,
    \<open>Recover_Example\<close> runs a recovery, and \<open>Recover_Props\<close> has the properties: which values come back,
    and two logs that the code does not recover.

  \<^bold>\<open>Conventions.\<close>  Integers are words of the source's width; pointers into arrays are indices; an
  error code is a value of \<open>errno\<close>.  What the surroundings decide (I/O results, free memory,
  random and uninitialised bytes, time) are fields of environment records, functions of a
  counter of events where they change over time, so every theorem holds for all of their
  behaviours.  A device is a function from byte offsets to bytes.  Operations run one
  at a time; where the code drops its locks and looks again, the model does both steps.  Hash
  functions and checksums are parameters without assumptions.

  \<^bold>\<open>Termination.\<close>  Loops over a bucket or a list are structural or have a measure.  The retry
  loops of put and del and the walk of the collector are \<open>partial_function (option)\<close>, where \<open>None\<close>
  means that the loop does not end or the program fails an assertion or reads out of
  bounds; that get, put of a new key and the collector return is proved.  The only fuel is
  the 33 rounds of a lookup, the length of the array the code records visited entries in.

  \<^bold>\<open>Not modelled.\<close>  Start-up and the restore of a directory saved at shutdown, because they rest on the memory
  maps of a previous run; the capacity manager's set-up and its other collectors; the listening sockets, event loops
  and threads of the network servers; the I/O backends, the task runtime, the page-fault locks and the bindings, which are system calls and
  scheduling; vendored hash functions; tests and benchmarks.
\<close>

end
